(* ===== verification/Prelude.thy ===== *)
theory Prelude
  imports Main "HOL-Library.Word" "HOL-Library.List_Lexorder" "HOL-Library.Monad_Syntax"
begin

unbundle bit_operations_syntax

text \<open>
  Shared vocabulary of the development. C++ \<open>char\<close>, \<open>uint8_t\<close> and the characters of a
  \<open>std::string\<close> are 8-bit words, so a string or a byte buffer is a list of bytes; the 32-bit
  and 64-bit integers of the program are words of that width, signed or unsigned by the operation
  applied to them. The theory holds the little-endian integer layout that the database format
  uses everywhere, with its round-trip laws, and list lemmas that several components share.
\<close>

type_synonym byte = "8 word"
type_synonym bytes = "byte list"
type_synonym u16 = "16 word"
type_synonym u32 = "32 word"
type_synonym u64 = "64 word"

named_theorems codec_simps \<open>lengths, takes and drops of encoded fields\<close>

section \<open>String literals\<close>

definition str :: "string \<Rightarrow> bytes" where
  "str s = map of_char s"

abbreviation slash :: byte where "slash \<equiv> 47"
abbreviation nul :: byte where "nul \<equiv> 0"

section \<open>Little-endian integers\<close>

text \<open>The loops \<open>dst.push_back((v >> (8 * i)) & 0xff)\<close> and \<open>v |= byte << (8 * i)\<close>.\<close>

definition put_le :: "nat \<Rightarrow> 'a::len word \<Rightarrow> bytes" where
  "put_le n v = map (\<lambda>i. ucast (drop_bit (8 * i) v AND 0xff)) [0..<n]"

definition get_le :: "nat \<Rightarrow> bytes \<Rightarrow> 'a::len word" where
  "get_le n bs = fold (\<lambda>i v. v OR push_bit (8 * i) (ucast (bs ! i))) [0..<n] 0"

lemma length_put_le [simp, codec_simps]: "length (put_le n v) = n"
  by (simp add: put_le_def)

lemma bit_nth_put_le:
  assumes "i < n"
  shows "bit (put_le n v ! i) k \<longleftrightarrow> k < 8 \<and> bit v (8 * i + k)"
proof -
  have "bit (0xff :: 'a word) k" if "k < 8" "k < LENGTH('a)" for k
  proof -
    have "(0xff :: 'a word) = mask 8"
      by (simp add: mask_eq_exp_minus_1)
    then have "bit (0xff :: 'a word) k = bit (mask 8 :: 'a word) k"
      by (rule arg_cong)
    with that show ?thesis by (simp only: bit_mask_iff) simp
  qed
  with assms show ?thesis
    by (auto simp add: put_le_def bit_ucast_iff bit_and_iff bit_drop_bit_eq
        dest: bit_imp_le_length)
qed

lemma bit_get_le:
  "bit (get_le n bs :: 'a::len word) k \<longleftrightarrow>
     k < LENGTH('a) \<and> k div 8 < n \<and> bit (bs ! (k div 8)) (k mod 8)"
proof (induction n)
  case 0
  then show ?case by (simp add: get_le_def)
next
  case (Suc n)
  have step: "(get_le (Suc n) bs :: 'a word) = get_le n bs OR push_bit (8 * n) (ucast (bs ! n))"
    by (simp add: get_le_def)
  have last: "bit (push_bit (8 * n) (ucast (bs ! n)) :: 'a word) k \<longleftrightarrow>
      k < LENGTH('a) \<and> k div 8 = n \<and> bit (bs ! n) (k mod 8)"
  proof (cases "8 * n \<le> k \<and> k < 8 * n + 8")
    case True
    then have d: "k div 8 = n"
      by auto
    moreover from d have "k mod 8 = k - 8 * n"
      by (simp add: minus_div_mult_eq_mod [symmetric] mult.commute)
    ultimately have "k div 8 = n" and "k mod 8 = k - 8 * n"
      by simp_all
    with True show ?thesis
      by (auto simp add: bit_push_bit_iff bit_ucast_iff)
  next
    case False
    then have "k div 8 \<noteq> n" by auto
    moreover from False have "\<not> (8 * n \<le> k \<and> bit (bs ! n) (k - 8 * n))"
      by (auto dest: bit_imp_le_length)
    ultimately show ?thesis
      by (auto simp add: bit_push_bit_iff bit_ucast_iff)
  qed
  show ?case
    unfolding step bit_or_iff Suc.IH last by (auto simp add: less_Suc_eq)
qed

lemma get_le_put_le [simp]:
  fixes v :: "'a::len word"
  assumes "LENGTH('a) \<le> 8 * n"
  shows "get_le n (put_le n v @ rest) = v"
proof (rule bit_word_eqI)
  fix k assume k: "k < LENGTH('a)"
  with assms have d: "k div 8 < n" by simp
  then have "(put_le n v @ rest) ! (k div 8) = put_le n v ! (k div 8)"
    by (simp add: nth_append)
  with d show "bit (get_le n (put_le n v @ rest) :: 'a word) k = bit v k"
    using k by (simp add: bit_get_le bit_nth_put_le)
qed

lemma put_le_get_le [simp]:
  assumes "n \<le> length bs" and "8 * n \<le> LENGTH('a::len)"
  shows "put_le n (get_le n bs :: 'a word) = take n bs"
proof (rule nth_equalityI)
  show "length (put_le n (get_le n bs :: 'a word)) = length (take n bs)"
    using assms(1) by simp
next
  fix i assume "i < length (put_le n (get_le n bs :: 'a word))"
  then have i: "i < n" by simp
  show "put_le n (get_le n bs :: 'a word) ! i = take n bs ! i"
  proof (rule bit_word_eqI)
    fix k assume "k < LENGTH(8)"
    then have k: "k < 8" by simp
    then have "(8 * i + k) div 8 = i" "(8 * i + k) mod 8 = k" "8 * i + k < LENGTH('a)"
      using i assms(2) by auto
    with i k show "bit (put_le n (get_le n bs :: 'a word) ! i) k = bit (take n bs ! i) k"
      by (simp add: bit_nth_put_le bit_get_le)
  qed
qed

lemma get_le_cong:
  assumes "\<And>i. i < n \<Longrightarrow> bs ! i = cs ! i"
  shows "get_le n bs = get_le n cs"
  by (rule bit_word_eqI) (auto simp add: bit_get_le assms)

section \<open>Words as numbers\<close>

lemma unat_less_pow: "unat (w :: 'a::len word) < 2 ^ LENGTH('a)"
  by (rule unsigned_less)

lemma unat_u8_less: "unat (w :: byte) < 256"
  using unat_less_pow [of w] by simp

lemma unat_u32_less: "unat (w :: u32) < 4294967296"
  using unat_less_pow [of w] by simp

lemma unat_u64_less: "unat (w :: u64) < 18446744073709551616"
  using unat_less_pow [of w] by simp

lemma unat_of_nat_small: "n < 2 ^ LENGTH('a) \<Longrightarrow> unat (of_nat n :: 'a::len word) = n"
  by (simp add: unsigned_of_nat take_bit_nat_eq_self)

section \<open>Lists\<close>

lemma take_append_exact [codec_simps]: "n = length xs \<Longrightarrow> take n (xs @ ys) = xs"
  by simp

lemma drop_append_exact [codec_simps]: "n = length xs \<Longrightarrow> drop n (xs @ ys) = ys"
  by simp

end
