(* ===== verification/Metadata.thy ===== *)
theory Metadata
  imports Prelude
begin

text \<open>
  The data model of \<open>include/metadata.h\<close>: time stamps, digests, per-file metadata, file
  records and history events, with their comparisons. An enumeration with an underlying
  \<open>uint8_t\<close> may hold any byte (the decoder casts what it reads), so each has a constructor
  for the bytes that name no enumerator.
\<close>

section \<open>Time stamps\<close>

record dir_time =
  sec :: u64
  nsec :: u32

definition dir_time_less :: "dir_time \<Rightarrow> dir_time \<Rightarrow> bool" where
  "dir_time_less a b =
     (if sec a \<noteq> sec b then sec a <s sec b else nsec a <s nsec b)"

definition dir_time_ge :: "dir_time \<Rightarrow> dir_time \<Rightarrow> bool" where
  "dir_time_ge a b = (\<not> dir_time_less a b)"

definition unknown_dir_time :: dir_time where
  "unknown_dir_time = \<lparr>sec = 0, nsec = 0\<rparr>"

definition not_a_dir :: dir_time where
  "not_a_dir = \<lparr>sec = - 1, nsec = 0\<rparr>"

definition dir_time_equals :: "dir_time \<Rightarrow> dir_time \<Rightarrow> bool" where
  "dir_time_equals a b = (sec a = sec b \<and> nsec a = nsec b)"

section \<open>Digests\<close>

datatype hash_kind = HashNone | Sha256 | XxHash64 | UnnamedHashKind byte

fun hash_kind_byte :: "hash_kind \<Rightarrow> byte" where
  "hash_kind_byte HashNone = 0"
| "hash_kind_byte Sha256 = 1"
| "hash_kind_byte XxHash64 = 2"
| "hash_kind_byte (UnnamedHashKind b) = b"

definition hash_kind_of_byte :: "byte \<Rightarrow> hash_kind" where
  "hash_kind_of_byte b =
     (if b = 0 then HashNone else if b = 1 then Sha256 else if b = 2 then XxHash64
      else UnnamedHashKind b)"

record metadata_hash =
  kind :: hash_kind
  hvalue :: bytes
  hlength :: nat

definition no_hash :: metadata_hash where
  "no_hash = \<lparr>kind = HashNone, hvalue = replicate 32 0, hlength = 0\<rparr>"

definition hash_equals :: "metadata_hash \<Rightarrow> metadata_hash \<Rightarrow> bool" where
  "hash_equals a b =
     (kind a = kind b \<and> hlength a = hlength b \<and>
      take (hlength a) (hvalue a) = take (hlength a) (hvalue b))"

section \<open>Metadata, records and events\<close>

record file_metadata =
  enabled :: bool
  mode :: u32
  uid :: u32
  gid :: u32
  fsize :: u64
  mtime :: dir_time
  ctime :: dir_time
  atime :: dir_time
  hash :: metadata_hash

definition no_metadata :: file_metadata where
  "no_metadata =
     \<lparr>enabled = False, mode = 0, uid = 0, gid = 0, fsize = 0, mtime = unknown_dir_time,
      ctime = unknown_dir_time, atime = unknown_dir_time, hash = no_hash\<rparr>"

record file_record =
  rpath :: bytes
  dir_timestamp :: dir_time
  rmetadata :: file_metadata

datatype event_kind = Added | Removed | Modified | RunMarker | UnnamedEventKind byte

fun event_kind_byte :: "event_kind \<Rightarrow> byte" where
  "event_kind_byte Added = 0"
| "event_kind_byte Removed = 1"
| "event_kind_byte Modified = 2"
| "event_kind_byte RunMarker = 3"
| "event_kind_byte (UnnamedEventKind b) = b"

definition event_kind_of_byte :: "byte \<Rightarrow> event_kind" where
  "event_kind_of_byte b =
     (if b = 0 then Added else if b = 1 then Removed else if b = 2 then Modified
      else if b = 3 then RunMarker else UnnamedEventKind b)"

record history_event =
  ekind :: event_kind
  epath :: bytes
  event_time :: dir_time
  old_metadata :: file_metadata
  new_metadata :: file_metadata

definition empty_event :: history_event where
  "empty_event =
     \<lparr>ekind = Added, epath = [], event_time = unknown_dir_time,
      old_metadata = no_metadata, new_metadata = no_metadata\<rparr>"

section \<open>Comparison\<close>

definition metadata_equals :: "file_metadata \<Rightarrow> file_metadata \<Rightarrow> bool \<Rightarrow> bool" where
  "metadata_equals a b compare_atime =
     (if enabled a \<noteq> enabled b then False
      else if \<not> enabled a then True
      else if compare_atime \<and> \<not> dir_time_equals (atime a) (atime b) then False
      else mode a = mode b \<and> uid a = uid b \<and> gid a = gid b \<and> fsize a = fsize b \<and>
           dir_time_equals (mtime a) (mtime b) \<and> dir_time_equals (ctime a) (ctime b) \<and>
           hash_equals (hash a) (hash b))"

definition add_field :: "bool \<Rightarrow> string \<Rightarrow> bytes \<Rightarrow> bytes" where
  "add_field c name out =
     (if c then (if out \<noteq> [] then out @ str '','' else out) @ str name else out)"

definition metadata_diff_fields :: "file_metadata \<Rightarrow> file_metadata \<Rightarrow> bytes" where
  "metadata_diff_fields a b =
     (if enabled a \<noteq> enabled b then
        add_field True (if enabled a then ''metadata-lost'' else ''metadata-gained'') []
      else if \<not> enabled a then []
      else
        (add_field (\<not> hash_equals (hash a) (hash b)) ''hash'' \<circ>
         add_field (\<not> dir_time_equals (atime a) (atime b)) ''atime'' \<circ>
         add_field (\<not> dir_time_equals (ctime a) (ctime b)) ''ctime'' \<circ>
         add_field (\<not> dir_time_equals (mtime a) (mtime b)) ''mtime'' \<circ>
         add_field (fsize a \<noteq> fsize b) ''size'' \<circ>
         add_field (gid a \<noteq> gid b) ''gid'' \<circ>
         add_field (uid a \<noteq> uid b) ''uid'' \<circ>
         add_field (mode a \<noteq> mode b) ''mode'') [])"

section \<open>Well-formed values\<close>

text \<open>
  The representation invariant of the two records: the digest array has its 32 bytes, the
  length fits it, and a record without metadata is the default one.
\<close>

definition wf_hash :: "metadata_hash \<Rightarrow> bool" where
  "wf_hash h \<longleftrightarrow>
     length (hvalue h) = 32 \<and> hlength h \<le> 32 \<and>
     drop (hlength h) (hvalue h) = replicate (32 - hlength h) 0 \<and>
     hash_kind_of_byte (hash_kind_byte (kind h)) = kind h"

definition wf_metadata :: "file_metadata \<Rightarrow> bool" where
  "wf_metadata m \<longleftrightarrow> wf_hash (hash m) \<and> (\<not> enabled m \<longrightarrow> m = no_metadata)"

definition wf_event :: "history_event \<Rightarrow> bool" where
  "wf_event e \<longleftrightarrow>
     event_kind_of_byte (event_kind_byte (ekind e)) = ekind e \<and> length (epath e) < 2 ^ 32 \<and>
     wf_metadata (old_metadata e) \<and> wf_metadata (new_metadata e)"

lemma hash_kind_byte_of_byte [simp]: "hash_kind_byte (hash_kind_of_byte b) = b"
  by (simp add: hash_kind_of_byte_def)

lemma event_kind_byte_of_byte [simp]: "event_kind_byte (event_kind_of_byte b) = b"
  by (simp add: event_kind_of_byte_def)

lemma wf_no_hash [simp]: "wf_hash no_hash"
  by (simp add: wf_hash_def no_hash_def hash_kind_of_byte_def)

lemma wf_no_metadata [simp]: "wf_metadata no_metadata"
  by (simp add: wf_metadata_def no_metadata_def)

lemma enabled_no_metadata [simp]: "\<not> enabled no_metadata"
  by (simp add: no_metadata_def)

section \<open>The comparisons\<close>

lemma dir_time_equals_iff [simp]: "dir_time_equals a b \<longleftrightarrow> a = b"
  by (cases a; cases b) (auto simp add: dir_time_equals_def)

lemma hash_equals_refl [simp]: "hash_equals h h"
  by (simp add: hash_equals_def)

lemma hash_equals_sym: "hash_equals a b \<Longrightarrow> hash_equals b a"
  by (auto simp add: hash_equals_def)

lemma hash_equals_trans: "hash_equals a b \<Longrightarrow> hash_equals b c \<Longrightarrow> hash_equals a c"
  by (auto simp add: hash_equals_def)

lemma hash_equals_wf: "wf_hash a \<Longrightarrow> wf_hash b \<Longrightarrow> hash_equals a b \<longleftrightarrow> a = b"
  by (cases a; cases b)
    (auto simp add: wf_hash_def hash_equals_def, metis append_take_drop_id)

lemma metadata_equals_refl [simp]: "metadata_equals m m c"
  by (simp add: metadata_equals_def)

lemma metadata_equals_sym: "metadata_equals a b c \<Longrightarrow> metadata_equals b a c"
  by (auto simp add: metadata_equals_def hash_equals_sym split: if_splits)

lemma metadata_equals_trans:
  "metadata_equals x y c \<Longrightarrow> metadata_equals y z c \<Longrightarrow> metadata_equals x z c"
  by (auto simp add: metadata_equals_def split: if_splits intro: hash_equals_trans)

lemma metadata_equals_atime: "metadata_equals a b True \<Longrightarrow> metadata_equals a b c"
  by (auto simp add: metadata_equals_def split: if_splits)

lemma metadata_equals_wf:
  assumes "wf_metadata a" and "wf_metadata b"
  shows "metadata_equals a b True \<longleftrightarrow> a = b"
proof (cases "enabled a \<and> enabled b")
  case True
  with assms show ?thesis
    by (cases a; cases b) (auto simp add: metadata_equals_def wf_metadata_def hash_equals_wf)
next
  case False
  with assms show ?thesis
    by (auto simp add: metadata_equals_def wf_metadata_def)
qed

lemma add_field_simps [simp]:
  "add_field False name out = out"
  "str name \<noteq> [] \<Longrightarrow> add_field True name out \<noteq> []"
  "add_field True name [] = str name"
  by (simp_all add: add_field_def)

lemma str_eq_Nil [simp]: "str s = [] \<longleftrightarrow> s = []"
  by (simp add: str_def)

lemma add_field_eq_Nil: "name \<noteq> [] \<Longrightarrow> add_field c name out = [] \<longleftrightarrow> \<not> c \<and> out = []"
  by (simp add: add_field_def)

end
