(* ===== verification/Stream_Codec.thy ===== *)
theory Stream_Codec
  imports Prelude
begin

text \<open>
  The contract of a self-delimiting record format. The database keeps two streams of
  concatenated records (metadata records and history events); each is read by a loop that
  decodes one record after another until a record is incomplete. The locale states what one
  record's encoder and decoder promise, and derives what the loop does with a whole stream and
  with a stream that was cut off.
\<close>

locale stream_codec =
  fixes enc :: "'a \<Rightarrow> bytes"
    and dec :: "bytes \<Rightarrow> ('a \<times> bytes) option"
    and wf :: "'a \<Rightarrow> bool"
    and dec_all :: "bytes \<Rightarrow> 'a list"
  assumes dec_enc: "wf a \<Longrightarrow> dec (enc a @ rest) = Some (a, rest)"
    and dec_append: "dec p = Some (a, rest) \<Longrightarrow> dec (p @ x) = Some (a, rest @ x)"
    and dec_shorter: "dec p = Some (a, rest) \<Longrightarrow> length rest < length p"
    and dec_wf: "dec p = Some (a, rest) \<Longrightarrow> wf a"
    and dec_Nil: "dec [] = None"
    and dec_all_eq:
      "dec_all p = (case dec p of None \<Rightarrow> [] | Some (a, rest) \<Rightarrow> a # dec_all rest)"
begin

lemma dec_strict_prefix:
  assumes "dec (p @ x) = Some (a, [])" and "x \<noteq> []"
  shows "dec p = None"
proof (rule ccontr)
  assume "dec p \<noteq> None"
  then obtain a' rest where "dec p = Some (a', rest)" by auto
  then have "dec (p @ x) = Some (a', rest @ x)" by (rule dec_append)
  with assms show False by simp
qed

lemma dec_cut_record: "wf a \<Longrightarrow> k < length (enc a) \<Longrightarrow> dec (take k (enc a)) = None"
  using dec_enc [of a "[]"] by (intro dec_strict_prefix [of _ "drop k (enc a)" a]) auto

lemma dec_all_None: "dec p = None \<Longrightarrow> dec_all p = []"
  by (subst dec_all_eq) simp

lemma dec_all_Some: "dec p = Some (a, rest) \<Longrightarrow> dec_all p = a # dec_all rest"
  by (subst dec_all_eq) simp

lemma dec_all_concat:
  assumes "\<And>a. a \<in> set as \<Longrightarrow> wf a" and "dec rest = None"
  shows "dec_all (concat (map enc as) @ rest) = as"
  using assms(1)
proof (induction as)
  case Nil
  then show ?case using assms(2) by (simp add: dec_all_None)
next
  case (Cons a as)
  then show ?case using dec_all_Some [OF dec_enc [of a]] by simp
qed

lemma dec_all_wf: "a \<in> set (dec_all p) \<Longrightarrow> wf a"
proof (induction "length p" arbitrary: p rule: less_induct)
  case less
  show ?case
  proof (cases "dec p")
    case None
    with less.prems show ?thesis by (simp add: dec_all_None)
  next
    case (Some r)
    then obtain b rest where r: "dec p = Some (b, rest)" by (cases r) auto
    with less.prems have "a = b \<or> a \<in> set (dec_all rest)"
      by (simp add: dec_all_Some)
    with less.hyps [OF dec_shorter [OF r]] dec_wf [OF r] show ?thesis by auto
  qed
qed

text \<open>A stream cut off after \<open>k\<close> bytes gives exactly the records that lie before the cut.\<close>

lemma dec_all_cut:
  assumes "\<And>a. a \<in> set as \<Longrightarrow> wf a"
  shows "\<exists>n \<le> length as. dec_all (take k (concat (map enc as))) = take n as \<and>
    length (concat (map enc (take n as))) \<le> k \<and>
    (n < length as \<longrightarrow> k < length (concat (map enc (take (Suc n) as))))"
  using assms
proof (induction as arbitrary: k)
  case Nil
  then show ?case by (simp add: dec_all_None dec_Nil)
next
  case (Cons a as)
  show ?case
  proof (cases "length (enc a) \<le> k")
    case True
    define k' where "k' = k - length (enc a)"
    obtain n where n: "n \<le> length as" "dec_all (take k' (concat (map enc as))) = take n as"
      "length (concat (map enc (take n as))) \<le> k'"
      "n < length as \<longrightarrow> k' < length (concat (map enc (take (Suc n) as)))"
      using Cons.IH [of k'] Cons.prems by auto
    have "dec_all (enc a @ take k' (concat (map enc as))) = a # take n as"
      using n(2) dec_all_Some [OF dec_enc [of a]] Cons.prems by simp
    with n True show ?thesis by (intro exI [of _ "Suc n"]) (auto simp add: k'_def)
  next
    case False
    with Cons.prems have "dec_all (take k (enc a)) = []"
      by (intro dec_all_None dec_cut_record) auto
    with False show ?thesis by (intro exI [of _ 0]) simp
  qed
qed

end

end
