(* ===== verification/Metadata_Codec.thy ===== *)
theory Metadata_Codec
  imports Metadata Stream_Codec
begin

text \<open>
  \<open>src/metadata_codec.cpp\<close>: the serialised form of metadata records and history events. A
  pointer pair \<open>ptr, end\<close> of the code is the list of the bytes from \<open>ptr\<close> up to \<open>end\<close>; a
  reader that advances \<open>ptr\<close> returns the value and the remaining bytes, and a decoder that can
  report failure returns an option.
\<close>

section \<open>Field writers and readers\<close>

definition put_u8 :: "bytes \<Rightarrow> byte \<Rightarrow> bytes" where
  "put_u8 dst v = dst @ [v]"

definition put_u32 :: "bytes \<Rightarrow> u32 \<Rightarrow> bytes" where
  "put_u32 dst v = dst @ put_le 4 v"

definition put_u64 :: "bytes \<Rightarrow> u64 \<Rightarrow> bytes" where
  "put_u64 dst v = dst @ put_le 8 v"

definition put_time :: "bytes \<Rightarrow> dir_time \<Rightarrow> bytes" where
  "put_time dst t = put_u32 (put_u64 dst (sec t)) (nsec t)"

definition get_u8 :: "bytes \<Rightarrow> byte \<times> bytes" where
  "get_u8 p = (hd p, drop 1 p)"

definition get_u32 :: "bytes \<Rightarrow> u32 \<times> bytes" where
  "get_u32 p = (get_le 4 p, drop 4 p)"

definition get_u64 :: "bytes \<Rightarrow> u64 \<times> bytes" where
  "get_u64 p = (get_le 8 p, drop 8 p)"

definition get_time :: "bytes \<Rightarrow> dir_time \<times> bytes" where
  "get_time p =
     (let (s, p) = get_u64 p; (n, p) = get_u32 p in (\<lparr>sec = s, nsec = n\<rparr>, p))"

section \<open>Metadata records\<close>

definition METADATA_RECORD_FIXED_BYTES :: nat where
  "METADATA_RECORD_FIXED_BYTES = 4 + 4 + 4 + 8 + 3 * (8 + 4)"

definition encode_metadata_record :: "bytes \<Rightarrow> file_metadata \<Rightarrow> bytes" where
  "encode_metadata_record dst m =
     (if \<not> enabled m then put_u8 dst 0
      else
        let dst = put_u8 dst 1;
            dst = put_u32 dst (mode m);
            dst = put_u32 dst (uid m);
            dst = put_u32 dst (gid m);
            dst = put_u64 dst (fsize m);
            dst = put_time dst (mtime m);
            dst = put_time dst (ctime m);
            dst = put_time dst (atime m);
            hash_len = min (hlength (hash m)) (length (hvalue (hash m)));
            dst = put_u8 dst (hash_kind_byte (kind (hash m)));
            dst = put_u8 dst (of_nat hash_len)
        in dst @ take hash_len (hvalue (hash m)))"

definition metadata_record_size :: "bytes \<Rightarrow> nat" where
  "metadata_record_size p =
     (if p = [] then 0
      else if hd p = 0 then 1
      else
        let up_to_hash_len = 1 + METADATA_RECORD_FIXED_BYTES + 2 in
        if length p < up_to_hash_len then 0
        else
          let hash_len = p ! (up_to_hash_len - 1);
              total = up_to_hash_len + unat hash_len
          in if total \<le> length p then total else 0)"

definition decode_metadata_record :: "bytes \<Rightarrow> (file_metadata \<times> bytes) option" where
  "decode_metadata_record ptr =
     (let size = metadata_record_size ptr in
      if size = 0 then None
      else
        let (flag, p) = get_u8 ptr in
        if flag = 0 then Some (no_metadata, p)
        else
          let (mo, p) = get_u32 p;
              (u, p) = get_u32 p;
              (g, p) = get_u32 p;
              (sz, p) = get_u64 p;
              (mt, p) = get_time p;
              (ct, p) = get_time p;
              (at, p) = get_time p;
              (hk, p) = get_u8 p;
              (hash_len, p) = get_u8 p;
              len = min (unat hash_len) (length (hvalue no_hash));
              h = \<lparr>kind = hash_kind_of_byte hk,
                   hvalue = take len p @ drop len (hvalue no_hash),
                   hlength = len\<rparr>
          in Some (\<lparr>enabled = True, mode = mo, uid = u, gid = g, fsize = sz, mtime = mt,
                    ctime = ct, atime = at, hash = h\<rparr>, drop size ptr))"

section \<open>History streams\<close>

definition encode_event :: "bytes \<Rightarrow> history_event \<Rightarrow> bytes" where
  "encode_event buf e =
     (let buf = put_u8 buf (event_kind_byte (ekind e));
          buf = put_time buf (event_time e);
          buf = put_u32 buf (of_nat (length (epath e)));
          buf = buf @ epath e;
          buf = encode_metadata_record buf (old_metadata e)
      in encode_metadata_record buf (new_metadata e))"

definition encode_history_stream :: "history_event list \<Rightarrow> bytes" where
  "encode_history_stream events = foldl encode_event [] events"

text \<open>One round of the decoding loop; None is the \<open>break\<close> or the end of the loop.\<close>

definition decode_event :: "bytes \<Rightarrow> (history_event \<times> bytes) option" where
  "decode_event ptr =
     (if length ptr < 1 + 8 + 4 + 4 then None
      else
        let (k, ptr) = get_u8 ptr;
            (t, ptr) = get_time ptr;
            (path_len, ptr) = get_u32 ptr
        in
        if length ptr < unat path_len then None
        else
          let path = take (unat path_len) ptr;
              ptr = drop (unat path_len) ptr
          in
          case decode_metadata_record ptr of
            None \<Rightarrow> None
          | Some (old, ptr) \<Rightarrow>
              (case decode_metadata_record ptr of
                 None \<Rightarrow> None
               | Some (new, ptr) \<Rightarrow>
                   Some (\<lparr>ekind = event_kind_of_byte k, epath = path, event_time = t,
                          old_metadata = old, new_metadata = new\<rparr>, ptr)))"

lemma decode_metadata_record_shorter:
  "decode_metadata_record ptr = Some (m, rest) \<Longrightarrow> length rest < length ptr"
  by (auto simp add: decode_metadata_record_def metadata_record_size_def Let_def get_u8_def
      split: if_splits prod.splits)

lemma decode_event_shorter:
  assumes "decode_event ptr = Some (e, rest)"
  shows "length rest < length ptr"
  using assms
  by (auto simp add: decode_event_def Let_def get_u8_def get_time_def get_u64_def get_u32_def
      split: if_splits option.splits dest!: decode_metadata_record_shorter)

function decode_events :: "bytes \<Rightarrow> history_event list" where
  "decode_events ptr =
     (case decode_event ptr of
        None \<Rightarrow> []
      | Some (e, rest) \<Rightarrow> e # decode_events rest)"
  by pat_completeness auto
termination
  by (relation "measure length") (auto dest: decode_event_shorter)

declare decode_events.simps [simp del]

definition decode_history_stream :: "bytes \<Rightarrow> history_event list" where
  "decode_history_stream data =
     (let events = decode_events data in
      if events \<noteq> [] \<and> ekind (hd events) \<noteq> RunMarker then
        empty_event\<lparr>ekind := RunMarker, event_time := event_time (hd events)\<rparr> # events
      else events)"

section \<open>Layout of a record\<close>

text \<open>The bytes before the digest: flag, four integers, three time stamps.\<close>

definition record_prefix :: "file_metadata \<Rightarrow> bytes" where
  "record_prefix m =
     1 # put_le 4 (mode m) @ put_le 4 (uid m) @ put_le 4 (gid m) @ put_le 8 (fsize m) @
     put_time [] (mtime m) @ put_time [] (ctime m) @ put_time [] (atime m)"

lemma put_time_append: "put_time dst t = dst @ put_le 8 (sec t) @ put_le 4 (nsec t)"
  by (simp add: put_time_def put_u64_def put_u32_def)

lemma length_record_prefix [simp]: "length (record_prefix m) = 57"
  by (simp add: record_prefix_def put_time_append)

lemma encode_metadata_record_append:
  "encode_metadata_record dst m = dst @ encode_metadata_record [] m"
  by (simp add: encode_metadata_record_def Let_def put_u8_def put_u32_def put_u64_def
      put_time_append)

lemma encode_metadata_record_enabled:
  assumes "enabled m" and "wf_metadata m"
  shows "encode_metadata_record [] m =
    record_prefix m @ [hash_kind_byte (kind (hash m)), of_nat (hlength (hash m))] @
    take (hlength (hash m)) (hvalue (hash m))"
  using assms
  by (simp add: encode_metadata_record_def Let_def put_u8_def put_u32_def put_u64_def
      put_time_append record_prefix_def wf_metadata_def wf_hash_def min_absorb1)

lemma encode_metadata_record_disabled [simp]:
  "\<not> enabled m \<Longrightarrow> encode_metadata_record [] m = [0]"
  by (simp add: encode_metadata_record_def put_u8_def)

lemma encode_metadata_record_not_Nil [simp]: "encode_metadata_record [] m \<noteq> []"
  by (simp add: encode_metadata_record_def put_u8_def Let_def)

lemma wf_metadata_hlength: "wf_metadata m \<Longrightarrow> hlength (hash m) \<le> 32"
  by (simp add: wf_metadata_def wf_hash_def)

lemma unat_hlength: "n \<le> 32 \<Longrightarrow> unat (of_nat n :: byte) = n"
  by (simp add: unat_of_nat_small)

lemma record_size_of_parts:
  assumes "length pre = 57" and "hd pre \<noteq> 0"
  shows "metadata_record_size (pre @ [hk, len] @ p) =
    (if unat len \<le> length p then 59 + unat len else 0)"
proof -
  have "(pre @ [hk, len] @ p) ! 58 = len"
    using assms(1) by (simp add: nth_append)
  moreover from assms have "pre \<noteq> []" by auto
  ultimately show ?thesis
    using assms by (simp add: metadata_record_size_def METADATA_RECORD_FIXED_BYTES_def Let_def)
qed

lemma metadata_record_size_encode:
  assumes "wf_metadata m"
  shows "metadata_record_size (encode_metadata_record [] m @ rest) =
    length (encode_metadata_record [] m)"
proof (cases "enabled m")
  case True
  have "hd (record_prefix m) \<noteq> 0" by (simp add: record_prefix_def)
  with True assms show ?thesis
    using wf_metadata_hlength [OF assms]
      record_size_of_parts [of "record_prefix m" "hash_kind_byte (kind (hash m))"
        "of_nat (hlength (hash m))" "take (hlength (hash m)) (hvalue (hash m)) @ rest"]
    by (simp add: encode_metadata_record_enabled unat_hlength wf_metadata_def wf_hash_def)
next
  case False
  then show ?thesis by (simp add: metadata_record_size_def)
qed

lemma get_put_field:
  "get_u32 (put_le 4 v @ p) = (v, p)"
  "get_u64 (put_le 8 w @ p) = (w, p)"
  "get_time (put_time [] t @ p) = (t, p)"
  "get_u8 (b # p) = (b, p)"
  by (simp_all add: get_u32_def get_u64_def get_time_def put_time_append get_u8_def)

lemma decode_encode_metadata_record:
  assumes "wf_metadata m"
  shows "decode_metadata_record (encode_metadata_record [] m @ rest) = Some (m, rest)"
proof (cases "enabled m")
  case True
  let ?bs = "encode_metadata_record [] m" and ?h = "hash m"
  have h: "hlength ?h \<le> 32" "length (hvalue ?h) = 32"
    "drop (hlength ?h) (hvalue ?h) = replicate (32 - hlength ?h) 0"
    "hash_kind_of_byte (hash_kind_byte (kind ?h)) = kind ?h"
    using assms by (simp_all add: wf_metadata_def wf_hash_def)
  then have val: "take (hlength ?h) (hvalue ?h) @ replicate (32 - hlength ?h) 0 = hvalue ?h"
    by (metis append_take_drop_id)
  have size: "metadata_record_size (?bs @ rest) = length ?bs"
    by (rule metadata_record_size_encode [OF assms])
  have bs: "?bs @ rest = 1 # put_le 4 (mode m) @ put_le 4 (uid m) @ put_le 4 (gid m) @
      put_le 8 (fsize m) @ put_time [] (mtime m) @ put_time [] (ctime m) @ put_time [] (atime m) @
      hash_kind_byte (kind ?h) # of_nat (hlength ?h) # take (hlength ?h) (hvalue ?h) @ rest"
    using encode_metadata_record_enabled [OF True assms] by (simp add: record_prefix_def)
  have "drop (length ?bs) (?bs @ rest) = rest" by simp
  then have "decode_metadata_record (?bs @ rest) =
      Some (\<lparr>enabled = True, mode = mode m, uid = uid m, gid = gid m, fsize = fsize m,
        mtime = mtime m, ctime = ctime m, atime = atime m,
        hash = \<lparr>kind = kind ?h, hvalue = hvalue ?h, hlength = hlength ?h\<rparr>\<rparr>, rest)"
    using h val
    unfolding decode_metadata_record_def size
    unfolding bs
    by (simp add: Let_def get_put_field unat_hlength no_hash_def min_absorb1)
  with True show ?thesis by simp
next
  case False
  with assms have "m = no_metadata" by (simp add: wf_metadata_def)
  then show ?thesis
    by (simp add: decode_metadata_record_def metadata_record_size_def get_u8_def)
qed

section \<open>Decoding is determined by the bytes consumed\<close>

lemma get_le_append: "n \<le> length p \<Longrightarrow> get_le n (p @ x) = get_le n p"
  by (rule get_le_cong) (simp add: nth_append)

lemma get_field_append:
  "4 \<le> length p \<Longrightarrow> get_u32 (p @ x) = (fst (get_u32 p), snd (get_u32 p) @ x)"
  "8 \<le> length p \<Longrightarrow> get_u64 (p @ x) = (fst (get_u64 p), snd (get_u64 p) @ x)"
  "12 \<le> length p \<Longrightarrow> get_time (p @ x) = (fst (get_time p), snd (get_time p) @ x)"
  "p \<noteq> [] \<Longrightarrow> get_u8 (p @ x) = (fst (get_u8 p), snd (get_u8 p) @ x)"
  by (auto simp add: get_u32_def get_u64_def get_time_def get_u8_def get_le_append Let_def
      Suc_le_eq)

lemma length_snd_get [simp]:
  "length (snd (get_u32 p)) = length p - 4"
  "length (snd (get_u64 p)) = length p - 8"
  "length (snd (get_time p)) = length p - 12"
  "length (snd (get_u8 p)) = length p - 1"
  by (simp_all add: get_u32_def get_u64_def get_time_def get_u8_def split: prod.split)

lemma metadata_record_size_le: "metadata_record_size p \<le> length p"
  by (auto simp add: metadata_record_size_def Let_def Suc_le_eq)

lemma metadata_record_size_append:
  assumes "metadata_record_size p \<noteq> 0"
  shows "metadata_record_size (p @ x) = metadata_record_size p"
  using assms
  by (auto simp add: metadata_record_size_def Let_def nth_append METADATA_RECORD_FIXED_BYTES_def
      split: if_splits)

lemma metadata_record_size_enabled:
  assumes "metadata_record_size p \<noteq> 0" and "hd p \<noteq> 0"
  shows "59 + unat (p ! 58) \<le> length p"
  using assms
  by (auto simp add: metadata_record_size_def Let_def METADATA_RECORD_FIXED_BYTES_def
      split: if_splits)

text \<open>The record whose bytes start at the head of the list, every field read at its offset.\<close>

definition time_at :: "bytes \<Rightarrow> nat \<Rightarrow> dir_time" where
  "time_at p n = \<lparr>sec = get_le 8 (drop n p), nsec = get_le 4 (drop (n + 8) p)\<rparr>"

definition record_at :: "bytes \<Rightarrow> file_metadata" where
  "record_at p =
     (let len = min (unat (p ! 58)) 32 in
      \<lparr>enabled = True, mode = get_le 4 (drop 1 p), uid = get_le 4 (drop 5 p),
       gid = get_le 4 (drop 9 p), fsize = get_le 8 (drop 13 p), mtime = time_at p 21,
       ctime = time_at p 33, atime = time_at p 45,
       hash = \<lparr>kind = hash_kind_of_byte (p ! 57),
               hvalue = take len (drop 59 p) @ replicate (32 - len) 0, hlength = len\<rparr>\<rparr>)"

lemma get_time_at: "get_time (drop n p) = (time_at p n, drop (n + 12) p)"
  by (simp add: get_time_def get_u64_def get_u32_def time_at_def ac_simps)

lemma time_at_drop [simp]: "time_at (drop n p) k = time_at p (n + k)"
  by (simp add: time_at_def ac_simps)

lemma decode_metadata_record_at:
  "decode_metadata_record p =
     (if metadata_record_size p = 0 then None
      else if hd p = 0 then Some (no_metadata, drop 1 p)
      else Some (record_at p, drop (metadata_record_size p) p))"
proof (cases "metadata_record_size p = 0 \<or> hd p = 0")
  case True
  then show ?thesis
    by (auto simp add: decode_metadata_record_def get_u8_def)
next
  case False
  then have len: "59 + unat (p ! 58) \<le> length p"
    by (simp add: metadata_record_size_enabled)
  have nth: "hd (drop 57 p) = p ! 57" "hd (drop 58 p) = p ! 58"
    using len by (simp_all add: hd_drop_conv_nth)
  from False show ?thesis
    by (simp add: decode_metadata_record_def record_at_def get_u8_def get_u32_def get_u64_def
        get_time_at no_hash_def nth Let_def min_def)
qed

lemma record_at_append:
  assumes "59 + unat (p ! 58) \<le> length p"
  shows "record_at (p @ x) = record_at p"
  using assms
  by (simp add: record_at_def time_at_def get_le_append nth_append Let_def)

lemma decode_metadata_record_append:
  assumes "decode_metadata_record p = Some (m, rest)"
  shows "decode_metadata_record (p @ x) = Some (m, rest @ x)"
proof -
  have size: "metadata_record_size p \<noteq> 0"
    using assms by (auto simp add: decode_metadata_record_at split: if_splits)
  then have "p \<noteq> []" by (auto simp add: metadata_record_size_def)
  then have ne: "hd (p @ x) = hd p" "1 \<le> length p"
    by (simp_all add: Suc_le_eq)
  note size' = metadata_record_size_append [OF size, of x] and le = metadata_record_size_le [of p]
  show ?thesis
  proof (cases "hd p = 0")
    case True
    with assms size ne show ?thesis
      by (simp add: decode_metadata_record_at size' le)
  next
    case False
    with assms size ne record_at_append [OF metadata_record_size_enabled [OF size False], of x]
    show ?thesis
      by (simp add: decode_metadata_record_at size' le)
  qed
qed

lemma wf_record_at: "59 + unat (p ! 58) \<le> length p \<Longrightarrow> wf_metadata (record_at p)"
  by (simp add: record_at_def wf_metadata_def wf_hash_def Let_def)

lemma decode_metadata_record_wf:
  "decode_metadata_record p = Some (m, rest) \<Longrightarrow> wf_metadata m"
  by (auto simp add: decode_metadata_record_at wf_record_at metadata_record_size_enabled
      split: if_splits)

text \<open>The same for an event: its header fields, then the two records.\<close>

definition decode_event_body ::
    "event_kind \<Rightarrow> dir_time \<Rightarrow> nat \<Rightarrow> bytes \<Rightarrow> (history_event \<times> bytes) option" where
  "decode_event_body k t n q =
     (if length q < n then None
      else case decode_metadata_record (drop n q) of
             None \<Rightarrow> None
           | Some (old, r) \<Rightarrow>
               (case decode_metadata_record r of
                  None \<Rightarrow> None
                | Some (new, r) \<Rightarrow>
                    Some (\<lparr>ekind = k, epath = take n q, event_time = t,
                           old_metadata = old, new_metadata = new\<rparr>, r)))"

lemma decode_event_at:
  "decode_event p =
     (if length p < 17 then None
      else decode_event_body (event_kind_of_byte (hd p)) (time_at p 1)
             (unat (get_le 4 (drop 13 p) :: u32)) (drop 17 p))"
proof (cases "length p < 17")
  case True
  then show ?thesis by (simp add: decode_event_def)
next
  case False
  have "get_u8 p = (hd p, drop 1 p)" by (simp add: get_u8_def)
  moreover have "get_u32 (drop 13 p) = (get_le 4 (drop 13 p), drop 17 p)"
    by (simp add: get_u32_def)
  ultimately show ?thesis
    using False get_time_at [of 1 p]
    by (simp add: decode_event_def decode_event_body_def Let_def)
qed

lemma decode_event_body_append:
  assumes "decode_event_body k t n q = Some (e, rest)"
  shows "decode_event_body k t n (q @ x) = Some (e, rest @ x)"
proof -
  from assms obtain old r new where
    n: "n \<le> length q" and old: "decode_metadata_record (drop n q) = Some (old, r)" and
    new: "decode_metadata_record r = Some (new, rest)" and
    e: "e = \<lparr>ekind = k, epath = take n q, event_time = t, old_metadata = old, new_metadata = new\<rparr>"
    by (auto simp add: decode_event_body_def split: if_splits option.splits)
  show ?thesis
    using n e decode_metadata_record_append [OF old, of x] decode_metadata_record_append [OF new, of x]
    by (simp add: decode_event_body_def)
qed

lemma decode_event_wf:
  assumes "decode_event p = Some (e, rest)"
  shows "wf_event e"
proof -
  have k: "event_kind_of_byte (event_kind_byte (event_kind_of_byte b)) = event_kind_of_byte b" for b
    by simp
  with assms show ?thesis
    by (auto simp add: decode_event_at decode_event_body_def wf_event_def
        min_less_iff_disj unat_u32_less
        split: if_splits option.splits prod.splits dest!: decode_metadata_record_wf)
qed

lemma decode_event_append:
  assumes "decode_event p = Some (e, rest)"
  shows "decode_event (p @ x) = Some (e, rest @ x)"
proof -
  from assms have len: "17 \<le> length p"
    by (auto simp add: decode_event_at split: if_splits)
  then have "hd (p @ x) = hd p" by (auto simp add: hd_append)
  with assms len show ?thesis
    by (auto simp add: decode_event_at time_at_def get_le_append decode_event_body_append)
qed

section \<open>Streams of events\<close>

lemma encode_event_append: "encode_event buf e = buf @ encode_event [] e"
  by (simp add: encode_event_def Let_def put_u8_def put_u32_def put_time_append
      encode_metadata_record_append [of "_ @ _"] encode_metadata_record_append [of "_ # _"])

lemma foldl_encode_event: "foldl encode_event buf es = buf @ concat (map (encode_event []) es)"
proof (induction es arbitrary: buf)
  case Nil
  then show ?case by simp
next
  case (Cons e es)
  have "foldl encode_event buf (e # es) = encode_event buf e @ concat (map (encode_event []) es)"
    by (simp add: Cons.IH)
  then show ?case by (simp add: encode_event_append [of buf])
qed

lemma encode_history_stream_concat:
  "encode_history_stream es = concat (map (encode_event []) es)"
  by (simp add: encode_history_stream_def foldl_encode_event)

lemma encode_history_stream_simps [simp]:
  "encode_history_stream [] = []"
  "encode_history_stream (e # es) = encode_event [] e @ encode_history_stream es"
  "encode_history_stream (es @ fs) = encode_history_stream es @ encode_history_stream fs"
  by (simp_all add: encode_history_stream_concat)

lemma encode_event_parts:
  "encode_event [] e =
     event_kind_byte (ekind e) # put_time [] (event_time e) @
     put_le 4 (of_nat (length (epath e)) :: u32) @ epath e @
     encode_metadata_record [] (old_metadata e) @ encode_metadata_record [] (new_metadata e)"
  by (simp add: encode_event_def Let_def put_u8_def put_u32_def put_time_append
      encode_metadata_record_append [of "_ @ _"] encode_metadata_record_append [of "_ # _"])

lemma decode_encode_event:
  assumes "wf_event e"
  shows "decode_event (encode_event [] e @ rest) = Some (e, rest)"
proof -
  from assms have wf: "event_kind_of_byte (event_kind_byte (ekind e)) = ekind e"
    "length (epath e) < 2 ^ 32" "wf_metadata (old_metadata e)" "wf_metadata (new_metadata e)"
    by (simp_all add: wf_event_def)
  then have n: "unat (of_nat (length (epath e)) :: u32) = length (epath e)"
    by (simp add: unat_of_nat_small)
  have "17 \<le> length (encode_event [] e @ rest)"
    by (simp add: encode_event_parts put_time_append)
  with wf n show ?thesis
    by (simp add: decode_event_def encode_event_parts get_put_field Let_def
        decode_encode_metadata_record)
qed

lemma length_encode_event: "17 \<le> length (encode_event [] e)"
  by (simp add: encode_event_parts put_time_append)

lemma decode_event_Nil [simp]: "decode_event [] = None"
  by (simp add: decode_event_def)

lemma decode_metadata_record_Nil [simp]: "decode_metadata_record [] = None"
  by (simp add: decode_metadata_record_def metadata_record_size_def)

interpretation events: stream_codec "encode_event []" decode_event wf_event decode_events
  by unfold_locales
    (auto simp add: decode_encode_event decode_event_append decode_event_shorter decode_events.simps
      split: option.split dest: decode_event_wf)

text \<open>
  The loop of \<open>load_snapshot\<close> in \<open>src/showdiff.cpp\<close> that decodes the metadata stream: it stops
  at the end of the stream or at a record that does not decode.
\<close>

function decode_records :: "bytes \<Rightarrow> file_metadata list" where
  "decode_records ptr =
     (if ptr = [] then []
      else case decode_metadata_record ptr of
             None \<Rightarrow> []
           | Some (meta, rest) \<Rightarrow> meta # decode_records rest)"
  by pat_completeness auto
termination
  by (relation "measure length") (auto dest: decode_metadata_record_shorter)

declare decode_records.simps [simp del]

interpretation records:
  stream_codec "encode_metadata_record []" decode_metadata_record wf_metadata decode_records
  by unfold_locales
    (auto simp add: decode_encode_metadata_record decode_metadata_record_append
      decode_metadata_record_shorter decode_records.simps
      split: option.split dest: decode_metadata_record_wf)

text \<open>The marker that the decoder puts in front of a stream without one.\<close>

definition run_marker_for :: "history_event \<Rightarrow> history_event" where
  "run_marker_for e = empty_event\<lparr>ekind := RunMarker, event_time := event_time e\<rparr>"

lemma wf_run_marker_for [simp]: "wf_event (run_marker_for e)"
  by (simp add: run_marker_for_def wf_event_def empty_event_def event_kind_of_byte_def)

lemma ekind_run_marker_for [simp]: "ekind (run_marker_for e) = RunMarker"
  by (simp add: run_marker_for_def)

lemma decode_history_stream_alt:
  "decode_history_stream data =
     (let es = decode_events data in
      if es \<noteq> [] \<and> ekind (hd es) \<noteq> RunMarker then run_marker_for (hd es) # es else es)"
  by (simp add: decode_history_stream_def run_marker_for_def Let_def)

section \<open>Properties\<close>

lemma decode_encode_history:
  assumes "\<forall>e \<in> set es. wf_event e"
  shows "decode_history_stream (encode_history_stream es) =
    (if es = [] \<or> ekind (hd es) = RunMarker then es else run_marker_for (hd es) # es)"
proof -
  have "decode_events (encode_history_stream es) = es"
    using assms events.dec_all_concat [of es "[]"] by (simp add: encode_history_stream_concat)
  then show ?thesis by (simp add: decode_history_stream_alt)
qed

text \<open>
  C30: A history written by \<open>encode_history_stream\<close> is read back by \<open>decode_history_stream\<close>
  exactly as it was, for every list of well-formed events; when the list does not start with
  a run marker, one with the first event's time is put in front of it.
\<close>

theorem history_stream_roundtrip:
  assumes "\<forall>e \<in> set es. wf_event e"
  shows "decode_history_stream (encode_history_stream es) =
    (if es = [] \<or> ekind (hd es) = RunMarker then es else run_marker_for (hd es) # es)"
  using assms by (rule decode_encode_history)

definition sample_metadata :: file_metadata where
  "sample_metadata = no_metadata\<lparr>enabled := True, mode := 0x81a4, fsize := 5000000000,
     mtime := \<lparr>sec = - 7, nsec = 5\<rparr>,
     hash := \<lparr>kind = XxHash64, hvalue = [1, 2, 3, 4, 5, 6, 7, 8] @ replicate 24 0, hlength = 8\<rparr>\<rparr>"

definition sample_event :: history_event where
  "sample_event = empty_event\<lparr>epath := str ''/etc/x'', new_metadata := sample_metadata\<rparr>"

lemma wf_sample_metadata: "wf_metadata sample_metadata"
  by (simp add: sample_metadata_def wf_metadata_def wf_hash_def hash_kind_of_byte_def
      numeral_eq_Suc)

lemma wf_sample_event: "wf_event sample_event"
  by (simp add: sample_event_def wf_event_def empty_event_def wf_sample_metadata str_def
      event_kind_of_byte_def)

theorem history_stream_roundtrip_witness:
  "decode_history_stream (encode_history_stream [sample_event]) =
     [run_marker_for sample_event, sample_event]"
  using history_stream_roundtrip [of "[sample_event]"] wf_sample_event
  by (simp add: sample_event_def empty_event_def)

text \<open>
  C31: A history stream that is cut off after \<open>k\<close> bytes gives exactly the events that are
  complete before the cut: as many as fit into \<open>k\<close> bytes and none that does not.
\<close>

theorem history_stream_cut:
  assumes "\<forall>e \<in> set es. wf_event e"
  shows "\<exists>n \<le> length es.
    decode_events (take k (encode_history_stream es)) = take n es \<and>
    length (encode_history_stream (take n es)) \<le> k \<and>
    (n < length es \<longrightarrow> k < length (encode_history_stream (take (Suc n) es)))"
  using events.dec_all_cut [of es k] assms unfolding encode_history_stream_concat by auto

theorem history_stream_cut_witness:
  "\<exists>n. decode_events (take 100 (encode_history_stream [sample_event, sample_event])) =
     take n [sample_event, sample_event]"
  using history_stream_cut [of "[sample_event, sample_event]" 100] wf_sample_event
  by (simp only: list.set ball_simps) blast

text \<open>
  C33: Whatever bytes the history section holds, every event that is decoded is well-formed
  (32-byte digest array with a length that fits it, path shorter than 4 GiB), and a history
  that is not empty starts with a run marker.
\<close>

theorem decoded_history_wf:
  "list_all wf_event (decode_history_stream data) \<and>
   (decode_history_stream data = [] \<or> ekind (hd (decode_history_stream data)) = RunMarker)"
  by (auto simp add: decode_history_stream_alt Let_def list_all_iff dest: events.dec_all_wf)

text \<open>
  C32: A metadata record is read back exactly, with the position just behind it, whatever
  follows; and a buffer that ends inside the record is reported as incomplete, both by
  \<open>metadata_record_size\<close> and by \<open>decode_metadata_record\<close>.
\<close>

theorem metadata_record_roundtrip:
  assumes "wf_metadata m" and "k < length (encode_metadata_record [] m)"
  shows "decode_metadata_record (encode_metadata_record [] m @ rest) = Some (m, rest) \<and>
    metadata_record_size (encode_metadata_record [] m @ rest) =
      length (encode_metadata_record [] m) \<and>
    decode_metadata_record (take k (encode_metadata_record [] m)) = None \<and>
    metadata_record_size (take k (encode_metadata_record [] m)) = 0"
proof -
  have "decode_metadata_record (take k (encode_metadata_record [] m)) = None"
    using assms by (rule records.dec_cut_record)
  moreover from this have "metadata_record_size (take k (encode_metadata_record [] m)) = 0"
    by (auto simp add: decode_metadata_record_at split: if_splits)
  ultimately show ?thesis
    using assms(1) by (simp add: decode_encode_metadata_record metadata_record_size_encode)
qed

theorem metadata_record_roundtrip_witness:
  "decode_metadata_record (encode_metadata_record [] sample_metadata @ [9, 9]) =
     Some (sample_metadata, [9, 9]) \<and>
   decode_metadata_record (take 60 (encode_metadata_record [] sample_metadata)) = None"
proof -
  have "60 < length (encode_metadata_record [] sample_metadata)"
    using encode_metadata_record_enabled [OF _ wf_sample_metadata]
    by (simp add: sample_metadata_def)
  then show ?thesis
    using metadata_record_roundtrip [OF wf_sample_metadata, of 60 "[9, 9]"] by blast
qed

end
