(* ===== verification/Serializer.thy ===== *)
theory Serializer
  imports Prelude "HOL-Library.Multiset"
begin

text \<open>
  \<open>Serializer\<close> and \<open>apply_limit\<close> of \<open>src/serializer.cpp\<close>: results arrive in any order, each with its
  sequence number and the number of sequence numbers it covers, and are printed in order. The
  state has the output so far, the remaining \<open>--limit\<close> and whether the process has left by
  \<open>exit(0)\<close>. In whatever order the results of a search arrive, the output is the same.
\<close>

section \<open>The queue of delayed results\<close>

record element =
  eseq :: u64
  skip :: u64
  msg :: bytes

text \<open>\<open>std::priority_queue\<close> under \<open>Element::operator<\<close>: the top has the least sequence number.\<close>

definition pq_push :: "element \<Rightarrow> element list \<Rightarrow> element list" where
  "pq_push e q = insort_key eseq e q"

definition pq_top :: "element list \<Rightarrow> element" where
  "pq_top q = hd q"

definition pq_pop :: "element list \<Rightarrow> element list" where
  "pq_pop q = tl q"

locale delay_queue =
  fixes empty :: 'q and push :: "'e \<Rightarrow> 'q \<Rightarrow> 'q" and top :: "'q \<Rightarrow> 'e" and pop :: "'q \<Rightarrow> 'q"
    and elems :: "'q \<Rightarrow> 'e multiset" and inv :: "'q \<Rightarrow> bool" and key :: "'e \<Rightarrow> 'k::linorder"
  assumes inv_empty: "inv empty" and elems_empty: "elems empty = {#}"
    and inv_push: "inv q \<Longrightarrow> inv (push e q)"
    and elems_push: "inv q \<Longrightarrow> elems (push e q) = add_mset e (elems q)"
    and top_in: "inv q \<Longrightarrow> elems q \<noteq> {#} \<Longrightarrow> top q \<in># elems q"
    and top_least: "inv q \<Longrightarrow> e \<in># elems q \<Longrightarrow> key (top q) \<le> key e"
    and inv_pop: "inv q \<Longrightarrow> elems q \<noteq> {#} \<Longrightarrow> inv (pop q)"
    and elems_pop: "inv q \<Longrightarrow> elems q \<noteq> {#} \<Longrightarrow> elems (pop q) = elems q - {#top q#}"
begin

text \<open>When no element has a key below that of \<open>e\<close>, and no other has the same, \<open>e\<close> is the top.\<close>

lemma top_is_next:
  assumes "inv q" and "e \<in># elems q" and "\<And>e'. e' \<in># elems q \<Longrightarrow> e' \<noteq> e \<Longrightarrow> key e < key e'"
  shows "top q = e"
  using top_in [OF assms(1)] top_least [OF assms(1,2)] assms(2,3) by (metis empty_iff not_le set_mset_empty)

lemma elems_pop_top: "inv q \<Longrightarrow> elems q \<noteq> {#} \<Longrightarrow> add_mset (top q) (elems (pop q)) = elems q"
  by (simp add: elems_pop top_in)

end

interpretation dq: delay_queue "[]" pq_push pq_top pq_pop mset "\<lambda>q. sorted (map eseq q)" eseq
proof unfold_locales
  show "pq_top q \<in># mset q" if "mset q \<noteq> {#}" for q using that by (cases q) (auto simp add: pq_top_def)
  show "eseq (pq_top q) \<le> eseq e" if "sorted (map eseq q)" "e \<in># mset q" for q e
    using that by (cases q) (auto simp add: pq_top_def)
qed (auto simp add: pq_push_def pq_top_def pq_pop_def sorted_insort_key sorted_tl map_tl neq_Nil_conv)

section \<open>The serializer\<close>

record serializer =
  next_seq :: u64
  pending :: "element list"
  printed :: "bytes list"
  limit_left :: int
  exited :: bool

definition new_serializer :: "int \<Rightarrow> serializer" where
  "new_serializer limit =
     \<lparr>next_seq = 0, pending = [], printed = [], limit_left = limit, exited = False\<rparr>"

definition apply_limit :: "serializer \<Rightarrow> serializer" where
  "apply_limit s =
     (let s = s\<lparr>limit_left := limit_left s - 1\<rparr>
      in if 0 < limit_left s then s else s\<lparr>exited := True\<rparr>)"

definition print_msg :: "bytes \<Rightarrow> serializer \<Rightarrow> serializer" where
  "print_msg m s = (if m \<noteq> [] then apply_limit (s\<lparr>printed := printed s @ [m]\<rparr>) else s)"

function drain :: "serializer \<Rightarrow> serializer" where
  "drain s =
     (if pending s \<noteq> [] \<and> eseq (pq_top (pending s)) = next_seq s then
        let e = pq_top (pending s); s' = print_msg (msg e) s
        in if exited s' then s'
           else drain (s'\<lparr>next_seq := next_seq s + skip e, pending := pq_pop (pending s)\<rparr>)
      else s)"
  by pat_completeness auto
termination
  by (relation "measure (length \<circ> pending)") (auto simp add: pq_pop_def)

declare drain.simps [simp del]

definition serializer_print :: "bool \<Rightarrow> element \<Rightarrow> serializer \<Rightarrow> serializer" where
  "serializer_print only_count e s =
     (if exited s then s
      else if only_count then (if msg e \<noteq> [] then apply_limit s else s)
      else if next_seq s \<noteq> eseq e then s\<lparr>pending := pq_push e (pending s)\<rparr>
      else
        let s = print_msg (msg e) s
        in if exited s then s else drain (s\<lparr>next_seq := next_seq s + skip e\<rparr>))"

fun print_all :: "bool \<Rightarrow> element list \<Rightarrow> serializer \<Rightarrow> serializer" where
  "print_all only_count [] s = s"
| "print_all only_count (e # es) s = print_all only_count es (serializer_print only_count e s)"

section \<open>Results in order\<close>

text \<open>The results of a search in the order of their numbers, without a gap.\<close>

fun in_sequence :: "u64 \<Rightarrow> element list \<Rightarrow> bool" where
  "in_sequence s [] = True"
| "in_sequence s (e # es) \<longleftrightarrow>
     eseq e = s \<and> 0 < skip e \<and> unat s + unat (skip e) < 2 ^ 64 \<and> in_sequence (s + skip e) es"

definition messages :: "element list \<Rightarrow> bytes list" where
  "messages es = filter (\<lambda>m. m \<noteq> []) (map msg es)"

lemma messages_simps [simp]:
  "messages [] = []"
  "messages (e # es) = (if msg e = [] then messages es else msg e # messages es)"
  "messages (xs @ ys) = messages xs @ messages ys"
  by (simp_all add: messages_def)

lemma in_sequence_later: "in_sequence s es \<Longrightarrow> e \<in> set es \<Longrightarrow> s \<le> eseq e"
proof (induction es arbitrary: s)
  case (Cons a es)
  have "s \<le> s + skip a"
    using Cons.prems(1) by (simp add: word_le_nat_alt unat_word_ariths)
  with Cons show ?case by (auto intro: order_trans)
qed simp

lemma in_sequence_next:
  assumes "in_sequence s (a # es)" and "e \<in> set es"
  shows "eseq a < eseq e"
proof -
  have "s < s + skip a" using assms(1) by (simp add: word_less_nat_alt unat_word_ariths)
  also have "\<dots> \<le> eseq e" using assms in_sequence_later [of "s + skip a" es e] by simp
  finally show ?thesis using assms(1) by simp
qed

text \<open>
  The invariant, for the sequence \<open>rs\<close> of all results and those still to come, \<open>later\<close>: the
  serializer has printed the results \<open>done\<close> and holds back all of the others that have arrived,
  but not the next one.
\<close>

definition printed_limit :: "int \<Rightarrow> element list \<Rightarrow> bytes list" where
  "printed_limit limit es = take (nat limit) (messages es)"

definition running :: "int \<Rightarrow> element list \<Rightarrow> element list \<Rightarrow> element multiset \<Rightarrow> serializer \<Rightarrow> bool" where
  "running limit fin todo later s \<longleftrightarrow>
     \<not> exited s \<and> in_sequence (next_seq s) todo \<and> printed s = messages fin \<and>
     limit_left s = limit - int (length (messages fin)) \<and> 0 < limit_left s \<and>
     sorted (map eseq (pending s)) \<and> mset (pending s) + later = mset todo"

definition serializer_inv :: "int \<Rightarrow> element list \<Rightarrow> element multiset \<Rightarrow> serializer \<Rightarrow> bool" where
  "serializer_inv limit rs later s \<longleftrightarrow>
     (if exited s then printed s = printed_limit limit rs \<and> nat limit \<le> length (messages rs)
      else \<exists>fin todo. rs = fin @ todo \<and> running limit fin todo later s \<and>
        (todo \<noteq> [] \<longrightarrow> hd todo \<notin># mset (pending s)))"

lemma print_msg_running:
  assumes r: "running limit fin (e # todo) later s" and "0 < limit" and s': "s' = print_msg (msg e) s"
  shows "if exited s' then printed s' = printed_limit limit (fin @ e # todo) \<and>
      nat limit \<le> length (messages (fin @ e # todo))
    else printed s' = messages (fin @ [e]) \<and> limit_left s' = limit - int (length (messages (fin @ [e]))) \<and>
      0 < limit_left s' \<and> next_seq s' = next_seq s \<and> pending s' = pending s"
proof (cases "msg e = []")
  case True
  with r s' show ?thesis by (simp add: print_msg_def running_def)
next
  case False
  with s' have eq: "s' = apply_limit (s\<lparr>printed := printed s @ [msg e]\<rparr>)" by (simp add: print_msg_def)
  show ?thesis
  proof (cases "0 < limit_left s - 1")
    case True
    with r False show ?thesis by (simp add: eq apply_limit_def running_def)
  next
    case over: False
    with r have "limit = int (length (messages fin)) + 1" by (simp add: running_def)
    then have n: "nat limit = Suc (length (messages fin))" by simp
    have "exited s'" "printed s' = messages fin @ [msg e]"
      using over r by (simp_all add: eq apply_limit_def running_def)
    with False n show ?thesis by (simp add: printed_limit_def)
  qed
qed

lemma running_next:
  assumes "running limit fin (e # todo) later s" and "0 < limit" and "s' = print_msg (msg e) s" and "\<not> exited s'"
    and "q = mset todo - later" and "later \<subseteq># mset todo" and "sorted (map eseq p)" and "mset p = q"
  shows "running limit (fin @ [e]) todo later (s'\<lparr>next_seq := next_seq s + skip e, pending := p\<rparr>)"
  using print_msg_running [OF assms(1-3)] assms
  by (simp add: running_def)

lemma next_is_top:
  assumes "in_sequence (next_seq s) todo" and "sorted (map eseq (pending s))" and "mset (pending s) + later = mset todo"
    and "pending s \<noteq> []" and "eseq (pq_top (pending s)) = next_seq s"
  shows "\<exists>rest. todo = pq_top (pending s) # rest"
proof -
  have "pq_top (pending s) \<in># mset (pending s)" using dq.top_in [of "pending s"] assms(2,4) by simp
  then have "pq_top (pending s) \<in> set todo" using assms(3) by (metis mset_add set_mset_mset union_iff)
  with assms(1,5) show ?thesis
  proof (cases todo)
    case (Cons a rest)
    with assms(1) have "eseq a = next_seq s" by simp
    with Cons \<open>pq_top (pending s) \<in> set todo\<close> assms(1,5) in_sequence_next [of "next_seq s" a rest "pq_top (pending s)"]
    show ?thesis by auto
  qed simp
qed

lemma drain_inv:
  assumes "running limit fin todo later s" and "0 < limit" and "rs = fin @ todo"
  shows "serializer_inv limit rs later (drain s)"
  using assms
proof (induction s arbitrary: fin todo rule: drain.induct)
  case (1 s)
  note run = "1.prems"(1)
  then have seq: "in_sequence (next_seq s) todo" and srt: "sorted (map eseq (pending s))"
    and all: "mset (pending s) + later = mset todo" and ex: "\<not> exited s"
    by (simp_all add: running_def)
  show ?case
  proof (cases "pending s \<noteq> [] \<and> eseq (pq_top (pending s)) = next_seq s")
    case False
    have "hd todo \<notin># mset (pending s)" if ne: "todo \<noteq> []"
    proof
      assume in_q: "hd todo \<in># mset (pending s)"
      obtain a rest where todo: "todo = a # rest" using ne by (cases todo) auto
      have "eseq a < eseq e'" if "e' \<in># mset (pending s)" "e' \<noteq> a" for e'
      proof -
        have "e' \<in> set todo" using that(1) all by (metis set_mset_mset union_iff)
        with that(2) todo show ?thesis using in_sequence_next [of "next_seq s" a rest e'] seq by auto
      qed
      then have "pq_top (pending s) = a" using dq.top_is_next [OF srt, of a] in_q todo by simp
      with False seq todo in_q show False by auto
    qed
    moreover have "drain s = s" using False by (subst drain.simps) (simp only: if_False)
    ultimately show ?thesis using run "1.prems"(3) ex unfolding serializer_inv_def by auto
  next
    case True
    let ?e = "pq_top (pending s)"
    define s' where "s' = print_msg (msg ?e) s"
    obtain rest where todo: "todo = ?e # rest"
      using next_is_top [OF seq srt all conjunct1 [OF True] conjunct2 [OF True]] by blast
    have r: "running limit fin (?e # rest) later s" using run todo by simp
    show ?thesis
    proof (cases "exited s'")
      case exit: True
      then have "drain s = s'" using True by (simp add: drain.simps [of s] s'_def Let_def)
      with exit print_msg_running [OF r "1.prems"(2) s'_def] "1.prems"(3) todo show ?thesis
        by (simp add: serializer_inv_def)
    next
      case go: False
      let ?u = "s'\<lparr>next_seq := next_seq s + skip ?e, pending := pq_pop (pending s)\<rparr>"
      have d: "drain s = drain ?u" using True go by (simp add: drain.simps [of s] s'_def Let_def)
      have "add_mset ?e (mset (pq_pop (pending s))) = mset (pending s)"
        using dq.elems_pop_top [OF srt] True by simp
      with all todo have q: "mset (pq_pop (pending s)) + later = mset rest"
        by (metis add_mset_add_single mset.simps(2) union_mset_add_mset_left add_mset_add_mset_same_iff)
      then have "running limit (fin @ [?e]) rest later ?u"
        by (intro running_next [OF r "1.prems"(2) s'_def go refl])
          (use srt in \<open>auto simp add: pq_pop_def map_tl sorted_tl simp flip: q\<close>)
      then have "serializer_inv limit rs later (drain ?u)"
        by (rule "1.IH" [OF True refl s'_def [symmetric, THEN sym] go]) (use "1.prems"(2,3) todo in auto)
      with d show ?thesis by simp
    qed
  qed
qed

lemma serializer_print_inv:
  assumes inv: "serializer_inv limit rs (add_mset e later) s" and "0 < limit"
  shows "serializer_inv limit rs later (serializer_print False e s)"
proof (cases "exited s")
  case True
  with inv show ?thesis by (simp add: serializer_print_def serializer_inv_def)
next
  case False
  then obtain fin todo where rs: "rs = fin @ todo" and run: "running limit fin todo (add_mset e later) s"
    and hold: "todo \<noteq> [] \<longrightarrow> hd todo \<notin># mset (pending s)"
    using inv unfolding serializer_inv_def by auto
  have seq: "in_sequence (next_seq s) todo" and srt: "sorted (map eseq (pending s))"
    and all: "mset (pending s) + add_mset e later = mset todo"
    using run by (simp_all add: running_def)
  have "e \<in> set todo" using all by (metis set_mset_mset union_iff insert_iff set_mset_add_mset_insert)
  then obtain a rest where todo: "todo = a # rest" by (cases todo) auto
  show ?thesis
  proof (cases "next_seq s = eseq e")
    case other: False
    then have "a \<noteq> e" using seq todo by auto
    with hold todo have "hd todo \<notin># mset (pq_push e (pending s))" using dq.elems_push [OF srt] by simp
    moreover have "running limit fin todo later (s\<lparr>pending := pq_push e (pending s)\<rparr>)"
      using run dq.elems_push [OF srt, of e] dq.inv_push [OF srt, of e] by (simp add: running_def)
    ultimately show ?thesis using False other rs by (auto simp add: serializer_print_def serializer_inv_def)
  next
    case here: True
    have "a = e"
    proof (rule ccontr)
      assume "a \<noteq> e"
      with \<open>e \<in> set todo\<close> todo have "eseq a < eseq e" using in_sequence_next [of "next_seq s" a rest e] seq by simp
      with here seq todo show False by simp
    qed
    define s' where "s' = print_msg (msg e) s"
    have r: "running limit fin (e # rest) (add_mset e later) s" using run todo \<open>a = e\<close> by simp
    show ?thesis
    proof (cases "exited s'")
      case exit: True
      then have "serializer_print False e s = s'" using False here by (simp add: serializer_print_def s'_def Let_def)
      with exit print_msg_running [OF r assms(2) s'_def] rs todo \<open>a = e\<close> show ?thesis
        by (simp add: serializer_inv_def)
    next
      case go: False
      let ?u = "s'\<lparr>next_seq := next_seq s' + skip e\<rparr>"
      have q: "mset (pending s) + later = mset rest" using all todo \<open>a = e\<close> by simp
      have "next_seq s' = next_seq s" "pending s' = pending s"
        using print_msg_running [OF r assms(2) s'_def] go by simp_all
      then have "?u = s'\<lparr>next_seq := next_seq s + skip e, pending := pending s\<rparr>" by simp
      moreover have "running limit (fin @ [e]) rest later (s'\<lparr>next_seq := next_seq s + skip e, pending := pending s\<rparr>)"
        using print_msg_running [OF r assms(2) s'_def] go r srt q by (simp add: running_def)
      ultimately have "serializer_inv limit rs later (drain ?u)"
        by (intro drain_inv [of limit "fin @ [e]" rest] assms(2)) (simp_all add: rs todo \<open>a = e\<close>)
      moreover have "serializer_print False e s = drain ?u"
        using False here go by (simp add: serializer_print_def s'_def Let_def)
      ultimately show ?thesis by simp
    qed
  qed
qed

lemma print_all_inv:
  "serializer_inv limit rs (mset es) s \<Longrightarrow> 0 < limit \<Longrightarrow>
     serializer_inv limit rs {#} (print_all False es s)"
  by (induction es arbitrary: s) (auto intro: serializer_print_inv)

lemma printed_in_order:
  assumes "in_sequence 0 rs" and "mset es = mset rs" and "0 < limit"
  shows "let s = print_all False es (new_serializer limit)
    in printed s = take (nat limit) (messages rs) \<and>
       exited s = (nat limit \<le> length (messages rs)) \<and> (exited s \<or> pending s = [])"
proof -
  let ?s = "print_all False es (new_serializer limit)"
  have "running limit [] rs (mset es) (new_serializer limit)"
    using assms by (simp add: running_def new_serializer_def)
  then have "serializer_inv limit rs (mset es) (new_serializer limit)"
    unfolding serializer_inv_def
    by (simp add: new_serializer_def) (intro exI [of _ "[]"] exI [of _ rs], simp)
  from print_all_inv [OF this assms(3)] have inv: "serializer_inv limit rs {#} ?s" .
  show ?thesis
  proof (cases "exited ?s")
    case True
    with inv show ?thesis by (simp add: serializer_inv_def printed_limit_def Let_def)
  next
    case False
    with inv obtain fin todo where rs: "rs = fin @ todo" and run: "running limit fin todo {#} ?s"
      and hold: "todo \<noteq> [] \<longrightarrow> hd todo \<notin># mset (pending ?s)"
      unfolding serializer_inv_def by auto
    have "todo = []" using run hold by (cases todo) (auto simp add: running_def)
    moreover have "length (messages fin) < nat limit" using run by (auto simp add: running_def)
    ultimately show ?thesis using rs run False by (simp add: running_def Let_def)
  qed
qed

section \<open>Properties\<close>

text \<open>C14: The output does not depend on the order in which results arrive. When the results of a
  search, numbered without a gap, are delivered in any order, exactly the messages of the search
  are printed, in the order of their numbers and each once, up to the limit; the process exits by
  the limit just when there are that many messages, and else nothing is left behind in the queue
  (the assertion of the destructor).\<close>
theorem output_in_order:
  assumes "in_sequence 0 rs" and "mset es = mset rs" and "0 < limit"
  shows "let s = print_all False es (new_serializer limit)
    in printed s = take (nat limit) (messages rs) \<and>
       exited s = (nat limit \<le> length (messages rs)) \<and> (exited s \<or> pending s = [])"
  using assms by (rule printed_in_order)

definition sample_results :: "element list" where
  "sample_results =
     [\<lparr>eseq = 0, skip = 3, msg = [97]\<rparr>, \<lparr>eseq = 3, skip = 1, msg = []\<rparr>, \<lparr>eseq = 4, skip = 2, msg = [98]\<rparr>]"

lemma output_in_order_witness:
  "printed (print_all False (rev sample_results) (new_serializer 5)) = [[97], [98]]"
  using output_in_order [of sample_results "rev sample_results" 5]
  by (simp add: sample_results_def Let_def)

text \<open>With \<open>--count\<close>, every non-empty result counts once against the limit in whatever order the
  results arrive, no name is printed, and the process exits by the limit just when there are that
  many.\<close>
theorem count_only_limit:
  assumes "0 < limit"
  shows "let s = print_all True es (new_serializer limit)
    in printed s = [] \<and> pending s = [] \<and> exited s = (nat limit \<le> length (messages es)) \<and>
       limit_left s = limit - int (min (nat limit) (length (messages es)))"
proof -
  have "printed (print_all True es s) = printed s \<and> pending (print_all True es s) = pending s \<and>
      exited (print_all True es s) = (exited s \<or> nat (limit_left s) \<le> length (messages es)) \<and>
      limit_left (print_all True es s) =
        (if exited s then limit_left s else limit_left s - int (min (nat (limit_left s)) (length (messages es))))"
    if "exited s \<or> 0 < limit_left s" for s
    using that
  proof (induction es arbitrary: s)
    case (Cons e es)
    have "exited (serializer_print True e s) \<or> 0 < limit_left (serializer_print True e s)"
      using Cons.prems by (auto simp add: serializer_print_def apply_limit_def Let_def)
    from Cons.IH [OF this] Cons.prems show ?case
      by (auto simp add: serializer_print_def apply_limit_def Let_def split: if_splits)
  qed auto
  from this [of "new_serializer limit"] assms show ?thesis by (simp add: new_serializer_def Let_def)
qed

lemma count_only_limit_witness:
  "exited (print_all True sample_results (new_serializer 2))"
  using count_only_limit [of 2 sample_results] by (simp add: sample_results_def Let_def)

end
