(* ===== verification/Primes.thy ===== *)
theory Primes
  imports Prelude "HOL-Library.While_Combinator"
begin

text \<open>
  \<open>is_prime\<close> and \<open>next_prime\<close> of \<open>src/database-builder.cpp\<close>, which give the size of the trigram
  hash table. The 32-bit sizes are natural numbers; the largest prime below \<open>2 ^ 32\<close> is far above
  the number of trigrams, so that \<open>x += 2\<close> does not wrap. \<open>ceil(sqrt(x))\<close> is exact for these
  values and is computed by counting up. The loop of \<open>next_prime\<close> ends: there is always a larger
  prime.
\<close>

function ceil_sqrt_from :: "nat \<Rightarrow> nat \<Rightarrow> nat" where
  "ceil_sqrt_from x r = (if x \<le> r * r then r else ceil_sqrt_from x (Suc r))"
  by pat_completeness auto
termination
proof (relation "measure (\<lambda>(x, r). x - r)", simp)
  fix x r :: nat
  assume "\<not> x \<le> r * r"
  moreover have "r \<le> r * r" by (cases r) simp_all
  ultimately have "r < x" by linarith
  then show "((x, Suc r), (x, r)) \<in> measure (\<lambda>(x, r). x - r)" by simp
qed

declare ceil_sqrt_from.simps [simp del]

definition is_prime :: "nat \<Rightarrow> bool" where
  "is_prime x =
     (if x mod 2 = 0 \<or> x mod 3 = 0 then False
      else list_all (\<lambda>factor. x mod factor \<noteq> 0) [5..<ceil_sqrt_from x 0 + 1])"

definition next_prime :: "nat \<Rightarrow> nat option" where
  "next_prime x = while_option (\<lambda>x. \<not> is_prime x) (\<lambda>x. x + 2) (if x mod 2 = 0 then x + 1 else x)"

section \<open>What is_prime decides\<close>

definition prime_number :: "nat \<Rightarrow> bool" where
  "prime_number p \<longleftrightarrow> 1 < p \<and> (\<forall>d. d dvd p \<longrightarrow> d = 1 \<or> d = p)"

lemma ceil_sqrt_from_le: "x \<le> ceil_sqrt_from x r * ceil_sqrt_from x r"
  by (induction x r rule: ceil_sqrt_from.induct)
    (subst (1 2) ceil_sqrt_from.simps, simp)

lemma ceil_sqrt_from_least: "r * r < x \<Longrightarrow> ceil_sqrt_from x r < x \<or> x \<le> 2"
proof (induction x r rule: ceil_sqrt_from.induct)
  case (1 x r)
  show ?case
  proof (cases "x \<le> Suc r * Suc r")
    case True
    then have "ceil_sqrt_from x r = Suc r"
      using 1(2) by (simp add: ceil_sqrt_from.simps [of x r] ceil_sqrt_from.simps [of x "Suc r"])
    moreover have "Suc r < x \<or> x \<le> 2"
    proof (cases "r \<le> 1")
      case True
      then show ?thesis using 1(2) by (cases r) auto
    next
      case False
      then have "2 * r \<le> r * r" by simp
      with False 1(2) show ?thesis by linarith
    qed
    ultimately show ?thesis by simp
  next
    case False
    with 1 show ?thesis by (simp add: ceil_sqrt_from.simps [of x r])
  qed
qed

lemma is_prime_odd: "is_prime x \<Longrightarrow> x mod 2 = 1"
  by (auto simp add: is_prime_def split: if_splits)

lemma small_divisor:
  fixes s :: nat
  assumes "d dvd x" and "1 < d" and "d < x" and "x \<le> s * s"
  obtains e where "e dvd x" and "1 < e" and "e < x" and "e \<le> s"
proof (cases "d \<le> s")
  case True
  with assms that show thesis by blast
next
  case False
  obtain e where x: "x = d * e" using assms(1) by (auto elim: dvdE)
  have "e \<le> s"
  proof (rule ccontr)
    assume "\<not> e \<le> s"
    with False have "s < d" "s < e" by simp_all
    then have "s * s < d * e" by (intro mult_strict_mono) auto
    with assms(4) x show False by simp
  qed
  moreover have "1 < e" using assms(3) x by (cases "e = 0"; cases "e = 1") auto
  moreover have "e < x" using assms(2) x \<open>1 < e\<close> by simp
  moreover have "e dvd x" using x by simp
  ultimately show thesis using that by blast
qed

lemma is_prime_iff: "is_prime x \<longleftrightarrow> x = 1 \<or> 3 < x \<and> prime_number x"
proof
  assume p: "is_prime x"
  then have n2: "\<not> 2 dvd x" and n3: "\<not> 3 dvd x"
    by (simp_all add: is_prime_def dvd_eq_mod_eq_0 split: if_splits)
  have none: "\<not> f dvd x" if "5 \<le> f" "f \<le> ceil_sqrt_from x 0" for f
  proof -
    have "f \<in> set [5..<c + 1]" if "f \<le> c" for c using that \<open>5 \<le> f\<close> by auto
    from this [OF that(2)] have "f \<in> set [5..<ceil_sqrt_from x 0 + 1]" .
    moreover have "\<forall>f \<in> set [5..<ceil_sqrt_from x 0 + 1]. x mod f \<noteq> 0"
      using p unfolding is_prime_def list_all_iff by presburger
    ultimately show ?thesis by (metis dvd_eq_mod_eq_0)
  qed
  have "x \<noteq> 0" using n2 by (cases x) auto
  show "x = 1 \<or> 3 < x \<and> prime_number x"
  proof (cases "x = 1")
    case False
    have "x \<noteq> 2" "x \<noteq> 3" using n2 n3 by auto
    with False \<open>x \<noteq> 0\<close> have "3 < x" by linarith
    moreover have "d = 1 \<or> d = x" if dx: "d dvd x" for d
    proof (rule ccontr)
      assume "\<not> (d = 1 \<or> d = x)"
      moreover have "d \<noteq> 0" "d \<le> x" using dx \<open>x \<noteq> 0\<close> by (auto intro: dvd_imp_le)
      ultimately have "1 < d" "d < x" by auto
      obtain e where e: "e dvd x" "1 < e" "e \<le> ceil_sqrt_from x 0"
        by (rule small_divisor [OF dx \<open>1 < d\<close> \<open>d < x\<close> ceil_sqrt_from_le]) blast
      have "e \<noteq> 2" "e \<noteq> 3" using e(1) n2 n3 by auto
      moreover have "e \<noteq> 4" using e(1) n2 by (metis dvd_trans dvd_triv_left numeral_Bit0 mult_2 dvd_def)
      ultimately have "5 \<le> e" using e(2) by linarith
      with none e show False by blast
    qed
    ultimately show ?thesis by (auto simp add: prime_number_def)
  qed simp
next
  assume "x = 1 \<or> 3 < x \<and> prime_number x"
  then show "is_prime x"
  proof
    assume "x = 1"
    then show ?thesis by (simp add: is_prime_def ceil_sqrt_from.simps)
  next
    assume x: "3 < x \<and> prime_number x"
    then have "\<not> 2 dvd x" "\<not> 3 dvd x" by (auto simp add: prime_number_def)
    moreover have "ceil_sqrt_from x 0 < x" using x ceil_sqrt_from_least [of 0 x] by auto
    then have "\<not> f dvd x" if "5 \<le> f" "f \<le> ceil_sqrt_from x 0" for f
      using x that by (auto simp add: prime_number_def)
    then have "list_all (\<lambda>f. x mod f \<noteq> 0) [5..<ceil_sqrt_from x 0 + 1]"
      unfolding list_all_iff set_upt
      by (metis atLeastLessThan_iff dvd_eq_mod_eq_0 Suc_eq_plus1 less_Suc_eq_le)
    ultimately show ?thesis by (simp only: is_prime_def dvd_eq_mod_eq_0 if_False simp_thms)
  qed
qed

section \<open>There is always a larger prime\<close>

lemma least_divisor_prime:
  assumes "1 < (n :: nat)"
  obtains p where "prime_number p" and "p dvd n"
proof -
  define p where "p = (LEAST d. 1 < d \<and> d dvd n)"
  have p: "1 < p \<and> p dvd n" unfolding p_def by (rule LeastI [of _ n]) (use assms in simp)
  have "d = 1 \<or> d = p" if d: "d dvd p" for d
  proof (rule ccontr)
    assume "\<not> (d = 1 \<or> d = p)"
    moreover have "d \<le> p" using d p by (intro dvd_imp_le) auto
    moreover have "d \<noteq> 0" using d p by (cases "d = 0") auto
    ultimately have "1 < d" "d < p" by auto
    moreover have "d dvd n" using d p by (blast intro: dvd_trans)
    ultimately show False using not_less_Least [of d "\<lambda>d. 1 < d \<and> d dvd n"] by (simp add: p_def)
  qed
  with p that show thesis by (auto simp add: prime_number_def)
qed

lemma larger_prime: "\<exists>p. n < p \<and> prime_number p"
proof -
  obtain p where p: "prime_number p" "p dvd fact n + 1"
    by (rule least_divisor_prime [of "fact n + 1"]) simp_all
  have "n < p"
  proof (rule ccontr)
    assume "\<not> n < p"
    then have "p dvd fact n" using p(1) by (intro dvd_fact) (auto simp add: prime_number_def)
    with p(2) have "p dvd 1" by (metis dvd_add_right_iff)
    with p(1) show False by (simp add: prime_number_def)
  qed
  with p(1) show ?thesis by blast
qed

lemma some_prime_ahead:
  assumes "odd x"
  shows "\<exists>k. is_prime (x + 2 * k)"
proof -
  obtain p where p: "x + 3 < p" "prime_number p" using larger_prime by blast
  then have "is_prime p" by (simp add: is_prime_iff)
  then have "odd p" using is_prime_odd by (simp add: odd_iff_mod_2_eq_one)
  then have "even (p - x)" using assms p(1) by simp
  then obtain k where "p - x = 2 * k" by (rule evenE)
  then have "p = x + 2 * k" using p(1) by simp
  with \<open>is_prime p\<close> show ?thesis by blast
qed

lemma while_next:
  assumes "is_prime (y + 2 * k)" and "\<And>j. j < k \<Longrightarrow> \<not> is_prime (y + 2 * j)"
  shows "while_option (\<lambda>x. \<not> is_prime x) (\<lambda>x. x + 2) y = Some (y + 2 * k)"
  using assms
proof (induction k arbitrary: y)
  case 0
  then show ?case by (simp add: while_option_unfold)
next
  case (Suc k)
  have "while_option (\<lambda>x. \<not> is_prime x) (\<lambda>x. x + 2) (y + 2) = Some (y + 2 + 2 * k)"
  proof (rule Suc.IH)
    show "is_prime (y + 2 + 2 * k)" using Suc.prems(1) by (simp add: algebra_simps)
    fix j assume "j < k"
    then show "\<not> is_prime (y + 2 + 2 * j)" using Suc.prems(2) [of "Suc j"] by (simp add: algebra_simps)
  qed
  moreover have "\<not> is_prime y" using Suc.prems(2) [of 0] by simp
  ultimately show ?case by (subst while_option_unfold) (simp add: algebra_simps)
qed

lemma next_prime_positive: "next_prime n = Some p \<Longrightarrow> 0 < p"
  unfolding next_prime_def by (drule while_option_stop) (auto simp add: is_prime_def intro: ccontr)

text \<open>For every number, \<open>next_prime\<close> returns, and returns the first number from it on, of those
  that are odd, for which \<open>is_prime\<close> holds; that is a prime above 3, or 1 for the numbers 0 and 1
  (so 2 and 3 are never chosen).\<close>
theorem next_prime_returns:
  "\<exists>p. next_prime x = Some p \<and> x \<le> p \<and> (p = 1 \<or> 3 < p \<and> prime_number p) \<and>
     list_all (\<lambda>q. \<not> (3 < q \<and> prime_number q)) [x..<p]"
proof -
  define y where "y = (if x mod 2 = 0 then x + 1 else x)"
  have y: "odd y" "x \<le> y" by (auto simp add: y_def)
  define k where "k = (LEAST k. is_prime (y + 2 * k))"
  have k: "is_prime (y + 2 * k)" unfolding k_def by (rule LeastI_ex [OF some_prime_ahead [OF y(1)]])
  have least: "\<not> is_prime (y + 2 * j)" if "j < k" for j
    using not_less_Least [of j "\<lambda>k. is_prime (y + 2 * k)"] that by (simp add: k_def)
  have nxt: "next_prime x = Some (y + 2 * k)"
    unfolding next_prime_def y_def [symmetric] by (rule while_next [OF k least])
  have "\<not> (3 < q \<and> prime_number q)" if "x \<le> q" "q < y + 2 * k" for q
  proof
    assume q: "3 < q \<and> prime_number q"
    then have "is_prime q" by (simp add: is_prime_iff)
    then have "odd q" using is_prime_odd by (simp add: odd_iff_mod_2_eq_one)
    then have "y \<le> q" using that(1) by (cases "q = x") (auto simp add: y_def odd_iff_mod_2_eq_one)
    moreover have "even (q - y)" using \<open>odd q\<close> y(1) \<open>y \<le> q\<close> by simp
    then obtain j where "q - y = 2 * j" by (rule evenE)
    ultimately have "q = y + 2 * j" by simp
    with least [of j] that(2) \<open>is_prime q\<close> show False by simp
  qed
  with nxt k y(2) show ?thesis
    by (intro exI [of _ "y + 2 * k"]) (auto simp add: is_prime_iff list_all_iff)
qed

end
