(* ===== verification/Hash_Table.thy ===== *)
theory Hash_Table
  imports Primes "HOL-Library.Multiset"
begin

text \<open>
  The trigram hash table: \<open>hash_trigram\<close> of \<open>include/db.h\<close>, \<open>create_hashtable\<close> and the offsets of
  \<open>finish_corpus\<close> in \<open>src/database-builder.cpp\<close>, and \<open>Corpus::find_trigram\<close> of
  \<open>src/flocate.cpp\<close>. The table is a list of entries; a bucket number and a distance are 32-bit
  in the code and natural numbers here, with the wrap-around of the subtraction and of \<open>++bucket\<close>
  written out. \<open>Out_Of_Bounds\<close> is an access behind the table; it is shown never to happen.
\<close>

section \<open>Entries and the hash\<close>

record trigram =
  trgm :: u32
  num_docids :: u32
  tr_offset :: u64

definition empty_slot :: trigram where
  "empty_slot = \<lparr>trgm = -1, num_docids = 0, tr_offset = 0\<rparr>"

fun crc_rounds :: "nat \<Rightarrow> u32 \<Rightarrow> u32" where
  "crc_rounds 0 crc = crc"
| "crc_rounds (Suc n) crc =
     (let b = (crc AND 0x80000000 \<noteq> 0);
          crc = push_bit 1 crc;
          crc = (if b then crc XOR 0x1edc6f41 else crc)
      in crc_rounds n crc)"

definition hash_trigram :: "u32 \<Rightarrow> nat \<Rightarrow> nat" where
  "hash_trigram t ht_size = unat (crc_rounds 32 t) mod ht_size"

section \<open>Robin Hood insertion\<close>

datatype hash_result = Out_Of_Bounds | Too_Far | Table "trigram list"

function insert_entry ::
    "nat \<Rightarrow> nat \<Rightarrow> trigram list \<Rightarrow> trigram \<Rightarrow> nat \<Rightarrow> nat \<Rightarrow> hash_result" where
  "insert_entry ht_size num_overflow_slots ht to_insert bucket distance =
     (if length ht \<le> bucket then Out_Of_Bounds
      else if num_docids (ht ! bucket) \<noteq> 0 then
        let other_distance =
              (bucket + 2 ^ 32 - hash_trigram (trgm (ht ! bucket)) ht_size) mod 2 ^ 32;
            (to_insert, ht, distance) =
              (if other_distance < distance
               then (ht ! bucket, ht[bucket := to_insert], other_distance)
               else (to_insert, ht, distance));
            distance = distance + 1
        in
        if num_overflow_slots < distance then Too_Far
        else insert_entry ht_size num_overflow_slots ht to_insert (bucket + 1) distance
      else Table (ht[bucket := to_insert]))"
  by pat_completeness auto
termination
  by (relation "measure (\<lambda>(ht_size, slots, ht, to_insert, bucket, distance). length ht - bucket)")
    (auto split: if_splits)

declare insert_entry.simps [simp del]

fun insert_all ::
    "(u32 \<Rightarrow> u32) \<Rightarrow> nat \<Rightarrow> nat \<Rightarrow> u32 list \<Rightarrow> trigram list \<Rightarrow> hash_result" where
  "insert_all get_num_docids ht_size num_overflow_slots [] ht = Table ht"
| "insert_all get_num_docids ht_size num_overflow_slots (t # ts) ht =
     (case insert_entry ht_size num_overflow_slots ht
             \<lparr>trgm = t, num_docids = get_num_docids t, tr_offset = 0\<rparr> (hash_trigram t ht_size) 0 of
        Table ht \<Rightarrow> insert_all get_num_docids ht_size num_overflow_slots ts ht
      | r \<Rightarrow> r)"

definition create_hashtable :: "(u32 \<Rightarrow> u32) \<Rightarrow> u32 list \<Rightarrow> nat \<Rightarrow> nat \<Rightarrow> hash_result" where
  "create_hashtable get_num_docids all_trigrams ht_size num_overflow_slots =
     insert_all get_num_docids ht_size num_overflow_slots all_trigrams
       (replicate (ht_size + num_overflow_slots + 1) empty_slot)"

text \<open>
  The loop of \<open>finish_corpus\<close> that makes the table larger until everything fits: the state is the
  size and the last result. \<open>ht_size * 1.05\<close> is computed in double precision, which is exact to
  the integer below for 32-bit sizes.
\<close>

definition grow :: "nat \<Rightarrow> nat option" where
  "grow ht_size = next_prime (ht_size * 105 div 100)"

fun size_table :: "nat \<Rightarrow> (u32 \<Rightarrow> u32) \<Rightarrow> u32 list \<Rightarrow> nat \<Rightarrow> nat \<Rightarrow> (nat \<times> trigram list) option" where
  "size_table 0 get_num_docids all_trigrams num_overflow_slots ht_size = None"
| "size_table (Suc fuel) get_num_docids all_trigrams num_overflow_slots ht_size =
     (case create_hashtable get_num_docids all_trigrams ht_size num_overflow_slots of
        Table ht \<Rightarrow> Some (ht_size, ht)
      | Too_Far \<Rightarrow>
          (case grow ht_size of
             None \<Rightarrow> None
           | Some ht_size \<Rightarrow> size_table fuel get_num_docids all_trigrams num_overflow_slots ht_size)
      | Out_Of_Bounds \<Rightarrow> None)"

section \<open>Offsets and the lookup\<close>

fun set_offsets :: "(u32 \<Rightarrow> u64) \<Rightarrow> u64 \<Rightarrow> trigram list \<Rightarrow> trigram list" where
  "set_offsets encoded_size offset [] = []"
| "set_offsets encoded_size offset (e # es) =
     e\<lparr>tr_offset := offset\<rparr> #
     set_offsets encoded_size
       (if num_docids e = 0 then offset else offset + encoded_size (trgm e)) es"

definition posting_lists :: "(u32 \<Rightarrow> bytes) \<Rightarrow> trigram list \<Rightarrow> bytes" where
  "posting_lists encoded_of ht = concat (map (\<lambda>e. if num_docids e = 0 then [] else encoded_of (trgm e)) ht)"

text \<open>
  The callback of \<open>find_trigram\<close> on the \<open>extra_ht_slots + 2\<close> entries that were read from the
  bucket on: the entry and the length of its posting list, or None for \<open>cb(nullptr, 0)\<close>.
\<close>

fun scan_entries :: "nat \<Rightarrow> u32 \<Rightarrow> trigram list \<Rightarrow> (trigram \<times> u64) option" where
  "scan_entries (Suc n) t (e # e' # es) =
     (if trgm e = t then Some (e, tr_offset e' - tr_offset e) else scan_entries n t (e' # es))"
| "scan_entries _ t _ = None"

definition find_trigram :: "nat \<Rightarrow> nat \<Rightarrow> trigram list \<Rightarrow> u32 \<Rightarrow> (trigram \<times> u64) option" where
  "find_trigram hashtable_size extra_ht_slots table t =
     (let bucket = hash_trigram t hashtable_size
      in scan_entries (extra_ht_slots + 1) t (take (extra_ht_slots + 2) (drop bucket table)))"

section \<open>The invariant of the table\<close>

definition near :: "nat \<Rightarrow> nat \<Rightarrow> trigram \<Rightarrow> nat \<Rightarrow> bool" where
  "near ht_size slots e i \<longleftrightarrow>
     hash_trigram (trgm e) ht_size \<le> i \<and> i \<le> hash_trigram (trgm e) ht_size + slots"

definition table_ok :: "nat \<Rightarrow> nat \<Rightarrow> trigram list \<Rightarrow> bool" where
  "table_ok ht_size slots ht \<longleftrightarrow> 0 < ht_size \<and> length ht = ht_size + slots + 1 \<and>
     (\<forall>i < length ht. if num_docids (ht ! i) = 0 then ht ! i = empty_slot
       else near ht_size slots (ht ! i) i)"

definition entries :: "trigram list \<Rightarrow> trigram multiset" where
  "entries ht = filter_mset (\<lambda>e. num_docids e \<noteq> 0) (mset ht)"

lemma hash_trigram_less: "0 < ht_size \<Longrightarrow> hash_trigram t ht_size < ht_size"
  by (simp add: hash_trigram_def)

lemma entries_update:
  assumes "i < length ht" and "num_docids e \<noteq> 0"
  shows "entries (ht[i := e]) =
    add_mset e (if num_docids (ht ! i) = 0 then entries ht else entries ht - {#ht ! i#})"
  using assms by (auto simp add: entries_def mset_update filter_diff_mset)

lemma entries_member: "i < length ht \<Longrightarrow> num_docids (ht ! i) \<noteq> 0 \<Longrightarrow> ht ! i \<in># entries ht"
  by (simp add: entries_def)

lemma table_ok_update:
  assumes "table_ok ht_size slots ht" and "near ht_size slots e i" and "num_docids e \<noteq> 0"
    and "i < length ht"
  shows "table_ok ht_size slots (ht[i := e])"
  unfolding table_ok_def
proof (intro conjI allI impI)
  fix j assume "j < length (ht[i := e])"
  then show "if num_docids (ht[i := e] ! j) = 0 then ht[i := e] ! j = empty_slot
      else near ht_size slots (ht[i := e] ! j) j"
    using assms by (cases "j = i") (auto simp add: table_ok_def)
qed (use assms in \<open>simp_all add: table_ok_def\<close>)

lemma insert_entry_step:
  assumes "bucket < length ht" and "num_docids (ht ! bucket) \<noteq> 0" and "bucket < 2 ^ 32"
    and "bucket = hash_trigram (trgm (ht ! bucket)) ht_size + od"
  shows "insert_entry ht_size slots ht e bucket distance =
    (if od < distance then
       (if slots < od + 1 then Too_Far
        else insert_entry ht_size slots (ht[bucket := e]) (ht ! bucket) (bucket + 1) (od + 1))
     else
       (if slots < distance + 1 then Too_Far
        else insert_entry ht_size slots ht e (bucket + 1) (distance + 1)))"
proof -
  have "bucket + 2 ^ 32 - hash_trigram (trgm (ht ! bucket)) ht_size = od + 2 ^ 32"
    using assms(4) by linarith
  moreover have "od < 2 ^ 32" using assms(3,4) by linarith
  ultimately have "(bucket + 2 ^ 32 - hash_trigram (trgm (ht ! bucket)) ht_size) mod 2 ^ 32 = od"
    by simp
  with assms(1,2) show ?thesis
    by (simp only: insert_entry.simps [of ht_size slots ht e bucket] Let_def) simp
qed

lemma insert_entry_result:
  assumes "table_ok ht_size slots ht" and "num_docids e \<noteq> 0"
    and "bucket = hash_trigram (trgm e) ht_size + distance" and "distance \<le> slots"
    and "ht_size + slots < 2 ^ 32"
  shows "case insert_entry ht_size slots ht e bucket distance of
      Out_Of_Bounds \<Rightarrow> False
    | Too_Far \<Rightarrow> True
    | Table ht' \<Rightarrow> table_ok ht_size slots ht' \<and> entries ht' = add_mset e (entries ht)"
  using assms
proof (induction "length ht - bucket" arbitrary: ht e bucket distance rule: less_induct)
  case less
  let ?o = "ht ! bucket"
  have near: "near ht_size slots e bucket" using less.prems(3,4) by (simp add: near_def)
  have len: "length ht = ht_size + slots + 1" "0 < ht_size" using less.prems(1) by (simp_all add: table_ok_def)
  have "hash_trigram (trgm e) ht_size < ht_size" by (rule hash_trigram_less [OF len(2)])
  then have b: "bucket < length ht" "bucket < 2 ^ 32" using less.prems(3,4,5) len by simp_all
  show ?case
  proof (cases "num_docids ?o = 0")
    case True
    then show ?thesis
      using b near less.prems(2) table_ok_update [OF less.prems(1) near less.prems(2) b(1)]
      by (simp add: insert_entry.simps [of ht_size slots ht] entries_update)
  next
    case False
    then have o: "near ht_size slots ?o bucket" using less.prems(1) b(1) by (simp add: table_ok_def)
    then obtain od where od: "bucket = hash_trigram (trgm ?o) ht_size + od"
      unfolding near_def using le_Suc_ex by blast
    note step = insert_entry_step [OF b(1) False b(2) od]
    show ?thesis
    proof (cases "od < distance")
      case swap: True
      let ?ht = "ht[bucket := e]"
      have IH: "case insert_entry ht_size slots ?ht ?o (bucket + 1) (od + 1) of
          Out_Of_Bounds \<Rightarrow> False | Too_Far \<Rightarrow> True
        | Table ht' \<Rightarrow> table_ok ht_size slots ht' \<and> entries ht' = add_mset ?o (entries ?ht)"
        if "\<not> slots < od + 1"
        by (rule less.hyps)
          (use that od b(1) False less.prems(5) table_ok_update [OF less.prems(1) near less.prems(2) b(1)]
            in simp_all)
      have "add_mset ?o (entries ?ht) = add_mset e (entries ht)"
        using b(1) False less.prems(2) entries_member [OF b(1) False] by (simp add: entries_update)
      with IH have "case insert_entry ht_size slots ?ht ?o (bucket + 1) (od + 1) of
          Out_Of_Bounds \<Rightarrow> False | Too_Far \<Rightarrow> True
        | Table ht' \<Rightarrow> table_ok ht_size slots ht' \<and> entries ht' = add_mset e (entries ht)"
        if "\<not> slots < od + 1" using that by (simp split: hash_result.splits)
      with swap show ?thesis unfolding step by (cases "slots < od + 1") simp_all
    next
      case stay: False
      have "case insert_entry ht_size slots ht e (bucket + 1) (distance + 1) of
          Out_Of_Bounds \<Rightarrow> False | Too_Far \<Rightarrow> True
        | Table ht' \<Rightarrow> table_ok ht_size slots ht' \<and> entries ht' = add_mset e (entries ht)"
        if "\<not> slots < distance + 1"
        by (rule less.hyps) (use that b(1) less.prems in simp_all)
      with stay show ?thesis unfolding step by (cases "slots < distance + 1") simp_all
    qed
  qed
qed

lemma insert_all_result:
  assumes "table_ok ht_size slots ht" and "\<And>t. t \<in> set ts \<Longrightarrow> get_num_docids t \<noteq> 0"
    and "ht_size + slots < 2 ^ 32"
  shows "case insert_all get_num_docids ht_size slots ts ht of
      Out_Of_Bounds \<Rightarrow> False
    | Too_Far \<Rightarrow> True
    | Table ht' \<Rightarrow> table_ok ht_size slots ht' \<and>
        entries ht' = entries ht + mset (map (\<lambda>t. \<lparr>trgm = t, num_docids = get_num_docids t, tr_offset = 0\<rparr>) ts)"
  using assms
proof (induction ts arbitrary: ht)
  case Nil
  then show ?case by simp
next
  case (Cons t ts)
  let ?e = "\<lparr>trgm = t, num_docids = get_num_docids t, tr_offset = 0\<rparr>"
  have r: "case insert_entry ht_size slots ht ?e (hash_trigram t ht_size) 0 of
      Out_Of_Bounds \<Rightarrow> False | Too_Far \<Rightarrow> True
    | Table ht' \<Rightarrow> table_ok ht_size slots ht' \<and> entries ht' = add_mset ?e (entries ht)"
    by (rule insert_entry_result) (use Cons.prems in simp_all)
  show ?case
  proof (cases "insert_entry ht_size slots ht ?e (hash_trigram t ht_size) 0")
    case (Table ht1)
    with r have 1: "table_ok ht_size slots ht1" "entries ht1 = add_mset ?e (entries ht)" by simp_all
    from Cons.IH [OF 1(1)] Cons.prems(2,3) show ?thesis
      by (simp add: Table 1(2) split: hash_result.splits)
  qed (use r in simp_all)
qed

lemma num_docids_empty [simp]: "num_docids empty_slot = 0"
  by (simp add: empty_slot_def)

lemma empty_table_ok:
  "0 < ht_size \<Longrightarrow> n = ht_size + slots + 1 \<Longrightarrow> table_ok ht_size slots (replicate n empty_slot)"
proof -
  assume "0 < ht_size" and n: "n = ht_size + slots + 1"
  moreover have "replicate n empty_slot ! i = empty_slot" if "i < n" for i using that by simp
  ultimately show ?thesis unfolding table_ok_def length_replicate by (metis num_docids_empty)
qed

lemma entries_empty: "entries (replicate n empty_slot) = {#}"
  by (induction n) (simp_all add: entries_def)

section \<open>The lookup\<close>

text \<open>Different trigrams have different entries, so that a trigram has one place in the table.\<close>

lemma entries_position:
  assumes "e \<in># entries ht"
  obtains i where "i < length ht" and "ht ! i = e" and "num_docids e \<noteq> 0"
  using assms by (auto simp add: entries_def in_set_conv_nth)

lemma scan_entries_first:
  assumes "i < n" and "Suc i < length es" and "trgm (es ! i) = t" and "\<And>j. j < i \<Longrightarrow> trgm (es ! j) \<noteq> t"
  shows "scan_entries n t es = Some (es ! i, tr_offset (es ! Suc i) - tr_offset (es ! i))"
  using assms
proof (induction i arbitrary: n es)
  case 0
  then obtain n' e e' es' where "n = Suc n'" "es = e # e' # es'"
    by (cases n; cases es; cases "tl es") auto
  with 0 show ?case by simp
next
  case (Suc i)
  then obtain n' e e' es' where 1: "n = Suc n'" "es = e # e' # es'"
    by (cases n; cases es; cases "tl es") auto
  have "scan_entries n' t (e' # es') =
      Some ((e' # es') ! i, tr_offset ((e' # es') ! Suc i) - tr_offset ((e' # es') ! i))"
  proof (rule Suc.IH)
    fix j assume "j < i"
    then show "trgm ((e' # es') ! j) \<noteq> t" using Suc.prems(4) [of "Suc j"] by (simp add: 1)
  qed (use Suc.prems 1 in auto)
  moreover have "trgm e \<noteq> t" using Suc.prems(4) [of 0] by (simp add: 1)
  ultimately show ?case by (simp add: 1)
qed

lemma scan_entries_none: "(\<And>j. j < length es \<Longrightarrow> trgm (es ! j) \<noteq> t) \<Longrightarrow> scan_entries n t es = None"
proof (induction n t es rule: scan_entries.induct)
  case (1 n t e e' es)
  have "trgm e \<noteq> t" using "1.prems" [of 0] by simp
  moreover have "scan_entries n t (e' # es) = None"
    by (rule "1.IH") (use \<open>trgm e \<noteq> t\<close> "1.prems" [of "Suc _"] in auto)
  ultimately show ?case by simp
qed simp_all

text \<open>The table that the lookup reads has the offsets filled in; nothing else differs.\<close>

lemma length_set_offsets [simp]: "length (set_offsets size_of offset ht) = length ht"
  by (induction size_of offset ht rule: set_offsets.induct) simp_all

lemma set_offsets_nth:
  "i < length ht \<Longrightarrow> set_offsets size_of offset ht ! i =
     (ht ! i)\<lparr>tr_offset := offset + (\<Sum>e \<leftarrow> take i ht. if num_docids e = 0 then 0 else size_of (trgm e))\<rparr>"
proof (induction size_of offset ht arbitrary: i rule: set_offsets.induct)
  case (2 size_of offset e es)
  then show ?case by (cases i) (simp_all add: add.assoc)
qed simp

lemma distinct_filter_position:
  assumes "distinct (filter P xs)" and "i < length xs" and "j < length xs" and "P (xs ! i)"
    and "xs ! i = xs ! j"
  shows "i = j"
  using assms
proof (induction xs arbitrary: i j)
  case (Cons x xs)
  show ?case
  proof (cases i; cases j)
    fix i' j' assume ij: "i = Suc i'" "j = Suc j'"
    have "distinct (filter P xs)" using Cons.prems(1) by (simp split: if_splits)
    from Cons.IH [OF this, of i' j'] Cons.prems ij show ?thesis by simp
  next
    fix j' assume "i = 0" "j = Suc j'"
    with Cons.prems show ?thesis by (auto simp add: in_set_conv_nth)
  next
    fix i' assume "i = Suc i'" "j = 0"
    with Cons.prems show ?thesis by (auto simp add: in_set_conv_nth split: if_splits)
  qed simp
qed simp

abbreviation new_entry :: "(u32 \<Rightarrow> u32) \<Rightarrow> u32 \<Rightarrow> trigram" where
  "new_entry get_num_docids t \<equiv> \<lparr>trgm = t, num_docids = get_num_docids t, tr_offset = 0\<rparr>"

lemma create_hashtable_result:
  assumes "0 < ht_size" and "ht_size + slots < 2 ^ 32" and "\<And>t. t \<in> set ts \<Longrightarrow> get_num_docids t \<noteq> 0"
  shows "case create_hashtable get_num_docids ts ht_size slots of
      Out_Of_Bounds \<Rightarrow> False
    | Too_Far \<Rightarrow> True
    | Table ht \<Rightarrow> table_ok ht_size slots ht \<and> entries ht = mset (map (new_entry get_num_docids) ts)"
  unfolding create_hashtable_def
  using insert_all_result [of ht_size slots _ ts get_num_docids,
      OF empty_table_ok [OF assms(1) refl] assms(3,2)]
  by (simp only: entries_empty add_0)

lemma table_position:
  assumes "table_ok ht_size slots ht" and "entries ht = mset (map (new_entry get_num_docids) ts)"
    and "distinct ts" and "t \<noteq> -1"
  shows "if t \<in> set ts
    then \<exists>i < length ht. ht ! i = new_entry get_num_docids t \<and> num_docids (ht ! i) \<noteq> 0 \<and>
      near ht_size slots (ht ! i) i \<and> (\<forall>j < length ht. j \<noteq> i \<longrightarrow> trgm (ht ! j) \<noteq> t)
    else \<forall>j < length ht. trgm (ht ! j) \<noteq> t"
proof -
  let ?P = "\<lambda>e. num_docids e \<noteq> 0"
  have ms: "mset (filter ?P ht) = mset (map (new_entry get_num_docids) ts)"
    using assms(2) by (simp add: entries_def)
  have "distinct (map (new_entry get_num_docids) ts)"
    using assms(3) by (simp add: distinct_map inj_on_def)
  then have dist: "distinct (filter ?P ht)" using mset_eq_imp_distinct_iff [OF ms] by simp
  have occ: "ht ! j = new_entry get_num_docids t \<and> ?P (ht ! j) \<and> t \<in> set ts"
    if "j < length ht" "trgm (ht ! j) = t" for j
  proof -
    have P: "?P (ht ! j)"
    proof
      assume "num_docids (ht ! j) = 0"
      then have "ht ! j = empty_slot" using assms(1) that(1) by (simp add: table_ok_def)
      with that(2) assms(4) show False by (simp add: empty_slot_def)
    qed
    then have "ht ! j \<in> set (filter ?P ht)" using that(1) by simp
    then have "ht ! j \<in> set (map (new_entry get_num_docids) ts)" using mset_eq_setD [OF ms] by (simp only:)
    with that(2) P show ?thesis by auto
  qed
  show ?thesis
  proof (cases "t \<in> set ts")
    case True
    then have "new_entry get_num_docids t \<in># mset (filter ?P ht)" unfolding ms by simp
    then obtain i where i: "i < length ht" "ht ! i = new_entry get_num_docids t" "?P (ht ! i)"
      by (auto simp add: in_set_conv_nth)
    have "trgm (ht ! j) \<noteq> t" if "j < length ht" "j \<noteq> i" for j
    proof
      assume "trgm (ht ! j) = t"
      with occ [OF that(1)] i(2) have "ht ! i = ht ! j" by simp
      with distinct_filter_position [OF dist i(1) that(1)] i(3) that(2) show False by simp
    qed
    moreover have "near ht_size slots (ht ! i) i"
      using assms(1) i(1,3) unfolding table_ok_def by metis
    ultimately have "\<exists>i < length ht. ht ! i = new_entry get_num_docids t \<and> num_docids (ht ! i) \<noteq> 0 \<and>
        near ht_size slots (ht ! i) i \<and> (\<forall>j < length ht. j \<noteq> i \<longrightarrow> trgm (ht ! j) \<noteq> t)"
      using i by blast
    with True show ?thesis by simp
  next
    case False
    then show ?thesis using occ by auto
  qed
qed

lemma length_posting_lists_prefix:
  assumes "\<And>t. size_of t = of_nat (length (encoded_of t))"
  shows "(\<Sum>e \<leftarrow> es. if num_docids e = 0 then 0 else size_of (trgm e)) =
    (of_nat (length (posting_lists encoded_of es)) :: u64)"
  by (induction es) (simp_all add: posting_lists_def assms)

lemma find_in_table:
  assumes ok: "table_ok ht_size slots ht" and i: "i < length ht" "num_docids (ht ! i) \<noteq> 0"
    and near: "near ht_size slots (ht ! i) i" and "trgm (ht ! i) = t"
    and uniq: "\<forall>j < length ht. j \<noteq> i \<longrightarrow> trgm (ht ! j) \<noteq> t"
  shows "find_trigram ht_size slots (set_offsets size_of base ht) t =
    Some (set_offsets size_of base ht ! i, size_of t)"
proof -
  let ?T = "set_offsets size_of base ht"
  let ?h = "hash_trigram t ht_size"
  let ?es = "take (slots + 2) (drop ?h ?T)"
  have h: "?h < ht_size" and len: "length ht = ht_size + slots + 1"
    using ok hash_trigram_less [of ht_size t] by (auto simp add: table_ok_def)
  have hi: "?h \<le> i" "i \<le> ?h + slots" using near assms(5) by (auto simp add: near_def)
  then obtain d where d: "i = ?h + d" "d \<le> slots" using le_Suc_ex by fastforce
  have nth: "?es ! j = ?T ! (?h + j)" if "j < slots + 2" for j
    using that h len by simp
  have trg: "trgm (?T ! j) = trgm (ht ! j)" if "j < length ht" for j
    using that by (simp add: set_offsets_nth)
  have "scan_entries (slots + 1) t ?es = Some (?es ! d, tr_offset (?es ! Suc d) - tr_offset (?es ! d))"
  proof (rule scan_entries_first)
    show "Suc d < length ?es" using d h len by simp
    show "trgm (?es ! d) = t" using d i(1) assms(5) by (simp add: nth trg)
    fix j assume "j < d"
    then show "trgm (?es ! j) \<noteq> t" using d h len uniq by (simp add: nth trg)
  qed (use d in simp)
  moreover have "tr_offset (?T ! Suc i) - tr_offset (?T ! i) = size_of t"
  proof -
    have "Suc i < length ht" using hi h len by simp
    then show ?thesis
      using i assms(5) by (simp add: set_offsets_nth take_Suc_conv_app_nth)
  qed
  moreover have "?es ! d = ?T ! i" "?es ! Suc d = ?T ! Suc i"
    using nth [of d] nth [of "Suc d"] d by simp_all
  ultimately show ?thesis by (simp only: find_trigram_def Let_def)
qed

lemma posting_lists_append:
  "posting_lists encoded_of (es @ es') = posting_lists encoded_of es @ posting_lists encoded_of es'"
  by (simp add: posting_lists_def)

lemma posting_list_at:
  assumes "i < length ht" and "num_docids (ht ! i) \<noteq> 0"
  shows "take (length (encoded_of (trgm (ht ! i))))
      (drop (length (posting_lists encoded_of (take i ht))) (posting_lists encoded_of ht)) =
    encoded_of (trgm (ht ! i))"
proof -
  have "posting_lists encoded_of ht = posting_lists encoded_of (take i ht) @
      encoded_of (trgm (ht ! i)) @ posting_lists encoded_of (drop (Suc i) ht)"
    using arg_cong [OF id_take_nth_drop [OF assms(1)], of "posting_lists encoded_of"] assms(2)
    unfolding posting_lists_append by (simp add: posting_lists_def)
  then show ?thesis by simp
qed

lemma built_table_lookup:
  assumes "0 < ht_size" and "ht_size + slots < 2 ^ 32" and "list_all (\<lambda>t. get_num_docids t \<noteq> 0) ts"
    and "distinct ts" and "create_hashtable get_num_docids ts ht_size slots = Table ht"
    and "t \<noteq> -1" and "length (posting_lists encoded_of ht) < 2 ^ 64"
  defines "size_of \<equiv> \<lambda>t. of_nat (length (encoded_of t))"
  shows "if t \<in> set ts
    then \<exists>e. find_trigram ht_size slots (set_offsets size_of base ht) t = Some (e, size_of t) \<and>
      trgm e = t \<and> num_docids e = get_num_docids t \<and>
      take (length (encoded_of t)) (drop (unat (tr_offset e - base)) (posting_lists encoded_of ht)) =
        encoded_of t
    else find_trigram ht_size slots (set_offsets size_of base ht) t = None"
proof -
  have res: "table_ok ht_size slots ht" "entries ht = mset (map (new_entry get_num_docids) ts)"
    using create_hashtable_result [of ht_size slots ts get_num_docids] assms
    by (auto simp add: list_all_iff)
  note pos = table_position [OF res assms(4,6)]
  show ?thesis
  proof (cases "t \<in> set ts")
    case True
    with pos obtain i where i: "i < length ht" "ht ! i = new_entry get_num_docids t"
      "num_docids (ht ! i) \<noteq> 0" "near ht_size slots (ht ! i) i"
      "\<forall>j < length ht. j \<noteq> i \<longrightarrow> trgm (ht ! j) \<noteq> t" by auto
    let ?e = "set_offsets size_of base ht ! i"
    have "find_trigram ht_size slots (set_offsets size_of base ht) t = Some (?e, size_of t)"
      by (rule find_in_table [OF res(1) i(1,3,4) _ i(5)]) (simp add: i(2))
    moreover have "trgm ?e = t" "num_docids ?e = get_num_docids t" using i(1,2) by (simp_all add: set_offsets_nth)
    moreover have "unat (tr_offset ?e - base) = length (posting_lists encoded_of (take i ht))"
    proof -
      have "length (posting_lists encoded_of (take i ht)) \<le> length (posting_lists encoded_of ht)"
        using posting_lists_append [of encoded_of "take i ht" "drop i ht"] by simp
      then have small: "length (posting_lists encoded_of (take i ht)) < 2 ^ 64" using assms(7) by linarith
      have "(\<Sum>e \<leftarrow> take i ht. if num_docids e = 0 then 0 else size_of (trgm e)) =
          of_nat (length (posting_lists encoded_of (take i ht)))"
        by (rule length_posting_lists_prefix) (simp add: size_of_def)
      then have "tr_offset ?e - base = of_nat (length (posting_lists encoded_of (take i ht)))"
        using i(1) by (simp add: set_offsets_nth)
      with small show ?thesis by (simp add: unat_of_nat_small)
    qed
    moreover have "trgm (ht ! i) = t" by (simp add: i(2))
    ultimately show ?thesis
      using True posting_list_at [OF i(1,3), of encoded_of] by auto
  next
    case False
    with pos have "\<forall>j < length ht. trgm (ht ! j) \<noteq> t" by simp
    then have "find_trigram ht_size slots (set_offsets size_of base ht) t = None"
      unfolding find_trigram_def Let_def by (intro scan_entries_none) (auto simp add: set_offsets_nth)
    with False show ?thesis by simp
  qed
qed

section \<open>Properties\<close>



text \<open>C13: When the table has been built from different trigrams with nonempty posting lists, the
  lookup that \<open>flocate\<close> does finds every one of them, with its number of docids and the length of
  its posting list, at an offset where exactly its posting list lies in the file; and it finds no
  other trigram.\<close>
theorem hashtable_lookup:
  assumes "0 < ht_size" and "ht_size + slots < 2 ^ 32" and "list_all (\<lambda>t. get_num_docids t \<noteq> 0) ts"
    and "distinct ts" and "create_hashtable get_num_docids ts ht_size slots = Table ht"
    and "t \<noteq> -1" and "length (posting_lists encoded_of ht) < 2 ^ 64"
  defines "size_of \<equiv> \<lambda>t. of_nat (length (encoded_of t))"
  shows "if t \<in> set ts
    then \<exists>e. find_trigram ht_size slots (set_offsets size_of base ht) t = Some (e, size_of t) \<and>
      num_docids e = get_num_docids t \<and>
      take (length (encoded_of t)) (drop (unat (tr_offset e - base)) (posting_lists encoded_of ht)) =
        encoded_of t
    else find_trigram ht_size slots (set_offsets size_of base ht) t = None"
  using built_table_lookup [OF assms(1-7), of base] unfolding size_of_def by (auto split: if_splits)

lemma hash_trigram_0 [simp]: "hash_trigram 0 n = 0"
proof -
  have "crc_rounds k 0 = 0" for k by (induction k) simp_all
  then show ?thesis by (simp add: hash_trigram_def)
qed

lemma hashtable_lookup_witness:
  "\<exists>ht e. create_hashtable (\<lambda>t. 2) [0] 5 16 = Table ht \<and>
     find_trigram 5 16 (set_offsets (\<lambda>t. 3) 100 ht) 0 = Some (e, 3) \<and> num_docids e = 2"
proof -
  define ht where "ht = new_entry (\<lambda>t. 2) 0 # replicate 21 empty_slot"
  have r: "replicate 22 empty_slot = empty_slot # replicate 21 empty_slot"
    by (simp add: numeral_eq_Suc)
  have ht: "create_hashtable (\<lambda>t. 2) [0] 5 16 = Table ht"
    by (simp add: create_hashtable_def r insert_entry.simps ht_def)
  have "length (posting_lists (\<lambda>t. [1, 2, 3]) ht) < 2 ^ 64"
    by (simp add: ht_def posting_lists_def map_replicate_const concat_replicate_trivial)
  with hashtable_lookup [of 5 16 "\<lambda>t. 2" "[0]" ht 0 "\<lambda>t. [1, 2, 3]" 100] ht show ?thesis by auto
qed

end
