(* ===== verification/Trigrams.thy ===== *)
theory Trigrams
  imports Prelude
begin

text \<open>
  \<open>src/parse_trigrams.cpp\<close> and \<open>src/needle.cpp\<close>: how a pattern is read as a sequence of unigrams
  (letters, escaped letters and wildcards), how a plain pattern is unescaped, and which trigrams
  a pattern requires. The trigrams of a plain pattern must occur in every file name that
  contains the pattern; this holds for patterns without a backslash and fails for the others,
  since a pattern that was already unescaped is read as an escaped one.
\<close>

section \<open>Unigrams\<close>

abbreviation backslash :: byte where "backslash \<equiv> 92"
abbreviation open_bracket :: byte where "open_bracket \<equiv> 91"
abbreviation close_bracket :: byte where "close_bracket \<equiv> 93"

definition WILDCARD_UNIGRAM :: u32 where
  "WILDCARD_UNIGRAM = 0xFF000000"

definition PREMATURE_END_UNIGRAM :: u32 where
  "PREMATURE_END_UNIGRAM = 0xFF000001"

function class_end :: "bytes \<Rightarrow> nat \<Rightarrow> nat \<Rightarrow> u32 \<times> nat" where
  "class_end s start len =
     (if length s \<le> start + len then (PREMATURE_END_UNIGRAM, len)
      else if s ! (start + len) = close_bracket then (WILDCARD_UNIGRAM, len + 1)
      else class_end s start (len + 1))"
  by pat_completeness auto
termination
  by (relation "measure (\<lambda>(s, start, len). length s - (start + len))") auto

declare class_end.simps [simp del]

definition read_unigram :: "bytes \<Rightarrow> nat \<Rightarrow> u32 \<times> nat" where
  "read_unigram s start =
     (if length s \<le> start then (PREMATURE_END_UNIGRAM, 0)
      else if s ! start = backslash then
        (if length s \<le> start + 1 then (PREMATURE_END_UNIGRAM, 1)
         else (ucast (s ! (start + 1)), 2))
      else if s ! start = 42 \<or> s ! start = 63 then (WILDCARD_UNIGRAM, 1)
      else if s ! start = open_bracket then
        let len = 1 in
        if length s \<le> start + len then (PREMATURE_END_UNIGRAM, len)
        else
          let len = (if s ! (start + len) = 33 then len + 1 else len) in
          if length s \<le> start + len then (PREMATURE_END_UNIGRAM, len)
          else
            let len = (if s ! (start + len) = close_bracket then len + 1 else len)
            in class_end s start len
      else (ucast (s ! start), 1))"

definition read_trigram :: "bytes \<Rightarrow> nat \<Rightarrow> u32" where
  "read_trigram s start =
     (let (u1, l1) = read_unigram s start in
      if u1 = WILDCARD_UNIGRAM \<or> u1 = PREMATURE_END_UNIGRAM then u1
      else
        let (u2, l2) = read_unigram s (start + l1) in
        if u2 = WILDCARD_UNIGRAM \<or> u2 = PREMATURE_END_UNIGRAM then u2
        else
          let (u3, l3) = read_unigram s (start + l1 + l2) in
          if u3 = WILDCARD_UNIGRAM \<or> u3 = PREMATURE_END_UNIGRAM then u3
          else u1 OR push_bit 8 u2 OR push_bit 16 u3)"

lemma class_end_progress:
  "len \<le> snd (class_end s start len) \<and>
   (start + len \<le> length s \<longrightarrow> start + snd (class_end s start len) \<le> length s)"
proof (induction s start len rule: class_end.induct)
  case (1 s start len)
  then show ?case
    by (cases "length s \<le> start + len"; cases "s ! (start + len) = close_bracket")
      (auto simp add: class_end.simps [of s start len])
qed

lemma read_unigram_progress:
  assumes "start < length s"
  shows "0 < snd (read_unigram s start)" and "start + snd (read_unigram s start) \<le> length s"
  using assms class_end_progress [of 1 s start] class_end_progress [of 2 s start]
    class_end_progress [of 3 s start]
  by (auto simp add: read_unigram_def Let_def numeral_3_eq_3 numeral_2_eq_2)

section \<open>The trigrams of a pattern\<close>

text \<open>
  The groups that the search needs: the alternatives of each disjunction. The other fields of
  \<open>TrigramDisjunction\<close> are the search's own bookkeeping and start from these.
\<close>

function parse_trigrams_from :: "bytes \<Rightarrow> nat \<Rightarrow> u32 list list" where
  "parse_trigrams_from needle i =
     (if i < length needle then
        let trgm = read_trigram needle i;
            rest = parse_trigrams_from needle (i + snd (read_unigram needle i))
        in
        if trgm = WILDCARD_UNIGRAM \<or> trgm = PREMATURE_END_UNIGRAM then rest else [trgm] # rest
      else [])"
  by pat_completeness auto
termination
  by (relation "measure (\<lambda>(needle, i). length needle - i)")
    (auto simp: read_unigram_progress(1) diff_less_mono2)

declare parse_trigrams_from.simps [simp del]

definition parse_trigrams_case_sensitive :: "bytes \<Rightarrow> u32 list list" where
  "parse_trigrams_case_sensitive needle = parse_trigrams_from needle 0"

section \<open>Needles\<close>

text \<open>The loop of \<open>main\<close> that decides between a glob and a plain string.\<close>

function any_wildcard_from :: "bytes \<Rightarrow> nat \<Rightarrow> bool" where
  "any_wildcard_from s i =
     (if i < length s then
        if fst (read_unigram s i) = WILDCARD_UNIGRAM then True
        else any_wildcard_from s (i + snd (read_unigram s i))
      else False)"
  by pat_completeness auto
termination
  by (relation "measure (\<lambda>(s, i). length s - i)")
    (auto simp: read_unigram_progress(1) diff_less_mono2)

declare any_wildcard_from.simps [simp del]

text \<open>None: the failed assertion, or the exit with "ended prematurely".\<close>

function unescape_from :: "bytes \<Rightarrow> nat \<Rightarrow> bytes option" where
  "unescape_from needle i =
     (if i < length needle then
        let ch = fst (read_unigram needle i) in
        if ch = WILDCARD_UNIGRAM \<or> ch = PREMATURE_END_UNIGRAM then None
        else
          map_option (\<lambda>rest. ucast ch # rest)
            (unescape_from needle (i + snd (read_unigram needle i)))
      else Some [])"
  by pat_completeness auto
termination
  by (relation "measure (\<lambda>(needle, i). length needle - i)")
    (auto simp: read_unigram_progress(1) diff_less_mono2)

declare unescape_from.simps [simp del]

definition unescape_glob_to_plain_string :: "bytes \<Rightarrow> bytes option" where
  "unescape_glob_to_plain_string needle = unescape_from needle 0"

datatype needle_type = STRSTR | REGEX | GLOB

record needle =
  n_type :: needle_type
  n_str :: bytes

text \<open>
  The needle that \<open>main\<close> makes of an argument; None is the exit of the unescaping. (A compiled
  regex is made from \<open>n_str\<close> by \<open>regcomp\<close>.)
\<close>

definition make_needle :: "bool \<Rightarrow> bool \<Rightarrow> bytes \<Rightarrow> needle option" where
  "make_needle patterns_are_regex ignore_case arg =
     (let any_wildcard = any_wildcard_from arg 0 in
      if patterns_are_regex then Some \<lparr>n_type = REGEX, n_str = arg\<rparr>
      else if any_wildcard then Some \<lparr>n_type = GLOB, n_str = arg\<rparr>
      else if ignore_case then Some \<lparr>n_type = GLOB, n_str = [42] @ arg @ [42]\<rparr>
      else
        (case unescape_glob_to_plain_string arg of
           None \<Rightarrow> None
         | Some plain \<Rightarrow> Some \<lparr>n_type = STRSTR, n_str = plain\<rparr>))"

text \<open>\<open>strstr\<close>: the pattern at some position of the haystack.\<close>

fun strstr :: "bytes \<Rightarrow> bytes \<Rightarrow> bool" where
  "strstr [] pat \<longleftrightarrow> pat = []"
| "strstr (c # cs) pat \<longleftrightarrow> take (length pat) (c # cs) = pat \<or> strstr cs pat"

text \<open>\<open>fnmatch\<close> and \<open>regexec\<close> are functions of the C library: parameters.\<close>

definition matches ::
    "(bytes \<Rightarrow> bytes \<Rightarrow> bool \<Rightarrow> bool) \<Rightarrow> (bytes \<Rightarrow> bytes \<Rightarrow> bool) \<Rightarrow> bool \<Rightarrow> needle \<Rightarrow> bytes \<Rightarrow> bool" where
  "matches fnmatch regexec ignore_case nd haystack =
     (case n_type nd of
        STRSTR \<Rightarrow> strstr haystack (n_str nd)
      | GLOB \<Rightarrow> fnmatch (n_str nd) haystack ignore_case
      | REGEX \<Rightarrow> regexec (n_str nd) haystack)"

section \<open>The trigrams of a file name\<close>

definition trigram_of :: "byte \<Rightarrow> byte \<Rightarrow> byte \<Rightarrow> u32" where
  "trigram_of a b c = ucast a OR push_bit 8 (ucast b) OR push_bit 16 (ucast c)"

fun file_trigrams :: "bytes \<Rightarrow> u32 list" where
  "file_trigrams (a # b # c # cs) = trigram_of a b c # file_trigrams (b # c # cs)"
| "file_trigrams _ = []"

lemma strstr_iff: "strstr h pat \<longleftrightarrow> (\<exists>pre post. h = pre @ pat @ post)"
proof (induction h)
  case (Cons c cs)
  have "take (length pat) (c # cs) = pat \<longleftrightarrow> (\<exists>post. c # cs = pat @ post)"
    by (metis append_eq_conv_conj append_take_drop_id)
  moreover have "(\<exists>pre post. c # cs = pre @ pat @ post) \<longleftrightarrow>
      (\<exists>post. c # cs = pat @ post) \<or> (\<exists>pre post. cs = pre @ pat @ post)"
    by (auto simp add: Cons_eq_append_conv)
  ultimately show ?case using Cons by simp
qed simp

lemma file_trigrams_nth:
  "i + 3 \<le> length f \<Longrightarrow> trigram_of (f ! i) (f ! (i + 1)) (f ! (i + 2)) \<in> set (file_trigrams f)"
proof (induction f arbitrary: i rule: file_trigrams.induct)
  case (1 a b c cs)
  show ?case
  proof (cases i)
    case (Suc j)
    with 1 have "trigram_of ((b # c # cs) ! j) ((b # c # cs) ! (j + 1)) ((b # c # cs) ! (j + 2))
        \<in> set (file_trigrams (b # c # cs))" by simp
    with Suc show ?thesis by simp
  qed simp
qed simp_all

lemma file_trigrams_append: "t \<in> set (file_trigrams g) \<Longrightarrow> t \<in> set (file_trigrams (f @ g))"
proof (induction f)
  case (Cons a f)
  then have "t \<in> set (file_trigrams (f @ g))" by simp
  then show ?case
    by (cases "f @ g" rule: file_trigrams.cases) auto
qed simp

lemma file_trigrams_prefix: "t \<in> set (file_trigrams f) \<Longrightarrow> t \<in> set (file_trigrams (f @ g))"
proof (induction f rule: file_trigrams.induct)
  case (1 a b c cs)
  then show ?case by (cases "t = trigram_of a b c") simp_all
qed simp_all

section \<open>Patterns without a backslash\<close>

lemma ucast_not_special [simp]:
  "(ucast (b :: byte) :: u32) \<noteq> WILDCARD_UNIGRAM" "(ucast (b :: byte) :: u32) \<noteq> PREMATURE_END_UNIGRAM"
proof -
  have "unat (ucast b :: u32) = take_bit 32 (unat b)" by (simp add: unsigned_ucast_eq)
  also have "\<dots> < 256"
    using unat_u8_less [of b] by (simp add: take_bit_eq_mod mod_less_divisor less_trans)
  finally have "unat (ucast b :: u32) < 256" .
  moreover have "\<not> unat WILDCARD_UNIGRAM < 256" "\<not> unat PREMATURE_END_UNIGRAM < 256"
    by (simp_all add: WILDCARD_UNIGRAM_def PREMATURE_END_UNIGRAM_def)
  ultimately show "(ucast b :: u32) \<noteq> WILDCARD_UNIGRAM" "(ucast b :: u32) \<noteq> PREMATURE_END_UNIGRAM"
    by metis+
qed

lemma class_end_special: "fst (class_end s start len) \<in> {WILDCARD_UNIGRAM, PREMATURE_END_UNIGRAM}"
  by (induction s start len rule: class_end.induct) (simp add: class_end.simps)

lemma read_unigram_letter:
  assumes "backslash \<notin> set s" and "fst (read_unigram s i) \<notin> {WILDCARD_UNIGRAM, PREMATURE_END_UNIGRAM}"
  shows "i < length s" and "read_unigram s i = (ucast (s ! i), 1)"
proof -
  show i: "i < length s" using assms(2) by (auto simp add: read_unigram_def split: if_splits)
  then have "s ! i \<noteq> backslash" using assms(1) nth_mem by metis
  then show "read_unigram s i = (ucast (s ! i), 1)"
    using i assms(2) class_end_special [of s i]
    by (auto simp add: read_unigram_def Let_def split: if_splits)
qed

lemma read_trigram_letters:
  assumes "backslash \<notin> set s" and "read_trigram s i \<noteq> WILDCARD_UNIGRAM" "read_trigram s i \<noteq> PREMATURE_END_UNIGRAM"
  shows "i + 3 \<le> length s" and "read_trigram s i = trigram_of (s ! i) (s ! (i + 1)) (s ! (i + 2))"
proof -
  obtain u1 l1 where u1: "read_unigram s i = (u1, l1)" by force
  obtain u2 l2 where u2: "read_unigram s (i + l1) = (u2, l2)" by force
  obtain u3 l3 where u3: "read_unigram s (i + l1 + l2) = (u3, l3)" by force
  have n: "u1 \<notin> {WILDCARD_UNIGRAM, PREMATURE_END_UNIGRAM}" "u2 \<notin> {WILDCARD_UNIGRAM, PREMATURE_END_UNIGRAM}"
    "u3 \<notin> {WILDCARD_UNIGRAM, PREMATURE_END_UNIGRAM}"
    using assms(2,3) u1 u2 u3 by (auto simp add: read_trigram_def split: if_splits)
  have 1: "l1 = 1" "u1 = ucast (s ! i)" using read_unigram_letter [OF assms(1), of i] n(1) u1 by simp_all
  have 2: "l2 = 1" "u2 = ucast (s ! (i + 1))"
    using read_unigram_letter [OF assms(1), of "i + l1"] n(2) u2 1 by simp_all
  have 3: "i + 2 < length s" "u3 = ucast (s ! (i + 2))"
    using read_unigram_letter [OF assms(1), of "i + l1 + l2"] n(3) u3 1 2 by simp_all
  show "i + 3 \<le> length s" using 3(1) by simp
  show "read_trigram s i = trigram_of (s ! i) (s ! (i + 1)) (s ! (i + 2))"
    using n u1 u2 u3 1 2 3 by (simp add: read_trigram_def trigram_of_def)
qed

lemma parse_trigrams_from_letters:
  assumes "backslash \<notin> set s" and "g \<in> set (parse_trigrams_from s i)"
  shows "\<exists>j. j + 3 \<le> length s \<and> g = [trigram_of (s ! j) (s ! (j + 1)) (s ! (j + 2))]"
  using assms
proof (induction s i rule: parse_trigrams_from.induct)
  case (1 s i)
  show ?case
  proof (cases "i < length s \<and> g = [read_trigram s i] \<and>
      read_trigram s i \<notin> {WILDCARD_UNIGRAM, PREMATURE_END_UNIGRAM}")
    case True
    then show ?thesis using read_trigram_letters [OF "1.prems"(1), of i] by auto
  next
    case False
    then have "i < length s" "g \<in> set (parse_trigrams_from s (i + snd (read_unigram s i)))"
      using "1.prems"(2) by (auto simp add: parse_trigrams_from.simps [of s i] Let_def split: if_splits)
    with "1.IH" "1.prems"(1) show ?thesis by blast
  qed
qed

section \<open>Escaping\<close>

lemma read_unigram_escaped:
  "read_unigram (pre @ backslash # c # rest) (length pre) = (ucast c, 2)"
  by (simp add: read_unigram_def nth_append)

definition escape_all :: "bytes \<Rightarrow> bytes" where
  "escape_all s = concat (map (\<lambda>c. [backslash, c]) s)"

lemma unescape_from_escaped:
  "unescape_from (pre @ escape_all s) (length pre) = Some s"
proof (induction s arbitrary: pre)
  case Nil
  then show ?case by (simp add: escape_all_def unescape_from.simps)
next
  case (Cons c s)
  have e: "pre @ escape_all (c # s) = (pre @ [backslash, c]) @ escape_all s"
    by (simp add: escape_all_def)
  have "ucast (ucast c :: u32) = c"
    by (rule bit_word_eqI) (simp add: bit_ucast_iff)
  then show ?case
    using Cons.IH [of "pre @ [backslash, c]"] unfolding e
    by (subst unescape_from.simps) (simp add: read_unigram_escaped Let_def)
qed

lemma any_wildcard_escaped: "\<not> any_wildcard_from (pre @ escape_all s) (length pre)"
proof (induction s arbitrary: pre)
  case Nil
  then show ?case by (simp add: escape_all_def any_wildcard_from.simps)
next
  case (Cons c s)
  have e: "pre @ escape_all (c # s) = (pre @ [backslash, c]) @ escape_all s"
    by (simp add: escape_all_def)
  from Cons.IH [of "pre @ [backslash, c]"] show ?case unfolding e
    by (subst any_wildcard_from.simps) (simp add: read_unigram_escaped)
qed

lemma required_trigram_occurs:
  assumes "n_type nd = STRSTR" and "backslash \<notin> set (n_str nd)"
    and "g \<in> set (parse_trigrams_case_sensitive (n_str nd))"
    and "matches fnmatch regexec ic nd haystack"
  shows "\<exists>t. g = [t] \<and> t \<in> set (file_trigrams (dir @ haystack))"
proof -
  obtain j where j: "j + 3 \<le> length (n_str nd)"
    "g = [trigram_of (n_str nd ! j) (n_str nd ! (j + 1)) (n_str nd ! (j + 2))]"
    using parse_trigrams_from_letters [OF assms(2)] assms(3)
    by (auto simp add: parse_trigrams_case_sensitive_def)
  obtain pre post where h: "haystack = pre @ n_str nd @ post"
    using assms(1,4) by (auto simp add: matches_def strstr_iff)
  have "trigram_of (n_str nd ! j) (n_str nd ! (j + 1)) (n_str nd ! (j + 2)) \<in> set (file_trigrams (n_str nd))"
    by (rule file_trigrams_nth [OF j(1)])
  then have "trigram_of (n_str nd ! j) (n_str nd ! (j + 1)) (n_str nd ! (j + 2))
      \<in> set (file_trigrams ((dir @ pre) @ n_str nd @ post))"
    by (intro file_trigrams_append file_trigrams_prefix)
  with j(2) h show ?thesis by simp
qed

section \<open>Properties\<close>

text \<open>Every pattern string can be searched for: escaping each of its characters with a
  backslash gives an argument that becomes a plain needle for exactly that string, whatever
  wildcard characters the string contains.\<close>
theorem escaped_argument_is_plain_needle:
  "make_needle False False (escape_all s) = Some \<lparr>n_type = STRSTR, n_str = s\<rparr>"
  using unescape_from_escaped [of "[]" s] any_wildcard_escaped [of "[]" s]
  by (simp add: make_needle_def unescape_glob_to_plain_string_def Let_def)

text \<open>For a plain needle whose string has no backslash, every trigram that the search requires
  occurs in every file name that contains the string, also when only the last component of the
  name is matched: pruning by these trigrams loses no match.\<close>
theorem plain_trigrams_occur:
  assumes "n_type nd = STRSTR" and "backslash \<notin> set (n_str nd)"
    and "g \<in> set (parse_trigrams_case_sensitive (n_str nd))"
    and "matches fnmatch regexec ic nd haystack"
  shows "\<exists>t. g = [t] \<and> t \<in> set (file_trigrams (dir @ haystack))"
  using assms by (rule required_trigram_occurs)

lemma plain_trigrams_occur_witness:
  "\<exists>t. [trigram_of 98 97 114] = [t] \<and> t \<in> set (file_trigrams ([47] @ [97, 98, 97, 114, 99]))"
proof (rule plain_trigrams_occur [where nd = "\<lparr>n_type = STRSTR, n_str = [98, 97, 114]\<rparr>"
      and fnmatch = "\<lambda>_ _ _. False" and regexec = "\<lambda>_ _. False" and ic = False])
  show "[trigram_of 98 97 114] \<in>
      set (parse_trigrams_case_sensitive (n_str \<lparr>n_type = STRSTR, n_str = [98, 97, 114]\<rparr>))"
    by (simp add: parse_trigrams_case_sensitive_def parse_trigrams_from.simps read_trigram_def
        read_unigram_def WILDCARD_UNIGRAM_def PREMATURE_END_UNIGRAM_def trigram_of_def Let_def)
qed (simp_all add: matches_def)

text \<open>The needle of the argument \<open>foo\\\\bar\<close> (an escaped backslash) is the plain string
  \<open>foo\\bar\<close>, which the file name \<open>/foo\\bar\<close> contains; but the trigrams are read from the
  unescaped string as if it were escaped again, and the search requires \<open>oob\<close>, which the file
  name does not have: the file is never found.\<close>
theorem backslash_pattern_loses_match:
  "\<exists>nd t. make_needle False False (str ''foo'' @ [backslash, backslash] @ str ''bar'') = Some nd \<and>
     matches fnmatch regexec ic nd (str ''/foo'' @ [backslash] @ str ''bar'') \<and>
     [t] \<in> set (parse_trigrams_case_sensitive (n_str nd)) \<and>
     t \<notin> set (file_trigrams (str ''/foo'' @ [backslash] @ str ''bar''))"
proof -
  let ?n = "str ''foo'' @ [backslash] @ str ''bar''"
  let ?nd = "\<lparr>n_type = STRSTR, n_str = ?n\<rparr>"
  have "make_needle False False (str ''foo'' @ [backslash, backslash] @ str ''bar'') = Some ?nd"
    by (simp add: make_needle_def str_def any_wildcard_from.simps unescape_glob_to_plain_string_def
        unescape_from.simps read_unigram_def WILDCARD_UNIGRAM_def PREMATURE_END_UNIGRAM_def Let_def)
  moreover have "matches fnmatch regexec ic ?nd (str ''/foo'' @ [backslash] @ str ''bar'')"
    by (simp add: matches_def str_def)
  moreover have "[trigram_of 111 111 98] \<in> set (parse_trigrams_case_sensitive ?n)"
    by (simp add: parse_trigrams_case_sensitive_def parse_trigrams_from.simps read_trigram_def
        read_unigram_def WILDCARD_UNIGRAM_def PREMATURE_END_UNIGRAM_def trigram_of_def Let_def str_def)
  moreover have "trigram_of 111 111 98 \<notin> set (file_trigrams (str ''/foo'' @ [backslash] @ str ''bar''))"
    by (simp add: trigram_of_def str_def)
  ultimately show ?thesis by auto
qed

end
