(* ===== verification/Search.thy ===== *)
theory Search
  imports Hash_Table Trigrams
begin

text \<open>
  The index search of \<open>do_search_file\<close> in \<open>src/flocate.cpp\<close>: the groups of trigrams that a needle
  requires, their lookup in the hash table, and the loop that reads posting lists and narrows the
  candidate blocks. Reads complete in any order (io_uring), so the loop is a step relation in which
  the completion of a read in flight is always possible; the synchronous engine is the run in
  which every read completes at once.
\<close>

section \<open>Trigram groups\<close>

record trigram_disjunction =
  td_index :: u32
  trigram_alternatives :: "u32 list"
  read_trigrams :: "(trigram \<times> u64) list"
  max_num_docids :: u32
  docids :: "u32 list"
  remaining_trigrams_to_read :: u32

definition new_group :: "u32 list \<Rightarrow> trigram_disjunction" where
  "new_group alternatives =
     \<lparr>td_index = -1, trigram_alternatives = alternatives, read_trigrams = [], max_num_docids = 0,
      docids = [], remaining_trigrams_to_read = of_nat (length alternatives)\<rparr>"

definition unique_groups :: "trigram_disjunction list \<Rightarrow> trigram_disjunction list" where
  "unique_groups gs = remdups_adj (sort_key trigram_alternatives gs)"

definition name_groups :: "trigram_disjunction list \<Rightarrow> trigram_disjunction list" where
  "name_groups gs = map2 (\<lambda>i td. td\<lparr>td_index := of_nat i\<rparr>) [0..<length gs] gs"

text \<open>The groups of all needles of a case-sensitive search.\<close>

definition needle_groups :: "needle list \<Rightarrow> trigram_disjunction list" where
  "needle_groups needles =
     name_groups (unique_groups
       (map new_group (concat (map (parse_trigrams_case_sensitive \<circ> n_str) needles))))"

text \<open>
  The pointers that \<open>trigrams_to_lookup\<close> and \<open>uses_trigram\<close> hold for a trigram: the positions of
  its groups, once for every time it is an alternative.
\<close>

definition uses_trigram :: "trigram_disjunction list \<Rightarrow> u32 \<Rightarrow> nat list" where
  "uses_trigram gs t =
     concat (map (\<lambda>i. replicate (count_list (trigram_alternatives (gs ! i)) t) i) [0..<length gs])"

section \<open>Lookup in the hash table\<close>

text \<open>
  The callback of \<open>find_trigram\<close> for one group; the second component is set when the group has
  nothing left to look up and nothing found, and the search is over without a match.
\<close>

definition looked_up ::
    "(trigram \<times> u64) option \<Rightarrow> trigram_disjunction \<Rightarrow> trigram_disjunction \<times> bool" where
  "looked_up found td =
     (case found of
        None \<Rightarrow>
          (let td = td\<lparr>remaining_trigrams_to_read := remaining_trigrams_to_read td - 1\<rparr>
           in (td, remaining_trigrams_to_read td = 0 \<and> read_trigrams td = []))
      | Some (e, len) \<Rightarrow>
          (td\<lparr>remaining_trigrams_to_read := remaining_trigrams_to_read td - 1,
              max_num_docids := max_num_docids td + num_docids e,
              read_trigrams := read_trigrams td @ [(e, len)]\<rparr>, False))"

fun looked_up_all ::
    "(trigram \<times> u64) option \<Rightarrow> nat list \<Rightarrow> trigram_disjunction list \<times> bool \<Rightarrow> trigram_disjunction list \<times> bool" where
  "looked_up_all found [] (gs, early_exit) = (gs, early_exit)"
| "looked_up_all found (i # is) (gs, early_exit) =
     (let (td, over) = looked_up found (gs ! i)
      in looked_up_all found is (gs[i := td], early_exit \<or> over))"

text \<open>The lookups of the trigrams \<open>ts\<close>, in the order in which they complete.\<close>

fun look_up ::
    "(u32 \<Rightarrow> (trigram \<times> u64) option) \<Rightarrow> u32 list \<Rightarrow> trigram_disjunction list \<times> bool \<Rightarrow> trigram_disjunction list \<times> bool" where
  "look_up lookup [] s = s"
| "look_up lookup (t # ts) (gs, early_exit) =
     look_up lookup ts (looked_up_all (lookup t) (uses_trigram gs t) (gs, early_exit))"

definition reset_for_reads :: "trigram_disjunction \<Rightarrow> trigram_disjunction" where
  "reset_for_reads td = td\<lparr>remaining_trigrams_to_read := of_nat (length (read_trigrams td))\<rparr>"

section \<open>Reading the posting lists\<close>

text \<open>\<open>std::set_union\<close> and \<open>std::set_intersection\<close>\<close>

fun set_union :: "u32 list \<Rightarrow> u32 list \<Rightarrow> u32 list" where
  "set_union [] ys = ys"
| "set_union xs [] = xs"
| "set_union (x # xs) (y # ys) =
     (if x < y then x # set_union xs (y # ys)
      else if y < x then y # set_union (x # xs) ys
      else x # set_union xs ys)"

fun set_intersection :: "u32 list \<Rightarrow> u32 list \<Rightarrow> u32 list" where
  "set_intersection [] ys = []"
| "set_intersection xs [] = []"
| "set_intersection (x # xs) (y # ys) =
     (if x < y then set_intersection xs (y # ys)
      else if y < x then set_intersection (x # xs) ys
      else x # set_intersection xs ys)"

text \<open>A vector is empty after it has been moved from. The result is true when the search is done.\<close>

definition new_posting_list_read ::
    "bool \<Rightarrow> trigram_disjunction \<Rightarrow> u32 list \<Rightarrow> u32 list \<Rightarrow> bool \<times> trigram_disjunction \<times> u32 list" where
  "new_posting_list_read ignore_case td decoded cur =
     (let td = td\<lparr>docids := if docids td = [] then decoded else set_union decoded (docids td)\<rparr>;
          td = td\<lparr>remaining_trigrams_to_read := remaining_trigrams_to_read td - 1\<rparr>
      in if 0 < remaining_trigrams_to_read td then (False, td, cur)
         else if cur = [] then (False, td\<lparr>docids := []\<rparr>, docids td)
         else
           let cur = set_intersection cur (docids td)
           in (ignore_case \<and> cur = [], td, cur))"

fun deliver ::
    "bool \<Rightarrow> u32 list \<Rightarrow> nat list \<Rightarrow> trigram_disjunction list \<Rightarrow> u32 list \<Rightarrow>
     bool \<times> trigram_disjunction list \<times> u32 list" where
  "deliver ignore_case decoded [] gs cur = (False, gs, cur)"
| "deliver ignore_case decoded (i # is) gs cur =
     (let (over, td, cur) = new_posting_list_read ignore_case (gs ! i) decoded cur
      in if over then (True, gs[i := td], cur)
         else deliver ignore_case decoded is (gs[i := td]) cur)"

section \<open>The search loop\<close>

datatype phase =
    At_Group nat
  | Reading nat "(trigram \<times> u64) list"
  | Flushing nat "trigram \<times> u64" "(trigram \<times> u64) list"
  | Final_Flush
  | Search_Over

record search_state =
  groups :: "trigram_disjunction list"
  cur_candidates :: "u32 list"
  search_done :: bool
  submitted :: "u32 list"
  in_flight :: "(trigram \<times> u64) list"
  phase :: phase

definition start_search :: "trigram_disjunction list \<Rightarrow> search_state" where
  "start_search gs =
     \<lparr>groups = gs, cur_candidates = [], search_done = False, submitted = [], in_flight = [],
      phase = At_Group 0\<rparr>"

text \<open>The callback of a posting-list read whose decoded contents are \<open>decoded\<close>.\<close>

definition read_callback :: "bool \<Rightarrow> u32 list \<Rightarrow> u32 \<Rightarrow> search_state \<Rightarrow> search_state" where
  "read_callback ignore_case decoded t s =
     (if search_done s then s
      else
        let (over, gs, cur) = deliver ignore_case decoded (uses_trigram (groups s) t) (groups s) (cur_candidates s)
        in s\<lparr>search_done := over, groups := gs, cur_candidates := cur\<rparr>)"

definition too_many :: "trigram_disjunction \<Rightarrow> u32 list \<Rightarrow> bool" where
  "too_many td cur \<longleftrightarrow> cur \<noteq> [] \<and> length cur * 100 < unat (max_num_docids td)"

inductive search_step ::
    "bool \<Rightarrow> (trigram \<times> u64 \<Rightarrow> u32 list) \<Rightarrow> search_state \<Rightarrow> search_state \<Rightarrow> bool"
  for ignore_case posting where
  ignore_rest:
    "phase s = At_Group i \<Longrightarrow> i < length (groups s) \<Longrightarrow> too_many (groups s ! i) (cur_candidates s) \<Longrightarrow>
     search_step ignore_case posting s (s\<lparr>phase := Final_Flush\<rparr>)"
| enter_group:
    "phase s = At_Group i \<Longrightarrow> i < length (groups s) \<Longrightarrow> \<not> too_many (groups s ! i) (cur_candidates s) \<Longrightarrow>
     search_step ignore_case posting s (s\<lparr>phase := Reading (Suc i) (read_trigrams (groups s ! i))\<rparr>)"
| no_more_groups:
    "phase s = At_Group i \<Longrightarrow> length (groups s) \<le> i \<Longrightarrow>
     search_step ignore_case posting s (s\<lparr>phase := Final_Flush\<rparr>)"
| group_submitted:
    "phase s = Reading i [] \<Longrightarrow> search_step ignore_case posting s (s\<lparr>phase := At_Group i\<rparr>)"
| already_submitted:
    "phase s = Reading i (x # xs) \<Longrightarrow> trgm (fst x) \<in> set (submitted s) \<Longrightarrow>
     search_step ignore_case posting s (s\<lparr>phase := Reading i xs\<rparr>)"
| submit:
    "phase s = Reading i (x # xs) \<Longrightarrow> trgm (fst x) \<notin> set (submitted s) \<Longrightarrow> length (in_flight s) < 5 \<Longrightarrow>
     search_step ignore_case posting s
       (s\<lparr>submitted := trgm (fst x) # submitted s, in_flight := in_flight s @ [x], phase := Reading i xs\<rparr>)"
| too_far_ahead:
    "phase s = Reading i (x # xs) \<Longrightarrow> trgm (fst x) \<notin> set (submitted s) \<Longrightarrow> 5 \<le> length (in_flight s) \<Longrightarrow>
     search_step ignore_case posting s
       (s\<lparr>submitted := trgm (fst x) # submitted s, phase := Flushing i x xs\<rparr>)"
| flushed_done:
    "phase s = Flushing i x xs \<Longrightarrow> in_flight s = [] \<Longrightarrow> search_done s \<Longrightarrow>
     search_step ignore_case posting s (s\<lparr>phase := At_Group i\<rparr>)"
| flushed:
    "phase s = Flushing i x xs \<Longrightarrow> in_flight s = [] \<Longrightarrow> \<not> search_done s \<Longrightarrow>
     search_step ignore_case posting s (s\<lparr>in_flight := [x], phase := Reading i xs\<rparr>)"
| all_flushed:
    "phase s = Final_Flush \<Longrightarrow> in_flight s = [] \<Longrightarrow>
     search_step ignore_case posting s (s\<lparr>phase := Search_Over\<rparr>)"
| read_completes:
    "in_flight s = xs @ x # ys \<Longrightarrow>
     search_step ignore_case posting s
       (read_callback ignore_case (posting x) (trgm (fst x)) (s\<lparr>in_flight := xs @ ys\<rparr>))"

inductive reachable ::
    "bool \<Rightarrow> (trigram \<times> u64 \<Rightarrow> u32 list) \<Rightarrow> search_state \<Rightarrow> search_state \<Rightarrow> bool"
  for ignore_case posting s where
  start: "reachable ignore_case posting s s"
| step: "reachable ignore_case posting s t \<Longrightarrow> search_step ignore_case posting t u \<Longrightarrow>
    reachable ignore_case posting s u"

section \<open>Sorted lists\<close>

lemma set_set_union: "set (set_union xs ys) = set xs \<union> set ys"
  by (induction xs ys rule: set_union.induct) auto

lemma sorted_set_union:
  "sorted_wrt (<) xs \<Longrightarrow> sorted_wrt (<) ys \<Longrightarrow> sorted_wrt (<) (set_union xs ys)"
  by (induction xs ys rule: set_union.induct) (auto simp add: set_set_union)

lemma set_set_intersection:
  "sorted_wrt (<) xs \<Longrightarrow> sorted_wrt (<) ys \<Longrightarrow> set (set_intersection xs ys) = set xs \<inter> set ys"
  by (induction xs ys rule: set_intersection.induct) auto

lemma sorted_set_intersection:
  "sorted_wrt (<) xs \<Longrightarrow> sorted_wrt (<) ys \<Longrightarrow> sorted_wrt (<) (set_intersection xs ys)"
  by (induction xs ys rule: set_intersection.induct) (auto simp add: set_set_intersection)

end
