(* ===== verification/Search_Correct.thy ===== *)
theory Search_Correct
  imports Search
begin

text \<open>
  The search loop loses no block: whatever the order in which its reads complete, it ends, and the
  candidates hold every block that is in one of the posting lists of each group. The invariant
  follows the set \<open>D\<close> of trigrams whose posting lists have been delivered.
\<close>

section \<open>Groups after the lookup\<close>

definition group_ok :: "(u32 \<Rightarrow> (trigram \<times> u64) option) \<Rightarrow> trigram_disjunction \<Rightarrow> bool" where
  "group_ok lookup td \<longleftrightarrow>
     distinct (trigram_alternatives td) \<and> distinct (read_trigrams td) \<and> read_trigrams td \<noteq> [] \<and>
     set (read_trigrams td) = {x. \<exists>t \<in> set (trigram_alternatives td). lookup t = Some x} \<and>
     length (read_trigrams td) < 2 ^ 32 \<and>
     remaining_trigrams_to_read td = of_nat (length (read_trigrams td)) \<and> docids td = []"

definition lookup_ok :: "(u32 \<Rightarrow> (trigram \<times> u64) option) \<Rightarrow> (trigram \<times> u64 \<Rightarrow> u32 list) \<Rightarrow> bool" where
  "lookup_ok lookup posting \<longleftrightarrow>
     (\<forall>t x. lookup t = Some x \<longrightarrow> trgm (fst x) = t \<and> sorted_wrt (<) (posting x))"

text \<open>The blocks in one of the posting lists of a group, and those that all groups allow.\<close>

definition group_blocks :: "(trigram \<times> u64 \<Rightarrow> u32 list) \<Rightarrow> trigram_disjunction \<Rightarrow> u32 set" where
  "group_blocks posting td = (\<Union>x \<in> set (read_trigrams td). set (posting x))"

definition common_blocks :: "(trigram \<times> u64 \<Rightarrow> u32 list) \<Rightarrow> trigram_disjunction list \<Rightarrow> u32 set" where
  "common_blocks posting gs = {d. \<forall>td \<in> set gs. d \<in> group_blocks posting td}"

section \<open>One group\<close>

definition left :: "u32 set \<Rightarrow> trigram_disjunction \<Rightarrow> (trigram \<times> u64) set" where
  "left D td = {x \<in> set (read_trigrams td). trgm (fst x) \<notin> D}"

definition same_group :: "trigram_disjunction \<Rightarrow> trigram_disjunction \<Rightarrow> bool" where
  "same_group td0 td \<longleftrightarrow>
     td = td0\<lparr>docids := docids td, remaining_trigrams_to_read := remaining_trigrams_to_read td\<rparr>"

definition group_state ::
    "(trigram \<times> u64 \<Rightarrow> u32 list) \<Rightarrow> u32 set \<Rightarrow> trigram_disjunction \<Rightarrow> trigram_disjunction \<Rightarrow> bool" where
  "group_state posting D td0 td \<longleftrightarrow> same_group td0 td \<and>
     unat (remaining_trigrams_to_read td) = card (left D td0) \<and> sorted_wrt (<) (docids td) \<and>
     (left D td0 \<noteq> {} \<longrightarrow>
        set (docids td) = (\<Union>x \<in> set (read_trigrams td0) - left D td0. set (posting x)))"

lemma left_insert: "left (insert t D) td = left D td - {x. trgm (fst x) = t}"
  by (auto simp add: left_def)

lemma finite_left [simp]: "finite (left D td)"
  by (simp add: left_def)

lemma same_group_trans: "same_group td0 td \<Longrightarrow> same_group td0 (td\<lparr>docids := ds, remaining_trigrams_to_read := n\<rparr>)"
  by (cases td0; cases td) (simp add: same_group_def)

lemma read_lookup:
  "group_ok lookup td \<Longrightarrow> lookup_ok lookup posting \<Longrightarrow> x \<in> set (read_trigrams td) \<Longrightarrow>
     lookup (trgm (fst x)) = Some x \<and> trgm (fst x) \<in> set (trigram_alternatives td) \<and> sorted_wrt (<) (posting x)"
  unfolding group_ok_def lookup_ok_def by fastforce

lemma same_group_simps:
  assumes "same_group td0 td"
  shows "trigram_alternatives td = trigram_alternatives td0" and "read_trigrams td = read_trigrams td0"
    and "max_num_docids td = max_num_docids td0"
proof -
  have "td = td0\<lparr>docids := docids td, remaining_trigrams_to_read := remaining_trigrams_to_read td\<rparr>"
    using assms by (simp add: same_group_def)
  from arg_cong [OF this, of trigram_alternatives] arg_cong [OF this, of read_trigrams]
    arg_cong [OF this, of max_num_docids]
  show "trigram_alternatives td = trigram_alternatives td0" "read_trigrams td = read_trigrams td0"
    "max_num_docids td = max_num_docids td0" by simp_all
qed

text \<open>A posting list is read into its group: what becomes of the group and of the candidates.\<close>

lemma new_posting_list_read_group:
  assumes g: "group_state posting D td0 td" and ok: "group_ok lookup td0" and lk: "lookup_ok lookup posting"
    and x: "x \<in> set (read_trigrams td0)" "trgm (fst x) \<notin> D"
    and cur: "sorted_wrt (<) cur"
    and r: "new_posting_list_read ignore_case td (posting x) cur = (over, td', cur')"
  shows "group_state posting (insert (trgm (fst x)) D) td0 td' \<and> sorted_wrt (<) cur' \<and>
    (if left (insert (trgm (fst x)) D) td0 \<noteq> {} then \<not> over \<and> cur' = cur
     else if cur = [] then \<not> over \<and> set cur' = group_blocks posting td0
     else set cur' = set cur \<inter> group_blocks posting td0 \<and> over = (ignore_case \<and> cur' = []))"
proof -
  let ?t = "trgm (fst x)" and ?D = "insert (trgm (fst x)) D"
  have uniq: "y = x" if "y \<in> set (read_trigrams td0)" "trgm (fst y) = ?t" for y
    using read_lookup [OF ok lk that(1)] read_lookup [OF ok lk x(1)] that(2) by (metis option.inject)
  have in_left: "x \<in> left D td0" using x by (simp add: left_def)
  have left': "left ?D td0 = left D td0 - {x}"
    unfolding left_insert using uniq in_left by (auto simp add: left_def)
  have card': "card (left D td0) = Suc (card (left ?D td0))"
    unfolding left' by (rule card.remove [OF finite_left in_left])
  have sx: "sorted_wrt (<) (posting x)" using read_lookup [OF ok lk x(1)] by blast
  have st: "sorted_wrt (<) (docids td)" using g by (simp add: group_state_def)
  have ne: "left D td0 \<noteq> {}" using in_left by auto
  define ds where "ds = (if docids td = [] then posting x else set_union (posting x) (docids td))"
  have sds: "sorted_wrt (<) ds" using sx st by (simp add: ds_def sorted_set_union)
  have "set ds = set (posting x) \<union> set (docids td)" by (auto simp add: ds_def set_set_union)
  also have "\<dots> = (\<Union>y \<in> set (read_trigrams td0) - left ?D td0. set (posting y))"
    using g ne x(1) in_left unfolding group_state_def left' by auto
  finally have ds: "set ds = (\<Union>y \<in> set (read_trigrams td0) - left ?D td0. set (posting y))" .
  let ?r = "remaining_trigrams_to_read td - 1"
  have "unat (remaining_trigrams_to_read td) = Suc (card (left ?D td0))"
    using g card' by (simp add: group_state_def)
  then have un: "unat ?r = card (left ?D td0)"
    by (metis diff_Suc_1 unat_minus_one unat_0 old.nat.distinct(2))
  have pos: "0 < ?r \<longleftrightarrow> left ?D td0 \<noteq> {}"
    unfolding word_less_nat_alt unat_0 un by (simp add: card_gt_0_iff)
  have sg: "same_group td0 (td\<lparr>docids := es, remaining_trigrams_to_read := ?r\<rparr>)" for es
    using g by (simp add: group_state_def same_group_trans)
  have full: "left ?D td0 = {} \<Longrightarrow> set ds = group_blocks posting td0"
    by (simp add: ds group_blocks_def)
  have "new_posting_list_read ignore_case td (posting x) cur =
      (if 0 < ?r then (False, td\<lparr>docids := ds, remaining_trigrams_to_read := ?r\<rparr>, cur)
       else if cur = [] then (False, td\<lparr>docids := [], remaining_trigrams_to_read := ?r\<rparr>, ds)
       else (ignore_case \<and> set_intersection cur ds = [],
         td\<lparr>docids := ds, remaining_trigrams_to_read := ?r\<rparr>, set_intersection cur ds))"
    unfolding new_posting_list_read_def ds_def [symmetric] Let_def
    by (simp add: flip: ds_def)
  note r' = r [unfolded this, symmetric]
  show ?thesis
  proof (cases "left ?D td0 = {}")
    case False
    with r' pos have "over = False" "cur' = cur" "td' = td\<lparr>docids := ds, remaining_trigrams_to_read := ?r\<rparr>"
      by auto
    with False cur sg un sds ds show ?thesis by (simp add: group_state_def)
  next
    case True
    with un pos full have "unat ?r = 0" "\<not> 0 < ?r" "set ds = group_blocks posting td0" by auto
    with True r' cur sg sds show ?thesis
      by (auto simp add: group_state_def set_set_intersection sorted_set_intersection)
  qed
qed

section \<open>All groups of a trigram\<close>

definition cur_ok where
  "cur_ok posting D gs0 cur \<longleftrightarrow> sorted_wrt (<) cur \<and>
     (if \<exists>j < length gs0. left (D j) (gs0 ! j) = {}
      then common_blocks posting gs0 \<subseteq> set cur \<and> (\<exists>td \<in> set gs0. set cur \<subseteq> group_blocks posting td)
      else cur = [])"

definition groups_state where
  "groups_state posting D gs0 gs cur \<longleftrightarrow> length gs = length gs0 \<and>
     (\<forall>j < length gs0. group_state posting (D j) (gs0 ! j) (gs ! j)) \<and> cur_ok posting D gs0 cur"

definition same_groups :: "trigram_disjunction list \<Rightarrow> trigram_disjunction list \<Rightarrow> bool" where
  "same_groups gs0 gs \<longleftrightarrow> list_all2 same_group gs0 gs"

lemma groups_state_same: "groups_state posting D gs0 gs cur \<Longrightarrow> same_groups gs0 gs"
  by (simp add: groups_state_def same_groups_def list_all2_conv_all_nth group_state_def)

lemma common_subset: "td \<in> set gs \<Longrightarrow> common_blocks posting gs \<subseteq> group_blocks posting td"
  by (auto simp add: common_blocks_def)

lemma deliver_one:
  assumes s: "groups_state posting D gs0 gs cur" and ok: "list_all (group_ok lookup) gs0"
    and lk: "lookup_ok lookup posting"
    and i: "i < length gs0" "x \<in> set (read_trigrams (gs0 ! i))" "trgm (fst x) \<notin> D i"
    and r: "new_posting_list_read ignore_case (gs ! i) (posting x) cur = (over, td', cur')"
  shows "groups_state posting (D(i := insert (trgm (fst x)) (D i))) gs0 (gs[i := td']) cur' \<and>
    (over \<longrightarrow> common_blocks posting gs0 = {})"
proof -
  let ?D = "D(i := insert (trgm (fst x)) (D i))" and ?td0 = "gs0 ! i"
  have mem: "?td0 \<in> set gs0" using i(1) by simp
  have g: "group_state posting (D i) ?td0 (gs ! i)" and c: "cur_ok posting D gs0 cur"
    and len: "length gs = length gs0"
    using s i(1) by (auto simp add: groups_state_def)
  have ok': "group_ok lookup ?td0" using ok mem by (auto simp add: list_all_iff)
  have srt: "sorted_wrt (<) cur" using c by (simp add: cur_ok_def)
  note n = new_posting_list_read_group [OF g ok' lk i(2,3) srt r]
  have groups: "group_state posting (?D j) (gs0 ! j) (gs[i := td'] ! j)" if "j < length gs0" for j
    using n s that len by (cases "j = i") (auto simp add: groups_state_def)
  have cur: "cur_ok posting ?D gs0 cur' \<and> (over \<longrightarrow> common_blocks posting gs0 = {})"
  proof (cases "left (?D i) ?td0 = {}")
    case False
    then have "left (D i) ?td0 \<noteq> {}" by (auto simp add: left_def)
    with False have "(left (?D j) (gs0 ! j) = {}) = (left (D j) (gs0 ! j) = {})" for j by simp
    then have eq: "(\<exists>j < length gs0. left (?D j) (gs0 ! j) = {}) = (\<exists>j < length gs0. left (D j) (gs0 ! j) = {})"
      by simp
    have "cur_ok posting ?D gs0 cur" using c unfolding cur_ok_def eq .
    moreover have "cur' = cur" "\<not> over" using False n by auto
    ultimately show ?thesis by simp
  next
    case True
    then have some: "\<exists>j < length gs0. left (?D j) (gs0 ! j) = {}" using i(1) by blast
    show ?thesis
    proof (cases "cur = []")
      case True
      with n \<open>left (?D i) ?td0 = {}\<close> have "set cur' = group_blocks posting ?td0" "\<not> over" "sorted_wrt (<) cur'"
        by simp_all
      with some mem common_subset [OF mem] show ?thesis by (auto simp add: cur_ok_def)
    next
      case False
      with c have "common_blocks posting gs0 \<subseteq> set cur" by (auto simp add: cur_ok_def split: if_splits)
      moreover have cur': "set cur' = set cur \<inter> group_blocks posting ?td0" "sorted_wrt (<) cur'"
        and over: "over = (ignore_case \<and> cur' = [])"
        using False n \<open>left (?D i) ?td0 = {}\<close> by simp_all
      ultimately have sub: "common_blocks posting gs0 \<subseteq> set cur'"
        using common_subset [OF mem, of posting] by blast
      have "set cur' \<subseteq> group_blocks posting ?td0" using cur'(1) by blast
      with sub cur'(2) mem have "cur_ok posting ?D gs0 cur'" unfolding cur_ok_def if_P [OF some] by blast
      with over sub show ?thesis by auto
    qed
  qed
  from groups cur len show ?thesis by (simp add: groups_state_def)
qed

lemma deliver_all:
  assumes "groups_state posting D gs0 gs cur" and ok: "list_all (group_ok lookup) gs0"
    and lk: "lookup_ok lookup posting" and "distinct is"
    and "\<And>i. i \<in> set is \<Longrightarrow> i < length gs0 \<and> x \<in> set (read_trigrams (gs0 ! i)) \<and> trgm (fst x) \<notin> D i"
    and "deliver ignore_case (posting x) is gs cur = (over, gs', cur')"
  shows "same_groups gs0 gs' \<and>
    (if over then common_blocks posting gs0 = {}
     else groups_state posting (\<lambda>j. if j \<in> set is then insert (trgm (fst x)) (D j) else D j) gs0 gs' cur')"
  using assms(1,4-6)
proof (induction "is" arbitrary: D gs cur)
  case Nil
  then show ?case by (auto simp add: groups_state_same)
next
  case (Cons i "is")
  obtain o1 td1 cur1 where r: "new_posting_list_read ignore_case (gs ! i) (posting x) cur = (o1, td1, cur1)"
    by (cases "new_posting_list_read ignore_case (gs ! i) (posting x) cur") auto
  let ?D = "D(i := insert (trgm (fst x)) (D i))"
  have i: "i < length gs0" "x \<in> set (read_trigrams (gs0 ! i))" "trgm (fst x) \<notin> D i"
    using Cons.prems(3) [of i] by auto
  note one = deliver_one [OF Cons.prems(1) ok lk i r]
  show ?case
  proof (cases o1)
    case True
    with r Cons.prems(4) one show ?thesis by (auto simp add: groups_state_same)
  next
    case False
    have d: "deliver ignore_case (posting x) is (gs[i := td1]) cur1 = (over, gs', cur')"
      using r False Cons.prems(4) by simp
    have D: "(\<lambda>j. if j \<in> set is then insert (trgm (fst x)) (?D j) else ?D j) =
        (\<lambda>j. if j \<in> set (i # is) then insert (trgm (fst x)) (D j) else D j)"
      using Cons.prems(2) by (auto simp add: fun_eq_iff)
    have "same_groups gs0 gs' \<and> (if over then common_blocks posting gs0 = {}
       else groups_state posting (\<lambda>j. if j \<in> set is then insert (trgm (fst x)) (?D j) else ?D j) gs0 gs' cur')"
      by (rule Cons.IH [OF conjunct1 [OF one] _ _ d]) (use Cons.prems(2,3) in auto)
    then show ?thesis unfolding D .
  qed
qed

section \<open>The invariant of the loop\<close>

lemma groups_state_cong:
  "(\<And>j. j < length gs0 \<Longrightarrow> left (D j) (gs0 ! j) = left (D' j) (gs0 ! j)) \<Longrightarrow>
     groups_state posting D gs0 gs cur = groups_state posting D' gs0 gs cur"
  by (simp add: groups_state_def group_state_def cur_ok_def cong: conj_cong)

definition in_groups :: "trigram_disjunction list \<Rightarrow> trigram \<times> u64 \<Rightarrow> bool" where
  "in_groups gs0 x \<longleftrightarrow> (\<exists>td \<in> set gs0. x \<in> set (read_trigrams td))"

fun held :: "phase \<Rightarrow> (trigram \<times> u64) list" where
  "held (Flushing i x xs) = [x]"
| "held _ = []"

fun coming :: "phase \<Rightarrow> (trigram \<times> u64) list" where
  "coming (Reading i xs) = xs"
| "coming (Flushing i x xs) = xs"
| "coming _ = []"

abbreviation trgms :: "(trigram \<times> u64) list \<Rightarrow> u32 list" where
  "trgms xs \<equiv> map (trgm \<circ> fst) xs"

definition delivered_ok where
  "delivered_ok posting gs0 D s \<longleftrightarrow>
     groups_state posting (\<lambda>_. D) gs0 (groups s) (cur_candidates s) \<and>
     set (submitted s) = D \<union> set (trgms (in_flight s @ held (phase s))) \<and>
     D \<inter> set (trgms (in_flight s @ held (phase s))) = {} \<and>
     distinct (trgms (in_flight s @ held (phase s)))"

definition submitted_before :: "trigram_disjunction list \<Rightarrow> nat \<Rightarrow> u32 set \<Rightarrow> bool" where
  "submitted_before gs0 i S \<longleftrightarrow> (\<forall>k < length gs0. k < i \<longrightarrow> set (trgms (read_trigrams (gs0 ! k))) \<subseteq> S)"

definition some_complete :: "trigram_disjunction list \<Rightarrow> u32 set \<Rightarrow> bool" where
  "some_complete gs0 D \<longleftrightarrow> (\<exists>j < length gs0. left D (gs0 ! j) = {})"

fun progress_ok :: "trigram_disjunction list \<Rightarrow> u32 set \<Rightarrow> u32 set \<Rightarrow> phase \<Rightarrow> bool" where
  "progress_ok gs0 D S (At_Group i) = submitted_before gs0 i S"
| "progress_ok gs0 D S (Reading i xs) = submitted_before gs0 i (S \<union> set (trgms xs))"
| "progress_ok gs0 D S (Flushing i x xs) = submitted_before gs0 i (S \<union> set (trgms xs))"
| "progress_ok gs0 D S _ = (some_complete gs0 D \<or> submitted_before gs0 (length gs0) S)"

definition search_inv where
  "search_inv posting gs0 s \<longleftrightarrow> same_groups gs0 (groups s) \<and>
     list_all (in_groups gs0) (in_flight s @ held (phase s) @ coming (phase s)) \<and>
     (if search_done s then common_blocks posting gs0 = {}
      else \<exists>D. delivered_ok posting gs0 D s \<and> progress_ok gs0 D (set (submitted s)) (phase s)) \<and>
     (phase s = Search_Over \<longrightarrow> in_flight s = [])"

lemma some_complete_mono: "some_complete gs0 D \<Longrightarrow> D \<subseteq> D' \<Longrightarrow> some_complete gs0 D'"
  by (auto simp add: some_complete_def left_def)

lemma progress_ok_mono: "progress_ok gs0 D S p \<Longrightarrow> D \<subseteq> D' \<Longrightarrow> progress_ok gs0 D' S p"
  by (cases p) (auto dest: some_complete_mono)

lemma submitted_before_mono: "submitted_before gs0 i S \<Longrightarrow> S \<subseteq> S' \<Longrightarrow> submitted_before gs0 i S'"
  by (auto simp add: submitted_before_def)

lemma submitted_before_Suc:
  "submitted_before gs0 i S \<Longrightarrow> i < length gs0 \<Longrightarrow>
     submitted_before gs0 (Suc i) (S \<union> set (trgms (read_trigrams (gs0 ! i))))"
  by (auto simp add: submitted_before_def less_Suc_eq)

lemma same_groups_nth:
  assumes "same_groups gs0 gs" and "i < length gs0"
  shows "read_trigrams (gs ! i) = read_trigrams (gs0 ! i)"
    and "trigram_alternatives (gs ! i) = trigram_alternatives (gs0 ! i)"
  using assms same_group_simps [of "gs0 ! i" "gs ! i"]
  by (auto simp add: same_groups_def list_all2_conv_all_nth)

lemma same_groups_length: "same_groups gs0 gs \<Longrightarrow> length gs = length gs0"
  by (auto simp add: same_groups_def dest: list_all2_lengthD)

lemma count_list_distinct: "distinct xs \<Longrightarrow> count_list xs x = (if x \<in> set xs then 1 else 0)"
  by (induction xs) auto

lemma uses_trigram_distinct:
  assumes "\<And>td. td \<in> set gs \<Longrightarrow> distinct (trigram_alternatives td)"
  shows "uses_trigram gs t = filter (\<lambda>i. t \<in> set (trigram_alternatives (gs ! i))) [0..<length gs]"
proof -
  have "concat (map (\<lambda>i. replicate (count_list (trigram_alternatives (gs ! i)) t) i) is) =
      filter (\<lambda>i. t \<in> set (trigram_alternatives (gs ! i))) is" if "\<forall>i \<in> set is. i < length gs" for "is"
    using that
  proof (induction "is")
    case (Cons i "is")
    then have "distinct (trigram_alternatives (gs ! i))" using assms by simp
    then have "count_list (trigram_alternatives (gs ! i)) t = (if t \<in> set (trigram_alternatives (gs ! i)) then 1 else 0)"
      by (rule count_list_distinct)
    with Cons show ?case by simp
  qed simp
  then show ?thesis by (simp add: uses_trigram_def)
qed

lemma in_groups_lookup:
  assumes "in_groups gs0 x" and "list_all (group_ok lookup) gs0" and "lookup_ok lookup posting"
  shows "lookup (trgm (fst x)) = Some x"
  using assms read_lookup unfolding in_groups_def list_all_iff by blast

lemma uses_trigram_reads:
  assumes ok: "list_all (group_ok lookup) gs0" and lk: "lookup_ok lookup posting"
    and same: "same_groups gs0 gs" and x: "in_groups gs0 x"
  shows "distinct (uses_trigram gs (trgm (fst x)))"
    and "i \<in> set (uses_trigram gs (trgm (fst x))) \<longleftrightarrow> i < length gs0 \<and> x \<in> set (read_trigrams (gs0 ! i))"
proof -
  have d: "distinct (trigram_alternatives td)" if td: "td \<in> set gs" for td
  proof -
    from td obtain i where i: "i < length gs" "td = gs ! i" unfolding in_set_conv_nth by blast
    then have i0: "i < length gs0" using same_groups_length [OF same] by simp
    then have "group_ok lookup (gs0 ! i)" using ok unfolding list_all_iff by (metis nth_mem)
    then have "distinct (trigram_alternatives (gs0 ! i))" unfolding group_ok_def by blast
    then show ?thesis unfolding i(2) same_groups_nth(2) [OF same i0] .
  qed
  have u: "uses_trigram gs (trgm (fst x)) =
      filter (\<lambda>i. trgm (fst x) \<in> set (trigram_alternatives (gs ! i))) [0..<length gs]"
    by (rule uses_trigram_distinct) (rule d)
  show "distinct (uses_trigram gs (trgm (fst x)))" unfolding u by simp
  have "trgm (fst x) \<in> set (trigram_alternatives (gs0 ! i)) \<longleftrightarrow> x \<in> set (read_trigrams (gs0 ! i))"
    if i: "i < length gs0"
  proof -
    have ok': "group_ok lookup (gs0 ! i)" using ok i unfolding list_all_iff by (metis nth_mem)
    show ?thesis
      using read_lookup [OF ok' lk] in_groups_lookup [OF x ok lk] ok' unfolding group_ok_def by blast
  qed
  then show "i \<in> set (uses_trigram gs (trgm (fst x))) \<longleftrightarrow> i < length gs0 \<and> x \<in> set (read_trigrams (gs0 ! i))"
    unfolding u using same_groups_nth(2) [OF same] same_groups_length [OF same] by auto
qed

lemma read_callback_inv:
  assumes ok: "list_all (group_ok lookup) gs0" and lk: "lookup_ok lookup posting"
    and s: "search_inv posting gs0 s" and f: "in_flight s = xs @ x # ys"
  shows "search_inv posting gs0 (read_callback ignore_case (posting x) (trgm (fst x)) (s\<lparr>in_flight := xs @ ys\<rparr>))"
proof (cases "search_done s")
  case True
  with s f show ?thesis by (simp add: read_callback_def search_inv_def)
next
  case False
  have same: "same_groups gs0 (groups s)" and x: "in_groups gs0 x" and nover: "phase s \<noteq> Search_Over"
    using s f by (auto simp add: search_inv_def)
  obtain D where D: "delivered_ok posting gs0 D s" "progress_ok gs0 D (set (submitted s)) (phase s)"
    using s False by (auto simp add: search_inv_def)
  let ?t = "trgm (fst x)"
  have g: "groups_state posting (\<lambda>_. D) gs0 (groups s) (cur_candidates s)" and t: "?t \<notin> D"
    using D(1) f by (auto simp add: delivered_ok_def)
  obtain over gs' cur' where d: "deliver ignore_case (posting x) (uses_trigram (groups s) ?t) (groups s)
      (cur_candidates s) = (over, gs', cur')"
    by (cases "deliver ignore_case (posting x) (uses_trigram (groups s) ?t) (groups s) (cur_candidates s)") auto
  note u = uses_trigram_reads [OF ok lk same x]
  have all: "same_groups gs0 gs' \<and>
    (if over then common_blocks posting gs0 = {}
     else groups_state posting
       (\<lambda>j. if j \<in> set (uses_trigram (groups s) ?t) then insert ?t D else D) gs0 gs' cur')"
    by (rule deliver_all [OF g ok lk u(1) _ d]) (use u(2) t in auto)
  have "left (if j \<in> set (uses_trigram (groups s) ?t) then insert ?t D else D) (gs0 ! j) =
      left (insert ?t D) (gs0 ! j)" if "j < length gs0" for j
  proof (cases "j \<in> set (uses_trigram (groups s) ?t)")
    case False
    then have "x \<notin> set (read_trigrams (gs0 ! j))" using u(2) that by simp
    moreover have "y = x" if "y \<in> set (read_trigrams (gs0 ! j))" "trgm (fst y) = ?t" for y
    proof -
      have "in_groups gs0 y" using that \<open>j < length gs0\<close> unfolding in_groups_def by (metis nth_mem)
      from in_groups_lookup [OF this ok lk] in_groups_lookup [OF x ok lk] that(2)
      show ?thesis by (metis option.inject)
    qed
    ultimately have "left D (gs0 ! j) = left (insert ?t D) (gs0 ! j)" by (auto simp add: left_def)
    with False show ?thesis by simp
  qed simp
  note cong = groups_state_cong [OF this, of posting gs' cur', simplified]
  let ?s = "s\<lparr>in_flight := xs @ ys, search_done := over, groups := gs', cur_candidates := cur'\<rparr>"
  have eq: "read_callback ignore_case (posting x) ?t (s\<lparr>in_flight := xs @ ys\<rparr>) = ?s"
    using False d by (simp add: read_callback_def)
  have rest: "list_all (in_groups gs0) (in_flight ?s @ held (phase ?s) @ coming (phase ?s))"
    using s f by (simp add: search_inv_def)
  show ?thesis
  proof (cases over)
    case True
    with all rest nover show ?thesis unfolding eq search_inv_def by simp
  next
    case not_over: False
    have "groups_state posting (\<lambda>_. insert ?t D) gs0 gs' cur'"
      using all not_over cong by simp
    then have "delivered_ok posting gs0 (insert ?t D) ?s"
      using D(1) f by (auto simp add: delivered_ok_def)
    moreover have "progress_ok gs0 (insert ?t D) (set (submitted ?s)) (phase ?s)"
      using progress_ok_mono [OF D(2)] by auto
    ultimately show ?thesis using not_over all rest nover unfolding eq search_inv_def by auto
  qed
qed

lemma start_search_inv:
  assumes "list_all (group_ok lookup) gs0"
  shows "search_inv posting gs0 (start_search gs0)"
proof -
  have left: "left {} td = set (read_trigrams td)" for td by (auto simp add: left_def)
  have g: "group_state posting {} td td" if "td \<in> set gs0" for td
  proof -
    have ok: "group_ok lookup td" using assms that by (auto simp add: list_all_iff)
    then have "card (left {} td) = length (read_trigrams td)"
      unfolding left group_ok_def by (blast intro: distinct_card)
    then show ?thesis using ok
      by (simp add: group_state_def same_group_def left group_ok_def unat_of_nat_small)
  qed
  have ne: "left {} (gs0 ! j) \<noteq> {}" if j: "j < length gs0" for j
  proof -
    have "group_ok lookup (gs0 ! j)" using assms j unfolding list_all_iff by (metis nth_mem)
    then have "read_trigrams (gs0 ! j) \<noteq> []" unfolding group_ok_def by blast
    then show ?thesis unfolding left by simp
  qed
  have "groups_state posting (\<lambda>_. {}) gs0 gs0 []"
    using g ne by (auto simp add: groups_state_def cur_ok_def)
  then have "delivered_ok posting gs0 {} (start_search gs0)"
    by (simp add: delivered_ok_def start_search_def)
  moreover have "same_groups gs0 gs0" by (simp add: same_groups_def list_all2_conv_all_nth same_group_def)
  ultimately show ?thesis
    by (auto simp add: search_inv_def start_search_def submitted_before_def intro!: exI [of _ "{}"])
qed

text \<open>A step that leaves the delivered posting lists alone.\<close>

lemma quiet_step_inv:
  assumes s: "search_inv posting gs0 s"
    and same: "groups u = groups s" "cur_candidates u = cur_candidates s" "search_done u = search_done s"
    and l: "list_all (in_groups gs0) (in_flight u @ held (phase u) @ coming (phase u))"
    and over: "phase u = Search_Over \<longrightarrow> in_flight u = []"
    and sub: "\<And>D. \<not> search_done s \<Longrightarrow> delivered_ok posting gs0 D s \<Longrightarrow> progress_ok gs0 D (set (submitted s)) (phase s) \<Longrightarrow>
      set (submitted u) = D \<union> set (trgms (in_flight u @ held (phase u))) \<and>
      D \<inter> set (trgms (in_flight u @ held (phase u))) = {} \<and>
      distinct (trgms (in_flight u @ held (phase u))) \<and> progress_ok gs0 D (set (submitted u)) (phase u)"
  shows "search_inv posting gs0 u"
proof (cases "search_done s")
  case True
  with s same l over show ?thesis by (simp add: search_inv_def)
next
  case False
  then obtain D where D: "delivered_ok posting gs0 D s" "progress_ok gs0 D (set (submitted s)) (phase s)"
    using s by (auto simp add: search_inv_def)
  note u = sub [OF False D]
  have "delivered_ok posting gs0 D u" using D(1) u same unfolding delivered_ok_def by simp
  with u s same l over False show ?thesis unfolding search_inv_def by auto
qed

lemma search_step_inv:
  assumes ok: "list_all (group_ok lookup) gs0" and lk: "lookup_ok lookup posting"
    and step: "search_step ignore_case posting s u" and s: "search_inv posting gs0 s"
  shows "search_inv posting gs0 u"
  using step
proof cases
  case (ignore_rest i)
  show ?thesis
  proof (rule quiet_step_inv [OF s])
    fix D assume D: "delivered_ok posting gs0 D s" "progress_ok gs0 D (set (submitted s)) (phase s)"
    have "cur_candidates s \<noteq> []" using ignore_rest by (simp add: too_many_def)
    with D(1) have "some_complete gs0 D"
      by (auto simp add: delivered_ok_def groups_state_def cur_ok_def some_complete_def split: if_splits)
    with D(1) ignore_rest show "set (submitted u) = D \<union> set (trgms (in_flight u @ held (phase u))) \<and>
      D \<inter> set (trgms (in_flight u @ held (phase u))) = {} \<and>
      distinct (trgms (in_flight u @ held (phase u))) \<and> progress_ok gs0 D (set (submitted u)) (phase u)"
      by (simp add: delivered_ok_def)
  qed (use s ignore_rest in \<open>simp_all add: search_inv_def\<close>)
next
  case (enter_group i)
  have i: "i < length gs0" "read_trigrams (groups s ! i) = read_trigrams (gs0 ! i)"
    using s enter_group same_groups_nth(1) [of gs0 "groups s" i] same_groups_length [of gs0 "groups s"]
    by (auto simp add: search_inv_def)
  have "list_all (in_groups gs0) (read_trigrams (gs0 ! i))"
    using i(1) by (auto simp add: list_all_iff in_groups_def)
  with i s enter_group show ?thesis
    by (intro quiet_step_inv [OF s])
      (auto simp add: search_inv_def delivered_ok_def dest: submitted_before_Suc)
next
  case (no_more_groups i)
  then have i: "length gs0 \<le> i" using s same_groups_length [of gs0 "groups s"] by (simp add: search_inv_def)
  with s no_more_groups show ?thesis
    by (intro quiet_step_inv [OF s]) (auto simp add: search_inv_def delivered_ok_def submitted_before_def)
next
  case (group_submitted i)
  with s show ?thesis by (intro quiet_step_inv [OF s]) (auto simp add: search_inv_def delivered_ok_def)
next
  case (already_submitted i x xs)
  with s show ?thesis
    by (intro quiet_step_inv [OF s])
      (auto simp add: search_inv_def delivered_ok_def insert_absorb elim!: submitted_before_mono)
next
  case (submit i x xs)
  with s show ?thesis
    by (intro quiet_step_inv [OF s])
      (auto simp add: search_inv_def delivered_ok_def elim!: submitted_before_mono)
next
  case (too_far_ahead i x xs)
  with s show ?thesis
    by (intro quiet_step_inv [OF s])
      (auto simp add: search_inv_def delivered_ok_def elim!: submitted_before_mono)
next
  case (flushed_done i x xs)
  with s show ?thesis by (intro quiet_step_inv [OF s]) (auto simp add: search_inv_def delivered_ok_def)
next
  case (flushed i x xs)
  with s show ?thesis by (intro quiet_step_inv [OF s]) (auto simp add: search_inv_def delivered_ok_def)
next
  case all_flushed
  with s show ?thesis by (intro quiet_step_inv [OF s]) (auto simp add: search_inv_def delivered_ok_def)
next
  case (read_completes xs x ys)
  show ?thesis unfolding read_completes(1) by (rule read_callback_inv [OF ok lk s read_completes(2)])
qed

lemma reachable_inv:
  assumes "list_all (group_ok lookup) gs0" and "lookup_ok lookup posting"
    and "reachable ignore_case posting (start_search gs0) s"
  shows "search_inv posting gs0 s"
  using assms(3)
  by (induction rule: reachable.induct) (auto intro: start_search_inv search_step_inv assms(1,2))

section \<open>The end of the search\<close>

lemma search_over:
  assumes "list_all (group_ok lookup) gs" and "lookup_ok lookup posting" and "gs \<noteq> []"
    and "reachable ignore_case posting (start_search gs) s" and "phase s = Search_Over"
  shows "if search_done s then common_blocks posting gs = {}
    else sorted_wrt (<) (cur_candidates s) \<and> common_blocks posting gs \<subseteq> set (cur_candidates s) \<and>
      (\<exists>td \<in> set gs. set (cur_candidates s) \<subseteq> group_blocks posting td)"
proof -
  have s: "search_inv posting gs s" using reachable_inv assms by blast
  show ?thesis
  proof (cases "search_done s")
    case True
    with s show ?thesis by (simp add: search_inv_def)
  next
    case False
    with s obtain D where D: "delivered_ok posting gs D s" "progress_ok gs D (set (submitted s)) (phase s)"
      by (auto simp add: search_inv_def)
    have "in_flight s = []" using s assms(5) by (simp add: search_inv_def)
    with D(1) assms(5) have sub: "set (submitted s) = D" by (simp add: delivered_ok_def)
    have "some_complete gs D"
    proof (rule ccontr)
      assume "\<not> some_complete gs D"
      with D(2) assms(5) sub have "submitted_before gs (length gs) D" by simp
      then have "left D (gs ! 0) = {}" using assms(3) by (fastforce simp add: submitted_before_def left_def)
      with assms(3) \<open>\<not> some_complete gs D\<close> show False by (auto simp add: some_complete_def)
    qed
    with D(1) False show ?thesis
      by (auto simp add: delivered_ok_def groups_state_def cur_ok_def some_complete_def split: if_splits)
  qed
qed

section \<open>Termination and progress\<close>

fun reads_from :: "nat \<Rightarrow> trigram_disjunction list \<Rightarrow> nat" where
  "reads_from i gs = sum_list (map (\<lambda>td. 3 * length (read_trigrams td) + 3) (drop i gs))"

fun phase_measure :: "trigram_disjunction list \<Rightarrow> phase \<Rightarrow> nat" where
  "phase_measure gs (At_Group i) = reads_from i gs + 2"
| "phase_measure gs (Reading i xs) = reads_from i gs + 3 * length xs + 3"
| "phase_measure gs (Flushing i x xs) = reads_from i gs + 3 * length xs + 5"
| "phase_measure gs Final_Flush = 1"
| "phase_measure gs Search_Over = 0"

definition search_measure :: "search_state \<Rightarrow> nat" where
  "search_measure s = phase_measure (groups s) (phase s) + length (in_flight s)"

lemma new_posting_list_read_reads:
  "new_posting_list_read ignore_case td decoded cur = (over, td', cur') \<Longrightarrow> read_trigrams td' = read_trigrams td"
  by (auto simp add: new_posting_list_read_def Let_def split: if_splits)

lemma deliver_reads:
  "deliver ignore_case decoded is gs cur = (over, gs', cur') \<Longrightarrow> map read_trigrams gs' = map read_trigrams gs"
proof (induction "is" arbitrary: gs cur)
  case (Cons i "is")
  obtain o1 td1 cur1 where r: "new_posting_list_read ignore_case (gs ! i) decoded cur = (o1, td1, cur1)"
    by (cases "new_posting_list_read ignore_case (gs ! i) decoded cur") auto
  have "map read_trigrams (gs[i := td1]) = map read_trigrams gs"
    using new_posting_list_read_reads [OF r] by (simp add: map_update) (metis list_update_id map_update)
  with Cons r show ?case by (auto split: if_splits)
qed simp

lemma reads_from_cong: "map read_trigrams gs' = map read_trigrams gs \<Longrightarrow> reads_from i gs' = reads_from i gs"
proof -
  assume "map read_trigrams gs' = map read_trigrams gs"
  then have "map (\<lambda>xs. 3 * length xs + 3) (drop i (map read_trigrams gs')) =
      map (\<lambda>xs. 3 * length xs + 3) (drop i (map read_trigrams gs))" by simp
  then show ?thesis by (simp add: drop_map comp_def)
qed

lemma read_callback_measure:
  "search_measure (read_callback ignore_case decoded t s) = search_measure s"
proof (cases "search_done s")
  case False
  obtain over gs cur where d: "deliver ignore_case decoded (uses_trigram (groups s) t) (groups s) (cur_candidates s) =
      (over, gs, cur)"
    by (cases "deliver ignore_case decoded (uses_trigram (groups s) t) (groups s) (cur_candidates s)") auto
  have "phase_measure gs p = phase_measure (groups s) p" for p
    using reads_from_cong [OF deliver_reads [OF d]] by (cases p) (simp_all del: reads_from.simps)
  with False d show ?thesis by (simp add: read_callback_def search_measure_def)
qed (simp add: read_callback_def)

lemma reads_from_step:
  "i < length gs \<Longrightarrow> reads_from i gs = 3 * length (read_trigrams (gs ! i)) + 3 + reads_from (Suc i) gs"
  by (simp add: Cons_nth_drop_Suc [symmetric])

lemma search_step_measure:
  "search_step ignore_case posting s u \<Longrightarrow> search_measure u < search_measure s"
proof (induction rule: search_step.induct)
  case (read_completes s xs x ys)
  then show ?case unfolding read_callback_measure by (simp add: search_measure_def)
qed (simp_all add: search_measure_def reads_from_step del: reads_from.simps)

lemma search_progress:
  assumes "phase s \<noteq> Search_Over"
  shows "\<exists>u. search_step ignore_case posting s u"
proof (cases "in_flight s")
  case (Cons x ys)
  then show ?thesis using read_completes [of s "[]" x ys] by auto
next
  case Nil
  show ?thesis
  proof (cases "phase s")
    case (At_Group i)
    then show ?thesis using ignore_rest enter_group no_more_groups by (metis not_le)
  next
    case (Reading i xs)
    with Nil show ?thesis
      by (cases xs) (metis group_submitted, metis already_submitted submit list.size(3) zero_less_numeral)
  next
    case (Flushing i x xs)
    with Nil show ?thesis using flushed_done flushed by metis
  next
    case Final_Flush
    with Nil show ?thesis using all_flushed by metis
  qed (use assms in simp)
qed

lemma search_reaches_end:
  "reachable ignore_case posting s0 s \<Longrightarrow> \<exists>u. reachable ignore_case posting s0 u \<and> phase u = Search_Over"
proof (induction "search_measure s" arbitrary: s rule: less_induct)
  case less
  show ?case
  proof (cases "phase s = Search_Over")
    case False
    then obtain u where "search_step ignore_case posting s u" using search_progress by blast
    with less.hyps [OF search_step_measure] less.prems show ?thesis by (blast intro: reachable.step)
  qed (use less.prems in blast)
qed

lemma no_infinite_search: "\<not> (\<forall>n. search_step ignore_case posting (f n) (f (Suc n)))"
proof
  assume run: "\<forall>n. search_step ignore_case posting (f n) (f (Suc n))"
  have "search_measure (f n) + n \<le> search_measure (f 0)" for n
  proof (induction n)
    case (Suc n)
    have "search_measure (f (Suc n)) < search_measure (f n)" using run search_step_measure by blast
    with Suc show ?case by simp
  qed simp
  from this [of "Suc (search_measure (f 0))"] show False by simp
qed

end
