(* ===== verification/Block_Scan.thy ===== *)
theory Block_Scan
  imports Trigrams
begin

text \<open>
  The trigram loop of \<open>EncodingCorpus::flush_block\<close> in \<open>src/database-builder.cpp\<close>. The names of
  a block are separated by zero bytes; a pointer into the block is the rest of the block from it
  (the terminating zero byte of the string, which the code may read, is appended where it is
  read). None is a read behind that terminator. The loop finds exactly the trigrams of the
  names, with one exception: its bound \<open>end - 3\<close> skips the last name when it has three bytes.
\<close>

definition load_u32 :: "bytes \<Rightarrow> u32" where
  "load_u32 rest = get_le 4 (take 4 (rest @ [0]))"

function (sequential) scan_names :: "bytes \<Rightarrow> u32 list option"
  and scan_name :: "bytes \<Rightarrow> u32 list option" where
  "scan_names rest =
     (if 3 < length rest then
        if rest ! 0 = 0 then scan_names (drop 1 rest)
        else if rest ! 1 = 0 then scan_names (drop 2 rest)
        else if rest ! 2 = 0 then scan_names (drop 3 rest)
        else scan_name rest
      else Some [])"
| "scan_name rest =
     (if length rest < 3 then None
      else
        let trgm = load_u32 rest in
        map_option ((#) (trgm AND 0xffffff))
          (if trgm \<le> 0xffffff then scan_names (drop 4 rest) else scan_name (drop 1 rest)))"
  by pat_completeness auto
termination
  by (relation "measure (\<lambda>x. case x of Inl rest \<Rightarrow> 2 * length rest + 1 | Inr rest \<Rightarrow> 2 * length rest)")
    auto

declare scan_names.simps [simp del] scan_name.simps [simp del]

definition block_trigrams :: "bytes \<Rightarrow> u32 list option" where
  "block_trigrams current_block = scan_names current_block"

section \<open>Blocks of names\<close>

text \<open>\<open>add_file\<close> joins the names of a block with zero bytes.\<close>

fun join_names :: "bytes list \<Rightarrow> bytes" where
  "join_names [] = []"
| "join_names [f] = f"
| "join_names (f # fs) = f @ [0] @ join_names fs"

definition indexed_names :: "bytes list \<Rightarrow> bytes list" where
  "indexed_names fs = (if fs \<noteq> [] \<and> length (last fs) = 3 then butlast fs else fs)"

lemma byte_index: "8 * n \<le> k \<Longrightarrow> k < 8 * n + 8 \<Longrightarrow> k div 8 = n \<and> k mod 8 = k - 8 * (n :: nat)"
proof -
  assume "8 * n \<le> k" "k < 8 * n + 8"
  then have "k div 8 = n" by auto
  then show ?thesis by (simp add: minus_div_mult_eq_mod [symmetric] mult.commute)
qed

lemma load_u32_bits:
  "load_u32 (a # b # c # cs) = trigram_of a b c OR push_bit 24 (ucast (hd (cs @ [0])))"
proof (rule bit_word_eqI)
  fix k :: nat assume "k < LENGTH(32)"
  then have k: "k < 32" by simp
  obtain d where d: "take 4 ((a # b # c # cs) @ [0]) = [a, b, c, d]" "hd (cs @ [0]) = d"
    by (cases cs) auto
  have high: "\<not> bit x j" if "8 \<le> j" for x :: byte and j using that by (auto dest: bit_imp_le_length)
  consider "k < 8" | "8 \<le> k" "k < 16" | "16 \<le> k" "k < 24" | "24 \<le> k" "k < 32" using k by linarith
  then show "bit (load_u32 (a # b # c # cs)) k =
      bit (trigram_of a b c OR push_bit 24 (ucast (hd (cs @ [0])))) k"
    unfolding load_u32_def d trigram_of_def
    by cases
      (use k byte_index [of 0 k] byte_index [of 1 k] byte_index [of 2 k] byte_index [of 3 k] in
        \<open>auto simp add: bit_get_le bit_or_iff bit_push_bit_iff bit_ucast_iff high numeral_2_eq_2 numeral_3_eq_3\<close>)
qed

lemma trigram_of_small: "bit (trigram_of a b c) k \<Longrightarrow> k < 24"
  by (auto simp add: trigram_of_def bit_or_iff bit_push_bit_iff bit_ucast_iff dest: bit_imp_le_length)

lemma load_u32_masked: "load_u32 (a # b # c # cs) AND 0xffffff = trigram_of a b c"
proof (rule bit_word_eqI)
  fix k :: nat
  have m: "(0xffffff :: u32) = mask 24" by (simp add: mask_eq_exp_minus_1)
  have "bit (0xffffff :: u32) k \<longleftrightarrow> k < 24" unfolding m by (auto simp only: bit_mask_iff) simp
  then show "bit (load_u32 (a # b # c # cs) AND 0xffffff) k = bit (trigram_of a b c) k"
    unfolding load_u32_bits
    by (auto simp add: bit_and_iff bit_or_iff bit_push_bit_iff dest: trigram_of_small)
qed

lemma load_u32_end: "load_u32 (a # b # c # cs) \<le> 0xffffff \<longleftrightarrow> hd (cs @ [0]) = 0"
proof
  assume "hd (cs @ [0]) = 0"
  then have "load_u32 (a # b # c # cs) = load_u32 (a # b # c # cs) AND 0xffffff"
    by (simp add: load_u32_masked) (simp add: load_u32_bits)
  then show "load_u32 (a # b # c # cs) \<le> 0xffffff" by (metis word_and_le1)
next
  assume le: "load_u32 (a # b # c # cs) \<le> 0xffffff"
  show "hd (cs @ [0]) = 0"
  proof (rule bit_word_eqI)
    fix k :: nat assume "k < LENGTH(8)"
    then have k: "k < 8" by simp
    have "unat (load_u32 (a # b # c # cs)) < 2 ^ 24" using le by (simp add: word_le_nat_alt)
    then have "drop_bit 24 (load_u32 (a # b # c # cs)) = 0"
      unfolding unat_0_iff [symmetric] unat_drop_bit_eq by (simp add: drop_bit_eq_div)
    then have "\<not> bit (drop_bit 24 (load_u32 (a # b # c # cs))) k" by simp
    then have "\<not> bit (load_u32 (a # b # c # cs)) (24 + k)" by (simp add: bit_drop_bit_eq)
    then show "bit (hd (cs @ [0])) k = bit 0 k"
      using k by (simp add: load_u32_bits bit_or_iff bit_push_bit_iff bit_ucast_iff)
  qed
qed

section \<open>What the loop finds\<close>

lemma scan_names_end: "length rest \<le> 3 \<Longrightarrow> scan_names rest = Some []"
  by (simp add: scan_names.simps)

text \<open>Inside a name: the trigrams up to its end, then the names after the separator.\<close>

lemma scan_name_trigrams:
  assumes "0 \<notin> set f" and "3 \<le> length f" and "rest = [] \<or> hd rest = 0"
  shows "scan_name (f @ rest) = map_option ((@) (file_trigrams f)) (scan_names (drop 1 rest))"
  using assms
proof (induction f rule: file_trigrams.induct)
  case (1 a b c cs)
  note step = scan_name.simps [of "(a # b # c # cs) @ rest"]
  have l: "load_u32 ((a # b # c # cs) @ rest) AND 0xffffff = trigram_of a b c"
    "load_u32 ((a # b # c # cs) @ rest) \<le> 0xffffff \<longleftrightarrow> hd ((cs @ rest) @ [0]) = 0"
    using load_u32_masked [of a b c "cs @ rest"] load_u32_end [of a b c "cs @ rest"] by simp_all
  show ?case
  proof (cases cs)
    case Nil
    then have "hd ((cs @ rest) @ [0]) = 0" using "1.prems"(3) by (cases rest) auto
    then show ?thesis using l Nil
      by (subst step) (cases "scan_names (drop 1 rest)"; simp add: Let_def)
  next
    case (Cons d ds)
    then have "hd ((cs @ rest) @ [0]) \<noteq> 0" using "1.prems"(1) by auto
    moreover have "scan_name ((b # c # cs) @ rest) =
        map_option ((@) (file_trigrams (b # c # cs))) (scan_names (drop 1 rest))"
      by (rule "1.IH") (use "1.prems" Cons in auto)
    ultimately show ?thesis
      using l Cons
      by (subst step) (cases "scan_names (drop 1 rest)"; simp add: Let_def)
  qed
qed simp_all

lemma join_names_Cons: "fs \<noteq> [] \<Longrightarrow> join_names (f # fs) = f @ [0] @ join_names fs"
  by (cases fs) simp_all

lemma file_trigrams_short: "length f < 3 \<Longrightarrow> file_trigrams f = []"
  by (cases f rule: file_trigrams.cases) simp_all

lemma scan_names_short:
  assumes "0 \<notin> set f" and "length f < 3" and "3 < length (f @ 0 # rest)"
  shows "scan_names (f @ 0 # rest) = scan_names rest"
proof -
  consider "f = []" | a where "f = [a]" | a b where "f = [a, b]"
    using assms(2) by (cases f; cases "tl f"; cases "tl (tl f)") auto
  then show ?thesis
    using assms by cases (simp_all add: scan_names.simps [of "_ # _"])
qed

lemma scan_names_long:
  assumes "0 \<notin> set f" and "3 \<le> length f" and "3 < length (f @ rest)"
  shows "scan_names (f @ rest) = scan_name (f @ rest)"
proof -
  obtain a b c cs where "f = a # b # c # cs"
    using assms(2) by (cases f; cases "tl f"; cases "tl (tl f)") auto
  with assms(1,3) show ?thesis by (simp add: scan_names.simps [of "_ # _"])
qed

lemma short_names_no_trigrams:
  "fs \<noteq> [] \<Longrightarrow> length (join_names fs) \<le> 3 \<Longrightarrow> concat (map file_trigrams (indexed_names fs)) = []"
proof (induction fs rule: join_names.induct)
  case (2 f)
  then show ?case by (auto simp add: indexed_names_def file_trigrams_short)
next
  case (3 f g fs)
  then have "length (join_names (g # fs)) < 3" "length f < 3" by simp_all
  moreover have "length (last (g # fs)) \<le> length (join_names (g # fs))" for g fs
  proof (induction fs arbitrary: g)
    case (Cons a fs)
    from Cons [of a] show ?case by simp
  qed simp
  ultimately have "length (last (g # fs)) \<noteq> 3" by (metis not_less)
  with 3 \<open>length f < 3\<close> show ?case
    by (auto simp add: indexed_names_def file_trigrams_short split: if_splits)
qed simp

lemma scan_names_trigrams:
  assumes "fs \<noteq> []" and "list_all (\<lambda>f. 0 \<notin> set f) fs"
  shows "scan_names (join_names fs) = Some (concat (map file_trigrams (indexed_names fs)))"
  using assms
proof (induction fs rule: join_names.induct)
  case (2 f)
  show ?case
  proof (cases "length f \<le> 3")
    case True
    then show ?thesis
      by (auto simp add: scan_names_end indexed_names_def file_trigrams_short)
  next
    case False
    then have "scan_names (f @ []) = map_option ((@) (file_trigrams f)) (scan_names (drop 1 []))"
      using "2.prems" by (subst scan_names_long) (simp_all add: scan_name_trigrams del: append_Nil2)
    with False show ?thesis by (simp add: scan_names_end indexed_names_def)
  qed
next
  case (3 f g fs)
  have IH: "scan_names (join_names (g # fs)) = Some (concat (map file_trigrams (indexed_names (g # fs))))"
    using "3.IH" "3.prems" by simp
  have idx: "concat (map file_trigrams (indexed_names (f # g # fs))) =
      file_trigrams f @ concat (map file_trigrams (indexed_names (g # fs)))"
    by (simp add: indexed_names_def)
  show ?case
  proof (cases "length (join_names (f # g # fs)) \<le> 3")
    case True
    then show ?thesis using short_names_no_trigrams [of "f # g # fs"] by (simp add: scan_names_end)
  next
    case big: False
    show ?thesis
    proof (cases "length f < 3")
      case True
      then show ?thesis
        using scan_names_short [of f "join_names (g # fs)"] big "3.prems"(2) IH idx
        by (simp add: file_trigrams_short)
    next
      case False
      then have "scan_names (f @ 0 # join_names (g # fs)) =
          map_option ((@) (file_trigrams f)) (scan_names (drop 1 (0 # join_names (g # fs))))"
        using "3.prems"(2) by (subst scan_names_long) (simp_all add: scan_name_trigrams)
      then show ?thesis using IH idx by simp
    qed
  qed
qed simp

section \<open>Properties\<close>

text \<open>For every block of names without zero bytes, the loop reads nothing behind the block's
  terminating zero byte, ends, and adds exactly the trigrams of the names in order, except for
  those of a last name that has exactly three bytes.\<close>
theorem block_trigrams_of_names:
  assumes "fs \<noteq> []" and "list_all (\<lambda>f. 0 \<notin> set f) fs"
  shows "block_trigrams (join_names fs) = Some (concat (map file_trigrams (indexed_names fs)))"
  unfolding block_trigrams_def using assms by (rule scan_names_trigrams)

lemma block_trigrams_of_names_witness:
  "block_trigrams (join_names [str ''/abc'', str ''x'', str ''/de'']) =
   Some [trigram_of 47 97 98, trigram_of 97 98 99]"
  by (subst block_trigrams_of_names) (simp_all add: str_def indexed_names_def)

text \<open>The loop misses the last name of a block when it has exactly three bytes: the block of the
  one name \<open>/ab\<close>, which the pattern \<open>/ab\<close> matches and whose trigram the search requires, is
  indexed under no trigram at all.\<close>
theorem three_byte_name_not_indexed:
  "block_trigrams (join_names [str ''/ab'']) = Some [] \<and>
   parse_trigrams_case_sensitive (str ''/ab'') = [file_trigrams (str ''/ab'')] \<and>
   file_trigrams (str ''/ab'') \<noteq> []"
  by (simp add: block_trigrams_def scan_names_end str_def parse_trigrams_case_sensitive_def
      parse_trigrams_from.simps read_trigram_def read_unigram_def WILDCARD_UNIGRAM_def
      PREMATURE_END_UNIGRAM_def trigram_of_def Let_def)

end
