(* ===== verification/Turbopfor_Common.thy ===== *)
theory Turbopfor_Common
  imports Prelude
begin

text \<open>
  \<open>include/turbopfor-common.h\<close> and the memory that the posting-list codec works on. A buffer is
  a function from addresses to bytes; a pointer is an address. Block lengths and bit widths
  (\<open>unsigned\<close> in the code) are natural numbers: a block has at most 128 values of at most 63
  bits, so their products stay far below \<open>2 ^ 32\<close>. An operation that the code forbids with
  \<open>assert(false)\<close>, or that the C++ standard leaves undefined (a shift by the width of the
  operand), gives None.
\<close>

section \<open>Memory\<close>

type_synonym mem = "nat \<Rightarrow> byte"

definition store :: "mem \<Rightarrow> nat \<Rightarrow> bytes \<Rightarrow> mem" where
  "store m a bs = (\<lambda>i. if a \<le> i \<and> i < a + length bs then bs ! (i - a) else m i)"

definition load :: "mem \<Rightarrow> nat \<Rightarrow> nat \<Rightarrow> bytes" where
  "load m a n = map m [a..<a + n]"

definition write_le :: "nat \<Rightarrow> 'a::len word \<Rightarrow> nat \<Rightarrow> mem \<Rightarrow> mem" where
  "write_le n v out m = store m out (put_le n v)"

definition read_le :: "nat \<Rightarrow> mem \<Rightarrow> nat \<Rightarrow> 'a::len word" where
  "read_le n m p = get_le n (load m p n)"

definition same_bytes :: "mem \<Rightarrow> mem \<Rightarrow> nat \<Rightarrow> nat \<Rightarrow> bool" where
  "same_bytes m m' a b \<longleftrightarrow> (\<forall>i. a \<le> i \<longrightarrow> i < b \<longrightarrow> m i = m' i)"

lemma store_outside [simp]: "i < a \<or> a + length bs \<le> i \<Longrightarrow> store m a bs i = m i"
  by (auto simp add: store_def)

lemma store_inside [simp]: "k < length bs \<Longrightarrow> store m a bs (a + k) = bs ! k"
  by (simp add: store_def)

lemma length_load [simp]: "length (load m a n) = n"
  by (simp add: load_def)

lemma nth_load [simp]: "k < n \<Longrightarrow> load m a n ! k = m (a + k)"
  by (simp add: load_def)

lemma load_store [simp]: "load (store m a bs) a (length bs) = bs"
  by (rule nth_equalityI) simp_all

lemma load_append: "load m a (j + k) = load m a j @ load m (a + j) k"
proof -
  have "[a..<a + (j + k)] = [a..<a + j] @ [a + j..<a + j + k]"
    using upt_add_eq_append [of a "a + j" k] by (simp add: add.assoc)
  then show ?thesis by (simp add: load_def add.assoc)
qed

lemma bit_read_le:
  "bit (read_le n m p :: 'a::len word) k \<longleftrightarrow>
     k < LENGTH('a) \<and> k < 8 * n \<and> bit (m (p + k div 8)) (k mod 8)"
  by (auto simp add: read_le_def bit_get_le)

lemma same_bytes_refl [simp]: "same_bytes m m a b"
  by (simp add: same_bytes_def)

lemma same_bytes_trans: "same_bytes m m' a b \<Longrightarrow> same_bytes m' m'' a b \<Longrightarrow> same_bytes m m'' a b"
  by (simp add: same_bytes_def)

lemma same_bytes_sym: "same_bytes m m' a b \<Longrightarrow> same_bytes m' m a b"
  by (simp add: same_bytes_def)

lemma same_bytes_sub: "same_bytes m m' a b \<Longrightarrow> a \<le> c \<Longrightarrow> d \<le> b \<Longrightarrow> same_bytes m m' c d"
  by (auto simp add: same_bytes_def)

lemma same_bytes_store: "b \<le> a' \<Longrightarrow> same_bytes m (store m a' bs) a b"
  by (auto simp add: same_bytes_def store_def)

lemma same_bytes_load: "same_bytes m m' a (a + n) \<Longrightarrow> load m a n = load m' a n"
  by (auto simp add: same_bytes_def load_def)

section \<open>Block types and sizes\<close>

datatype block_type = FOR | PFOR_VB | PFOR_BITMAP | CONSTANT

fun block_type_code :: "block_type \<Rightarrow> byte" where
  "block_type_code FOR = 0"
| "block_type_code PFOR_VB = 1"
| "block_type_code PFOR_BITMAP = 2"
| "block_type_code CONSTANT = 3"

definition div_round_up :: "nat \<Rightarrow> nat \<Rightarrow> nat" where
  "div_round_up val d = (val + d - 1) div d"

definition bytes_for_packed_bits :: "nat \<Rightarrow> nat \<Rightarrow> nat" where
  "bytes_for_packed_bits num bit_width = div_round_up (num * bit_width) 8"

definition mask_for_bits :: "nat \<Rightarrow> u32" where
  "mask_for_bits bit_width =
     (if bit_width = 32 then 0xFFFFFFFF else push_bit bit_width 1 - 1)"

lemma mask_for_bits_mask: "w \<le> 32 \<Longrightarrow> mask_for_bits w = mask w"
proof (cases "w = 32")
  case True
  then show ?thesis by (simp add: mask_for_bits_def mask_eq_exp_minus_1)
next
  case False
  then show ?thesis by (simp add: mask_for_bits_def mask_eq_exp_minus_1 push_bit_eq_mult)
qed

lemma bit_and_mask: "w \<le> 32 \<Longrightarrow> bit (v AND mask_for_bits w) k \<longleftrightarrow> bit v k \<and> k < w"
  by (auto simp add: mask_for_bits_mask bit_and_iff bit_mask_iff dest: bit_imp_le_length)

lemma packed_bytes_cover: "p < num * w \<Longrightarrow> p div 8 < bytes_for_packed_bits num w"
  by (auto simp add: bytes_for_packed_bits_def div_round_up_def)

section \<open>Bit widths of values\<close>

text \<open>\<open>__builtin_clz\<close>, the number of leading zero bits of a nonzero value.\<close>

definition clz32 :: "u32 \<Rightarrow> nat" where
  "clz32 x = length (takeWhile (\<lambda>i. \<not> bit x (31 - i)) [0..<32])"

definition num_bits :: "u32 \<Rightarrow> nat" where
  "num_bits x = (if x = 0 then 0 else 32 - clz32 x)"

lemma clz32_le: "clz32 x \<le> 32"
  unfolding clz32_def using length_takeWhile_le [of _ "[0..<32]"] by simp

lemma num_bits_le: "num_bits x \<le> 32"
  by (simp add: num_bits_def)

lemma clz32_zeros:
  assumes "32 - clz32 x \<le> k"
  shows "\<not> bit x k"
proof (cases "k < 32")
  case True
  let ?P = "\<lambda>i. \<not> bit x (31 - i)"
  have "31 - k < clz32 x" using assms True clz32_le [of x] by simp
  then have "31 - k < length (takeWhile ?P [0..<32])" by (simp add: clz32_def)
  then have "?P (takeWhile ?P [0..<32] ! (31 - k))"
    using nth_mem set_takeWhileD by fastforce
  moreover have "takeWhile ?P [0..<32] ! (31 - k) = 31 - k"
    using \<open>31 - k < length (takeWhile ?P [0..<32])\<close> by (simp add: takeWhile_nth)
  ultimately show ?thesis using True by simp
next
  case False
  then show ?thesis by (auto dest: bit_imp_le_length)
qed

lemma clz32_top:
  assumes "clz32 x < 32"
  shows "bit x (31 - clz32 x)"
  using nth_length_takeWhile [of "\<lambda>i. \<not> bit x (31 - i)" "[0..<32]"] assms
  by (simp add: clz32_def)

lemma drop_bit_eq_0_iff: "drop_bit w x = 0 \<longleftrightarrow> num_bits x \<le> w"
proof
  assume "num_bits x \<le> w"
  then have "32 - clz32 x \<le> w + k" if "x \<noteq> 0" for k
    using that by (simp add: num_bits_def)
  then have "\<not> bit x (w + k)" for k
    using clz32_zeros [of x "w + k"] by (cases "x = 0") auto
  then show "drop_bit w x = 0"
    by (intro bit_word_eqI) (simp add: bit_drop_bit_eq)
next
  assume d: "drop_bit w x = 0"
  show "num_bits x \<le> w"
  proof (rule ccontr)
    assume "\<not> num_bits x \<le> w"
    then have "clz32 x < 32" and "w + (31 - clz32 x - w) = 31 - clz32 x"
      by (auto simp add: num_bits_def split: if_splits)
    then have "bit (drop_bit w x) (31 - clz32 x - w)"
      using clz32_top [of x] by (simp add: bit_drop_bit_eq)
    with d show False by simp
  qed
qed

lemma num_bits_less_pow: "num_bits x \<le> n \<Longrightarrow> bit x k \<Longrightarrow> k < n"
  using drop_bit_eq_0_iff [of n x] bit_drop_bit_eq [of n x]
  by (metis bit_0_eq bot_apply bot_bool_def le_Suc_ex linorder_not_le comp_apply)

lemma num_bits_pow: "num_bits x \<le> n \<longleftrightarrow> unat x < 2 ^ n"
proof -
  have "drop_bit n x = 0 \<longleftrightarrow> unat (drop_bit n x) = 0"
    by (simp add: unat_eq_0)
  also have "\<dots> \<longleftrightarrow> unat x div 2 ^ n = 0"
    unfolding unat_drop_bit_eq by (simp add: drop_bit_eq_div)
  finally show ?thesis
    by (simp add: drop_bit_eq_0_iff div_eq_0_iff)
qed

end
