(* ===== verification/Turbopfor_Encode.thy ===== *)
theory Turbopfor_Encode
  imports Turbopfor_Common
begin

text \<open>
  \<open>include/turbopfor-encode.h\<close>: the encoder of posting-list blocks, for 32-bit docids (the one
  specialisation the program uses). A function that writes through \<open>out\<close> takes the memory and
  returns it with the advanced pointer; the pair \<open>in, num\<close> is the list of the block's values.
\<close>

section \<open>Variable-length integers\<close>

definition write_baseval :: "u32 \<Rightarrow> nat \<Rightarrow> mem \<Rightarrow> (mem \<times> nat) option" where
  "write_baseval v out m =
     (if v < 128 then Some (store m out [ucast v], out + 1)
      else if v < 0x4000 then
        Some (store m out [ucast (drop_bit 8 v OR 0x80), ucast (v AND 0xff)], out + 2)
      else if v < 0x200000 then
        Some (store m out [ucast (drop_bit 16 v OR 0xc0), ucast (v AND 0xff),
                           ucast (drop_bit 8 v AND 0xff)], out + 3)
      else if v < 0x10000000 then
        Some (store m out [ucast (drop_bit 24 v OR 0xe0), ucast (drop_bit 16 v AND 0xff),
                           ucast (drop_bit 8 v AND 0xff), ucast (v AND 0xff)], out + 4)
      else None)"

definition write_vb :: "u32 \<Rightarrow> nat \<Rightarrow> mem \<Rightarrow> mem \<times> nat" where
  "write_vb val out m =
     (if val \<le> 176 then (store m out [ucast val], out + 1)
      else if val \<le> 16560 then
        let val = val - 177 in
        (store m out [ucast (drop_bit 8 val + 177), ucast (val AND 0xff)], out + 2)
      else if val \<le> 540848 then
        let val = val - 16561;
            m = store m out [ucast (drop_bit 16 val + 241)]
        in (write_le 2 (ucast (val AND 0xffff) :: u16) (out + 1) m, out + 3)
      else if val \<le> 16777215 then
        (write_le 4 val (out + 1) (store m out [249]), out + 4)
      else
        (write_le 4 val (out + 1) (store m out [250]), out + 5))"

section \<open>Bit writers\<close>

record bit_writer =
  bw_out :: nat
  bw_bits :: nat
  bw_used :: nat
  bw_cur :: u32

definition BitWriter :: "nat \<Rightarrow> nat \<Rightarrow> bit_writer" where
  "BitWriter out bits = \<lparr>bw_out = out, bw_bits = bits, bw_used = 0, bw_cur = 0\<rparr>"

definition bw_write :: "bit_writer \<Rightarrow> u32 \<Rightarrow> mem \<Rightarrow> (bit_writer \<times> mem) option" where
  "bw_write bs val m =
     (let cur = bw_cur bs OR push_bit (bw_used bs) val;
          m = write_le 4 cur (bw_out bs) m;
          used = bw_used bs + bw_bits bs;
          shift = (used div 8) * 8
      in
      if 32 \<le> shift then None
      else
        Some (bs\<lparr>bw_out := bw_out bs + used div 8, bw_used := used mod 8,
                 bw_cur := drop_bit shift cur\<rparr>, m))"

fun bw_writes :: "bit_writer \<Rightarrow> u32 list \<Rightarrow> mem \<Rightarrow> (bit_writer \<times> mem) option" where
  "bw_writes bs [] m = Some (bs, m)"
| "bw_writes bs (v # vs) m =
     (case bw_write bs v m of None \<Rightarrow> None | Some (bs, m) \<Rightarrow> bw_writes bs vs m)"

text \<open>
  The writer of one of four interleaved streams. \<open>bits_used -= 32\<close> underflows the unsigned
  counter when it is below 32; the addition of \<open>bits\<close> right after it brings it back, so the
  two are one subtraction here.
\<close>

record interleaved_bit_writer =
  iw_out :: nat
  iw_bits :: nat
  iw_used :: nat
  iw_cur :: u64

definition InterleavedBitWriter :: "nat \<Rightarrow> nat \<Rightarrow> interleaved_bit_writer" where
  "InterleavedBitWriter out bits = \<lparr>iw_out = out, iw_bits = bits, iw_used = 0, iw_cur = 0\<rparr>"

definition Stride :: nat where
  "Stride = 4 * 4"

definition iw_write ::
    "interleaved_bit_writer \<Rightarrow> u32 \<Rightarrow> mem \<Rightarrow> interleaved_bit_writer \<times> mem" where
  "iw_write bs val m =
     (let cur = iw_cur bs OR push_bit (iw_used bs) (ucast val) in
      if 32 \<le> iw_used bs + iw_bits bs then
        let m = write_le 4 (ucast (cur AND 0xffffffff) :: u32) (iw_out bs) m;
            out = iw_out bs + Stride;
            cur = drop_bit 32 cur;
            m = write_le 4 (ucast cur :: u32) out m
        in (bs\<lparr>iw_out := out, iw_cur := cur, iw_used := iw_used bs + iw_bits bs - 32\<rparr>, m)
      else
        let m = write_le 4 (ucast cur :: u32) (iw_out bs) m
        in (bs\<lparr>iw_cur := cur, iw_used := iw_used bs + iw_bits bs\<rparr>, m))"

text \<open>The loop over groups of four values; None is the failed \<open>assert(num % 4 == 0)\<close>.\<close>

type_synonym four_writers =
  "interleaved_bit_writer \<times> interleaved_bit_writer \<times> interleaved_bit_writer \<times> interleaved_bit_writer"

fun iw_writes :: "four_writers \<Rightarrow> u32 list \<Rightarrow> mem \<Rightarrow> mem option" where
  "iw_writes bs [] m = Some m"
| "iw_writes (bs0, bs1, bs2, bs3) (a # b # c # d # vs) m =
     (let (bs0, m) = iw_write bs0 a m;
          (bs1, m) = iw_write bs1 b m;
          (bs2, m) = iw_write bs2 c m;
          (bs3, m) = iw_write bs3 d m
      in iw_writes (bs0, bs1, bs2, bs3) vs m)"
| "iw_writes bs vs m = None"

definition encode_bitmap :: "u32 list \<Rightarrow> nat \<Rightarrow> bool \<Rightarrow> nat \<Rightarrow> mem \<Rightarrow> (mem \<times> nat) option" where
  "encode_bitmap in_vals bit_width interleaved out m =
     (let msk = mask_for_bits bit_width;
          vals = map (\<lambda>v. v AND msk) in_vals;
          end = out + bytes_for_packed_bits (length in_vals) bit_width
      in
      if interleaved then
        case iw_writes (InterleavedBitWriter (out + 0 * 4) bit_width,
                        InterleavedBitWriter (out + 1 * 4) bit_width,
                        InterleavedBitWriter (out + 2 * 4) bit_width,
                        InterleavedBitWriter (out + 3 * 4) bit_width) vals m of
          None \<Rightarrow> None
        | Some m \<Rightarrow> Some (m, end)
      else
        case bw_writes (BitWriter out bit_width) vals m of
          None \<Rightarrow> None
        | Some (bs, m) \<Rightarrow> Some (m, end))"

section \<open>Blocks\<close>

definition encode_for :: "u32 list \<Rightarrow> nat \<Rightarrow> bool \<Rightarrow> nat \<Rightarrow> mem \<Rightarrow> (mem \<times> nat) option" where
  "encode_for in_vals bit_width interleaved out m =
     encode_bitmap in_vals bit_width interleaved out m"

definition encode_pfor_bitmap ::
    "u32 list \<Rightarrow> nat \<Rightarrow> nat \<Rightarrow> bool \<Rightarrow> nat \<Rightarrow> mem \<Rightarrow> (mem \<times> nat) option" where
  "encode_pfor_bitmap in_vals bit_width exception_bit_width interleaved out m =
     (let m = store m out [of_nat exception_bit_width];
          out = out + 1;
          flags = map (\<lambda>v. if drop_bit bit_width v \<noteq> 0 then 1 else 0) in_vals
      in
      case bw_writes (BitWriter out 1) flags m of
        None \<Rightarrow> None
      | Some (bs, m) \<Rightarrow>
          let out = out + bytes_for_packed_bits (length in_vals) 1;
              exceptions = filter (\<lambda>e. e \<noteq> 0) (map (drop_bit bit_width) in_vals)
          in
          (case bw_writes (BitWriter out exception_bit_width) exceptions m of
             None \<Rightarrow> None
           | Some (bs, m) \<Rightarrow>
               let out = out + bytes_for_packed_bits (length exceptions) exception_bit_width
               in encode_bitmap in_vals bit_width interleaved out m))"

fun write_vbs :: "u32 list \<Rightarrow> nat \<Rightarrow> mem \<Rightarrow> mem \<times> nat" where
  "write_vbs [] out m = (m, out)"
| "write_vbs (v # vs) out m =
     (if v \<noteq> 0 then let (m, out) = write_vb v out m in write_vbs vs out m
      else write_vbs vs out m)"

fun write_indexes :: "nat \<Rightarrow> u32 list \<Rightarrow> nat \<Rightarrow> mem \<Rightarrow> mem \<times> nat" where
  "write_indexes i [] out m = (m, out)"
| "write_indexes i (v # vs) out m =
     (if v \<noteq> 0 then write_indexes (Suc i) vs (out + 1) (store m out [of_nat i])
      else write_indexes (Suc i) vs out m)"

definition encode_pfor_vb ::
    "u32 list \<Rightarrow> nat \<Rightarrow> bool \<Rightarrow> nat \<Rightarrow> mem \<Rightarrow> (mem \<times> nat) option" where
  "encode_pfor_vb in_vals bit_width interleaved out m =
     (let high = map (drop_bit bit_width) in_vals;
          num_exceptions = length (filter (\<lambda>e. e \<noteq> 0) high);
          m = store m out [of_nat num_exceptions];
          out = out + 1
      in
      case encode_bitmap in_vals bit_width interleaved out m of
        None \<Rightarrow> None
      | Some (m, out) \<Rightarrow>
          let (m, out) = write_vbs high out m
          in Some (write_indexes 0 high out m))"

section \<open>Choice of the block type\<close>

definition histogram_of :: "u32 list \<Rightarrow> nat list" where
  "histogram_of in_vals =
     fold (\<lambda>v h. h[num_bits v := Suc (h ! num_bits v)]) in_vals (replicate 33 0)"

definition max_bits_of :: "u32 list \<Rightarrow> nat" where
  "max_bits_of in_vals = fold (\<lambda>v b. max b (num_bits v)) in_vals 0"

text \<open>PFOR with bitmap exceptions: state is number of exceptions, best cost, best bit width.\<close>

definition try_bitmap :: "nat \<Rightarrow> nat \<Rightarrow> nat list \<Rightarrow> nat \<times> nat" where
  "try_bitmap num max_bits histogram =
     (let bitmap_cost = bytes_for_packed_bits num 1;
          (num_exceptions, best_cost, best_bit_width) =
            fold (\<lambda>exception_bit_width (num_exceptions, best_cost, best_bit_width).
                let test_bit_width = max_bits - exception_bit_width;
                    num_exceptions = num_exceptions + histogram ! (test_bit_width + 1);
                    cost = 1 + bitmap_cost + bytes_for_packed_bits num test_bit_width +
                      bytes_for_packed_bits num_exceptions exception_bit_width
                in if cost < best_cost then (num_exceptions, cost, test_bit_width)
                   else (num_exceptions, best_cost, best_bit_width))
              [1..<max_bits + 1] (0, bytes_for_packed_bits num max_bits, max_bits)
      in (best_cost, best_bit_width))"

definition cumulative :: "nat \<Rightarrow> nat list \<Rightarrow> nat list" where
  "cumulative max_bits histogram =
     fold (\<lambda>i h. h[i - 1 := h ! (i - 1) + h ! i]) (rev [1..<max_bits + 1]) histogram"

definition vb_cost :: "nat \<Rightarrow> nat \<Rightarrow> nat list \<Rightarrow> nat \<Rightarrow> nat" where
  "vb_cost num max_bits histogram w =
     1 + bytes_for_packed_bits num w +
     (if w + 1 \<le> max_bits then
        2 * histogram ! (w + 1) +
        (if w + 7 \<le> max_bits then
           histogram ! (w + 7) +
           (if w + 14 \<le> max_bits then
              histogram ! (w + 14) +
              (if w + 19 \<le> max_bits then
                 histogram ! (w + 19) +
                 (if w + 24 \<le> max_bits then histogram ! (w + 24) else 0)
               else 0)
            else 0)
         else 0)
      else 0)"

text \<open>
  PFOR with varbyte exceptions: the remaining candidate widths, then best cost, best bit width
  and whether a varbyte width is the best; the first width that is too expensive without
  exceptions leaves the loop.
\<close>

fun try_varbyte ::
    "nat \<Rightarrow> nat \<Rightarrow> nat list \<Rightarrow> nat list \<Rightarrow> nat \<times> nat \<times> bool \<Rightarrow> nat \<times> nat \<times> bool" where
  "try_varbyte num max_bits histogram [] best = best"
| "try_varbyte num max_bits histogram (w # ws) (best_cost, best_bit_width, best_is_varbyte) =
     (if best_cost \<le> 1 + bytes_for_packed_bits num w then
        (best_cost, best_bit_width, best_is_varbyte)
      else if vb_cost num max_bits histogram w < best_cost then
        try_varbyte num max_bits histogram ws (vb_cost num max_bits histogram w, w, True)
      else
        try_varbyte num max_bits histogram ws (best_cost, best_bit_width, best_is_varbyte))"

text \<open>
  Returns the type with \<open>*bit_width\<close> and \<open>*exception_bit_width\<close> (0 where the code leaves it
  unset, which only the bitmap block reads).
\<close>

definition decide_block_type :: "u32 list \<Rightarrow> block_type \<times> nat \<times> nat" where
  "decide_block_type in_vals =
     (if list_all (\<lambda>v. v = hd in_vals) in_vals then (CONSTANT, num_bits (hd in_vals), 0)
      else
        let num = length in_vals;
            histogram = histogram_of in_vals;
            max_bits = max_bits_of in_vals;
            (best_cost, best_bit_width) = try_bitmap num max_bits histogram;
            histogram = cumulative max_bits histogram;
            (best_cost, best_bit_width, best_is_varbyte) =
              try_varbyte num max_bits histogram [0..<max_bits]
                (best_cost, best_bit_width, False)
        in
        if best_is_varbyte then (PFOR_VB, best_bit_width, 0)
        else if best_bit_width = max_bits then (FOR, max_bits, 0)
        else (PFOR_BITMAP, best_bit_width, max_bits - best_bit_width))"

definition encode_pfor_single_block ::
    "u32 list \<Rightarrow> bool \<Rightarrow> nat \<Rightarrow> mem \<Rightarrow> (mem \<times> nat) option" where
  "encode_pfor_single_block in_vals interleaved out m =
     (if in_vals = [] \<or> interleaved \<and> length in_vals \<noteq> 128 then None
      else
        let (block_type, bit_width, exception_bit_width) = decide_block_type in_vals;
            m = store m out [push_bit 6 (block_type_code block_type) OR of_nat bit_width];
            out = out + 1
        in
        (case block_type of
           CONSTANT \<Rightarrow>
             let bit_width = num_bits (hd in_vals)
             in Some (write_le 4 (hd in_vals) out m, out + div_round_up bit_width 8)
         | FOR \<Rightarrow> encode_for in_vals bit_width interleaved out m
         | PFOR_BITMAP \<Rightarrow>
             encode_pfor_bitmap in_vals bit_width exception_bit_width interleaved out m
         | PFOR_VB \<Rightarrow> encode_pfor_vb in_vals bit_width interleaved out m))"

end
