(* ===== verification/Turbopfor_Decode.thy ===== *)
theory Turbopfor_Decode
  imports Turbopfor_Common
begin

text \<open>
  \<open>src/turbopfor.cpp\<close>: the decoder of posting lists, the generic code and the SSE2 code, for
  blocks of 128 values and 32-bit docids. A block decoder takes \<open>out[-1]\<close>, the last docid that
  was decoded, as \<open>prev\<close>, and returns the new pointer with the values it stores at
  \<open>out[0], out[1], ...\<close>. The decoder is not made for corrupt input; where such input would run
  into \<open>assert(false)\<close> the model has None.
\<close>

section \<open>Variable-length integers\<close>

definition read_baseval :: "mem \<Rightarrow> nat \<Rightarrow> (u32 \<times> nat) option" where
  "read_baseval m p =
     (let b = (\<lambda>i. ucast (m (p + i)) :: u32) in
      if m p < 128 then Some (b 0, p + 1)
      else if m p < 192 then Some ((push_bit 8 (b 0) OR b 1) AND 0x3fff, p + 2)
      else if m p < 224 then
        Some ((push_bit 16 (b 0) OR push_bit 8 (b 2) OR b 1) AND 0x1fffff, p + 3)
      else if m p < 240 then
        Some ((push_bit 24 (b 0) OR push_bit 16 (b 1) OR push_bit 8 (b 2) OR b 3)
                AND 0xfffffff, p + 4)
      else None)"

definition read_vb :: "mem \<Rightarrow> nat \<Rightarrow> (u32 \<times> nat) option" where
  "read_vb m p =
     (let b = (\<lambda>i. ucast (m (p + i)) :: u32) in
      if m p \<le> 176 then Some (b 0, p + 1)
      else if m p \<le> 240 then
        Some ((push_bit 8 (b 0 - 177) OR b 1) + 177, p + 2)
      else if m p \<le> 248 then
        Some ((push_bit 16 (b 0 - 241) OR ucast (read_le 2 m (p + 1) :: u16)) + 16561, p + 3)
      else if m p = 249 then
        Some (b 1 OR push_bit 8 (b 2) OR push_bit 16 (b 3), p + 4)
      else if m p = 250 then Some (read_le 4 m (p + 1), p + 5)
      else None)"

section \<open>Bit readers\<close>

record bit_reader =
  br_in :: nat
  br_bits :: nat
  br_used :: nat

definition BitReader :: "nat \<Rightarrow> nat \<Rightarrow> bit_reader" where
  "BitReader p bits = \<lparr>br_in = p, br_bits = bits, br_used = 0\<rparr>"

definition br_read :: "mem \<Rightarrow> bit_reader \<Rightarrow> u32 \<times> bit_reader" where
  "br_read m bs =
     (let val = drop_bit (br_used bs) (read_le 4 m (br_in bs)) AND mask_for_bits (br_bits bs);
          used = br_used bs + br_bits bs
      in (val, bs\<lparr>br_in := br_in bs + used div 8, br_used := used mod 8\<rparr>))"

record interleaved_bit_reader =
  ir_in :: nat
  ir_bits :: nat
  ir_used :: nat

definition InterleavedBitReader :: "nat \<Rightarrow> nat \<Rightarrow> interleaved_bit_reader" where
  "InterleavedBitReader p bits = \<lparr>ir_in = p, ir_bits = bits, ir_used = 0\<rparr>"

definition read_stride :: nat where
  "read_stride = 4 * 4"

definition ir_read :: "mem \<Rightarrow> interleaved_bit_reader \<Rightarrow> u32 \<times> interleaved_bit_reader" where
  "ir_read m bs =
     (let val =
        (if 32 < ir_used bs + ir_bits bs then
           drop_bit (ir_used bs) (read_le 4 m (ir_in bs)) OR
           push_bit (32 - ir_used bs) (read_le 4 m (ir_in bs + read_stride))
         else drop_bit (ir_used bs) (read_le 4 m (ir_in bs)));
          used = ir_used bs + ir_bits bs
      in (val AND mask_for_bits (ir_bits bs),
          bs\<lparr>ir_in := ir_in bs + read_stride * (used div 32), ir_used := used mod 32\<rparr>))"

section \<open>Blocks without exceptions\<close>

text \<open>The loops \<open>out[i] = prev_val = out[i] + prev_val + 1\<close>.\<close>

fun delta_decode :: "u32 \<Rightarrow> u32 list \<Rightarrow> u32 list" where
  "delta_decode prev [] = []"
| "delta_decode prev (v # vs) = (let prev = v + prev + 1 in prev # delta_decode prev vs)"

definition decode_constant :: "mem \<Rightarrow> nat \<Rightarrow> nat \<Rightarrow> u32 \<Rightarrow> nat \<times> u32 list" where
  "decode_constant m p num prev =
     (let bit_width = unat (m p AND 0x3f);
          p = p + 1;
          val = read_le 4 m p :: u32;
          val = (if bit_width < 4 * 8 then val AND mask_for_bits bit_width else val)
      in (p + div_round_up bit_width 8, delta_decode prev (replicate num val)))"

fun decode_for_loop :: "mem \<Rightarrow> nat \<Rightarrow> bit_reader \<Rightarrow> u32 \<Rightarrow> u32 list" where
  "decode_for_loop m 0 bs prev = []"
| "decode_for_loop m (Suc n) bs prev =
     (let (v, bs) = br_read m bs; prev = v + prev + 1 in prev # decode_for_loop m n bs prev)"

definition decode_for :: "mem \<Rightarrow> nat \<Rightarrow> nat \<Rightarrow> u32 \<Rightarrow> nat \<times> u32 list" where
  "decode_for m p num prev =
     (let bit_width = unat (m p AND 0x3f);
          p = p + 1
      in (p + bytes_for_packed_bits num bit_width,
          decode_for_loop m num (BitReader p bit_width) prev))"

type_synonym four_readers =
  "interleaved_bit_reader \<times> interleaved_bit_reader \<times> interleaved_bit_reader \<times> interleaved_bit_reader"

fun ir_reads :: "mem \<Rightarrow> nat \<Rightarrow> four_readers \<Rightarrow> u32 list" where
  "ir_reads m 0 bs = []"
| "ir_reads m (Suc n) (bs0, bs1, bs2, bs3) =
     (let (a, bs0) = ir_read m bs0;
          (b, bs1) = ir_read m bs1;
          (c, bs2) = ir_read m bs2;
          (d, bs3) = ir_read m bs3
      in a # b # c # d # ir_reads m n (bs0, bs1, bs2, bs3))"

definition four_readers :: "nat \<Rightarrow> nat \<Rightarrow> four_readers" where
  "four_readers p bit_width =
     (InterleavedBitReader (p + 0 * 4) bit_width, InterleavedBitReader (p + 1 * 4) bit_width,
      InterleavedBitReader (p + 2 * 4) bit_width, InterleavedBitReader (p + 3 * 4) bit_width)"

definition decode_for_interleaved_generic :: "mem \<Rightarrow> nat \<Rightarrow> u32 \<Rightarrow> nat \<times> u32 list" where
  "decode_for_interleaved_generic m p prev =
     (let bit_width = unat (m p AND 0x3f);
          p = p + 1;
          out = ir_reads m (128 div 4) (four_readers p bit_width)
      in (p + bytes_for_packed_bits 128 bit_width, delta_decode prev out))"

section \<open>Bitmap exceptions\<close>

text \<open>\<open>ffsll\<close>: one plus the index of the lowest set bit, 0 if there is none.\<close>

definition ffsll :: "u64 \<Rightarrow> nat" where
  "ffsll x = (if x = 0 then 0 else Suc (length (takeWhile (\<lambda>i. \<not> bit x i) [0..<64])))"

lemma and_minus_1_less: "x \<noteq> 0 \<Longrightarrow> unat (x AND (x - 1)) < unat (x :: u64)"
proof -
  assume x: "x \<noteq> 0"
  have "x AND (x - 1) \<le> x - 1" by (rule word_and_le1)
  then have "unat (x AND (x - 1)) \<le> unat (x - 1)" by (simp add: word_le_nat_alt)
  also have "\<dots> < unat x" using x by (simp add: unat_minus_one unat_gt_0)
  finally show ?thesis .
qed

text \<open>State of the loops: the reader, the values stored so far, the number of exceptions.\<close>

function exceptions_in_word ::
    "mem \<Rightarrow> u64 \<Rightarrow> nat \<Rightarrow> bit_reader \<times> u32 list \<times> nat \<Rightarrow> bit_reader \<times> u32 list \<times> nat" where
  "exceptions_in_word m exceptions i (bs, out, num_exceptions) =
     (if exceptions \<noteq> 0 then
        let idx = (ffsll exceptions - 1) + i;
            (v, bs) = br_read m bs
        in exceptions_in_word m (exceptions AND (exceptions - 1)) i
             (bs, out[idx := v], num_exceptions + 1)
      else (bs, out, num_exceptions))"
  by pat_completeness auto
termination
  by (relation "measure (\<lambda>(m, x, i, s). unat x)") (auto intro: and_minus_1_less)

declare exceptions_in_word.simps [simp del]

fun exceptions_in_words ::
    "mem \<Rightarrow> nat \<Rightarrow> nat \<Rightarrow> nat list \<Rightarrow> bit_reader \<times> u32 list \<times> nat \<Rightarrow> bit_reader \<times> u32 list \<times> nat"
where
  "exceptions_in_words m num bitmap_ptr [] s = s"
| "exceptions_in_words m num bitmap_ptr (j # js) s =
     (let i = 64 * j;
          exceptions = read_le 8 m (bitmap_ptr + 8 * j);
          exceptions = (if num - i < 64 then exceptions AND (push_bit (num - i) 1 - 1)
                        else exceptions)
      in exceptions_in_words m num bitmap_ptr js (exceptions_in_word m exceptions i s))"

definition decode_pfor_bitmap_exceptions ::
    "mem \<Rightarrow> nat \<Rightarrow> nat \<Rightarrow> u32 list \<Rightarrow> nat \<times> u32 list" where
  "decode_pfor_bitmap_exceptions m p num out =
     (let exception_bit_width = unat (m p);
          p = p + 1;
          bitmap_ptr = p;
          p = p + div_round_up num 8;
          (bs, out, num_exceptions) =
            exceptions_in_words m num bitmap_ptr [0..<div_round_up num 64]
              (BitReader p exception_bit_width, out, 0)
      in (p + bytes_for_packed_bits num_exceptions exception_bit_width, out))"

fun pfor_bitmap_loop :: "mem \<Rightarrow> nat \<Rightarrow> u32 list \<Rightarrow> bit_reader \<Rightarrow> u32 \<Rightarrow> u32 list" where
  "pfor_bitmap_loop m w [] bs prev = []"
| "pfor_bitmap_loop m w (e # es) bs prev =
     (let (v, bs) = br_read m bs; prev = (push_bit w e OR v) + prev + 1
      in prev # pfor_bitmap_loop m w es bs prev)"

definition decode_pfor_bitmap :: "mem \<Rightarrow> nat \<Rightarrow> nat \<Rightarrow> u32 \<Rightarrow> nat \<times> u32 list" where
  "decode_pfor_bitmap m p num prev =
     (let out = replicate num 0;
          bit_width = unat (m p AND 0x3f);
          p = p + 1;
          (p, out) = decode_pfor_bitmap_exceptions m p num out
      in (p + bytes_for_packed_bits num bit_width,
          pfor_bitmap_loop m bit_width out (BitReader p bit_width) prev))"

definition decode_pfor_bitmap_interleaved_generic :: "mem \<Rightarrow> nat \<Rightarrow> u32 \<Rightarrow> nat \<times> u32 list" where
  "decode_pfor_bitmap_interleaved_generic m p prev =
     (let out = replicate 128 0;
          bit_width = unat (m p AND 0x3f);
          p = p + 1;
          (p, out) = decode_pfor_bitmap_exceptions m p 128 out;
          base = ir_reads m (128 div 4) (four_readers p bit_width);
          out = map2 (\<lambda>v e. v OR push_bit bit_width e) base out
      in (p + bytes_for_packed_bits 128 bit_width, delta_decode prev out))"

section \<open>Varbyte exceptions\<close>

fun br_reads :: "mem \<Rightarrow> nat \<Rightarrow> bit_reader \<Rightarrow> u32 list" where
  "br_reads m 0 bs = []"
| "br_reads m (Suc n) bs = (let (v, bs) = br_read m bs in v # br_reads m n bs)"

fun read_raw_exceptions :: "mem \<Rightarrow> nat \<Rightarrow> nat \<Rightarrow> u32 list \<times> nat" where
  "read_raw_exceptions m 0 p = ([], p)"
| "read_raw_exceptions m (Suc n) p =
     (let (es, q) = read_raw_exceptions m n (p + 4) in (read_le 4 m p # es, q))"

fun read_vbs :: "mem \<Rightarrow> nat \<Rightarrow> nat \<Rightarrow> (u32 list \<times> nat) option" where
  "read_vbs m 0 p = Some ([], p)"
| "read_vbs m (Suc n) p =
     (case read_vb m p of
        None \<Rightarrow> None
      | Some (v, p) \<Rightarrow>
          (case read_vbs m n p of None \<Rightarrow> None | Some (es, q) \<Rightarrow> Some (v # es, q)))"

definition read_vb_exceptions :: "mem \<Rightarrow> nat \<Rightarrow> nat \<Rightarrow> (u32 list \<times> nat) option" where
  "read_vb_exceptions m num_exceptions p =
     (if m p = 255 then Some (read_raw_exceptions m num_exceptions (p + 1))
      else read_vbs m num_exceptions p)"

fun apply_exceptions :: "mem \<Rightarrow> nat \<Rightarrow> u32 list \<Rightarrow> nat \<Rightarrow> u32 list \<Rightarrow> u32 list \<times> nat" where
  "apply_exceptions m w [] p out = (out, p)"
| "apply_exceptions m w (e # es) p out =
     (let idx = unat (m p) in apply_exceptions m w es (p + 1) (out[idx := out ! idx OR push_bit w e]))"

definition decode_pfor_vb :: "mem \<Rightarrow> nat \<Rightarrow> nat \<Rightarrow> u32 \<Rightarrow> (nat \<times> u32 list) option" where
  "decode_pfor_vb m p num prev =
     (let bit_width = unat (m p AND 0x3f);
          num_exceptions = unat (m (p + 1));
          p = p + 2;
          out = br_reads m num (BitReader p bit_width);
          p = p + bytes_for_packed_bits num bit_width
      in
      case read_vb_exceptions m num_exceptions p of
        None \<Rightarrow> None
      | Some (exceptions, p) \<Rightarrow>
          let (out, p) = apply_exceptions m bit_width exceptions p out
          in Some (p, delta_decode prev out))"

definition decode_pfor_vb_interleaved_generic ::
    "mem \<Rightarrow> nat \<Rightarrow> u32 \<Rightarrow> (nat \<times> u32 list) option" where
  "decode_pfor_vb_interleaved_generic m p prev =
     (let bit_width = unat (m p AND 0x3f);
          num_exceptions = unat (m (p + 1));
          p = p + 2;
          out = ir_reads m (128 div 4) (four_readers p bit_width);
          p = p + bytes_for_packed_bits 128 bit_width
      in
      case read_vb_exceptions m num_exceptions p of
        None \<Rightarrow> None
      | Some (exceptions, p) \<Rightarrow>
          let (out, p) = apply_exceptions m bit_width exceptions p out
          in Some (p, delta_decode prev out))"

section \<open>SSE2\<close>

text \<open>A register \<open>__m128i\<close> is four 32-bit lanes, lane 0 at the lowest address.\<close>

datatype m128i = M128i u32 u32 u32 u32

fun lanes2 :: "(u32 \<Rightarrow> u32 \<Rightarrow> u32) \<Rightarrow> m128i \<Rightarrow> m128i \<Rightarrow> m128i" where
  "lanes2 f (M128i a b c d) (M128i a' b' c' d') = M128i (f a a') (f b b') (f c c') (f d d')"

abbreviation mm_or :: "m128i \<Rightarrow> m128i \<Rightarrow> m128i" where "mm_or \<equiv> lanes2 (OR)"
abbreviation mm_and :: "m128i \<Rightarrow> m128i \<Rightarrow> m128i" where "mm_and \<equiv> lanes2 (AND)"
abbreviation mm_add :: "m128i \<Rightarrow> m128i \<Rightarrow> m128i" where "mm_add \<equiv> lanes2 (+)"

definition mm_set1 :: "u32 \<Rightarrow> m128i" where
  "mm_set1 v = M128i v v v v"

fun mm_srli :: "m128i \<Rightarrow> nat \<Rightarrow> m128i" where
  "mm_srli (M128i a b c d) n = M128i (drop_bit n a) (drop_bit n b) (drop_bit n c) (drop_bit n d)"

fun mm_slli :: "m128i \<Rightarrow> nat \<Rightarrow> m128i" where
  "mm_slli (M128i a b c d) n = M128i (push_bit n a) (push_bit n b) (push_bit n c) (push_bit n d)"

text \<open>\<open>_mm_slli_si128\<close> by 4 and by 8 bytes: whole lanes move up, zeros move in.\<close>

fun mm_shift_up1 :: "m128i \<Rightarrow> m128i" where
  "mm_shift_up1 (M128i a b c d) = M128i 0 a b c"

fun mm_shift_up2 :: "m128i \<Rightarrow> m128i" where
  "mm_shift_up2 (M128i a b c d) = M128i 0 0 a b"

fun mm_broadcast3 :: "m128i \<Rightarrow> m128i" where
  "mm_broadcast3 (M128i a b c d) = M128i d d d d"

definition mm_load :: "mem \<Rightarrow> nat \<Rightarrow> m128i" where
  "mm_load m p = M128i (read_le 4 m p) (read_le 4 m (p + 4)) (read_le 4 m (p + 8))
     (read_le 4 m (p + 12))"

fun mm_list :: "m128i \<Rightarrow> u32 list" where
  "mm_list (M128i a b c d) = [a, b, c, d]"

record sse2_reader =
  sr_in :: nat
  sr_bits :: nat
  sr_used :: nat

definition InterleavedBitReaderSSE2 :: "nat \<Rightarrow> nat \<Rightarrow> sse2_reader" where
  "InterleavedBitReaderSSE2 p bits = \<lparr>sr_in = p, sr_bits = bits, sr_used = 0\<rparr>"

definition sr_read :: "mem \<Rightarrow> sse2_reader \<Rightarrow> m128i \<times> sse2_reader" where
  "sr_read m bs =
     (let val = mm_srli (mm_load m (sr_in bs)) (sr_used bs);
          val = (if 32 < sr_used bs + sr_bits bs then
                   mm_or val (mm_slli (mm_load m (sr_in bs + 16)) (32 - sr_used bs))
                 else val);
          val = mm_and val (mm_set1 (mask_for_bits (sr_bits bs)));
          used = sr_used bs + sr_bits bs
      in (val, bs\<lparr>sr_in := sr_in bs + 16 * (used div 32), sr_used := used mod 32\<rparr>))"

text \<open>\<open>DeltaDecoderSSE2::decode\<close>: the decoded vector and the new \<open>prev_val\<close>.\<close>

definition sse2_delta :: "m128i \<Rightarrow> m128i \<Rightarrow> m128i \<times> m128i" where
  "sse2_delta prev val =
     (let val = mm_add val (mm_shift_up1 val);
          val = mm_add val (mm_shift_up2 val);
          val = mm_add val (mm_add prev (M128i 1 2 3 4))
      in (val, mm_broadcast3 val))"

fun delta_decode_sse2 :: "m128i \<Rightarrow> u32 list \<Rightarrow> u32 list" where
  "delta_decode_sse2 prev (a # b # c # d # vs) =
     (let (val, prev) = sse2_delta prev (M128i a b c d) in mm_list val @ delta_decode_sse2 prev vs)"
| "delta_decode_sse2 prev vs = []"

text \<open>
  The unrolled loop of \<open>decode_bitmap_sse2\<close>; its template parameters are the arguments
  \<open>or_existing\<close>, \<open>delta\<close> and \<open>w\<close> (the switch picks the instance for the bit width). The list
  is what \<open>out\<close> holds before.
\<close>

fun decode_bitmap_sse2_loop ::
    "mem \<Rightarrow> bool \<Rightarrow> bool \<Rightarrow> nat \<Rightarrow> sse2_reader \<Rightarrow> m128i \<Rightarrow> u32 list \<Rightarrow> u32 list" where
  "decode_bitmap_sse2_loop m or_existing delta w bs prev (a # b # c # d # out) =
     (let (val, bs) = sr_read m bs;
          val = (if or_existing then mm_or val (mm_slli (M128i a b c d) w) else val);
          (val, prev) = (if delta then sse2_delta prev val else (val, prev))
      in mm_list val @ decode_bitmap_sse2_loop m or_existing delta w bs prev out)"
| "decode_bitmap_sse2_loop m or_existing delta w bs prev out = []"

definition decode_bitmap_sse2 ::
    "mem \<Rightarrow> bool \<Rightarrow> bool \<Rightarrow> nat \<Rightarrow> nat \<Rightarrow> u32 \<Rightarrow> u32 list \<Rightarrow> (nat \<times> u32 list) option" where
  "decode_bitmap_sse2 m or_existing delta p bit_width prev out =
     (if bit_width \<le> 32 then
        Some (p + bytes_for_packed_bits 128 bit_width,
          decode_bitmap_sse2_loop m or_existing delta bit_width
            (InterleavedBitReaderSSE2 p bit_width) (mm_set1 prev) out)
      else None)"

definition decode_for_interleaved_sse2 :: "mem \<Rightarrow> nat \<Rightarrow> u32 \<Rightarrow> (nat \<times> u32 list) option" where
  "decode_for_interleaved_sse2 m p prev =
     (let bit_width = unat (m p AND 0x3f)
      in decode_bitmap_sse2 m False True (p + 1) bit_width prev (replicate 128 0))"

definition decode_pfor_bitmap_interleaved_sse2 ::
    "mem \<Rightarrow> nat \<Rightarrow> u32 \<Rightarrow> (nat \<times> u32 list) option" where
  "decode_pfor_bitmap_interleaved_sse2 m p prev =
     (let out = replicate 128 0;
          bit_width = unat (m p AND 0x3f);
          (p, out) = decode_pfor_bitmap_exceptions m (p + 1) 128 out
      in decode_bitmap_sse2 m True True p bit_width prev out)"

definition decode_pfor_vb_interleaved_sse2 :: "mem \<Rightarrow> nat \<Rightarrow> u32 \<Rightarrow> (nat \<times> u32 list) option" where
  "decode_pfor_vb_interleaved_sse2 m p prev =
     (let bit_width = unat (m p AND 0x3f);
          num_exceptions = unat (m (p + 1));
          p = p + 2
      in
      case decode_bitmap_sse2 m False False p bit_width prev (replicate 128 0) of
        None \<Rightarrow> None
      | Some (p, out) \<Rightarrow>
          (case read_vb_exceptions m num_exceptions p of
             None \<Rightarrow> None
           | Some (exceptions, p) \<Rightarrow>
               let (out, p) = apply_exceptions m bit_width exceptions p out
               in Some (p, delta_decode_sse2 (mm_set1 prev) out)))"

section \<open>Posting lists\<close>

text \<open>
  The dispatch on the block type; \<open>sse2\<close> says which of the two instances of the interleaved
  128-value decoders the program was built with.
\<close>

definition decode_block ::
    "bool \<Rightarrow> mem \<Rightarrow> nat \<Rightarrow> nat \<Rightarrow> bool \<Rightarrow> u32 \<Rightarrow> (nat \<times> u32 list) option" where
  "decode_block sse2 m p num_this_block interleaved prev =
     (let block_type = drop_bit 6 (m p) in
      if block_type = block_type_code FOR then
        (if interleaved \<and> num_this_block = 128 then
           (if sse2 then decode_for_interleaved_sse2 m p prev
            else Some (decode_for_interleaved_generic m p prev))
         else Some (decode_for m p num_this_block prev))
      else if block_type = block_type_code PFOR_VB then
        (if interleaved \<and> num_this_block = 128 then
           (if sse2 then decode_pfor_vb_interleaved_sse2 m p prev
            else decode_pfor_vb_interleaved_generic m p prev)
         else decode_pfor_vb m p num_this_block prev)
      else if block_type = block_type_code PFOR_BITMAP then
        (if interleaved \<and> num_this_block = 128 then
           (if sse2 then decode_pfor_bitmap_interleaved_sse2 m p prev
            else Some (decode_pfor_bitmap_interleaved_generic m p prev))
         else Some (decode_pfor_bitmap m p num_this_block prev))
      else Some (decode_constant m p num_this_block prev))"

function decode_blocks ::
    "bool \<Rightarrow> mem \<Rightarrow> nat \<Rightarrow> nat \<Rightarrow> bool \<Rightarrow> u32 \<Rightarrow> (nat \<times> u32 list) option" where
  "decode_blocks sse2 m p num interleaved prev =
     (if num = 0 then Some (p, [])
      else
        case decode_block sse2 m p (min num 128) interleaved prev of
          None \<Rightarrow> None
        | Some (p, out) \<Rightarrow>
            (case decode_blocks sse2 m p (num - 128) interleaved (last out) of
               None \<Rightarrow> None
             | Some (p, rest) \<Rightarrow> Some (p, out @ rest)))"
  by pat_completeness auto
termination
  by (relation "measure (\<lambda>(sse2, m, p, num, interleaved, prev). num)") auto

declare decode_blocks.simps [simp del]

definition decode_pfor_delta1_128 ::
    "bool \<Rightarrow> mem \<Rightarrow> nat \<Rightarrow> nat \<Rightarrow> bool \<Rightarrow> (nat \<times> u32 list) option" where
  "decode_pfor_delta1_128 sse2 m p num interleaved =
     (if num = 0 then Some (p, [])
      else
        case read_baseval m p of
          None \<Rightarrow> None
        | Some (v, p) \<Rightarrow>
            (case decode_blocks sse2 m p (num - 1) interleaved v of
               None \<Rightarrow> None
             | Some (p, rest) \<Rightarrow> Some (p, v # rest)))"

end
