(* ===== verification/Bit_Streams.thy ===== *)
theory Bit_Streams
  imports Turbopfor_Encode Turbopfor_Decode
begin

text \<open>
  The bit writers and bit readers of the posting-list codec agree. The values \<open>vs\<close> of \<open>w\<close> bits
  each form one stream of bits; after a run of a writer the memory holds that stream, and a
  reader over memory that holds the stream returns the values. \<open>BitWriter\<close> keeps at most 32
  bits at a time, so it is right for widths up to 24 bits only (see the end of the theory);
  the interleaved writer keeps 64 bits and is right for every width.
\<close>

section \<open>The stream of a list of values\<close>

definition stream_bit :: "u32 list \<Rightarrow> nat \<Rightarrow> nat \<Rightarrow> bool" where
  "stream_bit vs w p \<longleftrightarrow> p < length vs * w \<and> bit (vs ! (p div w)) (p mod w)"

definition fits :: "nat \<Rightarrow> u32 list \<Rightarrow> bool" where
  "fits w vs \<longleftrightarrow> (\<forall>v \<in> set vs. \<forall>k. bit v k \<longrightarrow> k < w)"

lemma fits_simps [simp]:
  "fits w []"
  "fits w (v # vs) \<longleftrightarrow> (\<forall>k. bit v k \<longrightarrow> k < w) \<and> fits w vs"
  "fits w (us @ vs) \<longleftrightarrow> fits w us \<and> fits w vs"
  by (auto simp add: fits_def)

lemma fits_nth: "fits w vs \<Longrightarrow> i < length vs \<Longrightarrow> bit (vs ! i) k \<Longrightarrow> k < w"
  by (auto simp add: fits_def)

lemma stream_bit_snoc:
  assumes "\<And>k. bit v k \<Longrightarrow> k < w"
  shows "stream_bit (vs @ [v]) w p \<longleftrightarrow>
    (if p < length vs * w then stream_bit vs w p else bit v (p - length vs * w))"
proof (cases "p < length vs * w")
  case True
  then have "p div w < length vs"
    by (simp add: less_mult_imp_div_less)
  with True show ?thesis by (simp add: stream_bit_def nth_append)
next
  case False
  show ?thesis
  proof (cases "p < length vs * w + w")
    case True
    define q where "q = p - length vs * w"
    from False True have "p = length vs * w + q" "q < w"
      by (simp_all add: q_def)
    then have "p div w = length vs" "p mod w = q"
      by auto
    with True False show ?thesis by (simp add: stream_bit_def q_def)
  next
    case big: False
    then have "\<not> bit v (p - length vs * w)"
      using assms [of "p - length vs * w"] by auto
    with big False show ?thesis by (simp add: stream_bit_def)
  qed
qed

lemma stream_bit_value:
  assumes "k < length vs" and "q < w"
  shows "stream_bit vs w (k * w + q) \<longleftrightarrow> bit (vs ! k) q"
proof -
  have "k * w + q < length vs * w"
  proof -
    have "k * w + q < Suc k * w" using assms(2) by simp
    also have "\<dots> \<le> length vs * w" using assms(1) by (intro mult_le_mono1) simp
    finally show ?thesis .
  qed
  moreover have "(k * w + q) div w = k" "(k * w + q) mod w = q"
    using assms(2) by auto
  ultimately show ?thesis by (simp add: stream_bit_def)
qed

section \<open>Bytes in memory\<close>

definition mem_bit :: "mem \<Rightarrow> nat \<Rightarrow> nat \<Rightarrow> bool" where
  "mem_bit m base p = bit (m (base + p div 8)) (p mod 8)"

lemma bit_write_le:
  "bit (write_le n v out m i) k \<longleftrightarrow>
     (if out \<le> i \<and> i < out + n then k < 8 \<and> bit v (8 * (i - out) + k) else bit (m i) k)"
proof (cases "out \<le> i \<and> i < out + n")
  case True
  then have "i - out < n" by auto
  with True show ?thesis by (simp add: write_le_def store_def bit_nth_put_le)
next
  case False
  then show ?thesis by (auto simp add: write_le_def store_def)
qed

lemma write_le_outside: "i < out \<or> out + n \<le> i \<Longrightarrow> write_le n v out m i = m i"
  by (auto simp add: write_le_def)

lemma mem_bit_cong: "m (base + p div 8) = m' (base + p div 8) \<Longrightarrow> mem_bit m base p = mem_bit m' base p"
  by (simp add: mem_bit_def)

lemma byte_offset: "D \<le> d \<Longrightarrow> 8 * (d - D) + r = 8 * d + r - (8 * D :: nat)"
  by simp

section \<open>The sequential writer\<close>

definition bw_inv :: "nat \<Rightarrow> nat \<Rightarrow> u32 list \<Rightarrow> bit_writer \<Rightarrow> mem \<Rightarrow> bool" where
  "bw_inv base w vs bs m \<longleftrightarrow>
     (let N = length vs * w in
      bw_bits bs = w \<and> bw_out bs = base + N div 8 \<and> bw_used bs = N mod 8 \<and>
      (\<forall>q. bit (bw_cur bs) q \<longleftrightarrow> stream_bit vs w (8 * (N div 8) + q)) \<and>
      (\<forall>p < 8 * ((N + 7) div 8). mem_bit m base p \<longleftrightarrow> stream_bit vs w p))"

lemma bw_inv_init: "bw_inv base w [] (BitWriter base w) m"
  by (simp add: bw_inv_def BitWriter_def stream_bit_def)

lemma bw_write_step:
  assumes inv: "bw_inv base w vs bs m" and w: "w \<le> 24" and v: "\<And>k. bit v k \<Longrightarrow> k < w"
  obtains bs' m' where "bw_write bs v m = Some (bs', m')" and "bw_inv base w (vs @ [v]) bs' m'"
    and "\<And>i. i < base + (length vs * w) div 8 \<or> base + (length vs * w) div 8 + 4 \<le> i \<Longrightarrow> m' i = m i"
proof -
  define N where "N = length vs * w"
  define D where "D = N div 8"
  define u where "u = N mod 8"
  define U where "U = u + w"
  define cur where "cur = bw_cur bs OR push_bit u v"
  define m' where "m' = write_le 4 cur (base + D) m"
  define bs' where "bs' = bs\<lparr>bw_out := base + D + U div 8, bw_used := U mod 8,
    bw_cur := drop_bit (8 * (U div 8)) cur\<rparr>"
  have N: "N = 8 * D + u" "u < 8" by (simp_all add: D_def u_def)
  have U: "U \<le> 31" using N(2) w by (simp add: U_def)
  from inv have bs: "bw_bits bs = w" "bw_out bs = base + D" "bw_used bs = u"
    and bcur: "\<And>q. bit (bw_cur bs) q \<longleftrightarrow> stream_bit vs w (8 * D + q)"
    and bmem: "\<And>p. p < 8 * ((N + 7) div 8) \<Longrightarrow> mem_bit m base p \<longleftrightarrow> stream_bit vs w p"
    by (simp_all add: bw_inv_def N_def D_def u_def Let_def)
  have cur: "bit cur q \<longleftrightarrow> stream_bit (vs @ [v]) w (8 * D + q)" for q
  proof (cases "q < u")
    case True
    then show ?thesis
      using N bcur [of q] by (simp add: cur_def bit_or_iff bit_push_bit_iff stream_bit_snoc [OF v]
          flip: N_def)
  next
    case False
    have "\<not> bit (bw_cur bs) q"
      using bcur [of q] False N by (simp add: stream_bit_def flip: N_def)
    moreover have "q - u < w \<Longrightarrow> q < 32" using U by (simp add: U_def)
    ultimately show ?thesis
      using False N v [of "q - u"]
      by (auto simp add: cur_def bit_or_iff bit_push_bit_iff stream_bit_snoc [OF v] simp flip: N_def)
  qed
  have "U div 8 < 4" using U by simp
  then have wr: "bw_write bs v m = Some (bs', m')"
    by (simp add: bw_write_def bs Let_def m'_def bs'_def U_def cur_def ac_simps)
  have N': "length (vs @ [v]) * w = 8 * D + U" using N by (simp add: U_def flip: N_def)
  have inv': "bw_inv base w (vs @ [v]) bs' m'"
    unfolding bw_inv_def N' Let_def
  proof (intro conjI allI impI)
    fix q
    show "bit (bw_cur bs') q \<longleftrightarrow> stream_bit (vs @ [v]) w (8 * ((8 * D + U) div 8) + q)"
      by (simp add: bs'_def bit_drop_bit_eq cur ac_simps distrib_left)
  next
    fix p assume p: "p < 8 * ((8 * D + U + 7) div 8)"
    show "mem_bit m' base p \<longleftrightarrow> stream_bit (vs @ [v]) w p"
    proof (cases "p div 8 < D")
      case True
      then have "p < N" using N(1) by (simp add: div_less_iff_less_mult)
      moreover have "mem_bit m' base p = mem_bit m base p"
        using True by (intro mem_bit_cong) (simp add: m'_def write_le_outside)
      ultimately show ?thesis
        using bmem [of p] by (simp add: stream_bit_snoc [OF v] flip: N_def)
    next
      case False
      have "(8 * D + U + 7) div 8 < D + 5" using U by (simp add: div_less_iff_less_mult)
      then have "8 * ((8 * D + U + 7) div 8) \<le> 8 * (D + 4)" by (intro mult_le_mono) simp_all
      with p have "p < 8 * (D + 4)" by (rule less_le_trans)
      then have "p div 8 < D + 4" by (simp add: div_less_iff_less_mult)
      moreover have "8 * (p div 8 - D) + p mod 8 = p - 8 * D"
        using False byte_offset [of D "p div 8" "p mod 8"] by simp
      ultimately have "mem_bit m' base p = bit cur (p - 8 * D)"
        using False by (simp add: mem_bit_def m'_def bit_write_le)
      also have "\<dots> = stream_bit (vs @ [v]) w (8 * D + (p - 8 * D))" by (rule cur)
      also have "8 * D + (p - 8 * D) = p" using False by (simp add: div_less_iff_less_mult)
      finally show ?thesis .
    qed
  qed (simp_all add: bs'_def bs)
  show thesis
    by (rule that [OF wr inv']) (auto simp add: m'_def write_le_outside D_def N_def)
qed

lemma bw_writes_inv:
  assumes "bw_inv base w vs bs m" and "w \<le> 24" and "fits w us"
  shows "\<exists>bs' m'. bw_writes bs us m = Some (bs', m') \<and> bw_inv base w (vs @ us) bs' m' \<and>
    (\<forall>i. i < base \<or> base + bytes_for_packed_bits (length vs + length us) w + 4 \<le> i \<longrightarrow> m' i = m i)"
  using assms
proof (induction us arbitrary: vs bs m)
  case Nil
  then show ?case by simp
next
  case (Cons u us)
  then have u: "\<And>k. bit u k \<Longrightarrow> k < w" and us: "fits w us" by simp_all
  obtain bs1 m1 where 1: "bw_write bs u m = Some (bs1, m1)" "bw_inv base w (vs @ [u]) bs1 m1"
    "\<And>i. i < base + (length vs * w) div 8 \<or> base + (length vs * w) div 8 + 4 \<le> i \<Longrightarrow> m1 i = m i"
    using bw_write_step [OF Cons.prems(1,2) u] by blast
  obtain bs' m' where 2: "bw_writes bs1 us m1 = Some (bs', m')" "bw_inv base w (vs @ u # us) bs' m'"
    "\<forall>i. i < base \<or> base + bytes_for_packed_bits (length vs + Suc (length us)) w + 4 \<le> i \<longrightarrow> m' i = m1 i"
    using Cons.IH [OF 1(2) Cons.prems(2) us] by auto
  have "(length vs * w) div 8 \<le> bytes_for_packed_bits (length vs + Suc (length us)) w"
    by (simp add: bytes_for_packed_bits_def div_round_up_def div_le_mono distrib_right)
  with 1 2 show ?case by auto
qed

lemma packed_bytes_round: "bytes_for_packed_bits n w = (n * w + 7) div 8"
  by (simp add: bytes_for_packed_bits_def div_round_up_def)

lemma bw_writes_stream:
  assumes "w \<le> 24" and "fits w us"
  obtains bs m' where "bw_writes (BitWriter base w) us m = Some (bs, m')"
    and "\<And>p. p < 8 * bytes_for_packed_bits (length us) w \<Longrightarrow> mem_bit m' base p = stream_bit us w p"
    and "\<And>i. i < base \<or> base + bytes_for_packed_bits (length us) w + 4 \<le> i \<Longrightarrow> m' i = m i"
proof -
  obtain bs m' where "bw_writes (BitWriter base w) us m = Some (bs, m')"
    and "bw_inv base w us bs m'"
    and "\<forall>i. i < base \<or> base + bytes_for_packed_bits (length us) w + 4 \<le> i \<longrightarrow> m' i = m i"
    using bw_writes_inv [OF bw_inv_init [of base w m] assms] by auto
  with that show thesis by (simp add: bw_inv_def Let_def packed_bytes_round)
qed

section \<open>The sequential reader\<close>

definition holds_stream :: "mem \<Rightarrow> nat \<Rightarrow> nat \<Rightarrow> u32 list \<Rightarrow> bool" where
  "holds_stream m base w vs \<longleftrightarrow> fits w vs \<and>
     (\<forall>p < length vs * w. mem_bit m base p = stream_bit vs w p)"

definition reader_at :: "nat \<Rightarrow> nat \<Rightarrow> nat \<Rightarrow> bit_reader" where
  "reader_at base w k = \<lparr>br_in = base + (k * w) div 8, br_bits = w, br_used = (k * w) mod 8\<rparr>"

lemma BitReader_at: "BitReader base w = reader_at base w 0"
  by (simp add: BitReader_def reader_at_def)

lemma holds_stream_value:
  assumes "holds_stream m base w vs" and "k < length vs" and "q < w"
  shows "mem_bit m base (k * w + q) \<longleftrightarrow> bit (vs ! k) q"
proof -
  have "k * w + q < Suc k * w" using assms(3) by simp
  also have "\<dots> \<le> length vs * w" using assms(2) by (intro mult_le_mono1) simp
  finally show ?thesis
    using assms by (simp add: holds_stream_def stream_bit_value)
qed

lemma br_read_at:
  assumes "holds_stream m base w vs" and "k < length vs" and "w \<le> 25"
  shows "br_read m (reader_at base w k) = (vs ! k, reader_at base w (Suc k))"
proof -
  define D where "D = (k * w) div 8"
  define u where "u = (k * w) mod 8"
  have N: "k * w = 8 * D + u" "u < 8" by (simp_all add: D_def u_def)
  have val: "drop_bit u (read_le 4 m (base + D)) AND mask_for_bits w = vs ! k"
  proof (rule bit_word_eqI)
    fix q
    have "mem_bit m base (k * w + q) = bit (m (base + D + (u + q) div 8)) ((u + q) mod 8)"
      by (simp add: mem_bit_def N(1) add.assoc)
    moreover have "q < w \<Longrightarrow> u + q < 32" using N(2) assms(3) by simp
    moreover have "bit (vs ! k) q \<Longrightarrow> q < w"
      using assms(1,2) by (auto simp add: holds_stream_def intro: fits_nth)
    ultimately show "bit (drop_bit u (read_le 4 m (base + D)) AND mask_for_bits w) q = bit (vs ! k) q"
      using holds_stream_value [OF assms(1,2), of q] assms(3)
      by (auto simp add: bit_and_mask bit_drop_bit_eq bit_read_le)
  qed
  have S: "Suc k * w = 8 * D + (u + w)" using N(1) by simp
  have "(Suc k * w) div 8 = D + (u + w) div 8" "(Suc k * w) mod 8 = (u + w) mod 8"
    unfolding S by simp_all
  with val show ?thesis
    by (simp add: br_read_def reader_at_def D_def u_def Let_def ac_simps)
qed

lemma br_reads_at:
  assumes "holds_stream m base w vs" and "w \<le> 25" and "k + n \<le> length vs"
  shows "br_reads m n (reader_at base w k) = take n (drop k vs)"
  using assms(3)
proof (induction n arbitrary: k)
  case 0
  then show ?case by simp
next
  case (Suc n)
  then show ?case
    by (simp add: br_read_at [OF assms(1) _ assms(2)] Cons_nth_drop_Suc [symmetric])
qed

lemma br_reads_stream:
  "holds_stream m base w vs \<Longrightarrow> w \<le> 25 \<Longrightarrow> br_reads m (length vs) (BitReader base w) = vs"
  by (simp add: BitReader_at br_reads_at)

lemma holds_stream_same_bytes:
  assumes "holds_stream m base w vs"
    and "same_bytes m m' base (base + bytes_for_packed_bits (length vs) w)"
  shows "holds_stream m' base w vs"
proof -
  have "mem_bit m base p = mem_bit m' base p" if "p < length vs * w" for p
    using assms(2) packed_bytes_cover [OF that] by (intro mem_bit_cong) (simp add: same_bytes_def)
  with assms(1) show ?thesis by (simp add: holds_stream_def)
qed

end
