(* ===== verification/Lane_Streams.thy ===== *)
theory Lane_Streams
  imports Bit_Streams
begin

text \<open>
  The four interleaved streams of a 128-value block. Values go round-robin to four lanes; a
  lane owns every fourth 32-bit word of the buffer. Each lane is a bit stream; the writer of a
  lane never touches the words of another, so that the four streams can be written in turn, and
  the reader of a lane returns its values. This holds for every width up to 32 bits.
\<close>

section \<open>Lanes of memory\<close>

definition lane_bit :: "mem \<Rightarrow> nat \<Rightarrow> nat \<Rightarrow> nat \<Rightarrow> bool" where
  "lane_bit m b s p = bit (m (b + 4 * s + 16 * (p div 32) + p mod 32 div 8)) (p mod 8)"

definition in_lane :: "nat \<Rightarrow> nat \<Rightarrow> nat \<Rightarrow> bool" where
  "in_lane b s i \<longleftrightarrow> (\<exists>t c. i = b + 4 * s + 16 * t + c \<and> c < 4)"

lemma lane_index: "s < 4 \<Longrightarrow> c < 4 \<Longrightarrow> (4 * s + 16 * t + c) mod 16 div 4 = (s :: nat)"
proof -
  assume "s < 4" "c < 4"
  then have "4 * s + c < 16" by simp
  then have "(4 * s + 16 * t + c) mod 16 = 4 * s + c"
    using mod_mult_self2 [of "4 * s + c" 16 t] by (simp add: ac_simps)
  then show ?thesis using \<open>c < 4\<close> by simp
qed

lemma in_lane_disjoint:
  assumes "in_lane b s i" and "in_lane b s' i" and "s < 4" and "s' < 4"
  shows "s = s'"
proof -
  from assms(1) obtain t c where 1: "i = b + 4 * s + 16 * t + c" "c < 4"
    by (auto simp add: in_lane_def)
  from assms(2) obtain t' c' where 2: "i = b + 4 * s' + 16 * t' + c'" "c' < 4"
    by (auto simp add: in_lane_def)
  from 1(1) 2(1) have "4 * s + 16 * t + c = 4 * s' + 16 * t' + c'" by simp
  then show ?thesis
    using lane_index [OF assms(3) 1(2)] lane_index [OF assms(4) 2(2)] by metis
qed

lemma in_lane_word: "c < 4 \<Longrightarrow> in_lane b s (b + 4 * s + 16 * t + c)"
  by (auto simp add: in_lane_def)

lemma lane_bit_cong:
  assumes "\<And>i. in_lane b s i \<Longrightarrow> m i = m' i"
  shows "lane_bit m b s p = lane_bit m' b s p"
proof -
  have "p mod 32 div 8 < 4" by (simp add: div_less_iff_less_mult)
  then show ?thesis by (simp add: lane_bit_def assms in_lane_word)
qed

lemma other_word: "c < 4 \<Longrightarrow> d \<noteq> D \<Longrightarrow> 16 * d + c < 16 * D \<or> 16 * D + 4 \<le> 16 * d + (c :: nat)"
  by linarith

lemma lane_bit_write:
  assumes "out = b + 4 * s + 16 * D"
  shows "lane_bit (write_le 4 (v :: u32) out m) b s p \<longleftrightarrow>
    (if p div 32 = D then bit v (p mod 32) else lane_bit m b s p)"
proof -
  define d where "d = p div 32"
  define c where "c = p mod 32 div 8"
  have c: "c < 4" by (simp add: c_def div_less_iff_less_mult)
  have m: "8 * c + p mod 8 = p mod 32"
    using mult_div_mod_eq [of 8 "p mod 32"] by (simp add: c_def mod_mod_cancel)
  have "bit (write_le 4 v out m (b + 4 * s + 16 * d + c)) (p mod 8) \<longleftrightarrow>
    (if d = D then bit v (p mod 32) else bit (m (b + 4 * s + 16 * d + c)) (p mod 8))"
  proof (cases "d = D")
    case True
    with c m assms show ?thesis by (simp add: bit_write_le)
  next
    case False
    with other_word [OF c False] assms show ?thesis by (auto simp add: write_le_outside)
  qed
  then show ?thesis by (simp only: lane_bit_def d_def c_def)
qed

lemma write_lane_frame:
  assumes "write_le 4 (v :: u32) out m i \<noteq> m i" and "out = b + 4 * s + 16 * D"
  shows "in_lane b s i \<and> i < b + 16 * D + 4 * s + 4"
proof -
  have "\<not> (i < out \<or> out + 4 \<le> i)"
    using assms(1) write_le_outside by blast
  then have i: "out \<le> i" "i < out + 4" by simp_all
  from i have "in_lane b s (b + 4 * s + 16 * D + (i - out))"
    by (intro in_lane_word) auto
  with i assms(2) show ?thesis by simp
qed

section \<open>The writer of a lane\<close>

definition iw_inv ::
    "nat \<Rightarrow> nat \<Rightarrow> nat \<Rightarrow> u32 list \<Rightarrow> interleaved_bit_writer \<Rightarrow> mem \<Rightarrow> bool" where
  "iw_inv b s w vs bs m \<longleftrightarrow>
     (let N = length vs * w in
      iw_bits bs = w \<and> iw_out bs = b + 4 * s + 16 * (N div 32) \<and> iw_used bs = N mod 32 \<and>
      (\<forall>q. bit (iw_cur bs) q \<longleftrightarrow> stream_bit vs w (32 * (N div 32) + q)) \<and>
      (\<forall>p < N. lane_bit m b s p \<longleftrightarrow> stream_bit vs w p))"

lemma iw_inv_init: "iw_inv b s w [] (InterleavedBitWriter (b + 4 * s) w) m"
  by (simp add: iw_inv_def InterleavedBitWriter_def stream_bit_def)

lemma iw_inv_frame:
  assumes "iw_inv b s w vs bs m" and "\<And>i. in_lane b s i \<Longrightarrow> m i = m' i"
  shows "iw_inv b s w vs bs m'"
  using assms(1) lane_bit_cong [of b s m m', OF assms(2)] by (simp add: iw_inv_def Let_def)

lemma iw_write_step:
  assumes inv: "iw_inv b s w vs bs m" and w: "w \<le> 32" and v: "\<And>k. bit v k \<Longrightarrow> k < w"
  obtains bs' m' where "iw_write bs v m = (bs', m')" and "iw_inv b s w (vs @ [v]) bs' m'"
    and "\<And>i. m' i \<noteq> m i \<Longrightarrow>
      in_lane b s i \<and> i < b + 16 * ((Suc (length vs) * w) div 32) + 4 * s + 4"
proof -
  define N where "N = length vs * w"
  define D where "D = N div 32"
  define u where "u = N mod 32"
  define U where "U = u + w"
  define cur where "cur = iw_cur bs OR push_bit u (ucast v)"
  define out where "out = b + 4 * s + 16 * D"
  have N: "N = 32 * D + u" "u < 32" by (simp_all add: D_def u_def)
  have U: "U \<le> 63" using N(2) w by (simp add: U_def)
  from inv have bs: "iw_bits bs = w" "iw_out bs = out" "iw_used bs = u"
    and bcur: "\<And>q. bit (iw_cur bs) q \<longleftrightarrow> stream_bit vs w (32 * D + q)"
    and bmem: "\<And>p. p < N \<Longrightarrow> lane_bit m b s p \<longleftrightarrow> stream_bit vs w p"
    by (simp_all add: iw_inv_def N_def D_def u_def out_def Let_def)
  have cur: "bit cur q \<longleftrightarrow> stream_bit (vs @ [v]) w (32 * D + q)" for q
  proof (cases "q < u")
    case True
    then show ?thesis
      using N bcur [of q] by (simp add: cur_def bit_or_iff bit_push_bit_iff stream_bit_snoc [OF v]
          flip: N_def)
  next
    case False
    have "\<not> bit (iw_cur bs) q"
      using bcur [of q] False N by (simp add: stream_bit_def flip: N_def)
    moreover have "q - u < w \<Longrightarrow> q < 64" using U by (simp add: U_def)
    ultimately show ?thesis
      using False N v [of "q - u"]
      by (auto simp add: cur_def bit_or_iff bit_push_bit_iff bit_ucast_iff
          stream_bit_snoc [OF v] simp flip: N_def)
  qed
  have old: "lane_bit m b s p \<longleftrightarrow> stream_bit (vs @ [v]) w p" if "p div 32 < D" for p
  proof -
    have "p < N" using that N(1) by (simp add: div_less_iff_less_mult)
    then show ?thesis using bmem by (simp add: stream_bit_snoc [OF v] flip: N_def)
  qed
  have word: "bit cur (p mod 32 + 32 * k) \<longleftrightarrow> stream_bit (vs @ [v]) w p" if "p div 32 = D + k" for p k
  proof -
    have "32 * D + (p mod 32 + 32 * k) = p"
      using mult_div_mod_eq [of 32 p] that by (simp add: distrib_left)
    then show ?thesis by (simp add: cur)
  qed
  have N': "length (vs @ [v]) * w = 32 * D + U" "Suc (length vs) * w = 32 * D + U"
    using N by (simp_all add: U_def flip: N_def)
  show thesis
  proof (cases "32 \<le> U")
    case True
    then have U1: "U div 32 = 1" "U mod 32 = U - 32" using U by (simp_all add: div_nat_eqI mod_if)
    define m1 where "m1 = write_le 4 (ucast (cur AND 0xffffffff) :: u32) out m"
    define m' where "m' = write_le 4 (ucast (drop_bit 32 cur) :: u32) (out + 16) m1"
    define bs' where "bs' = bs\<lparr>iw_out := out + 16, iw_cur := drop_bit 32 cur, iw_used := U - 32\<rparr>"
    have out': "out + 16 = b + 4 * s + 16 * (D + 1)" by (simp add: out_def)
    have mask: "(0xffffffff :: u64) = mask 32" by (simp add: mask_eq_exp_minus_1)
    have "iw_write bs v m = (bs', m')"
      using True by (simp add: iw_write_def bs Let_def m'_def m1_def bs'_def U_def cur_def Stride_def)
    moreover have "iw_inv b s w (vs @ [v]) bs' m'"
      unfolding iw_inv_def N' Let_def
    proof (intro conjI allI impI)
      fix q
      show "bit (iw_cur bs') q \<longleftrightarrow> stream_bit (vs @ [v]) w (32 * ((32 * D + U) div 32) + q)"
        by (simp add: bs'_def bit_drop_bit_eq cur U1 distrib_left ac_simps)
    next
      fix p assume p: "p < 32 * D + U"
      have "p < 32 * (D + 2)" using p U by simp
      then have "p div 32 < D + 2" by (simp add: div_less_iff_less_mult)
      then consider "p div 32 < D" | "p div 32 = D" | "p div 32 = D + 1" by linarith
      then show "lane_bit m' b s p \<longleftrightarrow> stream_bit (vs @ [v]) w p"
      proof cases
        case 1
        then show ?thesis
          using old [of p]
          by (simp add: m'_def m1_def lane_bit_write [OF out'] lane_bit_write [OF out_def])
      next
        case 2
        have "p mod 32 < 64" by (rule less_trans [of _ 32]) simp_all
        with 2 show ?thesis
          using word [of p 0]
          by (simp add: m'_def m1_def lane_bit_write [OF out'] lane_bit_write [OF out_def]
              bit_ucast_iff bit_and_iff mask bit_mask_iff)
      next
        case 3
        have "p mod 32 < 32" by simp
        with 3 show ?thesis
          using word [of p 1]
          by (simp add: m'_def lane_bit_write [OF out'] bit_ucast_iff bit_drop_bit_eq ac_simps
              del: One_nat_def)
      qed
    qed (simp_all add: bs'_def bs U1 out')
    moreover have "in_lane b s i \<and> i < b + 16 * ((Suc (length vs) * w) div 32) + 4 * s + 4"
      if "m' i \<noteq> m i" for i
    proof (cases "m' i = m1 i")
      case True
      with that have "m1 i \<noteq> m i" by simp
      from write_lane_frame [OF this [unfolded m1_def] out_def] show ?thesis
        unfolding N' by (simp add: U1)
    next
      case False
      from write_lane_frame [OF False [unfolded m'_def] out'] show ?thesis
        unfolding N' by (simp add: U1)
    qed
    ultimately show thesis by (rule that)
  next
    case False
    then have U0: "U div 32 = 0" "U mod 32 = U" by simp_all
    define m' where "m' = write_le 4 (ucast cur :: u32) out m"
    define bs' where "bs' = bs\<lparr>iw_cur := cur, iw_used := U\<rparr>"
    have "iw_write bs v m = (bs', m')"
      using False by (simp add: iw_write_def bs Let_def m'_def bs'_def U_def cur_def)
    moreover have "iw_inv b s w (vs @ [v]) bs' m'"
      unfolding iw_inv_def N' Let_def
    proof (intro conjI allI impI)
      fix q
      show "bit (iw_cur bs') q \<longleftrightarrow> stream_bit (vs @ [v]) w (32 * ((32 * D + U) div 32) + q)"
        by (simp add: bs'_def cur U0)
    next
      fix p assume "p < 32 * D + U"
      then have "p < 32 * (D + 1)" using False by simp
      then have "p div 32 < D + 1" by (simp add: div_less_iff_less_mult)
      then consider "p div 32 < D" | "p div 32 = D" by linarith
      then show "lane_bit m' b s p \<longleftrightarrow> stream_bit (vs @ [v]) w p"
      proof cases
        case 1
        then show ?thesis
          using old [of p] by (simp add: m'_def lane_bit_write [OF out_def])
      next
        case 2
        have "p mod 32 < 64" by (rule less_trans [of _ 32]) simp_all
        with 2 show ?thesis
          using word [of p 0] by (simp add: m'_def lane_bit_write [OF out_def] bit_ucast_iff)
      qed
    qed (simp_all add: bs'_def bs U0 out_def)
    moreover have "in_lane b s i \<and> i < b + 16 * ((Suc (length vs) * w) div 32) + 4 * s + 4"
      if "m' i \<noteq> m i" for i
      using write_lane_frame [OF that [unfolded m'_def] out_def] unfolding N' by (simp add: U0)
    ultimately show thesis by (rule that)
  qed
qed

section \<open>Four lanes together\<close>

fun lane_of :: "nat \<Rightarrow> u32 list \<Rightarrow> u32 list" where
  "lane_of s (v0 # v1 # v2 # v3 # vs) = [v0, v1, v2, v3] ! s # lane_of s vs"
| "lane_of s _ = []"

lemma fits_lane_of: "s < 4 \<Longrightarrow> fits w vs \<Longrightarrow> fits w (lane_of s vs)"
  by (induction s vs rule: lane_of.induct)
    (auto simp add: less_Suc_eq numeral_eq_Suc)

lemma length_lane_of: "length (lane_of s vs) = length vs div 4"
  by (induction s vs rule: lane_of.induct) auto

definition holds_lane :: "mem \<Rightarrow> nat \<Rightarrow> nat \<Rightarrow> nat \<Rightarrow> u32 list \<Rightarrow> bool" where
  "holds_lane m b s w vs \<longleftrightarrow> fits w vs \<and> (\<forall>p < length vs * w. lane_bit m b s p = stream_bit vs w p)"

lemma iw_inv_other:
  assumes "iw_inv b s w vs bs m" and "\<And>i. m' i \<noteq> m i \<Longrightarrow> in_lane b s' i"
    and "s < 4" "s' < 4" "s \<noteq> s'"
  shows "iw_inv b s w vs bs m'"
  using assms(1)
proof (rule iw_inv_frame)
  fix i assume "in_lane b s i"
  then show "m i = m' i" using assms in_lane_disjoint [of b s i s'] by metis
qed

fun quad_inv ::
    "nat \<Rightarrow> nat \<Rightarrow> u32 list \<times> u32 list \<times> u32 list \<times> u32 list \<Rightarrow> four_writers \<Rightarrow> mem \<Rightarrow> bool" where
  "quad_inv b w (l0, l1, l2, l3) (bs0, bs1, bs2, bs3) m \<longleftrightarrow>
     iw_inv b 0 w l0 bs0 m \<and> iw_inv b 1 w l1 bs1 m \<and> iw_inv b 2 w l2 bs2 m \<and> iw_inv b 3 w l3 bs3 m"

lemma quad_step:
  assumes inv: "quad_inv b w (l0, l1, l2, l3) (bs0, bs1, bs2, bs3) m" and w: "w \<le> 32"
    and fit: "fits w [v0, v1, v2, v3]"
    and len: "length l0 = n" "length l1 = n" "length l2 = n" "length l3 = n"
  obtains bs0' bs1' bs2' bs3' m' where
    "iw_writes (bs0, bs1, bs2, bs3) (v0 # v1 # v2 # v3 # vs) m =
       iw_writes (bs0', bs1', bs2', bs3') vs m'"
    and "quad_inv b w (l0 @ [v0], l1 @ [v1], l2 @ [v2], l3 @ [v3]) (bs0', bs1', bs2', bs3') m'"
    and "\<And>i. m' i \<noteq> m i \<Longrightarrow> b \<le> i \<and> i < b + 16 * ((Suc n * w) div 32) + 16"
proof -
  let ?B = "\<lambda>i. b \<le> i \<and> i < b + 16 * ((Suc n * w) div 32) + 16"
  have fits: "\<And>k. bit v0 k \<Longrightarrow> k < w" "\<And>k. bit v1 k \<Longrightarrow> k < w" "\<And>k. bit v2 k \<Longrightarrow> k < w"
    "\<And>k. bit v3 k \<Longrightarrow> k < w"
    using fit by auto
  have B: "?B i" if "in_lane b s i \<and> i < b + 16 * ((Suc n * w) div 32) + 4 * s + 4" "s < 4" for i s
    using that by (auto simp add: in_lane_def)
  from inv have i0: "iw_inv b 0 w l0 bs0 m" and i1: "iw_inv b 1 w l1 bs1 m"
    and i2: "iw_inv b 2 w l2 bs2 m" and i3: "iw_inv b 3 w l3 bs3 m" by simp_all
  obtain bs0' m1 where s0: "iw_write bs0 v0 m = (bs0', m1)" "iw_inv b 0 w (l0 @ [v0]) bs0' m1"
    "\<And>i. m1 i \<noteq> m i \<Longrightarrow> in_lane b 0 i \<and> i < b + 16 * ((Suc n * w) div 32) + 4 * 0 + 4"
    using iw_write_step [OF i0 w fits(1)] len by metis
  have j1: "iw_inv b 1 w l1 bs1 m1" and j2: "iw_inv b 2 w l2 bs2 m1" and j3: "iw_inv b 3 w l3 bs3 m1"
    using iw_inv_other [of b _ w _ _ m m1 0] i1 i2 i3 s0(3) by auto
  obtain bs1' m2 where s1: "iw_write bs1 v1 m1 = (bs1', m2)" "iw_inv b 1 w (l1 @ [v1]) bs1' m2"
    "\<And>i. m2 i \<noteq> m1 i \<Longrightarrow> in_lane b 1 i \<and> i < b + 16 * ((Suc n * w) div 32) + 4 * 1 + 4"
    using iw_write_step [OF j1 w fits(2)] len by metis
  have k0: "iw_inv b 0 w (l0 @ [v0]) bs0' m2" and k2: "iw_inv b 2 w l2 bs2 m2"
    and k3: "iw_inv b 3 w l3 bs3 m2"
    using iw_inv_other [of b _ w _ _ m1 m2 1] s0(2) j2 j3 s1(3) by auto
  obtain bs2' m3 where s2: "iw_write bs2 v2 m2 = (bs2', m3)" "iw_inv b 2 w (l2 @ [v2]) bs2' m3"
    "\<And>i. m3 i \<noteq> m2 i \<Longrightarrow> in_lane b 2 i \<and> i < b + 16 * ((Suc n * w) div 32) + 4 * 2 + 4"
    using iw_write_step [OF k2 w fits(3)] len by metis
  have n0: "iw_inv b 0 w (l0 @ [v0]) bs0' m3" and n1: "iw_inv b 1 w (l1 @ [v1]) bs1' m3"
    and n3: "iw_inv b 3 w l3 bs3 m3"
    using iw_inv_other [of b _ w _ _ m2 m3 2] k0 s1(2) k3 s2(3) by auto
  obtain bs3' m4 where s3: "iw_write bs3 v3 m3 = (bs3', m4)" "iw_inv b 3 w (l3 @ [v3]) bs3' m4"
    "\<And>i. m4 i \<noteq> m3 i \<Longrightarrow> in_lane b 3 i \<and> i < b + 16 * ((Suc n * w) div 32) + 4 * 3 + 4"
    using iw_write_step [OF n3 w fits(4)] len by metis
  have "quad_inv b w (l0 @ [v0], l1 @ [v1], l2 @ [v2], l3 @ [v3]) (bs0', bs1', bs2', bs3') m4"
    using iw_inv_other [of b _ w _ _ m3 m4 3] n0 n1 s2(2) s3 by auto
  moreover have "?B i" if "m4 i \<noteq> m i" for i
  proof -
    from that consider "m4 i \<noteq> m3 i" | "m3 i \<noteq> m2 i" | "m2 i \<noteq> m1 i" | "m1 i \<noteq> m i" by metis
    then show ?thesis
      by cases (use B [OF s3(3)] B [OF s2(3)] B [OF s1(3)] B [OF s0(3)] in simp_all)
  qed
  ultimately show thesis
    using that [of bs0' bs1' bs2' bs3' m4] s0(1) s1(1) s2(1) s3(1) by simp
qed

lemma not_multiple_of_4:
  "Suc 0 \<noteq> 4 * n" "Suc (Suc 0) \<noteq> 4 * n" "Suc (Suc (Suc 0)) \<noteq> 4 * n"
  by presburger+

lemma quad_writes:
  assumes "quad_inv b w (l0, l1, l2, l3) bs m" and "w \<le> 32" and "fits w vs" and "4 dvd length vs"
    and "length l0 = n" "length l1 = n" "length l2 = n" "length l3 = n"
  shows "\<exists>bs' m'. iw_writes bs vs m = Some m' \<and>
    quad_inv b w (l0 @ lane_of 0 vs, l1 @ lane_of 1 vs, l2 @ lane_of 2 vs, l3 @ lane_of 3 vs) bs' m' \<and>
    (\<forall>i. m' i \<noteq> m i \<longrightarrow> b \<le> i \<and> i < b + 16 * (((n + length vs div 4) * w) div 32) + 16)"
  using assms
proof (induction "0::nat" vs arbitrary: l0 l1 l2 l3 bs m n rule: lane_of.induct)
  case (1 v0 v1 v2 v3 vs)
  obtain bs0 bs1 bs2 bs3 where bs: "bs = (bs0, bs1, bs2, bs3)" by (cases bs)
  have fit: "fits w [v0, v1, v2, v3]" and fit': "fits w vs"
    using "1.prems"(3) by auto
  have "length (v0 # v1 # v2 # v3 # vs) = length vs + 4" by simp
  with "1.prems"(4) have dvd: "4 dvd length vs" by (metis dvd_add_left_iff dvd_refl)
  from quad_step [OF "1.prems"(1) [unfolded bs] "1.prems"(2) fit "1.prems"(5-8), of vs]
  obtain bs0' bs1' bs2' bs3' m1 where
    s: "iw_writes bs (v0 # v1 # v2 # v3 # vs) m = iw_writes (bs0', bs1', bs2', bs3') vs m1"
    "quad_inv b w (l0 @ [v0], l1 @ [v1], l2 @ [v2], l3 @ [v3]) (bs0', bs1', bs2', bs3') m1"
    "\<And>i. m1 i \<noteq> m i \<Longrightarrow> b \<le> i \<and> i < b + 16 * ((Suc n * w) div 32) + 16"
    unfolding bs by metis
  from "1.hyps" [OF s(2) "1.prems"(2) fit' dvd, of "Suc n"] "1.prems"(5-8)
  obtain bs' m' where IH: "iw_writes (bs0', bs1', bs2', bs3') vs m1 = Some m'"
    "quad_inv b w (l0 @ lane_of 0 (v0 # v1 # v2 # v3 # vs), l1 @ lane_of 1 (v0 # v1 # v2 # v3 # vs),
       l2 @ lane_of 2 (v0 # v1 # v2 # v3 # vs), l3 @ lane_of 3 (v0 # v1 # v2 # v3 # vs)) bs' m'"
    "\<forall>i. m' i \<noteq> m1 i \<longrightarrow> b \<le> i \<and> i < b + 16 * (((Suc n + length vs div 4) * w) div 32) + 16"
    by auto
  have n: "n + length (v0 # v1 # v2 # v3 # vs) div 4 = Suc n + length vs div 4" by simp
  have le: "(Suc n * w) div 32 \<le> ((Suc n + length vs div 4) * w) div 32"
    by (intro div_le_mono mult_le_mono) simp_all
  have "b \<le> i \<and> i < b + 16 * (((Suc n + length vs div 4) * w) div 32) + 16"
    if "m' i \<noteq> m i" for i
  proof (cases "m' i = m1 i")
    case True
    with that s(3) [of i] have "b \<le> i" by simp
    from that True s(3) [of i] have "i < b + 16 * ((Suc n * w) div 32) + 16" by simp
    also have "\<dots> \<le> b + 16 * (((Suc n + length vs div 4) * w) div 32) + 16"
      by (intro add_mono mult_le_mono order_refl le)
    finally show ?thesis using \<open>b \<le> i\<close> by simp
  next
    case False
    with IH(3) show ?thesis by blast
  qed
  with s(1) IH(1,2) show ?case unfolding n by metis
qed (auto simp add: dvd_def not_multiple_of_4)

lemma lane_streams_written:
  assumes "w \<le> 32" and "fits w vs" and "length vs = 128"
  obtains m' where
    "iw_writes (InterleavedBitWriter (b + 0 * 4) w, InterleavedBitWriter (b + 1 * 4) w,
       InterleavedBitWriter (b + 2 * 4) w, InterleavedBitWriter (b + 3 * 4) w) vs m = Some m'"
    and "\<And>s. s < 4 \<Longrightarrow> holds_lane m' b s w (lane_of s vs)"
    and "\<And>i. i < b \<or> b + bytes_for_packed_bits 128 w + 16 \<le> i \<Longrightarrow> m' i = m i"
proof -
  let ?bs = "(InterleavedBitWriter (b + 0 * 4) w, InterleavedBitWriter (b + 1 * 4) w,
    InterleavedBitWriter (b + 2 * 4) w, InterleavedBitWriter (b + 3 * 4) w)"
  have "quad_inv b w ([], [], [], []) ?bs m"
    using iw_inv_init [of b 0 w m] iw_inv_init [of b 1 w m] iw_inv_init [of b 2 w m]
      iw_inv_init [of b 3 w m] by simp
  from quad_writes [OF this assms(1,2), of 0] assms(3)
  obtain bs' m' where 1: "iw_writes ?bs vs m = Some m'"
    and 2: "quad_inv b w (lane_of 0 vs, lane_of 1 vs, lane_of 2 vs, lane_of 3 vs) bs' m'"
    and 3: "\<forall>i. m' i \<noteq> m i \<longrightarrow> b \<le> i \<and> i < b + 16 * ((32 * w) div 32) + 16"
    by auto
  obtain bs0 bs1 bs2 bs3 where bs: "bs' = (bs0, bs1, bs2, bs3)" by (cases bs')
  have lane: "holds_lane m' b s w (lane_of s vs)" if "s < 4" for s
  proof -
    from that consider "s = 0" | "s = 1" | "s = 2" | "s = 3" by linarith
    then have "\<exists>bs. iw_inv b s w (lane_of s vs) bs m'"
      by cases (use 2 in \<open>auto simp add: bs\<close>)
    then show ?thesis
      using fits_lane_of [OF that assms(2)] by (auto simp add: iw_inv_def holds_lane_def Let_def)
  qed
  have "m' i = m i" if "i < b \<or> b + bytes_for_packed_bits 128 w + 16 \<le> i" for i
    using 3 that by (auto simp add: bytes_for_packed_bits_def div_round_up_def)
  from that [OF 1 lane this] show thesis .
qed

section \<open>The reader of a lane\<close>

definition lane_reader :: "nat \<Rightarrow> nat \<Rightarrow> nat \<Rightarrow> nat \<Rightarrow> interleaved_bit_reader" where
  "lane_reader b s w k =
     \<lparr>ir_in = b + 4 * s + 16 * ((k * w) div 32), ir_bits = w, ir_used = (k * w) mod 32\<rparr>"

lemma lane_word:
  "c < 32 \<Longrightarrow> lane_bit m b s (32 * D + c) = bit (read_le 4 m (b + 4 * s + 16 * D) :: u32) c"
proof -
  assume c: "c < 32"
  have "(32 * D + c) mod 8 = c mod 8"
    using mod_mult_self2 [of c 8 "4 * D"] by (simp add: ac_simps)
  with c show ?thesis by (simp add: lane_bit_def bit_read_le)
qed

lemma ir_read_lane:
  assumes "holds_lane m b s w vs" and "k < length vs" and "w \<le> 32"
  shows "ir_read m (lane_reader b s w k) = (vs ! k, lane_reader b s w (Suc k))"
proof -
  define D where "D = (k * w) div 32"
  define u where "u = (k * w) mod 32"
  have N: "k * w = 32 * D + u" "u < 32" by (simp_all add: D_def u_def)
  define lo :: u32 where "lo = read_le 4 m (b + 4 * s + 16 * D)"
  define hi :: u32 where "hi = read_le 4 m (b + 4 * s + 16 * (D + 1))"
  define val where "val = (if 32 < u + w then drop_bit u lo OR push_bit (32 - u) hi else drop_bit u lo)"
  have "bit (val AND mask_for_bits w) q = bit (vs ! k) q" for q
  proof (cases "q < w")
    case True
    have "k * w + q < Suc k * w" using True by simp
    also have "\<dots> \<le> length vs * w" using assms(2) by (intro mult_le_mono1) simp
    finally have "lane_bit m b s (k * w + q) = bit (vs ! k) q"
      using assms(1,2) True by (simp add: holds_lane_def stream_bit_value)
    moreover have "bit val q = lane_bit m b s (32 * D + (u + q))"
    proof (cases "u + q < 32")
      case True
      then show ?thesis
        using lane_word [OF True, of m b s D] N(2)
        by (auto simp add: val_def lo_def bit_or_iff bit_drop_bit_eq bit_push_bit_iff)
    next
      case False
      have "\<not> bit lo (u + q)" using False by (auto dest: bit_imp_le_length)
      moreover have "lane_bit m b s (32 * (D + 1) + (u + q - 32)) = bit hi (u + q - 32)"
        unfolding hi_def using N(2) True assms(3) by (intro lane_word) linarith
      moreover have "32 * (D + 1) + (u + q - 32) = 32 * D + (u + q)" "q - (32 - u) = u + q - 32"
        using False N(2) by simp_all
      ultimately show ?thesis
        using False True assms(3) N(2)
        by (auto simp add: val_def bit_or_iff bit_drop_bit_eq bit_push_bit_iff)
    qed
    ultimately show ?thesis
      using True assms(3) by (simp add: bit_and_mask N(1) add.assoc)
  next
    case False
    then have "\<not> bit (vs ! k) q"
      using assms(1,2) by (auto simp add: holds_lane_def dest: fits_nth)
    with False assms(3) show ?thesis by (simp add: bit_and_mask)
  qed
  then have val: "val AND mask_for_bits w = vs ! k" by (intro bit_word_eqI)
  have S: "Suc k * w = 32 * D + (u + w)" using N(1) by simp
  have "(Suc k * w) div 32 = D + (u + w) div 32" "(Suc k * w) mod 32 = (u + w) mod 32"
    unfolding S by simp_all
  then have "ir_read m (lane_reader b s w k) = (val AND mask_for_bits w, lane_reader b s w (Suc k))"
    by (simp add: ir_read_def lane_reader_def Let_def read_stride_def val_def lo_def hi_def
        ac_simps distrib_left flip: D_def u_def)
  with val show ?thesis by simp
qed

lemma ir_reads_lanes:
  assumes "\<And>s. s < 4 \<Longrightarrow> holds_lane m b s w (L s)" and "w \<le> 32"
    and "\<And>s. s < 4 \<Longrightarrow> drop k (L s) = lane_of s vs" and "length vs = 4 * n"
  shows "ir_reads m n (lane_reader b 0 w k, lane_reader b 1 w k, lane_reader b 2 w k,
    lane_reader b 3 w k) = vs"
  using assms(3,4)
proof (induction "0::nat" vs arbitrary: k n rule: lane_of.induct)
  case (1 v0 v1 v2 v3 vs)
  then obtain n' where n': "n = Suc n'" "length vs = 4 * n'" by (cases n) auto
  have L: "k < length (L s)" "L s ! k = [v0, v1, v2, v3] ! s" "drop (Suc k) (L s) = lane_of s vs"
    if "s < 4" for s
  proof -
    from "1.prems"(1) [OF that] have *: "drop k (L s) = [v0, v1, v2, v3] ! s # lane_of s vs" by simp
    then show "k < length (L s)" by (metis drop_all list.distinct(1) not_le)
    then show "L s ! k = [v0, v1, v2, v3] ! s" "drop (Suc k) (L s) = lane_of s vs"
      using * by (simp_all add: Cons_nth_drop_Suc [symmetric])
  qed
  have read: "ir_read m (lane_reader b s w k) = ([v0, v1, v2, v3] ! s, lane_reader b s w (Suc k))"
    if "s < 4" for s
    using ir_read_lane [OF assms(1) [OF that] L(1) [OF that] assms(2)] L(2) [OF that] by simp
  have "ir_reads m n' (lane_reader b 0 w (Suc k), lane_reader b 1 w (Suc k), lane_reader b 2 w (Suc k),
    lane_reader b 3 w (Suc k)) = vs"
    by (rule "1.hyps") (use L(3) n'(2) in auto)
  then show ?case
    using read [of 0] read [of 1] read [of 2] read [of 3] by (simp add: n'(1))
qed (auto simp add: not_multiple_of_4)

lemma lane_streams_read:
  assumes "\<And>s. s < 4 \<Longrightarrow> holds_lane m b s w (lane_of s vs)" and "w \<le> 32" and "length vs = 128"
  shows "ir_reads m (128 div 4) (four_readers b w) = vs"
proof -
  have "four_readers b w =
    (lane_reader b 0 w 0, lane_reader b 1 w 0, lane_reader b 2 w 0, lane_reader b 3 w 0)"
    by (simp add: four_readers_def lane_reader_def InterleavedBitReader_def)
  with ir_reads_lanes [OF assms(1,2), of 0 vs "128 div 4"] assms(3) show ?thesis by simp
qed

lemma holds_lane_same_bytes:
  assumes "holds_lane m b s w vs" and "s < 4" and "length vs = 32"
    and "same_bytes m m' b (b + bytes_for_packed_bits 128 w)"
  shows "holds_lane m' b s w vs"
proof -
  have "lane_bit m b s p = lane_bit m' b s p" if "p < 32 * w" for p
  proof -
    have "p div 32 < w" using that by (simp add: div_less_iff_less_mult mult.commute)
    moreover have "p mod 32 div 8 < 4" by (simp add: div_less_iff_less_mult)
    ultimately have "b + 4 * s + 16 * (p div 32) + p mod 32 div 8 < b + 16 * w"
      using assms(2) by linarith
    then show ?thesis
      using assms(4)
      by (simp add: lane_bit_def same_bytes_def bytes_for_packed_bits_def div_round_up_def)
  qed
  with assms(1,3) show ?thesis by (simp add: holds_lane_def mult.commute)
qed

end
