(* ===== verification/Varint.thy ===== *)
theory Varint
  imports Bit_Streams
begin

text \<open>
  The two variable-length integer formats of the posting lists (\<open>write_baseval\<close>/\<open>read_baseval\<close>
  for the first docid, \<open>write_vb\<close>/\<open>read_vb\<close> for exceptions): reading back what was written
  gives the value and the end of its bytes, on any memory that keeps those bytes.
\<close>

section \<open>Bytes of a 32-bit value\<close>

lemma unat_byte: "unat (ucast (y :: u32) :: byte) = unat y mod 256"
  by (simp add: unsigned_ucast_eq take_bit_eq_mod)

lemma bit_byte: "bit (ucast (ucast (x :: u32) :: byte) :: u32) k \<longleftrightarrow> k < 8 \<and> bit x k"
  by (auto simp add: bit_ucast_iff)

lemma bits_below: "unat (v :: u32) < 2 ^ n \<Longrightarrow> bit v k \<Longrightarrow> k < n"
  using num_bits_pow [of v n] num_bits_less_pow [of v n k] by simp

lemma ucast_byte: "unat (y :: u32) < 256 \<Longrightarrow> ucast (ucast y :: byte) = y"
  proof (rule bit_word_eqI)
  fix k :: nat
  assume "unat y < 256"
  then have "bit y k \<Longrightarrow> k < 8" using bits_below [of y 8 k] by simp
  then show "bit (ucast (ucast y :: byte) :: u32) k = bit y k" by (auto simp add: bit_byte)
qed

lemma bit_ff: "bit (0xff :: u32) k \<longleftrightarrow> k < 8"
proof -
  have "(0xff :: u32) = mask 8" by (simp add: mask_eq_exp_minus_1)
  then have "bit (0xff :: u32) k = bit (mask 8 :: u32) k" by (rule arg_cong)
  then show ?thesis by (auto simp only: bit_mask_iff) simp
qed

lemma bit_ffff: "bit (0xffff :: u32) k \<longleftrightarrow> k < 16"
proof -
  have "(0xffff :: u32) = mask 16" by (simp add: mask_eq_exp_minus_1)
  then have "bit (0xffff :: u32) k = bit (mask 16 :: u32) k" by (rule arg_cong)
  then show ?thesis by (auto simp only: bit_mask_iff) simp
qed

lemma masks_baseval:
  "(0x3fff :: u32) = mask 14" "(0x1fffff :: u32) = mask 21" "(0xfffffff :: u32) = mask 28"
  by (simp_all add: mask_eq_exp_minus_1)

lemma tag_bits:
  "k < 6 \<Longrightarrow> \<not> bit (0x80 :: u32) k" "k < 5 \<Longrightarrow> \<not> bit (0xc0 :: u32) k" "k < 4 \<Longrightarrow> \<not> bit (0xe0 :: u32) k"
  by (auto simp add: less_Suc_eq numeral_eq_Suc)

lemma or_tag:
  assumes "unat x < 2 ^ n" and "\<And>k. k < n \<Longrightarrow> \<not> bit (t :: u32) k"
  shows "x OR t = x + t"
proof -
  have "bit x k \<Longrightarrow> k < n" for k
    using assms(1) bits_below by blast
  then show ?thesis using assms(2) by (intro disjunctive_add [symmetric]) blast
qed

lemma unat_shift: "unat (drop_bit n (v :: u32)) = unat v div 2 ^ n"
  unfolding unat_drop_bit_eq by (simp add: drop_bit_eq_div)

lemma unat_tagged:
  assumes "unat x < 2 ^ n" and "\<And>k. k < n \<Longrightarrow> \<not> bit (t :: u32) k" and "unat x + unat t < 256"
  shows "unat (ucast (x OR t) :: byte) = unat x + unat t" and "ucast (ucast (x OR t) :: byte) = x OR t"
proof -
  have "unat (x + t) = unat x + unat t"
    using assms(3) by (intro unat_add_lem [THEN iffD1]) simp
  then have "unat (x OR t) = unat x + unat t" by (simp add: or_tag [OF assms(1,2)])
  then show "unat (ucast (x OR t) :: byte) = unat x + unat t" "ucast (ucast (x OR t) :: byte) = x OR t"
    using assms(3) by (simp_all add: unat_byte ucast_byte)
qed

section \<open>The first docid\<close>

lemma read_cong:
  assumes "same_bytes (store m out bs) m'' out e" and "e = out + length bs" and "k < length bs"
  shows "m'' (out + k) = bs ! k"
  using assms store_inside [of k bs m out] by (simp add: same_bytes_def del: store_inside)

lemma join2:
  assumes "\<And>k. bit (v :: u32) k \<Longrightarrow> k < 14" and "\<And>k. k < 6 \<Longrightarrow> \<not> bit t k"
    and "\<And>k. bit ff k \<longleftrightarrow> k < 8"
  shows "(push_bit 8 (drop_bit 8 v OR t) OR ucast (ucast (v AND ff) :: byte)) AND mask 14 = v"
proof (rule bit_word_eqI)
  fix k :: nat
  have "\<not> k < 8 \<Longrightarrow> 8 + (k - 8) = k" "\<not> k < 16 \<Longrightarrow> 16 + (k - 16) = k" "\<not> k < 24 \<Longrightarrow> 24 + (k - 24) = k"
    by simp_all
  moreover have "\<not> k < 8 \<Longrightarrow> k < 14 \<Longrightarrow> \<not> bit t (k - 8)"
    by (rule assms(2)) linarith
  ultimately show "bit ((push_bit 8 (drop_bit 8 v OR t) OR ucast (ucast (v AND ff) :: byte)) AND mask 14) k = bit v k"
    using assms(1) [of k]
    by (cases "k < 8"; cases "k < 16"; cases "k < 24")
      (auto simp add: bit_simps bit_byte assms(3))
qed

lemma join3:
  assumes "\<And>k. bit (v :: u32) k \<Longrightarrow> k < 21" and "\<And>k. k < 5 \<Longrightarrow> \<not> bit t k"
    and "\<And>k. bit ff k \<longleftrightarrow> k < 8"
  shows "(push_bit 16 (drop_bit 16 v OR t) OR push_bit 8 (ucast (ucast (drop_bit 8 v AND ff) :: byte))
    OR ucast (ucast (v AND ff) :: byte)) AND mask 21 = v"
proof (rule bit_word_eqI)
  fix k :: nat
  have "\<not> k < 8 \<Longrightarrow> 8 + (k - 8) = k" "\<not> k < 16 \<Longrightarrow> 16 + (k - 16) = k" "\<not> k < 24 \<Longrightarrow> 24 + (k - 24) = k"
    by simp_all
  moreover have "\<not> k < 16 \<Longrightarrow> k < 21 \<Longrightarrow> \<not> bit t (k - 16)"
    by (rule assms(2)) linarith
  ultimately show "bit ((push_bit 16 (drop_bit 16 v OR t) OR push_bit 8 (ucast (ucast (drop_bit 8 v AND ff) :: byte))
    OR ucast (ucast (v AND ff) :: byte)) AND mask 21) k = bit v k"
    using assms(1) [of k]
    by (cases "k < 8"; cases "k < 16"; cases "k < 24")
      (auto simp add: bit_simps bit_byte assms(3))
qed

lemma join4:
  assumes "\<And>k. bit (v :: u32) k \<Longrightarrow> k < 28" and "\<And>k. k < 4 \<Longrightarrow> \<not> bit t k"
    and "\<And>k. bit ff k \<longleftrightarrow> k < 8"
  shows "(push_bit 24 (drop_bit 24 v OR t) OR push_bit 16 (ucast (ucast (drop_bit 16 v AND ff) :: byte))
    OR push_bit 8 (ucast (ucast (drop_bit 8 v AND ff) :: byte))
    OR ucast (ucast (v AND ff) :: byte)) AND mask 28 = v"
proof (rule bit_word_eqI)
  fix k :: nat
  have "\<not> k < 8 \<Longrightarrow> 8 + (k - 8) = k" "\<not> k < 16 \<Longrightarrow> 16 + (k - 16) = k" "\<not> k < 24 \<Longrightarrow> 24 + (k - 24) = k"
    by simp_all
  moreover have "\<not> k < 24 \<Longrightarrow> k < 28 \<Longrightarrow> \<not> bit t (k - 24)"
    by (rule assms(2)) linarith
  ultimately show "bit ((push_bit 24 (drop_bit 24 v OR t) OR push_bit 16 (ucast (ucast (drop_bit 16 v AND ff) :: byte))
    OR push_bit 8 (ucast (ucast (drop_bit 8 v AND ff) :: byte))
    OR ucast (ucast (v AND ff) :: byte)) AND mask 28) k = bit v k"
    using assms(1) [of k]
    by (cases "k < 8"; cases "k < 16"; cases "k < 24")
      (auto simp add: bit_simps bit_byte assms(3))
qed

lemma baseval_roundtrip:
  assumes "unat v < 2 ^ 28"
  obtains m' out' where "write_baseval v out m = Some (m', out')" and "out < out'" and "out' \<le> out + 4"
    and "\<And>i. i < out \<or> out' \<le> i \<Longrightarrow> m' i = m i"
    and "\<And>m''. same_bytes m' m'' out out' \<Longrightarrow> read_baseval m'' out = Some (v, out')"
proof -
  consider "v < 128" | "128 \<le> v" "v < 0x4000" | "0x4000 \<le> v" "v < 0x200000"
    | "0x200000 \<le> v" "v < 0x10000000"
    using assms by (force simp add: word_less_nat_alt word_le_nat_alt)
  then show thesis
  proof cases
    case 1
    let ?m = "store m out [ucast v]"
    have v: "unat v < 128" using 1 by (simp add: word_less_nat_alt)
    have "read_baseval m'' out = Some (v, out + 1)" if "same_bytes ?m m'' out (out + 1)" for m''
      using read_cong [OF that, of 0] v
      by (simp add: read_baseval_def Let_def word_less_nat_alt unat_byte ucast_byte)
    then show thesis
      by (intro that [of ?m "out + 1"]) (use 1 in \<open>auto simp add: write_baseval_def\<close>)
  next
    case 2
    let ?bs = "[ucast (drop_bit 8 v OR 0x80), ucast (v AND 0xff)] :: bytes"
    let ?m = "store m out ?bs"
    have v: "unat v < 2 ^ 14" using 2 by (simp add: word_less_nat_alt)
    then have h: "unat (drop_bit 8 v) < 2 ^ 6" by (simp add: unat_shift less_mult_imp_div_less)
    note t = unat_tagged [OF h tag_bits(1)]
    have "read_baseval m'' out = Some (v, out + 2)" if "same_bytes ?m m'' out (out + 2)" for m''
    proof -
      have b: "m'' out = ?bs ! 0" "m'' (Suc out) = ?bs ! 1"
        using read_cong [OF that, of 0]
          read_cong [OF that, of 1] by simp_all
      show ?thesis
        using join2 [of v "0x80" "0xff", OF bits_below [OF v] tag_bits(1) bit_ff] t h
        by (simp add: read_baseval_def Let_def b word_less_nat_alt word_le_nat_alt masks_baseval)
    qed
    then show thesis
      by (intro that [of ?m "out + 2"])
        (use 2 in \<open>auto simp add: write_baseval_def word_less_nat_alt word_le_nat_alt\<close>)
  next
    case 3
    let ?bs = "[ucast (drop_bit 16 v OR 0xc0), ucast (v AND 0xff), ucast (drop_bit 8 v AND 0xff)] :: bytes"
    let ?m = "store m out ?bs"
    have v: "unat v < 2 ^ 21" using 3 by (simp add: word_less_nat_alt)
    then have h: "unat (drop_bit 16 v) < 2 ^ 5" by (simp add: unat_shift less_mult_imp_div_less)
    note t = unat_tagged [OF h tag_bits(2)]
    have "read_baseval m'' out = Some (v, out + 3)" if "same_bytes ?m m'' out (out + 3)" for m''
    proof -
      have b: "m'' out = ?bs ! 0" "m'' (Suc out) = ?bs ! 1" "m'' (Suc (Suc out)) = ?bs ! 2"
        using read_cong [OF that, of 0]
          read_cong [OF that, of 1]
          read_cong [OF that, of 2] by simp_all
      show ?thesis
        using join3 [of v "0xc0" "0xff", OF bits_below [OF v] tag_bits(2) bit_ff] t h
        by (simp add: read_baseval_def Let_def b word_less_nat_alt word_le_nat_alt masks_baseval)
    qed
    then show thesis
      by (intro that [of ?m "out + 3"])
        (use 3 in \<open>auto simp add: write_baseval_def word_less_nat_alt word_le_nat_alt\<close>)
  next
    case 4
    let ?bs = "[ucast (drop_bit 24 v OR 0xe0), ucast (drop_bit 16 v AND 0xff),
      ucast (drop_bit 8 v AND 0xff), ucast (v AND 0xff)] :: bytes"
    let ?m = "store m out ?bs"
    have v: "unat v < 2 ^ 28" using 4 by (simp add: word_less_nat_alt)
    then have h: "unat (drop_bit 24 v) < 2 ^ 4" by (simp add: unat_shift less_mult_imp_div_less)
    note t = unat_tagged [OF h tag_bits(3)]
    have "read_baseval m'' out = Some (v, out + 4)" if "same_bytes ?m m'' out (out + 4)" for m''
    proof -
      have b: "m'' out = ?bs ! 0" "m'' (Suc out) = ?bs ! 1" "m'' (Suc (Suc out)) = ?bs ! 2" "m'' (out + 3) = ?bs ! 3"
        using read_cong [OF that, of 0]
          read_cong [OF that, of 1]
          read_cong [OF that, of 2]
          read_cong [OF that, of 3] by simp_all
      show ?thesis
        using join4 [of v "0xe0" "0xff", OF bits_below [OF v] tag_bits(3) bit_ff] t h
        by (simp add: read_baseval_def Let_def b word_less_nat_alt word_le_nat_alt masks_baseval)
    qed
    then show thesis
      by (intro that [of ?m "out + 4"])
        (use 4 in \<open>auto simp add: write_baseval_def word_less_nat_alt word_le_nat_alt\<close>)
  qed
qed

section \<open>Exceptions\<close>

lemma read_written:
  assumes "same_bytes (write_le n v p m) m'' p (p + n)" and "LENGTH('a::len) \<le> 8 * n"
  shows "read_le n m'' p = (v :: 'a word)"
proof -
  have "load m'' p n = load (write_le n v p m) p n"
    using assms(1) by (intro same_bytes_load [symmetric])
  also have "\<dots> = put_le n v"
    using load_store [of m p "put_le n v"] by (simp add: write_le_def)
  finally show ?thesis
    using get_le_put_le [OF assms(2), of v "[]"] by (simp add: read_le_def)
qed

lemma join_low:
  assumes "\<And>k. bit ff k \<longleftrightarrow> k < 8"
  shows "push_bit 8 (drop_bit 8 x) OR ucast (ucast (x AND ff) :: byte) = (x :: u32)"
proof (rule bit_word_eqI)
  fix k :: nat
  have "\<not> k < 8 \<Longrightarrow> 8 + (k - 8) = k" by simp
  then show "bit (push_bit 8 (drop_bit 8 x) OR ucast (ucast (x AND ff) :: byte)) k = bit x k"
    by (cases "k < 8") (auto simp add: bit_simps bit_byte assms dest: bit_imp_le_length)
qed

lemma join_low2:
  assumes "\<And>k. bit ff k \<longleftrightarrow> k < 16"
  shows "push_bit 16 (drop_bit 16 x) OR ucast (ucast (x AND ff) :: u16) = (x :: u32)"
proof (rule bit_word_eqI)
  fix k :: nat
  have "\<not> k < 16 \<Longrightarrow> 16 + (k - 16) = k" by simp
  then show "bit (push_bit 16 (drop_bit 16 x) OR ucast (ucast (x AND ff) :: u16)) k = bit x k"
    by (cases "k < 16") (auto simp add: bit_simps assms dest: bit_imp_le_length)
qed

lemma join_bytes3:
  assumes "unat (v :: u32) < 2 ^ 24"
    and "b0 = put_le 4 v ! 0" "b1 = put_le 4 v ! 1" "b2 = put_le 4 v ! 2"
  shows "ucast b0 OR push_bit 8 (ucast b1) OR push_bit 16 (ucast b2) = v"
proof (rule bit_word_eqI)
  fix k :: nat
  have "bit v k \<Longrightarrow> k < 24" by (rule bits_below [OF assms(1)])
  moreover have "\<not> k < 8 \<Longrightarrow> 8 + (k - 8) = k" "\<not> k < 16 \<Longrightarrow> 16 + (k - 16) = k" by simp_all
  ultimately show "bit (ucast b0 OR push_bit 8 (ucast b1) OR push_bit 16 (ucast b2) :: u32) k = bit v k"
    by (cases "k < 8"; cases "k < 16")
      (auto simp add: bit_simps assms(2-4) bit_nth_put_le dest: bit_imp_le_length)
qed

lemma unat_minus_le: "c \<le> v \<Longrightarrow> unat (v - c) = unat v - unat (c :: u32)"
  by (simp add: unat_sub)

text \<open>The 4-byte form writes five bytes; the last is not part of the value.\<close>

lemma vb_roundtrip:
  obtains m' out' where "write_vb v out m = (m', out')" and "out < out'" and "out' \<le> out + 5"
    and "\<And>i. i < out \<or> out' + 1 \<le> i \<Longrightarrow> m' i = m i" and "m' out \<le> 250"
    and "\<And>m''. same_bytes m' m'' out out' \<Longrightarrow> read_vb m'' out = Some (v, out')"
proof -
  consider "v \<le> 176" | "177 \<le> v" "v \<le> 16560" | "16561 \<le> v" "v \<le> 540848"
    | "540849 \<le> v" "v \<le> 16777215" | "16777216 \<le> v"
    by (fastforce simp add: word_le_nat_alt)
  then show thesis
  proof cases
    case 1
    let ?m = "store m out [ucast v]"
    have v: "unat v \<le> 176" using 1 by (simp add: word_le_nat_alt)
    have "read_vb m'' out = Some (v, out + 1)" if "same_bytes ?m m'' out (out + 1)" for m''
      using read_cong [OF that, of 0] v
      by (simp add: read_vb_def Let_def word_le_nat_alt unat_byte ucast_byte)
    moreover have "?m out \<le> 250" using v by (simp add: store_def word_le_nat_alt unat_byte)
    ultimately show thesis
      by (intro that [of ?m "out + 1"]) (use 1 in \<open>auto simp add: write_vb_def\<close>)
  next
    case 2
    define x where "x = v - 177"
    let ?bs = "[ucast (drop_bit 8 x + 177), ucast (x AND 0xff)] :: bytes"
    let ?m = "store m out ?bs"
    have "unat x = unat v - 177" using 2 by (simp add: x_def unat_minus_le)
    then have h: "unat (drop_bit 8 x) < 64"
      using 2 by (simp add: unat_shift less_mult_imp_div_less word_le_nat_alt)
    then have s: "unat (drop_bit 8 x + 177) = unat (drop_bit 8 x) + 177"
      by (intro unat_add_lem [THEN iffD1, THEN trans]) simp_all
    have "read_vb m'' out = Some (v, out + 2)" if "same_bytes ?m m'' out (out + 2)" for m''
    proof -
      have b: "m'' out = ?bs ! 0" "m'' (Suc out) = ?bs ! 1"
        using read_cong [OF that, of 0] read_cong [OF that, of 1] by simp_all
      show ?thesis
        using s h join_low [of "0xff" x, OF bit_ff]
        by (simp add: read_vb_def Let_def b word_le_nat_alt unat_byte ucast_byte x_def)
    qed
    moreover have "?m out \<le> 250" using s h by (simp add: store_def word_le_nat_alt unat_byte)
    ultimately show thesis
      by (intro that [of ?m "out + 2"])
        (use 2 in \<open>auto simp add: write_vb_def Let_def x_def word_le_nat_alt\<close>)
  next
    case 3
    define x where "x = v - 16561"
    let ?base = "store m out [ucast (drop_bit 16 x + 241)]"
    let ?m = "write_le 2 (ucast (x AND 0xffff) :: u16) (out + 1) ?base"
    have "unat x = unat v - 16561" using 3 by (simp add: x_def unat_minus_le)
    then have h: "unat (drop_bit 16 x) < 8"
      using 3 by (simp add: unat_shift less_mult_imp_div_less word_le_nat_alt)
    then have s: "unat (drop_bit 16 x + 241) = unat (drop_bit 16 x) + 241"
      by (intro unat_add_lem [THEN iffD1, THEN trans]) simp_all
    have first: "?m out = ucast (drop_bit 16 x + 241)"
      by (simp add: write_le_outside store_def)
    have "read_vb m'' out = Some (v, out + 3)" if "same_bytes ?m m'' out (out + 3)" for m''
    proof -
      have "m'' out = ucast (drop_bit 16 x + 241)"
        using that first by (simp add: same_bytes_def)
      moreover have "read_le 2 m'' (out + 1) = (ucast (x AND 0xffff) :: u16)"
        by (rule read_written [where m = ?base]) (use same_bytes_sub [OF that] in simp_all)
      ultimately show ?thesis
        using s h join_low2 [of "0xffff" x, OF bit_ffff]
        by (simp add: read_vb_def Let_def word_le_nat_alt unat_byte ucast_byte)
          (simp add: x_def)
    qed
    moreover have "?m out \<le> 250" unfolding first using s h by (simp add: word_le_nat_alt unat_byte)
    ultimately show thesis
      by (intro that [of ?m "out + 3"])
        (use 3 in \<open>auto simp add: write_vb_def Let_def x_def word_le_nat_alt write_le_outside\<close>)
  next
    case 4
    let ?base = "store m out [249]"
    let ?m = "write_le 4 v (out + 1) ?base"
    have first: "?m out = 249" by (simp add: write_le_outside store_def)
    have "read_vb m'' out = Some (v, out + 4)" if "same_bytes ?m m'' out (out + 4)" for m''
    proof -
      have "m'' out = 249" using that first by (simp add: same_bytes_def)
      moreover have "m'' (out + 1 + k) = put_le 4 v ! k" if "k < 3" for k
        using that \<open>same_bytes ?m m'' out (out + 4)\<close> store_inside [of k "put_le 4 v" ?base "out + 1"]
        by (simp add: same_bytes_def write_le_def del: store_inside)
      from this [of 0] this [of 1] this [of 2]
      have "m'' (Suc out) = put_le 4 v ! 0" "m'' (Suc (Suc out)) = put_le 4 v ! 1"
        "m'' (out + 3) = put_le 4 v ! 2"
        by (simp_all add: ac_simps numeral_3_eq_3)
      moreover have "unat v < 2 ^ 24" using 4 by (simp add: word_le_nat_alt)
      ultimately show ?thesis
        using join_bytes3 [of v] by (simp add: read_vb_def Let_def word_le_nat_alt)
    qed
    moreover have "?m out \<le> 250" unfolding first by (simp add: word_le_nat_alt)
    ultimately show thesis
      by (intro that [of ?m "out + 4"])
        (use 4 in \<open>auto simp add: write_vb_def Let_def word_le_nat_alt write_le_outside\<close>)
  next
    case 5
    let ?base = "store m out [250]"
    let ?m = "write_le 4 v (out + 1) ?base"
    have first: "?m out = 250" by (simp add: write_le_outside store_def)
    have "read_vb m'' out = Some (v, out + 5)" if "same_bytes ?m m'' out (out + 5)" for m''
    proof -
      have "m'' out = 250" using that first by (simp add: same_bytes_def)
      moreover have "read_le 4 m'' (out + 1) = v"
        by (rule read_written [where m = ?base]) (use same_bytes_sub [OF that] in simp_all)
      ultimately show ?thesis
        by (simp add: read_vb_def Let_def word_le_nat_alt)
    qed
    moreover have "?m out \<le> 250" unfolding first by (simp add: word_le_nat_alt)
    ultimately show thesis
      by (intro that [of ?m "out + 5"])
        (use 5 in \<open>auto simp add: write_vb_def Let_def word_le_nat_alt write_le_outside\<close>)
  qed
qed

end
