(* ===== verification/Block_Roundtrip.thy ===== *)
theory Block_Roundtrip
  imports Lane_Streams Varint
begin

text \<open>
  Every block that \<open>encode_pfor_single_block\<close> writes is read back by the decoder: the low parts
  of the values (\<open>encode_bitmap\<close>), the bitmap exceptions and the varbyte exceptions each return
  what was stored, for every block type the encoder may choose.
\<close>

section \<open>Low parts\<close>

definition width_ok :: "bool \<Rightarrow> nat \<Rightarrow> nat \<Rightarrow> bool" where
  "width_ok interleaved w num \<longleftrightarrow> (if interleaved then num = 128 \<and> w \<le> 32 else w \<le> 24)"

definition low_values :: "mem \<Rightarrow> bool \<Rightarrow> nat \<Rightarrow> nat \<Rightarrow> nat \<Rightarrow> u32 list" where
  "low_values m interleaved num w p =
     (if interleaved then ir_reads m (128 div 4) (four_readers p w)
      else br_reads m num (BitReader p w))"

lemma width_ok_le: "width_ok interleaved w num \<Longrightarrow> w \<le> 32"
  by (simp add: width_ok_def split: if_splits)

lemma fits_masked: "w \<le> 32 \<Longrightarrow> fits w (map (\<lambda>v. v AND mask_for_bits w) vs)"
  by (auto simp add: fits_def bit_and_mask)

lemma bitmap_roundtrip:
  assumes "width_ok interleaved w (length vs)"
  obtains m' where
    "encode_bitmap vs w interleaved out m = Some (m', out + bytes_for_packed_bits (length vs) w)"
    and "\<And>i. i < out \<or> out + bytes_for_packed_bits (length vs) w + 16 \<le> i \<Longrightarrow> m' i = m i"
    and "\<And>m''. same_bytes m' m'' out (out + bytes_for_packed_bits (length vs) w) \<Longrightarrow>
      low_values m'' interleaved (length vs) w out = map (\<lambda>v. v AND mask_for_bits w) vs"
proof (cases interleaved)
  case True
  let ?vals = "map (\<lambda>v. v AND mask_for_bits w) vs"
  from assms True have w: "w \<le> 32" and len: "length ?vals = 128" by (simp_all add: width_ok_def)
  obtain m' where 1: "iw_writes (InterleavedBitWriter (out + 0 * 4) w, InterleavedBitWriter (out + 1 * 4) w,
       InterleavedBitWriter (out + 2 * 4) w, InterleavedBitWriter (out + 3 * 4) w) ?vals m = Some m'"
    and 2: "\<And>s. s < 4 \<Longrightarrow> holds_lane m' out s w (lane_of s ?vals)"
    and 3: "\<And>i. i < out \<or> out + bytes_for_packed_bits 128 w + 16 \<le> i \<Longrightarrow> m' i = m i"
    by (rule lane_streams_written [OF w fits_masked [OF w] len, of out m]) blast
  have "low_values m'' True 128 w out = ?vals"
    if "same_bytes m' m'' out (out + bytes_for_packed_bits 128 w)" for m''
  proof -
    have "holds_lane m'' out s w (lane_of s ?vals)" if "s < 4" for s
      by (rule holds_lane_same_bytes [OF 2 [OF that] that])
        (use len \<open>same_bytes m' m'' _ _\<close> in \<open>simp_all add: length_lane_of\<close>)
    from lane_streams_read [OF this w len] show ?thesis by (simp add: low_values_def)
  qed
  then show thesis
    using that [of m'] 1 3 True len by (simp add: encode_bitmap_def Let_def)
next
  case False
  let ?vals = "map (\<lambda>v. v AND mask_for_bits w) vs"
  from assms False have w: "w \<le> 24" by (simp add: width_ok_def)
  then have fit: "fits w ?vals" by (intro fits_masked) simp
  obtain bs m' where 1: "bw_writes (BitWriter out w) ?vals m = Some (bs, m')"
    and 2: "\<And>p. p < 8 * bytes_for_packed_bits (length ?vals) w \<Longrightarrow> mem_bit m' out p = stream_bit ?vals w p"
    and 3: "\<And>i. i < out \<or> out + bytes_for_packed_bits (length ?vals) w + 4 \<le> i \<Longrightarrow> m' i = m i"
    by (rule bw_writes_stream [OF w fit, of out m]) blast
  have "holds_stream m' out w ?vals"
    unfolding holds_stream_def
  proof (intro conjI allI impI fit)
    fix p assume "p < length ?vals * w"
    then have "p div 8 < bytes_for_packed_bits (length ?vals) w" by (rule packed_bytes_cover)
    then show "mem_bit m' out p = stream_bit ?vals w p"
      by (intro 2) (simp add: div_less_iff_less_mult mult.commute)
  qed
  then have "low_values m'' False (length vs) w out = ?vals"
    if "same_bytes m' m'' out (out + bytes_for_packed_bits (length vs) w)" for m''
    using that w br_reads_stream [of m'' out w ?vals] holds_stream_same_bytes [of m' out w ?vals m'']
    by (simp add: low_values_def)
  moreover have "m' i = m i" if "i < out \<or> out + bytes_for_packed_bits (length vs) w + 16 \<le> i" for i
    using that by (intro 3) auto
  ultimately show thesis
    using that [of m'] 1 False by (simp add: encode_bitmap_def Let_def)
qed

lemma join_parts:
  assumes "w \<le> 32"
  shows "v AND mask_for_bits w OR push_bit w (drop_bit w v) = (v :: u32)"
proof (rule bit_word_eqI)
  fix k :: nat
  have "\<not> k < w \<Longrightarrow> w + (k - w) = k" by simp
  then show "bit (v AND mask_for_bits w OR push_bit w (drop_bit w v)) k = bit v k"
    using assms by (cases "k < w") (auto simp add: bit_or_iff bit_push_bit_iff bit_drop_bit_eq bit_and_mask dest: bit_imp_le_length)
qed

lemma low_only: "w \<le> 32 \<Longrightarrow> num_bits v \<le> w \<Longrightarrow> v AND mask_for_bits w = v"
  using join_parts [of w v] drop_bit_eq_0_iff [of w v] by simp

section \<open>The decoders over low and high parts\<close>

lemma decode_for_loop_reads: "decode_for_loop m n bs prev = delta_decode prev (br_reads m n bs)"
  by (induction n arbitrary: bs prev) (simp_all add: Let_def split: prod.split)

lemma pfor_bitmap_loop_reads:
  "pfor_bitmap_loop m w es bs prev =
     delta_decode prev (map2 (\<lambda>v e. v OR push_bit w e) (br_reads m (length es) bs) es)"
  by (induction es arbitrary: bs prev) (simp_all add: Let_def or.commute split: prod.split)

lemma length_delta_decode [simp]: "length (delta_decode prev vs) = length vs"
  by (induction prev vs rule: delta_decode.induct) (simp_all add: Let_def)

lemma length_ir_reads [simp]: "length (ir_reads m n bs) = 4 * n"
  by (induction m n bs rule: ir_reads.induct) (simp_all add: Let_def split: prod.split)

lemma length_br_reads [simp]: "length (br_reads m n bs) = n"
  by (induction n arbitrary: bs) (simp_all add: Let_def split: prod.split)

end
