(* ===== verification/Bitmap_Exceptions.thy ===== *)
theory Bitmap_Exceptions
  imports Block_Roundtrip
begin

text \<open>
  The exceptions of a PFOR block with a bitmap: the loop that clears the lowest set bit of each
  64-bit word of the bitmap visits the flagged positions in order, so that the exceptions, which
  were written in that order, all return to their places.
\<close>

section \<open>Clearing the lowest set bit\<close>

definition lowest_bit :: "u64 \<Rightarrow> nat" where
  "lowest_bit x = ffsll x - 1"

lemma lowest_bit_props:
  assumes "x \<noteq> 0"
  shows "lowest_bit x < 64" and "bit x (lowest_bit x)" and "\<And>k. k < lowest_bit x \<Longrightarrow> \<not> bit x k"
proof -
  let ?P = "\<lambda>i. \<not> bit x i"
  let ?l = "length (takeWhile ?P [0..<64])"
  have l: "lowest_bit x = ?l" using assms by (simp add: lowest_bit_def ffsll_def)
  have "?l \<noteq> 64"
  proof
    assume "?l = 64"
    then have "\<forall>k < 64. \<not> bit x k"
      by (metis length_upt minus_nat.diff_0 set_takeWhileD takeWhile_eq_all_conv atLeastLessThan_upt
          atLeastLessThan_iff takeWhile_nth nth_mem zero_le takeWhile_eq_take take_all order_refl)
    then have "x = 0" by (intro bit_word_eqI) simp
    with assms show False by simp
  qed
  then have lt: "?l < 64" using length_takeWhile_le [of ?P "[0..<64]"] by simp
  then show "lowest_bit x < 64" by (simp add: l)
  show "bit x (lowest_bit x)"
    using nth_length_takeWhile [of ?P "[0..<64]"] lt by (simp add: l)
  fix k assume "k < lowest_bit x"
  then have k: "k < ?l" by (simp add: l)
  then have "takeWhile ?P [0..<64] ! k = k" using lt by (simp add: takeWhile_nth)
  then show "\<not> bit x k" using set_takeWhileD nth_mem [OF k] by metis
qed

lemma bit_clear_lowest:
  assumes "x \<noteq> 0"
  shows "bit (x AND (x - 1)) k \<longleftrightarrow> bit x k \<and> k \<noteq> lowest_bit x"
proof -
  let ?j = "lowest_bit x"
  note p = lowest_bit_props [OF assms]
  define y where "y = x AND NOT (push_bit ?j 1)"
  have bity: "bit y k \<longleftrightarrow> bit x k \<and> k \<noteq> ?j" for k
    by (auto simp add: y_def bit_simps dest: bit_imp_le_length)
  have "y + push_bit ?j 1 = y OR push_bit ?j 1"
    by (rule disjunctive_add) (auto simp add: bity bit_simps)
  also have "\<dots> = x"
    by (rule bit_word_eqI) (use p in \<open>auto simp add: bity bit_simps\<close>)
  finally have "x - 1 = y + mask ?j"
    by (simp add: mask_eq_exp_minus_1 push_bit_eq_mult)
  also have "\<dots> = y OR mask ?j"
    by (rule disjunctive_add) (use p in \<open>auto simp add: bity bit_simps\<close>)
  finally have "x - 1 = y OR mask ?j" .
  then show ?thesis
    using p by (auto simp add: bit_and_iff bit_or_iff bity bit_mask_iff)
qed

lemma set_bits_lowest:
  assumes "x \<noteq> 0"
  shows "filter (bit x) [0..<64] = lowest_bit x # filter (bit (x AND (x - 1))) [0..<64]"
proof -
  let ?j = "lowest_bit x"
  note p = lowest_bit_props [OF assms]
  have split: "[0..<64] = [0..<?j] @ ?j # [Suc ?j..<64]"
    using p(1) upt_add_eq_append [of 0 ?j "64 - ?j"] by (simp add: upt_conv_Cons)
  have "filter (bit x) [0..<?j] = []" "filter (bit (x AND (x - 1))) [0..<?j] = []"
    using p(3) by (auto simp add: filter_empty_conv bit_clear_lowest [OF assms])
  moreover have "filter (bit (x AND (x - 1))) [Suc ?j..<64] = filter (bit x) [Suc ?j..<64]"
    by (rule filter_cong) (auto simp add: bit_clear_lowest [OF assms])
  ultimately show ?thesis
    unfolding split using p(2) by (simp add: bit_clear_lowest [OF assms])
qed

section \<open>The flagged positions in order\<close>

fun read_at_all ::
    "mem \<Rightarrow> nat list \<Rightarrow> bit_reader \<times> u32 list \<times> nat \<Rightarrow> bit_reader \<times> u32 list \<times> nat" where
  "read_at_all m [] s = s"
| "read_at_all m (k # ks) (bs, out, n) =
     (let (v, bs) = br_read m bs in read_at_all m ks (bs, out[k := v], n + 1))"

lemma read_at_all_append: "read_at_all m (ks @ js) s = read_at_all m js (read_at_all m ks s)"
  by (induction m ks s rule: read_at_all.induct) (simp_all add: Let_def split: prod.split)

lemma exceptions_in_word_at:
  "exceptions_in_word m x i s = read_at_all m (map (\<lambda>j. j + i) (filter (bit x) [0..<64])) s"
proof (induction m x i s rule: exceptions_in_word.induct)
  case (1 m x i bs out n)
  show ?case
  proof (cases "x = 0")
    case True
    then show ?thesis by (simp add: exceptions_in_word.simps)
  next
    case False
    obtain v bs' where r: "br_read m bs = (v, bs')" by (cases "br_read m bs")
    have "exceptions_in_word m (x AND (x - 1)) i (bs', out[lowest_bit x + i := v], n + 1) =
      read_at_all m (map (\<lambda>j. j + i) (filter (bit (x AND (x - 1))) [0..<64]))
        (bs', out[lowest_bit x + i := v], n + 1)"
      using False r by (intro 1) (simp_all add: lowest_bit_def)
    then show ?thesis
      using False r
      by (simp add: exceptions_in_word.simps [of m x] set_bits_lowest lowest_bit_def
          del: upt_rec_numeral)
  qed
qed

lemma exceptions_in_words_append:
  "exceptions_in_words m num p (js @ ks) s =
     exceptions_in_words m num p ks (exceptions_in_words m num p js s)"
  by (induction js arbitrary: s) (simp_all add: Let_def)

lemma bitmap_word:
  "filter (bit (if num - 64 * j < 64
       then (read_le 8 m (p + 8 * j) :: u64) AND (push_bit (num - 64 * j) 1 - 1)
       else read_le 8 m (p + 8 * j))) [0..<64] =
   filter (\<lambda>k. k < num - 64 * j \<and> mem_bit m p (64 * j + k)) [0..<64]"
proof (rule filter_cong [OF refl])
  fix k assume "k \<in> set [0..<64 :: nat]"
  then have k: "k < 64" by simp
  have "(64 * j + k) div 8 = 8 * j + k div 8" "(64 * j + k) mod 8 = k mod 8"
    using div_mult_self2 [of 8 k "8 * j"] mod_mult_self2 [of k 8 "8 * j"] by (simp_all add: ac_simps)
  then have "bit (read_le 8 m (p + 8 * j) :: u64) k \<longleftrightarrow> mem_bit m p (64 * j + k)"
    using k by (simp add: bit_read_le mem_bit_def add.assoc)
  moreover have "push_bit n (1 :: u64) - 1 = mask n" for n
    by (simp add: mask_eq_exp_minus_1 push_bit_eq_mult)
  ultimately show "bit (if num - 64 * j < 64
       then (read_le 8 m (p + 8 * j) :: u64) AND (push_bit (num - 64 * j) 1 - 1)
       else read_le 8 m (p + 8 * j)) k \<longleftrightarrow> k < num - 64 * j \<and> mem_bit m p (64 * j + k)"
    using k by (auto simp add: bit_and_iff bit_mask_iff)
qed

lemma positions_step:
  "filter (mem_bit m p) [0..<min num (64 * Suc j)] =
     filter (mem_bit m p) [0..<min num (64 * j)] @
     map (\<lambda>k. k + 64 * j) (filter (\<lambda>k. k < num - 64 * j \<and> mem_bit m p (64 * j + k)) [0..<64])"
proof -
  have "[0..<min num (64 * Suc j)] = [0..<min num (64 * j)] @ filter (\<lambda>k. k < num) [64 * j..<64 * j + 64]"
  proof (cases "num \<le> 64 * j")
    case True
    then show ?thesis by (auto simp add: min_def filter_empty_conv)
  next
    case False
    have "filter (\<lambda>k. k < num) [64 * j..<64 * j + 64] = [64 * j..<min num (64 * j + 64)]"
    proof -
      have "[64 * j..<64 * j + 64] = [64 * j..<min num (64 * j + 64)] @ [min num (64 * j + 64)..<64 * j + 64]"
        using False upt_add_eq_append [of "64 * j" "min num (64 * j + 64)" "64 * j + 64 - min num (64 * j + 64)"]
        by auto
      then show ?thesis by (auto simp add: filter_empty_conv filter_id_conv)
    qed
    then show ?thesis
      using False upt_add_eq_append [of 0 "64 * j" "min num (64 * j + 64) - 64 * j"]
      by (simp add: min_def add.commute split: if_splits)
  qed
  moreover have "[64 * j..<64 * j + 64] = map (\<lambda>k. k + 64 * j) [0..<64]"
    by (simp add: map_add_upt add.commute)
  ultimately show ?thesis
    by (simp add: filter_map comp_def add.commute less_diff_conv)
qed

lemma exceptions_in_words_at:
  "exceptions_in_words m num p [0..<j] s = read_at_all m (filter (mem_bit m p) [0..<min num (64 * j)]) s"
proof (induction j)
  case 0
  then show ?case by simp
next
  case (Suc j)
  have "exceptions_in_words m num p [0..<Suc j] s =
      exceptions_in_words m num p [j] (exceptions_in_words m num p [0..<j] s)"
    by (simp add: exceptions_in_words_append)
  also have "\<dots> = read_at_all m (filter (mem_bit m p) [0..<min num (64 * Suc j)]) s"
    unfolding positions_step read_at_all_append Suc.IH
    by (simp only: exceptions_in_words.simps Let_def exceptions_in_word_at bitmap_word)
  finally show ?case .
qed

section \<open>Reading the exceptions back\<close>

fun place :: "nat list \<Rightarrow> u32 list \<Rightarrow> u32 list \<Rightarrow> u32 list" where
  "place (k # ks) (e # es) out = place ks es (out[k := e])"
| "place _ _ out = out"

lemma read_at_all_place:
  assumes "holds_stream m base w es" and "w \<le> 25" and "i + length ks = length es"
  shows "read_at_all m ks (reader_at base w i, out, n) =
    (reader_at base w (length es), place ks (drop i es) out, n + length ks)"
  using assms(3)
proof (induction ks arbitrary: i out n)
  case Nil
  then show ?case by simp
next
  case (Cons k ks)
  then have i: "i < length es" by simp
  have "drop i es = es ! i # drop (Suc i) es" using i by (simp add: Cons_nth_drop_Suc)
  with Cons i show ?case
    by (simp add: br_read_at [OF assms(1) i assms(2)])
qed

lemma place_app_other:
  "length ks = length es \<Longrightarrow> \<forall>k \<in> set ks. k < length out \<Longrightarrow> place ks es (out @ rest) = place ks es out @ rest"
  by (induction ks es out arbitrary: rest rule: place.induct) (auto simp add: list_update_append)

lemma length_place [simp]: "length (place ks es out) = length out"
  by (induction ks es out rule: place.induct) simp_all

lemma place_concat:
  "length ks = length es \<Longrightarrow> place (ks @ js) (es @ fs) out = place js fs (place ks es out)"
  by (induction ks es out rule: place.induct) auto

definition flagged :: "u32 list \<Rightarrow> nat list" where
  "flagged hs = filter (\<lambda>i. hs ! i \<noteq> 0) [0..<length hs]"

lemma flagged_snoc:
  "flagged (hs @ [h]) = flagged hs @ (if h \<noteq> 0 then [length hs] else [])"
  by (auto simp add: flagged_def nth_append intro!: filter_cong)

lemma length_flagged: "length (flagged hs) = length (filter (\<lambda>e. e \<noteq> 0) hs)"
  by (induction hs rule: rev_induct) (simp_all add: flagged_snoc, simp add: flagged_def)

lemma place_flagged:
  "place (flagged hs) (filter (\<lambda>e. e \<noteq> 0) hs) (replicate (length hs) 0) = hs"
proof (induction hs rule: rev_induct)
  case Nil
  then show ?case by (simp add: flagged_def)
next
  case (snoc h hs)
  have f: "\<forall>k \<in> set (flagged hs). k < length hs" by (simp add: flagged_def)
  have r: "replicate (length (hs @ [h])) (0 :: u32) = replicate (length hs) 0 @ [0]"
    by (simp add: replicate_append_same)
  have "place (flagged hs) (filter (\<lambda>e. e \<noteq> 0) hs) (replicate (length (hs @ [h])) 0) = hs @ [0]"
    unfolding r using f snoc.IH by (subst place_app_other) (simp_all add: length_flagged)
  then show ?case
    by (simp add: flagged_snoc place_concat length_flagged list_update_append)
qed

lemma filter_pos_flagged:
  assumes "\<And>k. k < length hs \<Longrightarrow> mem_bit m p k \<longleftrightarrow> hs ! k \<noteq> 0"
  shows "filter (mem_bit m p) [0..<length hs] = flagged hs"
  unfolding flagged_def by (rule filter_cong) (auto simp add: assms)

text \<open>
  The exception part of a bitmap block holds \<open>hs\<close>: its width, the flags, and the nonzero
  members of \<open>hs\<close> as one bit stream.
\<close>

lemma bitmap_exceptions_read:
  assumes w: "m p = of_nat w" "w \<le> 24"
    and flags: "holds_stream m (p + 1) 1 (map (\<lambda>h. if h \<noteq> 0 then 1 else 0) hs)"
    and exc: "holds_stream m (p + 1 + bytes_for_packed_bits (length hs) 1) w (filter (\<lambda>e. e \<noteq> 0) hs)"
  shows "decode_pfor_bitmap_exceptions m p (length hs) (replicate (length hs) 0) =
    (p + 1 + bytes_for_packed_bits (length hs) 1 +
       bytes_for_packed_bits (length (filter (\<lambda>e. e \<noteq> 0) hs)) w, hs)"
proof -
  let ?es = "filter (\<lambda>e. e \<noteq> 0) hs"
  let ?q = "p + 1 + bytes_for_packed_bits (length hs) 1"
  have q: "p + 1 + div_round_up (length hs) 8 = ?q" by (simp add: bytes_for_packed_bits_def)
  have uw: "unat (m p) = w" using w by (simp add: unat_of_nat_small)
  have "mem_bit m (p + 1) k \<longleftrightarrow> hs ! k \<noteq> 0" if "k < length hs" for k
    using holds_stream_value [OF flags, of k 0] that by simp
  then have pos: "filter (mem_bit m (p + 1)) [0..<length hs] = flagged hs"
    by (rule filter_pos_flagged)
  have "min (length hs) (64 * div_round_up (length hs) 64) = length hs"
    by (simp add: div_round_up_def)
  then have "exceptions_in_words m (length hs) (p + 1) [0..<div_round_up (length hs) 64]
      (BitReader ?q w, replicate (length hs) 0, 0) =
    read_at_all m (flagged hs) (reader_at ?q w 0, replicate (length hs) 0, 0)"
    by (simp only: exceptions_in_words_at pos BitReader_at)
  also have "\<dots> = (reader_at ?q w (length ?es), hs, length ?es)"
    using read_at_all_place [OF exc, of 0 "flagged hs" "replicate (length hs) 0" 0] w(2)
      place_flagged [of hs]
    by (simp add: length_flagged)
  finally show ?thesis
    unfolding decode_pfor_bitmap_exceptions_def Let_def uw q by simp
qed

end
