(* ===== verification/Varbyte_Exceptions.thy ===== *)
theory Varbyte_Exceptions
  imports Bitmap_Exceptions
begin

text \<open>
  The exceptions of a PFOR block with varbytes, and both kinds of PFOR blocks as a whole: what
  \<open>encode_pfor_vb\<close> and \<open>encode_pfor_bitmap\<close> write, the parts of the decoders read back.
\<close>

abbreviation nonzero :: "u32 list \<Rightarrow> u32 list" where
  "nonzero hs \<equiv> filter (\<lambda>e. e \<noteq> 0) hs"

lemma frame_before:
  assumes "\<And>i. i < a \<or> b \<le> i \<Longrightarrow> m' i = m i" and "d \<le> a"
  shows "same_bytes m m' c d"
  using assms by (simp add: same_bytes_def)

lemma same_bytes_at: "same_bytes m m' a b \<Longrightarrow> a \<le> i \<Longrightarrow> i < b \<Longrightarrow> m' i = m i"
  by (simp add: same_bytes_def)

section \<open>The varbytes\<close>

lemma write_vbs_read:
  obtains m' out' where "write_vbs hs out m = (m', out')" and "out + length (nonzero hs) \<le> out'"
    and "\<And>i. i < out \<or> out' + 1 \<le> i \<Longrightarrow> m' i = m i"
    and "nonzero hs \<noteq> [] \<Longrightarrow> m' out \<le> 250"
    and "\<And>m''. same_bytes m' m'' out out' \<Longrightarrow>
      read_vbs m'' (length (nonzero hs)) out = Some (nonzero hs, out')"
proof (induction hs arbitrary: out m thesis)
  case Nil
  show ?case by (rule Nil [of m out]) simp_all
next
  case (Cons h hs)
  show ?case
  proof (cases "h = 0")
    case True
    obtain m' out' where "write_vbs hs out m = (m', out')" "out + length (nonzero hs) \<le> out'"
      "\<And>i. i < out \<or> out' + 1 \<le> i \<Longrightarrow> m' i = m i" "nonzero hs \<noteq> [] \<Longrightarrow> m' out \<le> 250"
      "\<And>m''. same_bytes m' m'' out out' \<Longrightarrow>
        read_vbs m'' (length (nonzero hs)) out = Some (nonzero hs, out')"
      by (rule Cons.IH [of out m]) blast
    with True show ?thesis by (intro Cons.prems [of m' out']) simp_all
  next
    case False
    obtain m1 out1 where 1: "write_vb h out m = (m1, out1)" "out < out1"
      "\<And>i. i < out \<or> out1 + 1 \<le> i \<Longrightarrow> m1 i = m i" "m1 out \<le> 250"
      "\<And>m''. same_bytes m1 m'' out out1 \<Longrightarrow> read_vb m'' out = Some (h, out1)"
      by (rule vb_roundtrip [of h out m]) blast
    obtain m' out' where 2: "write_vbs hs out1 m1 = (m', out')" "out1 + length (nonzero hs) \<le> out'"
      "\<And>i. i < out1 \<or> out' + 1 \<le> i \<Longrightarrow> m' i = m1 i"
      "\<And>m''. same_bytes m' m'' out1 out' \<Longrightarrow>
        read_vbs m'' (length (nonzero hs)) out1 = Some (nonzero hs, out')"
      by (rule Cons.IH [of out1 m1]) blast
    have "read_vbs m'' (length (nonzero (h # hs))) out = Some (nonzero (h # hs), out')"
      if s: "same_bytes m' m'' out out'" for m''
    proof -
      have "same_bytes m1 m'' out out1"
        using frame_before [of out1 "out' + 1" m' m1 out1 out, OF 2(3) order_refl]
          same_bytes_sub [OF s, of out out1] 2(2)
        by (auto intro: same_bytes_trans)
      from 1(5) [OF this] 2(4) [OF same_bytes_sub [OF s]] 1(2) False show ?thesis by simp
    qed
    moreover have "m' i = m i" if "i < out \<or> out' + 1 \<le> i" for i
      using that 1(2,3) 2(2,3) by auto
    ultimately show ?thesis
      using 1 2 False by (intro Cons.prems [of m' out']) simp_all
  qed
qed

lemma read_vb_exceptions_written:
  assumes "write_vbs hs out m = (m', out')" and "nonzero hs \<noteq> []" and "same_bytes m' m'' out out'"
  shows "read_vb_exceptions m'' (length (nonzero hs)) out = Some (nonzero hs, out')"
proof -
  obtain n o' where 1: "write_vbs hs out m = (n, o')" "out + length (nonzero hs) \<le> o'"
    "nonzero hs \<noteq> [] \<Longrightarrow> n out \<le> 250"
    "\<And>m''. same_bytes n m'' out o' \<Longrightarrow> read_vbs m'' (length (nonzero hs)) out = Some (nonzero hs, o')"
    by (rule write_vbs_read [of hs out m]) blast
  with assms have "m'' out \<le> 250"
    using same_bytes_at [OF assms(3), of out] by (cases "nonzero hs") auto
  then have "m'' out \<noteq> 255" by auto
  with 1(1,4) assms(1,3) show ?thesis by (simp add: read_vb_exceptions_def)
qed

section \<open>The indexes\<close>

fun idxs :: "nat \<Rightarrow> u32 list \<Rightarrow> nat list" where
  "idxs i [] = []"
| "idxs i (v # vs) = (if v \<noteq> 0 then i # idxs (Suc i) vs else idxs (Suc i) vs)"

lemma length_idxs [simp]: "length (idxs i hs) = length (nonzero hs)"
  by (induction hs arbitrary: i) simp_all

lemma write_indexes_written:
  "\<exists>m'. write_indexes i hs out m = (m', out + length (nonzero hs)) \<and>
     (\<forall>a. a < out \<or> out + length (nonzero hs) \<le> a \<longrightarrow> m' a = m a) \<and>
     (\<forall>t < length (nonzero hs). m' (out + t) = of_nat (idxs i hs ! t))"
proof (induction hs arbitrary: i out m)
  case Nil
  then show ?case by simp
next
  case (Cons h hs)
  show ?case
  proof (cases "h = 0")
    case True
    with Cons.IH [of "Suc i" out m] show ?thesis by simp
  next
    case False
    let ?m = "store m out [of_nat i]"
    obtain m' where IH: "write_indexes (Suc i) hs (out + 1) ?m = (m', out + 1 + length (nonzero hs))"
      "\<forall>a. a < out + 1 \<or> out + 1 + length (nonzero hs) \<le> a \<longrightarrow> m' a = ?m a"
      "\<forall>t < length (nonzero hs). m' (out + 1 + t) = of_nat (idxs (Suc i) hs ! t)"
      using Cons.IH [of "Suc i" "out + 1" ?m] by auto
    have "m' (out + t) = of_nat (idxs i (h # hs) ! t)" if "t < length (nonzero (h # hs))" for t
      using that IH(2,3) False by (cases t) (auto simp add: store_def)
    with IH False show ?thesis by auto
  qed
qed

lemma apply_exceptions_at:
  assumes "length base = length hs" and "length pre + length hs \<le> 256"
    and "\<And>t. t < length (nonzero hs) \<Longrightarrow> m (p + t) = of_nat (idxs (length pre) hs ! t)"
  shows "apply_exceptions m w (nonzero hs) p (pre @ base) =
    (pre @ map2 (\<lambda>b h. b OR push_bit w h) base hs, p + length (nonzero hs))"
  using assms
proof (induction hs arbitrary: pre base p)
  case Nil
  then show ?case by simp
next
  case (Cons h hs)
  then obtain b bs where base: "base = b # bs" "length bs = length hs" by (cases base) auto
  show ?case
  proof (cases "h = 0")
    case True
    have "apply_exceptions m w (nonzero hs) p ((pre @ [b]) @ bs) =
      ((pre @ [b]) @ map2 (\<lambda>b h. b OR push_bit w h) bs hs, p + length (nonzero hs))"
      by (rule Cons.IH) (use Cons.prems base True in simp_all)
    with True base show ?thesis by simp
  next
    case False
    have "m p = of_nat (length pre)" using Cons.prems(3) [of 0] False by simp
    then have idx: "unat (m p) = length pre"
      using Cons.prems(2) by (simp add: unat_of_nat_small)
    have "apply_exceptions m w (nonzero hs) (p + 1) ((pre @ [b OR push_bit w h]) @ bs) =
      ((pre @ [b OR push_bit w h]) @ map2 (\<lambda>b h. b OR push_bit w h) bs hs,
        (p + 1) + length (nonzero hs))"
    proof (rule Cons.IH)
      fix t assume "t < length (nonzero hs)"
      then show "m (p + 1 + t) = of_nat (idxs (length (pre @ [b OR push_bit w h])) hs ! t)"
        using Cons.prems(3) [of "Suc t"] False by simp
    qed (use Cons.prems base in simp_all)
    with False base idx show ?thesis by (simp add: Let_def nth_append)
  qed
qed

lemma low_high:
  "w \<le> 32 \<Longrightarrow>
    map2 (\<lambda>b h. b OR push_bit w h) (map (\<lambda>v. v AND mask_for_bits w) vs) (map (drop_bit w) vs) = vs"
  by (induction vs) (simp_all add: join_parts)

section \<open>Blocks with varbyte exceptions\<close>

lemma vb_block_roundtrip:
  fixes out :: nat
  assumes "width_ok interleaved w (length vs)" and "length vs \<le> 128"
    and "nonzero (map (drop_bit w) vs) \<noteq> []"
  defines "hs \<equiv> map (drop_bit w) vs"
    and "low \<equiv> map (\<lambda>v. v AND mask_for_bits w) vs"
    and "p \<equiv> out + 1 + bytes_for_packed_bits (length vs) w"
  obtains m' out' q where "encode_pfor_vb vs w interleaved out m = Some (m', out')"
    and "\<And>i. i < out \<or> out' + 16 \<le> i \<Longrightarrow> m' i = m i" and "out < out'"
    and "\<And>m''. same_bytes m' m'' out out' \<Longrightarrow> unat (m'' out) = length (nonzero hs) \<and>
      low_values m'' interleaved (length vs) w (out + 1) = low \<and>
      read_vb_exceptions m'' (length (nonzero hs)) p = Some (nonzero hs, q) \<and>
      apply_exceptions m'' w (nonzero hs) q low = (vs, out')"
proof -
  define n where "n = length (nonzero hs)"
  have w: "w \<le> 32" using assms(1) by (rule width_ok_le)
  have n: "n \<le> 128"
    using length_filter_le [of "\<lambda>e. e \<noteq> 0" hs] assms(2)
    unfolding n_def hs_def length_map by (rule order_trans)
  define m1 where "m1 = store m out [of_nat n]"
  obtain m2 where 2: "encode_bitmap vs w interleaved (out + 1) m1 = Some (m2, p)"
    "\<And>i. i < out + 1 \<or> p + 16 \<le> i \<Longrightarrow> m2 i = m1 i"
    "\<And>m''. same_bytes m2 m'' (out + 1) p \<Longrightarrow> low_values m'' interleaved (length vs) w (out + 1) = low"
    unfolding p_def low_def by (rule bitmap_roundtrip [OF assms(1), of "out + 1" m1]) blast
  obtain m3 q where 3: "write_vbs hs p m2 = (m3, q)" "p + n \<le> q"
    "\<And>i. i < p \<or> q + 1 \<le> i \<Longrightarrow> m3 i = m2 i"
    unfolding n_def by (rule write_vbs_read [of hs p m2]) blast
  obtain m4 where 4: "write_indexes 0 hs q m3 = (m4, q + n)"
    "\<And>i. i < q \<or> q + n \<le> i \<Longrightarrow> m4 i = m3 i"
    "\<And>t. t < n \<Longrightarrow> m4 (q + t) = of_nat (idxs 0 hs ! t)"
    unfolding n_def using write_indexes_written [of 0 hs q m3] by auto
  have p: "out + 1 \<le> p" by (simp add: p_def)
  have enc: "encode_pfor_vb vs w interleaved out m = Some (m4, q + n)"
    using 2(1) 3(1) 4(1)
    by (simp add: encode_pfor_vb_def Let_def m1_def n_def hs_def)
  have frame: "m4 i = m i" if "i < out \<or> q + n + 16 \<le> i" for i
  proof -
    have "m4 i = m3 i" by (rule 4(2)) (use that p 3(2) in auto)
    also have "m3 i = m2 i" by (rule 3(3)) (use that p 3(2) in auto)
    also have "m2 i = m1 i" by (rule 2(2)) (use that p 3(2) in auto)
    also have "m1 i = m i" using that p 3(2) by (auto simp add: m1_def)
    finally show ?thesis .
  qed
  have rd: "unat (m'' out) = n \<and> low_values m'' interleaved (length vs) w (out + 1) = low \<and>
      read_vb_exceptions m'' n p = Some (nonzero hs, q) \<and>
      apply_exceptions m'' w (nonzero hs) q low = (vs, q + n)"
    if s: "same_bytes m4 m'' out (q + n)" for m''
  proof (intro conjI)
    have "m'' out = m1 out"
      using same_bytes_at [OF s, of out] p 3(2) 2(2) [of out] 3(3) [of out] 4(2) [of out] by simp
    then show "unat (m'' out) = n"
      using n by (simp add: m1_def store_def unat_of_nat_small)
    have s24: "same_bytes m2 m4 (out + 1) p"
      using frame_before [of p "q + 1" m3 m2 p, OF 3(3)] frame_before [of q "q + n" m4 m3 p, OF 4(2)] 3(2)
      by (auto intro: same_bytes_trans)
    have "same_bytes m2 m'' (out + 1) p"
      using s24 same_bytes_sub [OF s, of "out + 1" p] 3(2) p by (auto intro: same_bytes_trans)
    then show "low_values m'' interleaved (length vs) w (out + 1) = low" by (rule 2(3))
    have "same_bytes m3 m'' p q"
      using frame_before [of q "q + n" m4 m3 q, OF 4(2)] same_bytes_sub [OF s, of p q] p
      by (auto intro: same_bytes_trans)
    then show "read_vb_exceptions m'' n p = Some (nonzero hs, q)"
      unfolding n_def using assms(3) by (intro read_vb_exceptions_written [OF 3(1)]) (simp_all add: hs_def)
    have "apply_exceptions m'' w (nonzero hs) q ([] @ low) =
      ([] @ map2 (\<lambda>b h. b OR push_bit w h) low hs, q + length (nonzero hs))"
    proof (rule apply_exceptions_at)
      fix t assume t: "t < length (nonzero hs)"
      then have "m'' (q + t) = m4 (q + t)"
        using same_bytes_at [OF s, of "q + t"] p 3(2) by (simp add: n_def)
      with 4(3) t show "m'' (q + t) = of_nat (idxs (length ([] :: u32 list)) hs ! t)" by (simp add: n_def)
    qed (use assms(2) in \<open>simp_all add: low_def hs_def\<close>)
    also have "map2 (\<lambda>b h. b OR push_bit w h) low hs = vs"
      unfolding low_def hs_def by (rule low_high [OF w])
    finally show "apply_exceptions m'' w (nonzero hs) q low = (vs, q + n)" by (simp add: n_def)
  qed
  show thesis
  proof (rule that [OF enc frame])
    show "out < q + n" using p 3(2) by simp
    fix m'' assume "same_bytes m4 m'' out (q + n)"
    from rd [OF this] show "unat (m'' out) = length (nonzero hs) \<and>
      low_values m'' interleaved (length vs) w (out + 1) = low \<and>
      read_vb_exceptions m'' (length (nonzero hs)) p = Some (nonzero hs, q) \<and>
      apply_exceptions m'' w (nonzero hs) q low = (vs, q + n)" by (simp only: n_def)
  qed
qed

section \<open>Blocks with bitmap exceptions\<close>

lemma packed_stream_written:
  assumes "w \<le> 24" and "fits w us"
  obtains bs m' where "bw_writes (BitWriter base w) us m = Some (bs, m')"
    and "holds_stream m' base w us"
    and "\<And>i. i < base \<or> base + bytes_for_packed_bits (length us) w + 4 \<le> i \<Longrightarrow> m' i = m i"
proof -
  obtain bs m' where 1: "bw_writes (BitWriter base w) us m = Some (bs, m')"
    and 2: "\<And>p. p < 8 * bytes_for_packed_bits (length us) w \<Longrightarrow> mem_bit m' base p = stream_bit us w p"
    and 3: "\<And>i. i < base \<or> base + bytes_for_packed_bits (length us) w + 4 \<le> i \<Longrightarrow> m' i = m i"
    by (rule bw_writes_stream [OF assms, of base m]) blast
  have "holds_stream m' base w us"
    unfolding holds_stream_def
  proof (intro conjI allI impI assms)
    fix p assume "p < length us * w"
    then have "p div 8 < bytes_for_packed_bits (length us) w" by (rule packed_bytes_cover)
    then show "mem_bit m' base p = stream_bit us w p"
      by (intro 2) (simp add: div_less_iff_less_mult mult.commute)
  qed
  from that [OF 1 this 3] show thesis .
qed

lemma fits_flags: "fits 1 (map (\<lambda>v. if P v then 1 else 0) vs)"
  by (auto simp add: fits_def bit_1_iff)

lemma bitmap_block_roundtrip:
  fixes out :: nat
  assumes "width_ok interleaved w (length vs)" and "ew \<le> 24"
    and "fits ew (nonzero (map (drop_bit w) vs))"
  defines "hs \<equiv> map (drop_bit w) vs"
    and "low \<equiv> map (\<lambda>v. v AND mask_for_bits w) vs"
    and "q \<equiv> out + 1 + bytes_for_packed_bits (length vs) 1 +
      bytes_for_packed_bits (length (nonzero (map (drop_bit w) vs))) ew"
  obtains m' out' where "encode_pfor_bitmap vs w ew interleaved out m = Some (m', out')"
    and "out' = q + bytes_for_packed_bits (length vs) w"
    and "\<And>i. i < out \<or> out' + 16 \<le> i \<Longrightarrow> m' i = m i"
    and "\<And>m''. same_bytes m' m'' out out' \<Longrightarrow>
      decode_pfor_bitmap_exceptions m'' out (length vs) (replicate (length vs) 0) = (q, hs) \<and>
      low_values m'' interleaved (length vs) w q = low"
proof -
  define p where "p = out + 1 + bytes_for_packed_bits (length vs) 1"
  define flags :: "u32 list" where "flags = map (\<lambda>v. if drop_bit w v \<noteq> 0 then 1 else 0) vs"
  define out' where "out' = q + bytes_for_packed_bits (length vs) w"
  have q: "q = p + bytes_for_packed_bits (length (nonzero hs)) ew" "p \<le> q" "q \<le> out'"
    by (simp_all add: q_def p_def hs_def out'_def)
  have flags': "flags = map (\<lambda>h. if h \<noteq> 0 then 1 else 0) hs" "length flags = length vs"
    by (simp_all add: flags_def hs_def)
  define m1 where "m1 = store m out [of_nat ew]"
  obtain bs m2 where 2: "bw_writes (BitWriter (out + 1) 1) flags m1 = Some (bs, m2)"
    "holds_stream m2 (out + 1) 1 flags"
    "\<And>i. i < out + 1 \<or> out + 1 + bytes_for_packed_bits (length flags) 1 + 4 \<le> i \<Longrightarrow> m2 i = m1 i"
    by (rule packed_stream_written [of 1 flags "out + 1" m1])
      (use fits_flags [of "\<lambda>v. drop_bit w v \<noteq> 0" vs] in \<open>simp_all add: flags_def\<close>)
  obtain bs' m3 where 3: "bw_writes (BitWriter p ew) (nonzero hs) m2 = Some (bs', m3)"
    "holds_stream m3 p ew (nonzero hs)"
    "\<And>i. i < p \<or> q + 4 \<le> i \<Longrightarrow> m3 i = m2 i"
    unfolding q(1) hs_def
    by (rule packed_stream_written [OF assms(2,3), of p m2]) blast
  obtain m4 where 4: "encode_bitmap vs w interleaved q m3 = Some (m4, out')"
    "\<And>i. i < q \<or> out' + 16 \<le> i \<Longrightarrow> m4 i = m3 i"
    "\<And>m''. same_bytes m4 m'' q out' \<Longrightarrow> low_values m'' interleaved (length vs) w q = low"
    unfolding out'_def low_def by (rule bitmap_roundtrip [OF assms(1), of q m3]) blast
  have enc: "encode_pfor_bitmap vs w ew interleaved out m = Some (m4, out')"
    using 2(1) 3(1) 4(1)
    by (simp add: encode_pfor_bitmap_def Let_def m1_def flags_def q_def p_def hs_def)
  have p: "out + 1 + bytes_for_packed_bits (length flags) 1 = p" by (simp add: p_def flags'(2))
  have frame: "m4 i = m i" if "i < out \<or> out' + 16 \<le> i" for i
  proof -
    have "m4 i = m3 i" by (rule 4(2)) (use that q p in auto)
    also have "m3 i = m2 i" by (rule 3(3)) (use that q p in auto)
    also have "m2 i = m1 i" by (rule 2(3)) (use that q p in auto)
    also have "m1 i = m i" using that q p by (auto simp add: m1_def)
    finally show ?thesis .
  qed
  have s34: "same_bytes m3 m4 c q" for c
    by (rule frame_before [of q "out' + 16" m4 m3 q c, OF 4(2) order_refl])
  have s23: "same_bytes m2 m3 c p" for c
    by (rule frame_before [of p "q + 4" m3 m2 p c, OF 3(3) order_refl])
  have s24: "same_bytes m2 m4 c p" for c
    using s23 s34 q(2) by (blast intro: same_bytes_trans same_bytes_sub)
  have rd: "decode_pfor_bitmap_exceptions m'' out (length hs) (replicate (length hs) 0) = (q, hs) \<and>
      low_values m'' interleaved (length vs) w q = low"
    if s: "same_bytes m4 m'' out out'" for m''
  proof
    have "same_bytes m2 m'' out p"
      using s24 same_bytes_sub [OF s, of out p] q by (auto intro: same_bytes_trans)
    then have first: "m'' out = of_nat ew"
      using same_bytes_at [of m2 m'' out p out] p 2(3) [of out] by (simp add: m1_def store_def)
    have "holds_stream m'' (out + 1) 1 flags"
      using \<open>same_bytes m2 m'' out p\<close> p
      by (intro holds_stream_same_bytes [OF 2(2)]) (auto intro: same_bytes_sub)
    moreover have "holds_stream m'' p ew (nonzero hs)"
      using s34 [of p] same_bytes_sub [OF s, of p q] p q
      by (intro holds_stream_same_bytes [OF 3(2)]) (auto intro: same_bytes_trans simp: p_def)
    ultimately show "decode_pfor_bitmap_exceptions m'' out (length hs) (replicate (length hs) 0) = (q, hs)"
      using bitmap_exceptions_read [of m'' out ew hs, OF first assms(2)]
      by (simp add: flags' p_def q_def hs_def)
    show "low_values m'' interleaved (length vs) w q = low"
      by (rule 4(3)) (use same_bytes_sub [OF s, of q out'] p q in auto)
  qed
  show thesis
    by (rule that [OF enc out'_def frame]) (use rd in \<open>simp_all add: hs_def\<close>)
qed

end
