(* ===== verification/Turbopfor_SSE2.thy ===== *)
theory Turbopfor_SSE2
  imports Bitmap_Exceptions
begin

text \<open>
  The two builds of the decoder agree: every SSE2 decoder of \<open>turbopfor.cpp\<close> computes what the
  generic decoder computes, on any memory, for every bit width the format allows (the SSE2 code
  is unrolled for widths up to 32 bits; a larger width in a header runs into \<open>assert(false)\<close>).
\<close>

section \<open>Reading four lanes at once\<close>

definition sse2_at :: "sse2_reader \<Rightarrow> four_readers \<Rightarrow> bool" where
  "sse2_at bs rs \<longleftrightarrow>
     rs = (\<lparr>ir_in = sr_in bs, ir_bits = sr_bits bs, ir_used = sr_used bs\<rparr>,
           \<lparr>ir_in = sr_in bs + 4, ir_bits = sr_bits bs, ir_used = sr_used bs\<rparr>,
           \<lparr>ir_in = sr_in bs + 8, ir_bits = sr_bits bs, ir_used = sr_used bs\<rparr>,
           \<lparr>ir_in = sr_in bs + 12, ir_bits = sr_bits bs, ir_used = sr_used bs\<rparr>)"

lemma sse2_at_init: "sse2_at (InterleavedBitReaderSSE2 p w) (four_readers p w)"
  by (simp add: sse2_at_def InterleavedBitReaderSSE2_def four_readers_def InterleavedBitReader_def)

lemma sr_read_lanes:
  assumes "sse2_at bs (r0, r1, r2, r3)"
  obtains a b c d r0' r1' r2' r3' bs' where
    "ir_read m r0 = (a, r0')" "ir_read m r1 = (b, r1')" "ir_read m r2 = (c, r2')"
    "ir_read m r3 = (d, r3')" and "sr_read m bs = (M128i a b c d, bs')"
    and "sse2_at bs' (r0', r1', r2', r3')"
proof -
  have "sr_read m bs = (M128i (fst (ir_read m r0)) (fst (ir_read m r1)) (fst (ir_read m r2))
      (fst (ir_read m r3)), snd (sr_read m bs))"
    using assms
    by (simp add: sse2_at_def sr_read_def ir_read_def Let_def mm_load_def mm_set1_def read_stride_def
        ac_simps)
  moreover have "sse2_at (snd (sr_read m bs)) (snd (ir_read m r0), snd (ir_read m r1),
      snd (ir_read m r2), snd (ir_read m r3))"
    using assms by (simp add: sse2_at_def sr_read_def ir_read_def Let_def read_stride_def)
  ultimately show thesis
    by (intro that [of "fst (ir_read m r0)" "snd (ir_read m r0)" "fst (ir_read m r1)" "snd (ir_read m r1)"
          "fst (ir_read m r2)" "snd (ir_read m r2)" "fst (ir_read m r3)" "snd (ir_read m r3)"
          "snd (sr_read m bs)"]) simp_all
qed

section \<open>Delta decoding four lanes at once\<close>

lemma sse2_delta_set1:
  "sse2_delta (mm_set1 prev) (M128i a b c d) =
     (M128i (a + prev + 1) (b + (a + prev + 1) + 1) (c + (b + (a + prev + 1) + 1) + 1)
        (d + (c + (b + (a + prev + 1) + 1) + 1) + 1),
      mm_set1 (d + (c + (b + (a + prev + 1) + 1) + 1) + 1))"
  by (simp add: sse2_delta_def mm_set1_def Let_def algebra_simps)

lemma delta_decode_sse2_eq:
  assumes "4 dvd length vs"
  shows "delta_decode_sse2 (mm_set1 prev) vs = delta_decode prev vs"
  using assms
proof (induction "0 :: nat" vs arbitrary: prev rule: lane_of.induct)
  case (1 v0 v1 v2 v3 vs)
  have "length (v0 # v1 # v2 # v3 # vs) = length vs + 4" by simp
  with "1.prems" have "4 dvd length vs" by (metis dvd_add_left_iff dvd_refl)
  from "1.hyps" [OF this] show ?case by (simp add: sse2_delta_set1 Let_def)
qed (auto simp add: dvd_def not_multiple_of_4)

lemma decode_bitmap_sse2_loop_eq:
  assumes "sse2_at bs rs" and "length out = 4 * n"
  shows "decode_bitmap_sse2_loop m or_existing delta w bs (mm_set1 prev) out =
    (if delta then delta_decode prev else id)
      (map2 (\<lambda>v e. if or_existing then v OR push_bit w e else v) (ir_reads m n rs) out)"
  using assms
proof (induction "0 :: nat" out arbitrary: bs rs prev n rule: lane_of.induct)
  case (1 e0 e1 e2 e3 out)
  then obtain n' where n': "n = Suc n'" "length out = 4 * n'" by (cases n) auto
  obtain r0 r1 r2 r3 where rs: "rs = (r0, r1, r2, r3)" by (cases rs)
  obtain a b c d r0' r1' r2' r3' bs' where r:
    "ir_read m r0 = (a, r0')" "ir_read m r1 = (b, r1')" "ir_read m r2 = (c, r2')"
    "ir_read m r3 = (d, r3')" "sr_read m bs = (M128i a b c d, bs')"
    "sse2_at bs' (r0', r1', r2', r3')"
    by (rule sr_read_lanes [OF "1.prems"(1) [unfolded rs], of m]) blast
  note IH = "1.hyps" [OF r(6) n'(2)]
  show ?case
    using IH r by (auto simp add: rs n'(1) Let_def sse2_delta_set1)
qed (auto simp add: not_multiple_of_4)

lemma decode_bitmap_sse2_eq:
  assumes "w \<le> 32" and "length out = 128"
  shows "decode_bitmap_sse2 m or_existing delta p w prev out =
    Some (p + bytes_for_packed_bits 128 w,
      (if delta then delta_decode prev else id)
        (map2 (\<lambda>v e. if or_existing then v OR push_bit w e else v)
          (ir_reads m (128 div 4) (four_readers p w)) out))"
  using assms decode_bitmap_sse2_loop_eq [OF sse2_at_init, of out "128 div 4"]
  by (simp add: decode_bitmap_sse2_def)

lemma map2_fst: "length xs = length ys \<Longrightarrow> map2 (\<lambda>x y. x) xs ys = xs"
  by (induction xs ys rule: list_induct2) simp_all

section \<open>The decoders\<close>

lemma length_read_at_all: "read_at_all m ks (bs, out, n) = (bs', out', n') \<Longrightarrow> length out' = length out"
  by (induction ks arbitrary: bs out n) (auto simp add: Let_def split: prod.splits)

lemma length_bitmap_exceptions:
  "length (snd (decode_pfor_bitmap_exceptions m p num out)) = length out"
proof -
  obtain bs out' n' where "read_at_all m (filter (mem_bit m (p + 1))
      [0..<min num (64 * div_round_up num 64)])
      (BitReader (p + 1 + div_round_up num 8) (unat (m p)), out, 0) = (bs, out', n')"
    by (cases "read_at_all m (filter (mem_bit m (p + 1)) [0..<min num (64 * div_round_up num 64)])
      (BitReader (p + 1 + div_round_up num 8) (unat (m p)), out, 0)")
  then show ?thesis
    by (simp add: decode_pfor_bitmap_exceptions_def Let_def exceptions_in_words_at length_read_at_all)
qed

lemma length_apply_exceptions [simp]: "length (fst (apply_exceptions m w es p out)) = length out"
  by (induction m w es p out rule: apply_exceptions.induct) (simp_all add: Let_def)

lemma for_sse2_eq:
  "unat (m p AND 0x3f) \<le> 32 \<Longrightarrow>
    decode_for_interleaved_sse2 m p prev = Some (decode_for_interleaved_generic m p prev)"
  by (simp add: decode_for_interleaved_sse2_def decode_for_interleaved_generic_def Let_def
      decode_bitmap_sse2_eq map2_fst)

lemma pfor_bitmap_sse2_eq:
  "unat (m p AND 0x3f) \<le> 32 \<Longrightarrow>
    decode_pfor_bitmap_interleaved_sse2 m p prev =
    Some (decode_pfor_bitmap_interleaved_generic m p prev)"
  using length_bitmap_exceptions [of m "p + 1" 128 "replicate 128 0"]
  by (cases "decode_pfor_bitmap_exceptions m (p + 1) 128 (replicate 128 0)")
    (simp add: decode_pfor_bitmap_interleaved_sse2_def decode_pfor_bitmap_interleaved_generic_def
      Let_def decode_bitmap_sse2_eq)

lemma pfor_vb_sse2_eq:
  assumes "unat (m p AND 0x3f) \<le> 32"
  shows "decode_pfor_vb_interleaved_sse2 m p prev = decode_pfor_vb_interleaved_generic m p prev"
proof -
  let ?w = "unat (m p AND 0x3f)"
  have "delta_decode_sse2 (mm_set1 prev) (fst (apply_exceptions m ?w es q out)) =
      delta_decode prev (fst (apply_exceptions m ?w es q out))" if "length out = 128" for es q out
    by (rule delta_decode_sse2_eq) (simp add: that)
  then show ?thesis
    using assms
    by (auto simp add: decode_pfor_vb_interleaved_sse2_def decode_pfor_vb_interleaved_generic_def
        Let_def decode_bitmap_sse2_eq map2_fst split_beta split: option.split)
qed

lemma decode_block_sse2_eq:
  assumes "unat (m p AND 0x3f) \<le> 32"
  shows "decode_block sse2 m p num interleaved prev = decode_block False m p num interleaved prev"
  using for_sse2_eq [of m p prev] pfor_bitmap_sse2_eq [of m p prev] pfor_vb_sse2_eq [of m p prev]
    assms
  by (simp add: decode_block_def Let_def)

end
