(* ===== verification/Block_Correct.thy ===== *)
theory Block_Correct
  imports Varbyte_Exceptions Turbopfor_SSE2
begin

text \<open>
  The choice of the block type and the round trip of a whole block: whatever type the encoder
  chooses, both decoders return the delta-decoded values and the end of the block.
\<close>

section \<open>The choice of the block type\<close>

lemma fold_max_init: "(b :: nat) \<le> fold (\<lambda>v b. max b (f v)) vs b"
proof (induction vs arbitrary: b)
  case (Cons v vs)
  from Cons [of "max b (f v)"] show ?case by simp
qed simp

lemma fold_max_ge: "v \<in> set vs \<Longrightarrow> f v \<le> fold (\<lambda>v b. max b (f v)) vs (b :: nat)"
proof (induction vs arbitrary: b)
  case (Cons u vs)
  show ?case
  proof (cases "v = u")
    case True
    with fold_max_init [of "max b (f v)" f vs] show ?thesis by simp
  next
    case False
    with Cons show ?thesis by simp
  qed
qed simp

lemma fold_max_attained:
  "fold (\<lambda>v b. max b (f v)) vs (b :: nat) = b \<or> (\<exists>v \<in> set vs. fold (\<lambda>v b. max b (f v)) vs b = f v)"
proof (induction vs arbitrary: b)
  case (Cons v vs)
  from Cons [of "max b (f v)"] show ?case by (auto simp add: max_def split: if_splits)
qed simp

lemma num_bits_max: "v \<in> set vs \<Longrightarrow> num_bits v \<le> max_bits_of vs"
  by (simp add: max_bits_of_def fold_max_ge)

lemma max_bits_attained: "w < max_bits_of vs \<Longrightarrow> \<exists>v \<in> set vs. num_bits v = max_bits_of vs"
  using fold_max_attained [of num_bits vs 0] by (auto simp add: max_bits_of_def)

lemma max_bits_le: "(\<And>v. v \<in> set vs \<Longrightarrow> num_bits v \<le> n) \<Longrightarrow> max_bits_of vs \<le> n"
  using fold_max_attained [of num_bits vs 0] by (auto simp add: max_bits_of_def)

lemma exceptions_exist:
  assumes "w < max_bits_of vs"
  shows "nonzero (map (drop_bit w) vs) \<noteq> []"
proof -
  obtain v where "v \<in> set vs" "w < num_bits v" using max_bits_attained [OF assms] assms by auto
  then have "drop_bit w v \<noteq> 0" by (simp add: drop_bit_eq_0_iff)
  with \<open>v \<in> set vs\<close> show ?thesis by (auto simp add: filter_empty_conv)
qed

lemma exceptions_fit: "fits (max_bits_of vs - w) (nonzero (map (drop_bit w) vs))"
proof -
  have "k < max_bits_of vs - w" if "v \<in> set vs" "bit (drop_bit w v) k" for v k
  proof -
    have "bit v (w + k)" using that(2) by (simp add: bit_drop_bit_eq)
    then have "w + k < max_bits_of vs" by (rule num_bits_less_pow [OF num_bits_max [OF that(1)]])
    then show ?thesis by simp
  qed
  then show ?thesis by (auto simp add: fits_def)
qed

lemma try_bitmap_width: "snd (try_bitmap num max_bits histogram) \<le> max_bits"
proof -
  let ?f = "\<lambda>exception_bit_width (num_exceptions, best_cost :: nat, best_bit_width).
    let test_bit_width = max_bits - exception_bit_width;
        num_exceptions = num_exceptions + histogram ! (test_bit_width + 1);
        cost = 1 + bytes_for_packed_bits num 1 + bytes_for_packed_bits num test_bit_width +
          bytes_for_packed_bits num_exceptions exception_bit_width
    in if cost < best_cost then (num_exceptions, cost, test_bit_width)
       else (num_exceptions, best_cost, best_bit_width)"
  have "snd (snd (fold ?f ws s)) \<le> max_bits" if "snd (snd s) \<le> max_bits" for ws s
    using that by (induction ws arbitrary: s) (auto simp add: Let_def split: prod.split)
  from this [of "(0, bytes_for_packed_bits num max_bits, max_bits)" "[1..<max_bits + 1]"]
  show ?thesis by (auto simp add: try_bitmap_def Let_def split_beta)
qed

lemma try_varbyte_width:
  "try_varbyte num max_bits histogram ws (c, b, is_vb) = (c', b', is_vb') \<Longrightarrow>
     (if is_vb' then is_vb \<and> b' = b \<or> b' \<in> set ws else b' = b \<and> \<not> is_vb)"
  by (induction ws arbitrary: c b is_vb) (force split: if_splits)+

lemma cumulative_Suc:
  "cumulative (Suc M) h = cumulative M (h[M := h ! M + h ! Suc M])"
  by (simp add: cumulative_def)

lemma length_cumulative [simp]: "length (cumulative M h) = length h"
  by (induction M arbitrary: h) (simp_all add: cumulative_Suc, simp add: cumulative_def)

text \<open>After the loop, \<open>histogram[i]\<close> counts the values of at least \<open>i\<close> bits.\<close>

lemma cumulative_nth:
  assumes "M < length h"
  shows "cumulative M h ! i = (if i \<le> M then \<Sum>k = i..M. h ! k else h ! i)"
  using assms
proof (induction M arbitrary: h)
  case 0
  then show ?case by (simp add: cumulative_def)
next
  case (Suc M)
  let ?h = "h[M := h ! M + h ! Suc M]"
  have "(\<Sum>k = i..M. ?h ! k) = (\<Sum>k = i..Suc M. h ! k)" if "i \<le> M"
  proof -
    have "(\<Sum>k = i..M. ?h ! k) = (\<Sum>k \<in> {i..<M}. ?h ! k) + ?h ! M"
      using that by (simp add: sum.last_plus add.commute atLeastLessThanSuc_atLeastAtMost [symmetric])
    also have "(\<Sum>k \<in> {i..<M}. ?h ! k) = (\<Sum>k \<in> {i..<M}. h ! k)" by simp
    also have "\<dots> + ?h ! M = (\<Sum>k = i..Suc M. h ! k)"
      using that Suc.prems by (simp add: atLeastLessThanSuc_atLeastAtMost [symmetric])
    finally show ?thesis .
  qed
  with Suc show ?case by (auto simp add: cumulative_Suc le_Suc_eq)
qed

lemma decide_cases [consumes 1, case_names all_same plain varbyte bitmap]:
  assumes "vs \<noteq> []"
  obtains (all_same) "decide_block_type vs = (CONSTANT, num_bits (hd vs), 0)"
      "vs = replicate (length vs) (hd vs)"
    | (plain) "decide_block_type vs = (FOR, max_bits_of vs, 0)"
    | (varbyte) w where "decide_block_type vs = (PFOR_VB, w, 0)" "w < max_bits_of vs"
    | (bitmap) w where "decide_block_type vs = (PFOR_BITMAP, w, max_bits_of vs - w)"
      "w \<le> max_bits_of vs"
proof (cases "list_all (\<lambda>v. v = hd vs) vs")
  case True
  then have "vs = replicate (length vs) (hd vs)"
    by (intro replicate_eqI [THEN sym, THEN sym]) (auto simp add: list_all_iff)
  with True show thesis by (intro all_same) (simp_all add: decide_block_type_def)
next
  case False
  let ?M = "max_bits_of vs"
  obtain c b where 1: "try_bitmap (length vs) ?M (histogram_of vs) = (c, b)" by force
  then have b: "b \<le> ?M" using try_bitmap_width [of "length vs" ?M "histogram_of vs"] by simp
  obtain c' b' f where 2: "try_varbyte (length vs) ?M (cumulative ?M (histogram_of vs)) [0..<?M]
      (c, b, False) = (c', b', f)" by (metis prod_cases3)
  have d: "decide_block_type vs = (if f then (PFOR_VB, b', 0) else if b' = ?M then (FOR, ?M, 0)
      else (PFOR_BITMAP, b', ?M - b'))"
    using False by (simp add: decide_block_type_def Let_def 1 2)
  from try_varbyte_width [OF 2] b show thesis
    using d plain varbyte [of b'] bitmap [of b'] by (auto split: if_splits)
qed

lemma header_byte:
  assumes "w \<le> 32"
  shows "drop_bit 6 (push_bit 6 (block_type_code t) OR of_nat w) = block_type_code t"
    and "unat ((push_bit 6 (block_type_code t) OR of_nat w) AND 0x3f) = w"
proof -
  have "w \<in> {0..32}" using assms by simp
  then have w: "w \<in> set [0..<33]" by auto
  show "drop_bit 6 (push_bit 6 (block_type_code t) OR of_nat w) = block_type_code t"
    "unat ((push_bit 6 (block_type_code t) OR of_nat w) AND 0x3f) = w"
    using w by (cases t; auto simp add: upt_rec)+
qed

section \<open>The decoders by block type\<close>

lemma decode_block_for:
  assumes "drop_bit 6 (m p) = block_type_code FOR" and "interleaved \<Longrightarrow> num = 128"
    and "w = unat (m p AND 0x3f)"
  shows "decode_block False m p num interleaved prev = Some (p + 1 + bytes_for_packed_bits num w,
    delta_decode prev (low_values m interleaved num w (p + 1)))"
  using assms
  by (auto simp add: decode_block_def decode_for_def decode_for_interleaved_generic_def Let_def
      low_values_def decode_for_loop_reads)

lemma decode_block_bitmap:
  assumes "drop_bit 6 (m p) = block_type_code PFOR_BITMAP" and "interleaved \<Longrightarrow> num = 128"
    and "w = unat (m p AND 0x3f)"
    and "decode_pfor_bitmap_exceptions m (p + 1) num (replicate num 0) = (q, hs)"
  shows "decode_block False m p num interleaved prev = Some (q + bytes_for_packed_bits num w,
    delta_decode prev (map2 (\<lambda>v e. v OR push_bit w e) (low_values m interleaved num w q) hs))"
proof -
  have "length hs = num"
    using length_bitmap_exceptions [of m "p + 1" num "replicate num 0"] assms(4) by simp
  with assms show ?thesis
    by (auto simp add: decode_block_def decode_pfor_bitmap_def
        decode_pfor_bitmap_interleaved_generic_def Let_def low_values_def pfor_bitmap_loop_reads)
qed

lemma decode_block_vb:
  assumes "drop_bit 6 (m p) = block_type_code PFOR_VB" and "interleaved \<Longrightarrow> num = 128"
    and "w = unat (m p AND 0x3f)" and "unat (m (p + 1)) = n"
    and "read_vb_exceptions m n (p + 2 + bytes_for_packed_bits num w) = Some (es, q)"
    and "apply_exceptions m w es q (low_values m interleaved num w (p + 2)) = (out, q')"
  shows "decode_block False m p num interleaved prev = Some (q', delta_decode prev out)"
  using assms
  by (auto simp add: decode_block_def decode_pfor_vb_def decode_pfor_vb_interleaved_generic_def
      Let_def low_values_def)

lemma constant_value:
  assumes "same_bytes (write_le 4 v out m) m'' out (out + div_round_up (num_bits v) 8)"
  shows "(let w = num_bits v; val = read_le 4 m'' out in
    if w < 32 then val AND mask_for_bits w else val) = v"
proof -
  have bits: "bit (read_le 4 m'' out :: u32) k = bit v k" if "k < num_bits v" for k
  proof -
    have "k div 8 < div_round_up (num_bits v) 8"
      using that by (simp add: div_round_up_def)
    then have "m'' (out + k div 8) = write_le 4 v out m (out + k div 8)"
      using assms by (simp add: same_bytes_def)
    moreover have "k < 32" using that num_bits_le [of v] by linarith
    moreover from this have "k div 8 < 4" by (simp add: div_less_iff_less_mult)
    ultimately show ?thesis by (simp add: bit_read_le bit_write_le)
  qed
  have above: "bit v k \<Longrightarrow> k < num_bits v" for k by (rule num_bits_less_pow [OF order_refl])
  show ?thesis
  proof (rule bit_word_eqI)
    fix k :: nat assume "k < LENGTH(32)"
    then show "bit (let w = num_bits v; val = read_le 4 m'' out in
      if w < 32 then val AND mask_for_bits w else val) k = bit v k"
      using bits [of k] above [of k] num_bits_le [of v]
      by (cases "num_bits v < 32") (auto simp add: Let_def bit_and_mask)
  qed
qed

section \<open>The round trip\<close>

text \<open>
  A block is written behind \<open>out\<close> (with at most 16 bytes of scratch after it, which the bit
  writers use), and on any memory that keeps its bytes both decoders return its values.
\<close>

definition block_ok :: "u32 list \<Rightarrow> bool \<Rightarrow> nat \<Rightarrow> mem \<Rightarrow> bool" where
  "block_ok vs interleaved out m \<longleftrightarrow>
     (\<exists>m' out'. encode_pfor_single_block vs interleaved out m = Some (m', out') \<and> out < out' \<and>
        (\<forall>i. i < out \<or> out' + 16 \<le> i \<longrightarrow> m' i = m i) \<and> unat (m' out AND 0x3f) \<le> 32 \<and>
        (\<forall>m'' sse2 prev. same_bytes m' m'' out out' \<longrightarrow>
          decode_block sse2 m'' out (length vs) interleaved prev = Some (out', delta_decode prev vs)))"

definition header :: "block_type \<Rightarrow> nat \<Rightarrow> byte" where
  "header t w = push_bit 6 (block_type_code t) OR of_nat w"

lemma header_parts:
  "w \<le> 32 \<Longrightarrow> drop_bit 6 (header t w) = block_type_code t"
  "w \<le> 32 \<Longrightarrow> unat (header t w AND 0x3f) = w"
  unfolding header_def by (fact header_byte)+

lemma block_okI:
  assumes enc: "encode_pfor_single_block vs interleaved out m = Some (m', out')" and "w \<le> 32"
    and frame: "\<And>i. i < out + 1 \<or> out' + 16 \<le> i \<Longrightarrow> m' i = store m out [header t w] i"
    and lt: "out < out'"
    and dec: "\<And>m'' prev. same_bytes m' m'' (out + 1) out' \<Longrightarrow> m'' out = header t w \<Longrightarrow>
      decode_block False m'' out (length vs) interleaved prev = Some (out', delta_decode prev vs)"
  shows "block_ok vs interleaved out m"
proof -
  have "m' i = m i" if "i < out \<or> out' + 16 \<le> i" for i
    using that lt frame [of i] by auto
  moreover have "decode_block sse2 m'' out (length vs) interleaved prev = Some (out', delta_decode prev vs)"
    if s: "same_bytes m' m'' out out'" for m'' sse2 prev
  proof -
    have h: "m'' out = header t w"
      using same_bytes_at [OF s, of out] lt frame [of out] by (simp add: store_def)
    have "unat (m'' out AND 0x3f) \<le> 32" using assms(2) by (simp add: h header_parts)
    moreover have "same_bytes m' m'' (out + 1) out'" by (rule same_bytes_sub [OF s]) simp_all
    ultimately show ?thesis
      using dec [of m'' prev] h by (subst decode_block_sse2_eq) simp_all
  qed
  moreover have "unat (m' out AND 0x3f) \<le> 32"
    using frame [of out] assms(2) by (simp add: store_def header_parts)
  ultimately show ?thesis using enc lt unfolding block_ok_def by blast
qed

lemma constant_block_ok:
  assumes "decide_block_type vs = (CONSTANT, num_bits (hd vs), 0)"
    and same: "vs = replicate (length vs) (hd vs)"
    and guard: "\<not> (vs = [] \<or> interleaved \<and> length vs \<noteq> 128)"
  shows "block_ok vs interleaved out m"
proof -
  let ?w = "num_bits (hd vs)"
  define m1 where "m1 = store m out [header CONSTANT ?w]"
  define m' where "m' = write_le 4 (hd vs) (out + 1) m1"
  define out' where "out' = out + 1 + div_round_up ?w 8"
  show ?thesis
  proof (rule block_okI)
    show "encode_pfor_single_block vs interleaved out m = Some (m', out')"
      using guard
      by (simp add: encode_pfor_single_block_def assms(1) Let_def m'_def m1_def header_def out'_def)
    show w: "?w \<le> 32" by (rule num_bits_le)
    show "out < out'" by (simp add: out'_def)
    show "m' i = store m out [header CONSTANT ?w] i" if "i < out + 1 \<or> out' + 16 \<le> i" for i
      unfolding m'_def m1_def by (rule write_le_outside) (use that in \<open>auto simp add: out'_def\<close>)
    fix m'' prev
    assume s: "same_bytes m' m'' (out + 1) out'" and h: "m'' out = header CONSTANT ?w"
    have "(let w = ?w; val = read_le 4 m'' (out + 1) in
        if w < 32 then val AND mask_for_bits w else val) = hd vs"
      by (rule constant_value [where m = m1]) (use s in \<open>simp add: m'_def out'_def\<close>)
    then show "decode_block False m'' out (length vs) interleaved prev = Some (out', delta_decode prev vs)"
      using header_parts [OF w, of CONSTANT]
      by (subst (2) same) (simp add: decode_block_def decode_constant_def h Let_def out'_def)
  qed
qed

lemma for_block_ok:
  assumes "decide_block_type vs = (FOR, w, 0)" and wok: "width_ok interleaved w (length vs)"
    and fit: "\<And>v. v \<in> set vs \<Longrightarrow> num_bits v \<le> w"
    and guard: "\<not> (vs = [] \<or> interleaved \<and> length vs \<noteq> 128)"
  shows "block_ok vs interleaved out m"
proof -
  have w: "w \<le> 32" by (rule width_ok_le [OF wok])
  define m1 where "m1 = store m out [header FOR w]"
  define out' where "out' = out + 1 + bytes_for_packed_bits (length vs) w"
  have vs: "map (\<lambda>v. v AND mask_for_bits w) vs = vs"
    using w fit by (intro map_idI low_only) auto
  obtain m' where 1: "encode_bitmap vs w interleaved (out + 1) m1 = Some (m', out')"
    "\<And>i. i < out + 1 \<or> out' + 16 \<le> i \<Longrightarrow> m' i = m1 i"
    "\<And>m''. same_bytes m' m'' (out + 1) out' \<Longrightarrow> low_values m'' interleaved (length vs) w (out + 1) = vs"
    using vs unfolding out'_def by (rule_tac bitmap_roundtrip [OF wok, of "out + 1" m1]) simp_all
  show ?thesis
  proof (rule block_okI)
    show "encode_pfor_single_block vs interleaved out m = Some (m', out')"
      using guard 1(1)
      by (simp add: encode_pfor_single_block_def assms(1) Let_def encode_for_def m1_def header_def)
    show "m' i = store m out [header FOR w] i" if "i < out + 1 \<or> out' + 16 \<le> i" for i
      using 1(2) that by (simp add: m1_def)
    fix m'' prev
    assume s: "same_bytes m' m'' (out + 1) out'" and h: "m'' out = header FOR w"
    have "decode_block False m'' out (length vs) interleaved prev =
      Some (out', delta_decode prev (low_values m'' interleaved (length vs) w (out + 1)))"
      unfolding out'_def by (rule decode_block_for) (use h w guard in \<open>auto simp add: header_parts\<close>)
    then show "decode_block False m'' out (length vs) interleaved prev = Some (out', delta_decode prev vs)"
      by (simp only: 1(3) [OF s])
  qed (use w in \<open>simp_all add: out'_def\<close>)
qed

lemma vb_block_ok:
  assumes "decide_block_type vs = (PFOR_VB, w, 0)" and wok: "width_ok interleaved w (length vs)"
    and exc: "nonzero (map (drop_bit w) vs) \<noteq> []" and "length vs \<le> 128"
    and guard: "\<not> (vs = [] \<or> interleaved \<and> length vs \<noteq> 128)"
  shows "block_ok vs interleaved out m"
proof -
  have w: "w \<le> 32" by (rule width_ok_le [OF wok])
  define m1 where "m1 = store m out [header PFOR_VB w]"
  let ?hs = "map (drop_bit w) vs" and ?low = "map (\<lambda>v. v AND mask_for_bits w) vs"
  obtain m' out' q where 1: "encode_pfor_vb vs w interleaved (out + 1) m1 = Some (m', out')"
    "\<And>i. i < out + 1 \<or> out' + 16 \<le> i \<Longrightarrow> m' i = m1 i" "out + 1 < out'"
    "\<And>m''. same_bytes m' m'' (out + 1) out' \<Longrightarrow> unat (m'' (out + 1)) = length (nonzero ?hs) \<and>
      low_values m'' interleaved (length vs) w (out + 1 + 1) = ?low \<and>
      read_vb_exceptions m'' (length (nonzero ?hs)) (out + 1 + 1 + bytes_for_packed_bits (length vs) w) =
        Some (nonzero ?hs, q) \<and>
      apply_exceptions m'' w (nonzero ?hs) q ?low = (vs, out')"
    by (rule vb_block_roundtrip [OF wok assms(4) exc, of "out + 1" m1]) blast
  show ?thesis
  proof (rule block_okI)
    show "encode_pfor_single_block vs interleaved out m = Some (m', out')"
      using guard 1(1)
      by (simp add: encode_pfor_single_block_def assms(1) Let_def m1_def header_def)
    show "m' i = store m out [header PFOR_VB w] i" if "i < out + 1 \<or> out' + 16 \<le> i" for i
      using 1(2) that by (simp add: m1_def)
    fix m'' prev
    assume s: "same_bytes m' m'' (out + 1) out'" and h: "m'' out = header PFOR_VB w"
    from 1(4) [OF s] have r: "unat (m'' (out + 1)) = length (nonzero ?hs)"
      "low_values m'' interleaved (length vs) w (out + 2) = ?low"
      "read_vb_exceptions m'' (length (nonzero ?hs)) (out + 2 + bytes_for_packed_bits (length vs) w) =
        Some (nonzero ?hs, q)"
      "apply_exceptions m'' w (nonzero ?hs) q ?low = (vs, out')" by simp_all
    show "decode_block False m'' out (length vs) interleaved prev = Some (out', delta_decode prev vs)"
    proof (rule decode_block_vb [OF _ _ _ r(1,3)])
      show "apply_exceptions m'' w (nonzero ?hs) q (low_values m'' interleaved (length vs) w (out + 2)) =
          (vs, out')"
        by (simp only: r(2,4))
    qed (use h w guard in \<open>auto simp add: header_parts\<close>)
  qed (use w 1(3) in simp_all)
qed

lemma bitmap_block_ok:
  assumes "decide_block_type vs = (PFOR_BITMAP, w, ew)" and wok: "width_ok interleaved w (length vs)"
    and "ew \<le> 24" and fit: "fits ew (nonzero (map (drop_bit w) vs))"
    and guard: "\<not> (vs = [] \<or> interleaved \<and> length vs \<noteq> 128)"
  shows "block_ok vs interleaved out m"
proof -
  have w: "w \<le> 32" by (rule width_ok_le [OF wok])
  define m1 where "m1 = store m out [header PFOR_BITMAP w]"
  let ?hs = "map (drop_bit w) vs" and ?low = "map (\<lambda>v. v AND mask_for_bits w) vs"
  define q where "q = out + 1 + 1 + bytes_for_packed_bits (length vs) 1 +
    bytes_for_packed_bits (length (nonzero ?hs)) ew"
  obtain m' out' where 1: "encode_pfor_bitmap vs w ew interleaved (out + 1) m1 = Some (m', out')"
    "out' = q + bytes_for_packed_bits (length vs) w"
    "\<And>i. i < out + 1 \<or> out' + 16 \<le> i \<Longrightarrow> m' i = m1 i"
    "\<And>m''. same_bytes m' m'' (out + 1) out' \<Longrightarrow>
      decode_pfor_bitmap_exceptions m'' (out + 1) (length vs) (replicate (length vs) 0) = (q, ?hs) \<and>
      low_values m'' interleaved (length vs) w q = ?low"
    unfolding q_def
    by (rule bitmap_block_roundtrip [OF wok assms(3) fit, of "out + 1" m1]) blast
  show ?thesis
  proof (rule block_okI)
    show "encode_pfor_single_block vs interleaved out m = Some (m', out')"
      using guard 1(1)
      by (simp add: encode_pfor_single_block_def assms(1) Let_def m1_def header_def)
    show "m' i = store m out [header PFOR_BITMAP w] i" if "i < out + 1 \<or> out' + 16 \<le> i" for i
      using 1(3) that by (simp add: m1_def)
    fix m'' prev
    assume s: "same_bytes m' m'' (out + 1) out'" and h: "m'' out = header PFOR_BITMAP w"
    from 1(4) [OF s]
    have d: "decode_pfor_bitmap_exceptions m'' (out + 1) (length vs) (replicate (length vs) 0) = (q, ?hs)"
      and l: "low_values m'' interleaved (length vs) w q = ?low" by simp_all
    have "decode_block False m'' out (length vs) interleaved prev =
      Some (q + bytes_for_packed_bits (length vs) w,
        delta_decode prev (map2 (\<lambda>v e. v OR push_bit w e) ?low ?hs))"
      unfolding l [symmetric]
      by (rule decode_block_bitmap [OF _ _ _ d]) (use h w guard in \<open>auto simp add: header_parts\<close>)
    then show "decode_block False m'' out (length vs) interleaved prev = Some (out', delta_decode prev vs)"
      using low_high [OF w, of vs] by (simp add: 1(2))
  qed (use w in \<open>simp_all add: 1(2) q_def\<close>)
qed

lemma encoded_block_ok:
  assumes "vs \<noteq> []" and "length vs \<le> 128" and "interleaved \<Longrightarrow> length vs = 128"
    and "\<And>v. v \<in> set vs \<Longrightarrow> num_bits v \<le> 24"
  shows "block_ok vs interleaved out m"
proof -
  have M: "max_bits_of vs \<le> 24" by (rule max_bits_le [OF assms(4)])
  have guard: "\<not> (vs = [] \<or> interleaved \<and> length vs \<noteq> 128)" using assms by auto
  have wok: "width_ok interleaved w (length vs)" if "w \<le> max_bits_of vs" for w
    using that M assms(3) by (simp add: width_ok_def)
  from assms(1) show ?thesis
  proof (cases rule: decide_cases)
    case all_same
    then show ?thesis using guard by (rule constant_block_ok)
  next
    case plain
    from for_block_ok [OF plain wok num_bits_max guard] show ?thesis by simp
  next
    case (varbyte w)
    with vb_block_ok [OF varbyte(1) wok exceptions_exist assms(2) guard] show ?thesis by simp
  next
    case (bitmap w)
    with bitmap_block_ok [OF bitmap(1) wok _ exceptions_fit guard] M show ?thesis by simp
  qed
qed

section \<open>Properties\<close>

text \<open>C12: A block of at most 128 deltas below \<open>2 ^ 24\<close> is always encoded (no shift by the operand's
  width, no failed assertion), behind \<open>out\<close> with at most 16 bytes of scratch after its end, and
  on any memory that keeps the block's bytes both decoders, SSE2 and generic, return the end of
  the block and the docids that the deltas stand for.\<close>
theorem posting_block_roundtrip:
  assumes "vs \<noteq> []" and "length vs \<le> 128" and "interleaved \<Longrightarrow> length vs = 128"
    and "list_all (\<lambda>v. v < 0x1000000) vs"
  shows "\<exists>m' out'. encode_pfor_single_block vs interleaved out m = Some (m', out') \<and> out < out' \<and>
    (\<forall>i. i < out \<or> out' + 16 \<le> i \<longrightarrow> m' i = m i) \<and>
    (\<forall>m'' sse2 prev. same_bytes m' m'' out out' \<longrightarrow>
      decode_block sse2 m'' out (length vs) interleaved prev = Some (out', delta_decode prev vs))"
proof -
  have "num_bits v \<le> 24" if "v \<in> set vs" for v
    using assms(4) that by (auto simp add: list_all_iff num_bits_pow word_less_nat_alt)
  from encoded_block_ok [OF assms(1-3) this, where out = out and m = m] show ?thesis
    unfolding block_ok_def by blast
qed

lemma posting_block_roundtrip_witness:
  "\<exists>m' out'. encode_pfor_single_block [3, 0, 700, 0xabcdef, 1] False 10 (\<lambda>_. 0) = Some (m', out') \<and>
    decode_block True m' 10 5 False 41 = Some (out', [45, 46, 747, 11260123, 11260125])"
proof -
  let ?vs = "[3, 0, 700, 0xabcdef, 1] :: u32 list"
  obtain m' out' where 1: "encode_pfor_single_block ?vs False 10 (\<lambda>_. 0) = Some (m', out')"
    and 2: "\<And>m'' sse2 prev. same_bytes m' m'' 10 out' \<Longrightarrow>
      decode_block sse2 m'' 10 (length ?vs) False prev = Some (out', delta_decode prev ?vs)"
  proof -
    have "\<exists>m' out'. encode_pfor_single_block ?vs False 10 (\<lambda>_. 0) = Some (m', out') \<and> 10 < out' \<and>
      (\<forall>i. i < 10 \<or> out' + 16 \<le> i \<longrightarrow> m' i = 0) \<and>
      (\<forall>m'' sse2 prev. same_bytes m' m'' 10 out' \<longrightarrow>
        decode_block sse2 m'' 10 (length ?vs) False prev = Some (out', delta_decode prev ?vs))"
      by (rule posting_block_roundtrip) simp_all
    with that show thesis by blast
  qed
  have "delta_decode 41 ?vs = [45, 46, 747, 11260123, 11260125]" by (simp add: Let_def)
  moreover have "length ?vs = 5" by simp
  ultimately show ?thesis using 1 2 [of m' True 41] same_bytes_refl by metis
qed



lemma ranges:
  "[0..<32] =
    [0, 1, 2, 3, 4, 5, 6, 7, 8, 9, 10, 11, 12, 13, 14, 15, 16, 17, 18, 19, 20, 21, 22, 23, 24,
    25, 26, 27, 28, 29, 30, 31]"
  "[1..<33] =
    [1, 2, 3, 4, 5, 6, 7, 8, 9, 10, 11, 12, 13, 14, 15, 16, 17, 18, 19, 20, 21, 22, 23, 24, 25,
    26, 27, 28, 29, 30, 31, 32]"
  by (simp_all add: upt_rec)

lemma replicate_33:
  "replicate 33 (x :: nat) =
    [x, x, x, x, x, x, x, x, x, x, x, x, x, x, x, x, x, x, x, x, x, x, x, x, x, x, x, x, x, x,
    x, x, x]"
  by (simp add: numeral_eq_Suc)

abbreviation wide_histogram :: "nat list" where
  "wide_histogram \<equiv>
    [0, 0, 0, 0, 0, 0, 0, 0, 0, 0, 0, 0, 0, 0, 0, 0, 0, 0, 0, 0, 0, 0, 0, 0, 0, 0, 0, 0, 0, 0,
    0, 0, 2]"

lemma wide_block_type: "decide_block_type [0xffffffff, 0x80000000] = (FOR, 32, 0)"
proof -
  have "clz32 0xffffffff = 0" "clz32 0x80000000 = 0"
    unfolding clz32_def ranges by simp_all
  then have nb: "num_bits 0xffffffff = 32" "num_bits 0x80000000 = 32"
    by (simp_all add: num_bits_def)
  have h: "histogram_of [0xffffffff, 0x80000000] = wide_histogram"
    by (simp add: histogram_of_def nb replicate_33)
  have M: "max_bits_of [0xffffffff, 0x80000000] = 32" by (simp add: max_bits_of_def nb)
  have b: "try_bitmap 2 32 wide_histogram = (8, 32)"
    by (simp add: try_bitmap_def Let_def bytes_for_packed_bits_def div_round_up_def ranges
        del: One_nat_def)
  have w: "wide_histogram = replicate 32 0 @ [2]" by (simp add: numeral_eq_Suc)
  have c: "cumulative 32 wide_histogram = replicate 33 2"
  proof (rule nth_equalityI)
    fix i assume "i < length (cumulative 32 wide_histogram)"
    then have i: "i \<le> 32" by simp
    have "cumulative 32 wide_histogram ! i = (\<Sum>k = i..32. wide_histogram ! k)"
      by (subst cumulative_nth) (use i in simp_all)
    also have "\<dots> = (\<Sum>k = i..32. if k = 32 then 2 else 0)"
      unfolding w by (rule sum.cong) (auto simp add: nth_append)
    also have "\<dots> = 2" using i by simp
    finally show "cumulative 32 wide_histogram ! i = replicate 33 2 ! i" using i by simp
  qed simp
  have v: "try_varbyte 2 32 (replicate 33 2) [0..<32] (8, 32, False) = (8, 32, False)"
    by (simp add: ranges(1) Let_def vb_cost_def bytes_for_packed_bits_def div_round_up_def)
  have n: "length [0xffffffff, 0x80000000 :: u32] = 2" by simp
  show ?thesis
    unfolding decide_block_type_def Let_def M h n b c prod.case v by simp
qed

text \<open>The sequential bit writer keeps 32 bits and stores the bits that are left after a value
  by a shift of \<open>bits_used / 8 * 8\<close>; for a block of values that use all 32 bits the first such
  shift is by 32, which C++ leaves undefined: the encoder has no defined result on it.\<close>
theorem wide_block_undefined:
  "encode_pfor_single_block [0xffffffff, 0x80000000] False out m = None"
  by (simp add: encode_pfor_single_block_def wide_block_type Let_def encode_for_def encode_bitmap_def
      bw_write_def BitWriter_def)

end
