(* ===== verification/Relocation.thy ===== *)
theory Relocation
  imports Block_Correct
begin

text \<open>
  A block decodes to the same values wherever its bytes lie: every reader of the generic decoder
  at \<open>p + q\<close> behaves as at \<open>q\<close> on the memory seen from \<open>p\<close>. The encoder writes into a local
  buffer whose bytes are copied to the end of the posting list, so that the round trip of a
  block carries over to the whole list.
\<close>

definition seen_from :: "nat \<Rightarrow> mem \<Rightarrow> mem" where
  "seen_from p m = (\<lambda>i. m (p + i))"

lemma seen_from_at [simp]: "seen_from p m q = m (p + q)"
  by (simp add: seen_from_def)

lemma load_seen_from: "load (seen_from p m) q n = load m (p + q) n"
  by (rule nth_equalityI) (simp_all add: add.assoc)

lemma read_le_seen_from: "read_le n (seen_from p m) q = read_le n m (p + q)"
  by (simp add: read_le_def load_seen_from)

section \<open>Readers\<close>

definition br_moved :: "nat \<Rightarrow> bit_reader \<Rightarrow> bit_reader" where
  "br_moved p bs = bs\<lparr>br_in := p + br_in bs\<rparr>"

definition ir_moved :: "nat \<Rightarrow> interleaved_bit_reader \<Rightarrow> interleaved_bit_reader" where
  "ir_moved p bs = bs\<lparr>ir_in := p + ir_in bs\<rparr>"

lemma br_read_moved: "br_read m (br_moved p bs) = apsnd (br_moved p) (br_read (seen_from p m) bs)"
  by (simp add: br_read_def br_moved_def Let_def read_le_seen_from)

lemma ir_read_moved: "ir_read m (ir_moved p bs) = apsnd (ir_moved p) (ir_read (seen_from p m) bs)"
  by (simp add: ir_read_def ir_moved_def Let_def read_le_seen_from add.assoc)

lemma BitReader_moved: "BitReader (p + q) w = br_moved p (BitReader q w)"
  by (simp add: BitReader_def br_moved_def)

lemma br_reads_moved: "br_reads m n (br_moved p bs) = br_reads (seen_from p m) n bs"
  by (induction n arbitrary: bs) (simp_all add: br_read_moved Let_def split_beta)

fun four_moved :: "nat \<Rightarrow> four_readers \<Rightarrow> four_readers" where
  "four_moved p (a, b, c, d) = (ir_moved p a, ir_moved p b, ir_moved p c, ir_moved p d)"

lemma four_readers_moved: "four_readers (p + q) w = four_moved p (four_readers q w)"
  by (simp add: four_readers_def InterleavedBitReader_def ir_moved_def)

lemma ir_reads_moved: "ir_reads m n (four_moved p bs) = ir_reads (seen_from p m) n bs"
proof (induction n arbitrary: bs)
  case 0
  then show ?case by (cases bs) simp
next
  case (Suc n)
  obtain a b c d where bs: "bs = (a, b, c, d)" by (cases bs)
  have "ir_reads m n (ir_moved p a', ir_moved p b', ir_moved p c', ir_moved p d') =
      ir_reads (seen_from p m) n (a', b', c', d')" for a' b' c' d'
    using Suc [of "(a', b', c', d')"] by (simp del: seen_from_at)
  then show ?case by (simp add: bs ir_read_moved Let_def split_beta del: seen_from_at)
qed

lemma low_values_moved: "low_values m il n w (p + q) = low_values (seen_from p m) il n w q"
  by (simp add: low_values_def four_readers_moved ir_reads_moved BitReader_moved br_reads_moved)

section \<open>Exceptions\<close>

lemma read_at_all_moved:
  "read_at_all m ks (br_moved p bs, out, n) =
     (let (bs, out, n) = read_at_all (seen_from p m) ks (bs, out, n) in (br_moved p bs, out, n))"
  by (induction ks arbitrary: bs out n) (simp_all add: br_read_moved Let_def split_beta)

lemma mem_bit_moved: "mem_bit m (p + q) k = mem_bit (seen_from p m) q k"
  by (simp add: mem_bit_def add.assoc)

lemma bitmap_exceptions_moved:
  "decode_pfor_bitmap_exceptions m (p + q) num out =
     apfst ((+) p) (decode_pfor_bitmap_exceptions (seen_from p m) q num out)"
proof -
  have "mem_bit m (p + q + 1) = mem_bit (seen_from p m) (q + 1)"
    using mem_bit_moved [of m p "q + 1"] by (simp add: fun_eq_iff add.assoc)
  moreover have "BitReader (p + q + 1 + d) w = br_moved p (BitReader (q + 1 + d) w)" for d w
    using BitReader_moved [of p "q + 1 + d"] by (simp add: add.assoc)
  ultimately show ?thesis
    by (simp only: decode_pfor_bitmap_exceptions_def Let_def exceptions_in_words_at
        read_at_all_moved split_beta seen_from_at) (simp add: add.assoc)
qed

lemma read_vb_moved: "read_vb m (p + q) = map_option (apsnd ((+) p)) (read_vb (seen_from p m) q)"
proof -
  have "(read_le n (seen_from p m) (Suc q) :: u32) = read_le n m (Suc (p + q))"
    "(read_le n (seen_from p m) (Suc q) :: u16) = read_le n m (Suc (p + q))" for n
    by (simp_all add: read_le_seen_from)
  then show ?thesis by (simp add: read_vb_def Let_def add.assoc)
qed

lemma read_raw_exceptions_moved:
  "read_raw_exceptions m n (p + q) = apsnd ((+) p) (read_raw_exceptions (seen_from p m) n q)"
  by (induction n arbitrary: q)
    (simp_all add: Let_def read_le_seen_from split_beta add.assoc)

lemma read_vbs_moved:
  "read_vbs m n (p + q) = map_option (apsnd ((+) p)) (read_vbs (seen_from p m) n q)"
  by (induction n arbitrary: q) (auto simp add: read_vb_moved split: option.split)

lemma read_vb_exceptions_moved:
  "read_vb_exceptions m n (p + q) =
     map_option (apsnd ((+) p)) (read_vb_exceptions (seen_from p m) n q)"
  using read_raw_exceptions_moved [of m n p "q + 1"]
  by (simp add: read_vb_exceptions_def read_vbs_moved)

lemma apply_exceptions_moved:
  "apply_exceptions m w es (p + q) out = apsnd ((+) p) (apply_exceptions (seen_from p m) w es q out)"
proof (induction es arbitrary: q out)
  case (Cons e es)
  from Cons [of "Suc q"] show ?case by (simp add: Let_def)
qed simp

section \<open>Blocks\<close>

text \<open>The generic decoder of a block, over low and high parts.\<close>

definition decode_parts :: "mem \<Rightarrow> nat \<Rightarrow> nat \<Rightarrow> bool \<Rightarrow> u32 \<Rightarrow> (nat \<times> u32 list) option" where
  "decode_parts m p num il prev =
     (let w = unat (m p AND 0x3f); t = drop_bit 6 (m p) in
      if t = block_type_code FOR then
        Some (p + (1 + bytes_for_packed_bits num w), delta_decode prev (low_values m il num w (p + 1)))
      else if t = block_type_code PFOR_VB then
        (case read_vb_exceptions m (unat (m (p + 1))) (p + (2 + bytes_for_packed_bits num w)) of
           None \<Rightarrow> None
         | Some (es, q) \<Rightarrow>
             let (out, q) = apply_exceptions m w es q (low_values m il num w (p + 2))
             in Some (q, delta_decode prev out))
      else if t = block_type_code PFOR_BITMAP then
        (let (q, hs) = decode_pfor_bitmap_exceptions m (p + 1) num (replicate num 0)
         in Some (q + bytes_for_packed_bits num w,
              delta_decode prev (map2 (\<lambda>v e. v OR push_bit w e) (low_values m il num w q) hs)))
      else
        (let val = read_le 4 m (p + 1)
         in Some (p + (1 + div_round_up w 8),
              delta_decode prev (replicate num (if w < 32 then val AND mask_for_bits w else val)))))"

lemma decode_block_parts:
  "decode_block False m p num interleaved prev = decode_parts m p num (interleaved \<and> num = 128) prev"
proof -
  have "length (snd (decode_pfor_bitmap_exceptions m (p + 1) num (replicate num 0))) = num"
    by (simp add: length_bitmap_exceptions)
  then show ?thesis
    by (auto simp add: decode_block_def decode_parts_def decode_for_def decode_for_interleaved_generic_def
        decode_pfor_vb_def decode_pfor_vb_interleaved_generic_def decode_pfor_bitmap_def
        decode_pfor_bitmap_interleaved_generic_def decode_constant_def low_values_def Let_def
        decode_for_loop_reads pfor_bitmap_loop_reads split_beta add.assoc split: option.split)
qed

lemma decode_block_moved:
  "decode_block False m (p + q) num il prev =
     map_option (apfst ((+) p)) (decode_block False (seen_from p m) q num il prev)"
proof -
  let ?w = "unat (m (p + q) AND 0x3f)"
  have 1: "low_values m il' num ?w (p + q + d) = low_values (seen_from p m) il' num ?w (q + d)" for il' d
    using low_values_moved [of m il' num ?w p "q + d"] by (simp add: add.assoc)
  have 2: "read_vb_exceptions m n (p + q + d) =
      map_option (apsnd ((+) p)) (read_vb_exceptions (seen_from p m) n (q + d))" for n d
    using read_vb_exceptions_moved [of m n p "q + d"] by (simp add: add.assoc)
  have 3: "decode_pfor_bitmap_exceptions m (p + q + 1) num out =
      apfst ((+) p) (decode_pfor_bitmap_exceptions (seen_from p m) (q + 1) num out)" for out
    using bitmap_exceptions_moved [of m p "q + 1" num out] by (simp add: add.assoc)
  have 4: "m (p + q + 1) = seen_from p m (q + 1)" "(read_le 4 m (p + q + 1) :: u32) = read_le 4 (seen_from p m) (q + 1)"
    by (simp_all add: read_le_seen_from add.assoc)
  show ?thesis
    unfolding decode_block_parts decode_parts_def Let_def 1 2 3 4 seen_from_at [of p m q]
    by (auto simp add: split_beta apply_exceptions_moved low_values_moved add.assoc
        simp del: seen_from_at split: option.split)
qed

end
