(* ===== verification/Posting_List.thy ===== *)
theory Posting_List
  imports Relocation
begin

text \<open>
  \<open>PostingListBuilder\<close> of \<open>src/database-builder.cpp\<close>: the posting list of one trigram, a header
  with the first docid and blocks of 128 deltas. A local buffer starts with unknown contents
  \<open>buf\<close>, and its bytes up to the end of the block are appended to \<open>encoded\<close>; None is a failed
  \<open>assert\<close> or an encoder without a defined result. A list that is built from ascending docids
  decodes to exactly these docids.
\<close>

section \<open>The builder\<close>

record posting_list_builder =
  encoded :: bytes
  pending_deltas :: "u32 list"
  pl_num_docids :: u32
  last_docid :: u32

definition new_posting_list_builder :: posting_list_builder where
  "new_posting_list_builder =
     \<lparr>encoded = [], pending_deltas = [], pl_num_docids = 0, last_docid = -1\<rparr>"

definition write_header :: "mem \<Rightarrow> u32 \<Rightarrow> posting_list_builder \<Rightarrow> posting_list_builder option" where
  "write_header buf docid b =
     (case write_baseval docid 0 buf of
        None \<Rightarrow> None
      | Some (buf, end) \<Rightarrow> Some (b\<lparr>encoded := encoded b @ load buf 0 end\<rparr>))"

definition add_first_docid :: "mem \<Rightarrow> u32 \<Rightarrow> posting_list_builder \<Rightarrow> posting_list_builder option" where
  "add_first_docid buf docid b =
     (case write_header buf docid b of
        None \<Rightarrow> None
      | Some b \<Rightarrow> Some (b\<lparr>pl_num_docids := pl_num_docids b + 1, last_docid := docid\<rparr>))"

definition append_block :: "mem \<Rightarrow> posting_list_builder \<Rightarrow> posting_list_builder option" where
  "append_block buf b =
     (if length (pending_deltas b) \<noteq> 128 then None
      else
        case encode_pfor_single_block (pending_deltas b) True 0 buf of
          None \<Rightarrow> None
        | Some (buf, end) \<Rightarrow> Some (b\<lparr>encoded := encoded b @ load buf 0 end\<rparr>))"

definition add_docid :: "mem \<Rightarrow> u32 \<Rightarrow> posting_list_builder \<Rightarrow> posting_list_builder option" where
  "add_docid buf docid b =
     (if docid = last_docid b then Some b
      else
        let b = b\<lparr>pending_deltas := pending_deltas b @ [docid - last_docid b - 1],
                  last_docid := docid\<rparr>
        in
        if length (pending_deltas b) = 128 then
          (case append_block buf b of
             None \<Rightarrow> None
           | Some b \<Rightarrow>
               Some (b\<lparr>pending_deltas := [], pl_num_docids := pl_num_docids b + 128\<rparr>))
        else Some b)"

definition finish_posting_list :: "mem \<Rightarrow> posting_list_builder \<Rightarrow> posting_list_builder option" where
  "finish_posting_list buf b =
     (if pending_deltas b = [] then Some b
      else if encoded b = [] then None
      else
        case encode_pfor_single_block (pending_deltas b) False 0 buf of
          None \<Rightarrow> None
        | Some (buf, end) \<Rightarrow>
            Some (b\<lparr>encoded := encoded b @ load buf 0 end,
                    pl_num_docids := pl_num_docids b + of_nat (length (pending_deltas b)),
                    pending_deltas := []\<rparr>))"

text \<open>\<open>assert(pending_deltas.empty())\<close>\<close>

definition get_num_docids :: "posting_list_builder \<Rightarrow> u32 option" where
  "get_num_docids b = (if pending_deltas b = [] then Some (pl_num_docids b) else None)"

fun add_docids :: "mem \<Rightarrow> u32 list \<Rightarrow> posting_list_builder \<Rightarrow> posting_list_builder option" where
  "add_docids buf [] b = Some b"
| "add_docids buf (d # ds) b =
     (case add_docid buf d b of None \<Rightarrow> None | Some b \<Rightarrow> add_docids buf ds b)"

text \<open>
  The calls that the corpus makes for one trigram: the first docid, the others in the order of
  the blocks, and \<open>finish\<close>.
\<close>

definition build_posting_list :: "mem \<Rightarrow> u32 list \<Rightarrow> posting_list_builder option" where
  "build_posting_list buf docids =
     (case docids of
        [] \<Rightarrow> None
      | d # ds \<Rightarrow>
          (case add_first_docid buf d new_posting_list_builder of
             None \<Rightarrow> None
           | Some b \<Rightarrow>
               (case add_docids buf ds b of
                  None \<Rightarrow> None
                | Some b \<Rightarrow> finish_posting_list buf b)))"

section \<open>The bytes of a block\<close>

definition block_bytes :: "bytes \<Rightarrow> u32 list \<Rightarrow> bool" where
  "block_bytes bs vs \<longleftrightarrow>
     (\<forall>m p sse2 prev. load m p (length bs) = bs \<longrightarrow>
        decode_block sse2 m p (length vs) True prev = Some (p + length bs, delta_decode prev vs))"

lemma same_bytes_loaded:
  assumes "load m p n = load m' 0 n"
  shows "same_bytes m' (seen_from p m) 0 n"
proof -
  have "m (p + i) = m' i" if "i < n" for i
    using arg_cong [OF assms, of "\<lambda>bs. bs ! i"] that by simp
  then show ?thesis by (simp add: same_bytes_def)
qed

lemma decode_block_interleaved:
  "num \<noteq> 128 \<Longrightarrow> decode_block False m p num True prev = decode_block False m p num False prev"
  by (simp add: decode_block_parts)

lemma encoded_block_bytes:
  assumes "vs \<noteq> []" and "length vs \<le> 128" and "interleaved = (length vs = 128)"
    and "\<And>v. v \<in> set vs \<Longrightarrow> num_bits v \<le> 24"
  obtains m' e where "encode_pfor_single_block vs interleaved 0 buf = Some (m', e)"
    and "block_bytes (load m' 0 e) vs"
proof -
  obtain m' e where 1: "encode_pfor_single_block vs interleaved 0 buf = Some (m', e)" "0 < e"
    "unat (m' 0 AND 0x3f) \<le> 32"
    "\<And>m'' sse2 prev. same_bytes m' m'' 0 e \<Longrightarrow>
      decode_block sse2 m'' 0 (length vs) interleaved prev = Some (e, delta_decode prev vs)"
    using encoded_block_ok [OF assms(1,2) _ assms(4), of interleaved 0 buf] assms(3)
    unfolding block_ok_def by auto
  have "decode_block sse2 m p (length vs) True prev = Some (p + e, delta_decode prev vs)"
    if l: "load m p e = load m' 0 e" for m p sse2 prev
  proof -
    have s: "same_bytes m' (seen_from p m) 0 e" by (rule same_bytes_loaded [OF l])
    have "m p = m' 0" using same_bytes_at [OF s, of 0] 1(2) by simp
    then have "decode_block sse2 m p (length vs) True prev = decode_block False m p (length vs) True prev"
      using 1(3) by (intro decode_block_sse2_eq) simp
    also have "\<dots> = decode_block False m p (length vs) interleaved prev"
      using assms(3) by (cases "length vs = 128") (simp_all add: decode_block_interleaved)
    also have "\<dots> = map_option (apfst ((+) p))
        (decode_block False (seen_from p m) 0 (length vs) interleaved prev)"
      using decode_block_moved [of m p 0] by simp
    finally show ?thesis using 1(4) [OF s, of False prev] by simp
  qed
  then have "block_bytes (load m' 0 e) vs" unfolding block_bytes_def length_load by blast
  with 1(1) show thesis by (rule that)
qed

section \<open>Lists of blocks\<close>

fun deltas :: "u32 \<Rightarrow> u32 list \<Rightarrow> u32 list" where
  "deltas prev [] = []"
| "deltas prev (d # ds) = (d - prev - 1) # deltas d ds"

lemma length_deltas [simp]: "length (deltas prev ds) = length ds"
  by (induction prev ds rule: deltas.induct) simp_all

lemma delta_decode_deltas [simp]: "delta_decode prev (deltas prev ds) = ds"
  by (induction prev ds rule: deltas.induct) (simp_all add: Let_def)

lemma deltas_snoc: "deltas prev (ds @ [d]) = deltas prev ds @ [d - last (prev # ds) - 1]"
  by (induction prev ds rule: deltas.induct) simp_all

lemma deltas_small:
  assumes "sorted_wrt (<) (prev # ds)" and "\<And>d. d \<in> set ds \<Longrightarrow> unat d < 2 ^ 24" and "v \<in> set (deltas prev ds)"
  shows "num_bits v \<le> 24"
  using assms
proof (induction prev ds rule: deltas.induct)
  case (2 prev d ds)
  have "prev < d" and d: "unat d < 2 ^ 24" using 2 by auto
  have "unat (d - prev) = unat d - unat prev" using \<open>prev < d\<close> by (simp add: unat_sub)
  moreover have "d - prev \<noteq> 0" using \<open>prev < d\<close> by simp
  ultimately have "unat (d - prev - 1) < 2 ^ 24" using d by (simp add: unat_minus_one)
  with 2 show ?case by (auto simp add: num_bits_pow)
qed simp

text \<open>Blocks one after another, each with the last docid before it.\<close>

fun block_chain :: "u32 \<Rightarrow> bytes list \<Rightarrow> u32 list list \<Rightarrow> bool" where
  "block_chain prev [] [] = True"
| "block_chain prev (bs # bss) (g # gs) \<longleftrightarrow>
     g \<noteq> [] \<and> length g \<le> 128 \<and> (gs \<noteq> [] \<longrightarrow> length g = 128) \<and>
     block_bytes bs (deltas prev g) \<and> block_chain (last g) bss gs"
| "block_chain prev _ _ = False"

lemma block_chain_snoc:
  assumes "block_chain prev bss gs" and "list_all (\<lambda>g. length g = 128) gs"
    and "g \<noteq> []" and "length g \<le> 128" and "block_bytes bs (deltas (last (prev # concat gs)) g)"
  shows "block_chain prev (bss @ [bs]) (gs @ [g])"
  using assms
proof (induction prev bss gs rule: block_chain.induct)
  case (2 prev bs' bss g' gs)
  have "last (prev # concat (g' # gs)) = last (last g' # concat gs)"
    using 2 by (auto simp add: last_append)
  with 2 show ?case by auto
qed simp_all

lemma block_chain_decodes:
  assumes "block_chain prev bss gs" and "load m p (length (concat bss)) = concat bss"
  shows "decode_blocks sse2 m p (length (concat gs)) True prev =
    Some (p + length (concat bss), concat gs)"
  using assms
proof (induction prev bss gs arbitrary: p rule: block_chain.induct)
  case (1 prev)
  then show ?case by (simp add: decode_blocks.simps)
next
  case (2 prev bs bss g gs)
  from "2.prems"(2) have "load m p (length bs) = bs"
    and rest: "load m (p + length bs) (length (concat bss)) = concat bss"
    by (simp_all add: load_append)
  with "2.prems"(1) have block: "decode_block sse2 m p (length g) True prev = Some (p + length bs, g)"
    unfolding block_bytes_def by (metis block_chain.simps(2) block_bytes_def delta_decode_deltas length_deltas)
  have IH: "decode_blocks sse2 m (p + length bs) (length (concat gs)) True (last g) =
      Some (p + length bs + length (concat bss), concat gs)"
    using "2.prems"(1) rest by (intro "2.IH") simp_all
  have "min (length (concat (g # gs))) 128 = length g" "length (concat (g # gs)) - 128 = length (concat gs)"
    using "2.prems"(1) by (cases "gs = []"; auto)+
  moreover have "g \<noteq> []" using "2.prems"(1) by simp
  ultimately show ?case
    using block IH by (subst decode_blocks.simps) (simp add: add.assoc)
qed simp_all

section \<open>The list that the builder has encoded\<close>

definition header_bytes :: "bytes \<Rightarrow> u32 \<Rightarrow> bool" where
  "header_bytes bs d \<longleftrightarrow> bs \<noteq> [] \<and>
     (\<forall>m p. load m p (length bs) = bs \<longrightarrow> read_baseval m p = Some (d, p + length bs))"

lemma read_baseval_moved:
  "read_baseval m (p + q) = map_option (apsnd ((+) p)) (read_baseval (seen_from p m) q)"
  by (simp add: read_baseval_def Let_def add.assoc)

lemma written_header_bytes:
  assumes "unat d < 2 ^ 28"
  obtains m' e where "write_baseval d 0 buf = Some (m', e)" and "header_bytes (load m' 0 e) d"
proof -
  obtain m' e where 1: "write_baseval d 0 buf = Some (m', e)" "0 < e"
    "\<And>m''. same_bytes m' m'' 0 e \<Longrightarrow> read_baseval m'' 0 = Some (d, e)"
    by (rule baseval_roundtrip [OF assms, of 0 buf]) blast
  have "read_baseval m p = Some (d, p + e)" if "load m p e = load m' 0 e" for m p
    using read_baseval_moved [of m p 0] 1(3) [OF same_bytes_loaded [OF that]] by simp
  then have "header_bytes (load m' 0 e) d"
    using 1(2) unfolding header_bytes_def length_load by (auto simp add: load_def)
  with 1(1) show thesis by (rule that)
qed

text \<open>\<open>ds\<close> are the docids after the first one that are in \<open>encoded\<close> or pending.\<close>

definition builder_holds :: "posting_list_builder \<Rightarrow> u32 \<Rightarrow> u32 list \<Rightarrow> bool" where
  "builder_holds b d ds \<longleftrightarrow>
     (\<exists>hbs bss gs pend. ds = concat gs @ pend \<and> header_bytes hbs d \<and> block_chain d bss gs \<and>
        list_all (\<lambda>g. length g = 128) gs \<and> length pend < 128 \<and>
        encoded b = hbs @ concat bss \<and> pending_deltas b = deltas (last (d # concat gs)) pend \<and>
        last_docid b = last (d # ds) \<and> pl_num_docids b = of_nat (1 + length (concat gs)))"

lemma builder_holdsI:
  assumes "ds = concat gs @ pend" and "header_bytes hbs d" and "block_chain d bss gs"
    and "list_all (\<lambda>g. length g = 128) gs" and "length pend < 128"
    and "encoded b = hbs @ concat bss" and "pending_deltas b = deltas (last (d # concat gs)) pend"
    and "last_docid b = last (d # ds)" and "pl_num_docids b = of_nat (1 + length (concat gs))"
  shows "builder_holds b d ds"
  unfolding builder_holds_def using assms by blast

lemma add_first_docid_holds:
  assumes "unat d < 2 ^ 28"
  obtains b where "add_first_docid buf d new_posting_list_builder = Some b" and "builder_holds b d []"
proof -
  obtain m' e where 1: "write_baseval d 0 buf = Some (m', e)" "header_bytes (load m' 0 e) d"
    by (rule written_header_bytes [OF assms, of buf]) blast
  let ?b = "\<lparr>encoded = load m' 0 e, pending_deltas = [], pl_num_docids = 1, last_docid = d\<rparr>"
  have "add_first_docid buf d new_posting_list_builder = Some ?b"
    using 1(1) by (simp add: add_first_docid_def write_header_def new_posting_list_builder_def)
  moreover have "builder_holds ?b d []"
    unfolding builder_holds_def using 1(2)
    by (intro exI [of _ "load m' 0 e"] exI [of _ "[]"] exI [of _ "[] :: u32 list list"]) simp
  ultimately show thesis by (rule that)
qed

lemma small_deltas:
  assumes "sorted_wrt (<) (d # gs @ pend)" and "\<And>x. x \<in> set (gs @ pend) \<Longrightarrow> unat x < 2 ^ 24"
    and "v \<in> set (deltas (last (d # gs)) pend)"
  shows "num_bits v \<le> 24"
proof (rule deltas_small [OF _ _ assms(3)])
  show "sorted_wrt (<) (last (d # gs) # pend)"
    using assms(1) by (cases "gs = []") (auto simp add: sorted_wrt_append)
qed (use assms(2) in auto)

lemma add_docid_holds:
  assumes "builder_holds b d ds" and "sorted_wrt (<) (d # ds @ [x])"
    and "\<And>y. y \<in> set (ds @ [x]) \<Longrightarrow> unat y < 2 ^ 24"
  obtains b' where "add_docid buf x b = Some b'" and "builder_holds b' d (ds @ [x])"
proof -
  from assms(1) obtain hbs bss gs pend where b: "ds = concat gs @ pend" "header_bytes hbs d"
    "block_chain d bss gs" "list_all (\<lambda>g. length g = 128) gs" "length pend < 128"
    "encoded b = hbs @ concat bss" "pending_deltas b = deltas (last (d # concat gs)) pend"
    "last_docid b = last (d # ds)" "pl_num_docids b = of_nat (1 + length (concat gs))"
    by (auto simp add: builder_holds_def)
  have "last (d # ds) < x" using assms(2) by (cases "ds = []") (auto simp add: sorted_wrt_append)
  then have new: "x \<noteq> last_docid b" by (simp add: b(8))
  have "last (last (d # concat gs) # pend) = last (d # ds)" by (simp add: b(1) last_append)
  then have pd: "pending_deltas b @ [x - last_docid b - 1] = deltas (last (d # concat gs)) (pend @ [x])"
    by (simp add: b(7,8) deltas_snoc del: last.simps)
  show thesis
  proof (cases "length (pend @ [x]) = 128")
    case True
    let ?vs = "deltas (last (d # concat gs)) (pend @ [x])"
    have small: "num_bits v \<le> 24" if "v \<in> set ?vs" for v
      by (rule small_deltas [OF _ _ that]) (use assms(2,3) in \<open>auto simp add: b(1)\<close>)
    have len: "length ?vs = 128" using True by (simp only: length_deltas)
    then have ne: "?vs \<noteq> []" by (metis list.size(3) zero_neq_numeral)
    obtain m' e where 1: "encode_pfor_single_block ?vs True 0 buf = Some (m', e)"
      "block_bytes (load m' 0 e) ?vs"
      by (rule encoded_block_bytes [OF ne _ _ small, of True buf]) (use len in auto)
    have "block_chain d (bss @ [load m' 0 e]) (gs @ [pend @ [x]])"
      by (rule block_chain_snoc [OF b(3,4)]) (use True 1(2) in simp_all)
    moreover have "add_docid buf x b = Some (b\<lparr>encoded := encoded b @ load m' 0 e,
        pending_deltas := [], pl_num_docids := pl_num_docids b + 128, last_docid := x\<rparr>)"
      using new True 1(1) by (simp add: add_docid_def append_block_def Let_def pd)
    moreover have "builder_holds (b\<lparr>encoded := encoded b @ load m' 0 e, pending_deltas := [],
        pl_num_docids := pl_num_docids b + 128, last_docid := x\<rparr>) d (ds @ [x])"
      if "block_chain d (bss @ [load m' 0 e]) (gs @ [pend @ [x]])"
      by (rule builder_holdsI [where pend = "[]", OF _ b(2) that])
        (use b True in \<open>simp_all add: add.commute\<close>)
    ultimately show thesis by (intro that) simp_all
  next
    case False
    have "add_docid buf x b = Some (b\<lparr>pending_deltas := deltas (last (d # concat gs)) (pend @ [x]),
        last_docid := x\<rparr>)"
      using new False by (simp add: add_docid_def Let_def pd)
    moreover have "builder_holds (b\<lparr>pending_deltas := deltas (last (d # concat gs)) (pend @ [x]),
        last_docid := x\<rparr>) d (ds @ [x])"
      by (rule builder_holdsI [where pend = "pend @ [x]", OF _ b(2,3,4)])
        (use b False in \<open>simp_all\<close>)
    ultimately show thesis by (rule that)
  qed
qed

lemma add_docid_again:
  assumes "builder_holds b d ds" and "x = last (d # ds)"
  shows "add_docid buf x b = Some b"
proof -
  have "last_docid b = last (d # ds)" using assms(1) unfolding builder_holds_def by blast
  with assms(2) show ?thesis by (simp only: add_docid_def if_True refl)
qed

lemma le_last: "sorted xs \<Longrightarrow> y \<in> set xs \<Longrightarrow> y \<le> last (xs :: u32 list)"
  by (induction xs) auto

lemma add_docids_holds:
  assumes "builder_holds b d xs" and "sorted_wrt (<) (d # xs)" and "sorted (last (d # xs) # ds)"
    and "\<And>y. y \<in> set (xs @ ds) \<Longrightarrow> unat y < 2 ^ 24"
  shows "\<exists>b'. add_docids buf ds b = Some b' \<and>
    builder_holds b' d (xs @ tl (remdups_adj (last (d # xs) # ds)))"
  using assms
proof (induction ds arbitrary: b xs)
  case Nil
  then show ?case by simp
next
  case (Cons x ds)
  show ?case
  proof (cases "x = last (d # xs)")
    case True
    have "sorted (last (d # xs) # ds)" using Cons.prems(3) by simp
    from Cons.IH [OF Cons.prems(1,2) this] Cons.prems(4)
    obtain b' where "add_docids buf ds b = Some b'"
      "builder_holds b' d (xs @ tl (remdups_adj (last (d # xs) # ds)))" by auto
    then show ?thesis using True add_docid_again [OF Cons.prems(1) True]
      by (simp del: last.simps)
  next
    case False
    have "l < x" if "sorted (l # x # ds)" "x \<noteq> l" for l
      using that by (auto simp add: less_le)
    from this [OF Cons.prems(3) False] have lt: "last (d # xs) < x" .
    have "y < x" if "y \<in> set (d # xs)" for y
      using le_last [OF strict_sorted_imp_sorted [OF Cons.prems(2)] that] lt by (rule le_less_trans)
    with Cons.prems(2) have srt: "sorted_wrt (<) (d # xs @ [x])" by (simp add: sorted_wrt_append)
    have small: "\<And>y. y \<in> set (xs @ [x]) \<Longrightarrow> unat y < 2 ^ 24" using Cons.prems(4) by auto
    obtain b1 where 1: "add_docid buf x b = Some b1" "builder_holds b1 d (xs @ [x])"
      by (rule add_docid_holds [OF Cons.prems(1) srt small, of buf]) blast+
    have l: "last (d # xs @ [x]) = x" by simp
    have "sorted (last (d # xs @ [x]) # ds)" using Cons.prems(3) unfolding l by simp
    then have "\<exists>b'. add_docids buf ds b1 = Some b' \<and>
        builder_holds b' d ((xs @ [x]) @ tl (remdups_adj (last (d # xs @ [x]) # ds)))"
      by (rule Cons.IH [OF 1(2) srt]) (use Cons.prems(4) in auto)
    then obtain b' where 2: "add_docids buf ds b1 = Some b'"
      "builder_holds b' d ((xs @ [x]) @ tl (remdups_adj (x # ds)))" unfolding l by blast
    have "(xs @ [x]) @ tl (remdups_adj (x # ds)) = xs @ tl (remdups_adj (last (d # xs) # x # ds))"
      using False by (simp del: last.simps)
    with 1(1) 2 show ?thesis by simp
  qed
qed

text \<open>What a finished list holds: the docids \<open>ds\<close> after \<open>d\<close>, with nothing pending.\<close>

definition list_holds :: "posting_list_builder \<Rightarrow> u32 \<Rightarrow> u32 list \<Rightarrow> bool" where
  "list_holds b d ds \<longleftrightarrow> pending_deltas b = [] \<and> pl_num_docids b = of_nat (1 + length ds) \<and>
     (\<exists>hbs bss gs. ds = concat gs \<and> header_bytes hbs d \<and> block_chain d bss gs \<and>
        encoded b = hbs @ concat bss)"

lemma finish_holds:
  assumes "builder_holds b d ds" and "sorted_wrt (<) (d # ds)"
    and "\<And>y. y \<in> set ds \<Longrightarrow> unat y < 2 ^ 24"
  obtains b' where "finish_posting_list buf b = Some b'" and "list_holds b' d ds"
proof -
  from assms(1) obtain hbs bss gs pend where b: "ds = concat gs @ pend" "header_bytes hbs d"
    "block_chain d bss gs" "list_all (\<lambda>g. length g = 128) gs" "length pend < 128"
    "encoded b = hbs @ concat bss" "pending_deltas b = deltas (last (d # concat gs)) pend"
    "last_docid b = last (d # ds)" "pl_num_docids b = of_nat (1 + length (concat gs))"
    by (auto simp add: builder_holds_def)
  show thesis
  proof (cases "pend = []")
    case True
    with b have "finish_posting_list buf b = Some b" "list_holds b d ds"
      by (auto simp add: finish_posting_list_def list_holds_def)
    then show thesis by (rule that)
  next
    case False
    let ?vs = "deltas (last (d # concat gs)) pend"
    have ne: "?vs \<noteq> []" using False by (metis length_deltas length_0_conv)
    have small: "num_bits v \<le> 24" if "v \<in> set ?vs" for v
      by (rule small_deltas [OF _ _ that]) (use assms(2,3) in \<open>auto simp add: b(1)\<close>)
    obtain m' e where 1: "encode_pfor_single_block ?vs False 0 buf = Some (m', e)"
      "block_bytes (load m' 0 e) ?vs"
      by (rule encoded_block_bytes [OF ne _ _ small, of False buf]) (use b(5) in auto)
    have chain: "block_chain d (bss @ [load m' 0 e]) (gs @ [pend])"
      by (rule block_chain_snoc [OF b(3,4) False]) (use b(5) 1(2) in simp_all)
    have "encoded b \<noteq> []" using b(2,6) by (simp add: header_bytes_def)
    then have "finish_posting_list buf b = Some (b\<lparr>encoded := encoded b @ load m' 0 e,
        pl_num_docids := pl_num_docids b + of_nat (length pend), pending_deltas := []\<rparr>)"
      using ne 1(1) by (simp add: finish_posting_list_def b(7) del: last.simps)
    moreover have "list_holds (b\<lparr>encoded := encoded b @ load m' 0 e,
        pl_num_docids := pl_num_docids b + of_nat (length pend), pending_deltas := []\<rparr>) d ds"
      unfolding list_holds_def using b(1,2,6,9) chain
      by (auto intro!: exI [of _ hbs] exI [of _ "bss @ [load m' 0 e]"] exI [of _ "gs @ [pend]"])
    ultimately show thesis by (rule that)
  qed
qed

lemma list_holds_decodes:
  assumes "list_holds b d ds" and "load m p (length (encoded b)) = encoded b"
  shows "decode_pfor_delta1_128 sse2 m p (Suc (length ds)) True = Some (p + length (encoded b), d # ds)"
proof -
  from assms(1) obtain hbs bss gs where b: "ds = concat gs" "header_bytes hbs d" "block_chain d bss gs"
    "encoded b = hbs @ concat bss"
    by (auto simp add: list_holds_def)
  have "load m p (length hbs) = hbs" "load m (p + length hbs) (length (concat bss)) = concat bss"
    using assms(2) by (simp_all add: b(4) load_append)
  with b block_chain_decodes [OF b(3), of m "p + length hbs" sse2] show ?thesis
    by (simp add: decode_pfor_delta1_128_def header_bytes_def add.assoc)
qed

lemma length_small_docids:
  assumes "sorted_wrt (<) ds" and "\<And>y. y \<in> set ds \<Longrightarrow> unat (y :: u32) < 2 ^ 24"
  shows "length ds \<le> 2 ^ 24"
proof -
  have "distinct ds" using assms(1) by (simp add: strict_sorted_iff)
  moreover have "inj_on unat (set ds)" by (auto intro!: inj_onI unsigned_word_eqI)
  ultimately have "length ds = card (unat ` set ds)"
    by (simp add: distinct_card card_image)
  also have "\<dots> \<le> card {..<2 ^ 24 :: nat}"
    by (intro card_mono) (use assms(2) in auto)
  finally show ?thesis by simp
qed

lemma sorted_remdups_adj_strict: "sorted xs \<Longrightarrow> sorted_wrt (<) (remdups_adj (xs :: u32 list))"
  by (induction xs rule: remdups_adj.induct) (auto simp add: less_le)

section \<open>Properties\<close>

text \<open>C11: A posting list that is built from ascending docids below \<open>2 ^ 24\<close>, with repetitions (a
  trigram that occurs several times in a block is added several times), is always built; its
  count is the number of different docids; and wherever its bytes lie in memory, both decoders
  return exactly the different docids in order, and the end of the list.\<close>
theorem posting_list_roundtrip:
  assumes "docids \<noteq> []" and "sorted docids" and "list_all (\<lambda>d. d < 0x1000000) docids"
  shows "\<exists>b n. build_posting_list buf docids = Some b \<and> get_num_docids b = Some n \<and>
    unat n = length (remdups_adj docids) \<and>
    (\<forall>m p sse2. load m p (length (encoded b)) = encoded b \<longrightarrow>
      decode_pfor_delta1_128 sse2 m p (unat n) True =
        Some (p + length (encoded b), remdups_adj docids))"
proof -
  obtain d ds where docids: "docids = d # ds" using assms(1) by (cases docids) auto
  have small: "unat y < 2 ^ 24" if "y \<in> set docids" for y
    using assms(3) that by (auto simp add: list_all_iff word_less_nat_alt)
  define rest where "rest = tl (remdups_adj docids)"
  have all: "remdups_adj docids = d # rest" by (simp add: rest_def docids)
  have srt: "sorted_wrt (<) (d # rest)"
    using sorted_remdups_adj_strict [OF assms(2)] by (simp only: all)
  have rest: "unat y < 2 ^ 24" if "y \<in> set (d # rest)" for y
    using small that unfolding all [symmetric] by simp
  have "unat d < 2 ^ 28" using small [of d] docids by simp
  then obtain b0 where 0: "add_first_docid buf d new_posting_list_builder = Some b0" "builder_holds b0 d []"
    by (rule add_first_docid_holds [of d buf]) blast
  have "\<exists>b'. add_docids buf ds b0 = Some b' \<and> builder_holds b' d ([] @ tl (remdups_adj (last [d] # ds)))"
    by (rule add_docids_holds [OF 0(2)]) (use assms(2) small docids in auto)
  then obtain b1 where 1: "add_docids buf ds b0 = Some b1" "builder_holds b1 d rest"
    by (auto simp add: rest_def docids)
  obtain b2 where 2: "finish_posting_list buf b1 = Some b2" "list_holds b2 d rest"
    by (rule finish_holds [OF 1(2) srt, of buf]) (use rest in auto)
  have "length (d # rest) \<le> 2 ^ 24" by (rule length_small_docids [OF srt rest])
  then have n: "unat (of_nat (length (d # rest)) :: u32) = length (d # rest)"
    by (intro unat_of_nat_small) simp
  have "build_posting_list buf docids = Some b2"
    by (simp add: build_posting_list_def docids 0(1) 1(1) 2(1))
  moreover have "get_num_docids b2 = Some (of_nat (length (d # rest)))"
    using 2(2) by (simp add: get_num_docids_def list_holds_def)
  ultimately show ?thesis
    using list_holds_decodes [OF 2(2)] n unfolding all
    by (intro exI [of _ b2] exI [of _ "of_nat (length (d # rest))"]) (simp only: list.size add_Suc_right add_0_right n, blast)
qed

lemma posting_list_roundtrip_witness:
  "\<exists>b n. build_posting_list (\<lambda>_. 0xaa) [3, 3, 9, 70000] = Some b \<and> get_num_docids b = Some n \<and> unat n = 3"
  using posting_list_roundtrip [of "[3, 3, 9, 70000]" "\<lambda>_. 0xaa"] by auto

end
