(* ===== verification/Encoding_Corpus.thy ===== *)
theory Encoding_Corpus
  imports Block_Scan Posting_List Metadata_Codec "HOL-Library.Monad_Syntax"
begin

text \<open>
  \<open>EncodingCorpus\<close> of \<open>src/database-builder.cpp\<close>: files are gathered into blocks; a full block is
  compressed and written, and its trigrams are added to their posting lists under the number of
  the block; time stamps and metadata are compressed as two streams. The functions of zstd are
  a parameter. None stands for the exits (zstd failures, a failed write of an empty block) and
  for an undefined result of the posting-list encoder.
\<close>

section \<open>State\<close>

text \<open>
  \<open>compress_stream ctx input 4096\<close> is \<open>ZSTD_compressStream\<close>: the new context, the bytes produced
  and the number of input bytes consumed; \<open>end_stream\<close> is \<open>ZSTD_endStream\<close>: the bytes produced
  and whether the return value was 0. None is a negative return value.
\<close>

record 'c zstd =
  compress_block :: "bytes \<Rightarrow> bytes"
  compress_stream :: "'c \<Rightarrow> bytes \<Rightarrow> nat \<Rightarrow> ('c \<times> bytes \<times> nat) option"
  end_stream :: "'c \<Rightarrow> nat \<Rightarrow> ('c \<times> bytes \<times> bool) option"

record 'c encoding_corpus =
  filename_blocks :: "u64 list"
  num_files :: nat
  num_files_in_block :: nat
  num_blocks :: nat
  invindex :: "u32 \<Rightarrow> posting_list_builder option"
  written :: bytes
  outfp_pos :: u64
  current_block :: bytes
  block_size :: nat
  store_dir_times :: bool
  store_metadata :: bool
  dir_time_ctx :: 'c
  metadata_ctx :: 'c
  dir_times :: bytes
  dir_times_compressed :: bytes
  metadata_stream :: bytes
  metadata_compressed :: bytes

definition new_encoding_corpus ::
    "u64 \<Rightarrow> nat \<Rightarrow> bool \<Rightarrow> bool \<Rightarrow> 'c \<Rightarrow> 'c \<Rightarrow> 'c encoding_corpus" where
  "new_encoding_corpus pos bsize with_times with_meta ctx1 ctx2 =
     \<lparr>filename_blocks = [], num_files = 0, num_files_in_block = 0, num_blocks = 0,
      invindex = (\<lambda>_. None), written = [], outfp_pos = pos, current_block = [],
      block_size = bsize, store_dir_times = with_times, store_metadata = with_meta,
      dir_time_ctx = ctx1, metadata_ctx = ctx2, dir_times = [], dir_times_compressed = [],
      metadata_stream = [], metadata_compressed = []\<rparr>"

definition seen_trigram :: "'c encoding_corpus \<Rightarrow> u32 \<Rightarrow> bool" where
  "seen_trigram c t \<longleftrightarrow> invindex c t \<noteq> None"

section \<open>Posting lists and blocks\<close>

definition index_docid ::
    "mem \<Rightarrow> u32 \<Rightarrow> u32 \<Rightarrow> (u32 \<Rightarrow> posting_list_builder option) \<Rightarrow>
     (u32 \<Rightarrow> posting_list_builder option) option" where
  "index_docid buf t docid idx =
     (case idx t of
        None \<Rightarrow> map_option (\<lambda>b. idx(t := Some b)) (add_first_docid buf docid new_posting_list_builder)
      | Some b \<Rightarrow> map_option (\<lambda>b. idx(t := Some b)) (add_docid buf docid b))"

fun index_docids ::
    "mem \<Rightarrow> u32 list \<Rightarrow> u32 \<Rightarrow> (u32 \<Rightarrow> posting_list_builder option) \<Rightarrow>
     (u32 \<Rightarrow> posting_list_builder option) option" where
  "index_docids buf [] docid idx = Some idx"
| "index_docids buf (t # ts) docid idx =
     do { idx \<leftarrow> index_docid buf t docid idx; index_docids buf ts docid idx }"

definition flush_block :: "'c zstd \<Rightarrow> mem \<Rightarrow> 'c encoding_corpus \<Rightarrow> 'c encoding_corpus option" where
  "flush_block z buf c =
     (if current_block c = [] then Some c
      else do {
        ts \<leftarrow> block_trigrams (current_block c);
        idx \<leftarrow> index_docids buf ts (of_nat (num_blocks c)) (invindex c);
        let compressed = compress_block z (current_block c) in
        if compressed = [] then None
        else Some (c\<lparr>invindex := idx,
                     filename_blocks := filename_blocks c @ [outfp_pos c],
                     written := written c @ compressed,
                     outfp_pos := outfp_pos c + of_nat (length compressed),
                     current_block := [], num_files_in_block := 0,
                     num_blocks := num_blocks c + 1\<rparr>) })"

section \<open>The two compressed streams\<close>

text \<open>One loop for \<open>compress_dir_times\<close> and \<open>compress_metadata\<close>: context, input buffer, output.\<close>

partial_function (option) compress_buffered ::
    "'c zstd \<Rightarrow> nat \<Rightarrow> 'c \<Rightarrow> bytes \<Rightarrow> bytes \<Rightarrow> ('c \<times> bytes \<times> bytes) option" where
  "compress_buffered z allowed_slop ctx buffer compressed =
     (if allowed_slop \<le> length buffer then
        (case compress_stream z ctx buffer 4096 of
           None \<Rightarrow> None
         | Some (ctx, produced, consumed) \<Rightarrow>
             (if produced = [] \<and> consumed = 0 then Some (ctx, buffer, compressed)
              else compress_buffered z allowed_slop ctx (drop consumed buffer) (compressed @ produced)))
      else Some (ctx, buffer, compressed))"

definition compress_dir_times ::
    "'c zstd \<Rightarrow> nat \<Rightarrow> 'c encoding_corpus \<Rightarrow> 'c encoding_corpus option" where
  "compress_dir_times z allowed_slop c =
     do { (ctx, buffer, compressed) \<leftarrow>
            compress_buffered z allowed_slop (dir_time_ctx c) (dir_times c) (dir_times_compressed c);
          Some (c\<lparr>dir_time_ctx := ctx, dir_times := buffer, dir_times_compressed := compressed\<rparr>) }"

definition compress_metadata ::
    "'c zstd \<Rightarrow> nat \<Rightarrow> 'c encoding_corpus \<Rightarrow> 'c encoding_corpus option" where
  "compress_metadata z allowed_slop c =
     (if \<not> store_metadata c then Some c
      else
        do { (ctx, buffer, compressed) \<leftarrow>
               compress_buffered z allowed_slop (metadata_ctx c) (metadata_stream c) (metadata_compressed c);
             Some (c\<lparr>metadata_ctx := ctx, metadata_stream := buffer, metadata_compressed := compressed\<rparr>) })"

definition encode_dir_time :: "dir_time \<Rightarrow> bytes" where
  "encode_dir_time dt =
     (if sec dt = -1 then [0] else [1] @ put_le 8 (sec dt) @ put_le 4 (nsec dt))"

definition add_file :: "'c zstd \<Rightarrow> mem \<Rightarrow> file_record \<Rightarrow> 'c encoding_corpus \<Rightarrow> 'c encoding_corpus option" where
  "add_file z buf record c =
     (let c = c\<lparr>num_files := num_files c + 1,
                current_block := (if current_block c \<noteq> [] then current_block c @ [0] else []) @ rpath record,
                num_files_in_block := num_files_in_block c + 1\<rparr>
      in do {
        c \<leftarrow> (if num_files_in_block c = block_size c then flush_block z buf c else Some c);
        c \<leftarrow> (if store_dir_times c then
                compress_dir_times z 4096
                  (c\<lparr>dir_times := dir_times c @ encode_dir_time (dir_timestamp record)\<rparr>)
              else Some c);
        (if store_metadata c then
           compress_metadata z 4096
             (c\<lparr>metadata_stream := encode_metadata_record (metadata_stream c) (rmetadata record)\<rparr>)
         else Some c) })"

definition finish_blocks :: "'c zstd \<Rightarrow> mem \<Rightarrow> 'c encoding_corpus \<Rightarrow> 'c encoding_corpus option" where
  "finish_blocks z buf c = flush_block z buf c"

partial_function (option) end_compressed ::
    "'c zstd \<Rightarrow> 'c \<Rightarrow> bytes \<Rightarrow> ('c \<times> bytes) option" where
  "end_compressed z ctx compressed =
     (case end_stream z ctx 4096 of
        None \<Rightarrow> None
      | Some (ctx, produced, fin) \<Rightarrow>
          (if fin then Some (ctx, compressed @ produced)
           else end_compressed z ctx (compressed @ produced)))"

text \<open>The \<open>assert(dir_times.empty())\<close> after the last compression is None when it fails.\<close>

definition get_compressed_dir_times :: "'c zstd \<Rightarrow> 'c encoding_corpus \<Rightarrow> bytes option" where
  "get_compressed_dir_times z c =
     (if \<not> store_dir_times c then Some []
      else do {
        c \<leftarrow> compress_dir_times z 0 c;
        if dir_times c \<noteq> [] then None
        else map_option snd (end_compressed z (dir_time_ctx c) (dir_times_compressed c)) })"

definition get_compressed_metadata :: "'c zstd \<Rightarrow> 'c encoding_corpus \<Rightarrow> bytes option" where
  "get_compressed_metadata z c =
     (if \<not> store_metadata c then Some []
      else do {
        c \<leftarrow> compress_metadata z 0 c;
        if metadata_stream c \<noteq> [] then None
        else map_option snd (end_compressed z (metadata_ctx c) (metadata_compressed c)) })"

fun add_files :: "'c zstd \<Rightarrow> mem \<Rightarrow> file_record list \<Rightarrow> 'c encoding_corpus \<Rightarrow> 'c encoding_corpus option" where
  "add_files z buf [] c = Some c"
| "add_files z buf (r # rs) c = do { c \<leftarrow> add_file z buf r c; add_files z buf rs c }"

section \<open>What the corpus holds\<close>

text \<open>The names \<open>fs\<close> cut into blocks of \<open>n\<close>, the last one possibly shorter.\<close>

fun chunks :: "nat \<Rightarrow> 'a list \<Rightarrow> 'a list list" where
  "chunks n [] = []"
| "chunks n (f # fs) = (if n = 0 then [f # fs] else (f # take (n - 1) fs) # chunks n (drop (n - 1) fs))"

definition names_trigrams :: "bytes list \<Rightarrow> u32 list" where
  "names_trigrams fs = concat (map file_trigrams (indexed_names fs))"

text \<open>The docids that are added for \<open>t\<close>, the first block being number \<open>k\<close>.\<close>

fun occurrences :: "u32 \<Rightarrow> nat \<Rightarrow> bytes list list \<Rightarrow> u32 list" where
  "occurrences t k [] = []"
| "occurrences t k (b # bs) =
     replicate (count_list (names_trigrams b) t) (of_nat k) @ occurrences t (Suc k) bs"

text \<open>The posting list of a trigram after \<open>add_docid\<close> for each of the docids.\<close>

definition fed :: "mem \<Rightarrow> u32 list \<Rightarrow> posting_list_builder option option" where
  "fed buf docids =
     (case docids of
        [] \<Rightarrow> Some None
      | d # ds \<Rightarrow>
          do { b \<leftarrow> add_first_docid buf d new_posting_list_builder;
               map_option Some (add_docids buf ds b) })"

lemma add_docids_append:
  "add_docids buf (xs @ ys) b = add_docids buf xs b \<bind> add_docids buf ys"
  by (induction xs arbitrary: b) (auto split: option.splits)

lemma fed_snoc:
  assumes "fed buf ds = Some (idx t)"
  shows "fed buf (ds @ [d]) = map_option (\<lambda>idx. idx t) (index_docid buf t d idx)"
proof (cases ds)
  case Nil
  then have "idx t = None" using assms by (simp add: fed_def)
  then show ?thesis
    by (cases "add_first_docid buf d new_posting_list_builder")
      (simp_all add: Nil fed_def index_docid_def)
next
  case (Cons e es)
  with assms obtain b0 b where b: "add_first_docid buf e new_posting_list_builder = Some b0"
    "add_docids buf es b0 = Some b" "idx t = Some b"
    by (auto simp add: fed_def bind_eq_Some_conv eq_commute [of "Some _" "idx t"])
  then show ?thesis
    by (cases "add_docid buf d b") (simp_all add: Cons fed_def index_docid_def add_docids_append)
qed

lemma index_docid_other: "index_docid buf t d idx = Some idx' \<Longrightarrow> t' \<noteq> t \<Longrightarrow> idx' t' = idx t'"
  by (auto simp add: index_docid_def split: option.splits)

lemma fed_defined:
  assumes "sorted ds" and "\<And>d. d \<in> set ds \<Longrightarrow> unat d < 2 ^ 24"
  shows "\<exists>b. fed buf ds = Some b"
proof (cases ds)
  case (Cons d es)
  have "unat d < 2 ^ 28" using assms(2) [of d] Cons by simp
  then obtain b where b: "add_first_docid buf d new_posting_list_builder = Some b" "builder_holds b d []"
    by (rule add_first_docid_holds [of d buf]) blast
  have "\<exists>b'. add_docids buf es b = Some b' \<and> builder_holds b' d ([] @ tl (remdups_adj (last [d] # es)))"
    by (rule add_docids_holds [OF b(2)]) (use assms Cons in auto)
  with b(1) show ?thesis by (auto simp add: fed_def Cons)
qed (simp add: fed_def)

lemma index_docids_fed:
  assumes "\<And>t. fed buf (occ t) = Some (idx t)"
    and "\<And>t. sorted (occ t)" and "\<And>t x. x \<in> set (occ t) \<Longrightarrow> x \<le> d" and "unat d < 2 ^ 24"
  shows "\<exists>idx'. index_docids buf ts d idx = Some idx' \<and>
    (\<forall>t. fed buf (occ t @ replicate (count_list ts t) d) = Some (idx' t))"
  using assms(1-3)
proof (induction ts arbitrary: idx occ)
  case (Cons t ts)
  let ?occ = "occ(t := occ t @ [d])"
  have srt: "sorted (?occ t')" for t' using Cons.prems(2,3) by (simp add: sorted_append)
  have le: "x \<le> d" if "x \<in> set (?occ t')" for t' x
    using that Cons.prems(3) by (auto split: if_splits)
  have small: "unat x < 2 ^ 24" if "x \<in> set (?occ t)" for x
    using le [OF that] assms(4) by (simp add: word_le_nat_alt)
  obtain b where b: "fed buf (occ t @ [d]) = Some b"
    using fed_defined [of "?occ t" buf] srt [of t] small by auto
  with fed_snoc [of buf "occ t" idx t d, OF Cons.prems(1)] obtain idx1 where
    1: "index_docid buf t d idx = Some idx1" "idx1 t = b" by (auto simp add: map_option_case split: option.splits)
  have f: "fed buf (?occ t') = Some (idx1 t')" for t'
    using b 1 Cons.prems(1) index_docid_other [OF 1(1)] by auto
  have "\<exists>idx'. index_docids buf ts d idx1 = Some idx' \<and>
      (\<forall>t'. fed buf (?occ t' @ replicate (count_list ts t') d) = Some (idx' t'))"
    by (rule Cons.IH [of ?occ idx1, OF f srt]) (rule le)
  then obtain idx' where 2: "index_docids buf ts d idx1 = Some idx'"
    "\<forall>t'. fed buf (?occ t' @ replicate (count_list ts t') d) = Some (idx' t')" by blast
  have "?occ t' @ replicate (count_list ts t') d = occ t' @ replicate (count_list (t # ts) t') d" for t'
    by simp
  with 1 2 show ?case by simp
qed simp

lemma occurrences_snoc:
  "occurrences t k (bs @ [b]) =
     occurrences t k bs @ replicate (count_list (names_trigrams b) t) (of_nat (k + length bs))"
  by (induction bs arbitrary: k) simp_all

lemma in_occurrences:
  "d \<in> set (occurrences t k bs) \<longleftrightarrow>
     (\<exists>i < length bs. d = of_nat (k + i) \<and> t \<in> set (names_trigrams (bs ! i)))"
proof (induction bs arbitrary: k)
  case (Cons b bs)
  have 1: "d \<in> set (replicate (count_list (names_trigrams b) t) (of_nat k)) \<longleftrightarrow>
      d = of_nat k \<and> t \<in> set (names_trigrams b)"
    by (auto simp add: count_list_0_iff)
  show ?case
    by (simp only: occurrences.simps set_append Un_iff 1 Cons.IH)
      (auto simp add: less_Suc_eq_0_disj)
qed simp

lemma sorted_occurrences:
  "k + length bs \<le> 2 ^ 24 \<Longrightarrow> sorted (occurrences t k bs)"
proof (induction bs arbitrary: k)
  case (Cons b bs)
  have "of_nat k \<le> (of_nat (Suc k + i) :: u32)" if "i < length bs" for i
    using that Cons.prems by (simp add: word_le_nat_alt unat_of_nat_small del: of_nat_add of_nat_Suc)
  with Cons show ?case by (auto simp add: sorted_append in_occurrences)
qed simp

section \<open>The invariant of the blocks\<close>

definition compressed_names :: "'c zstd \<Rightarrow> bytes list \<Rightarrow> bytes" where
  "compressed_names z fs = compress_block z (join_names fs)"

definition block_offsets :: "'c zstd \<Rightarrow> u64 \<Rightarrow> bytes list list \<Rightarrow> u64 list" where
  "block_offsets z pos bs =
     map (\<lambda>i. pos + of_nat (length (concat (map (compressed_names z) (take i bs))))) [0..<length bs]"

definition file_names :: "bytes list \<Rightarrow> bool" where
  "file_names fs \<longleftrightarrow> list_all (\<lambda>f. f \<noteq> [] \<and> 0 \<notin> set f) fs"

definition blocks_hold :: "'c zstd \<Rightarrow> mem \<Rightarrow> u64 \<Rightarrow> 'c encoding_corpus \<Rightarrow> bytes list list \<Rightarrow> bytes list \<Rightarrow> bool" where
  "blocks_hold z buf pos c bs cur \<longleftrightarrow>
     num_files c = length (concat bs @ cur) \<and> num_files_in_block c = length cur \<and>
     num_blocks c = length bs \<and> current_block c = join_names cur \<and>
     written c = concat (map (compressed_names z) bs) \<and>
     outfp_pos c = pos + of_nat (length (written c)) \<and>
     filename_blocks c = block_offsets z pos bs \<and>
     (\<forall>t. fed buf (occurrences t 0 bs) = Some (invindex c t))"

text \<open>What the compression of the two streams reads and changes.\<close>

definition streams ::
    "'c encoding_corpus \<Rightarrow> bool \<times> bool \<times> 'c \<times> 'c \<times> bytes \<times> bytes \<times> bytes \<times> bytes" where
  "streams c = (store_dir_times c, store_metadata c, dir_time_ctx c, metadata_ctx c, dir_times c,
     dir_times_compressed c, metadata_stream c, metadata_compressed c)"

lemma block_offsets_snoc:
  "block_offsets z pos (bs @ [b]) =
     block_offsets z pos bs @ [pos + of_nat (length (concat (map (compressed_names z) bs)))]"
  by (simp add: block_offsets_def)

lemma join_names_not_empty: "fs \<noteq> [] \<Longrightarrow> file_names fs \<Longrightarrow> join_names fs \<noteq> []"
  by (induction fs rule: join_names.induct) (auto simp add: file_names_def)

lemma join_names_snoc: "fs \<noteq> [] \<Longrightarrow> join_names (fs @ [f]) = join_names fs @ [0] @ f"
  by (induction fs rule: join_names.induct) simp_all

lemma flush_block_holds:
  assumes "blocks_hold z buf pos c bs cur" and "cur \<noteq> []" and "file_names cur"
    and "length bs < 2 ^ 24" and "\<And>b. b \<noteq> [] \<Longrightarrow> compress_block z b \<noteq> []"
  shows "\<exists>c'. flush_block z buf c = Some c' \<and> blocks_hold z buf pos c' (bs @ [cur]) [] \<and>
    streams c' = streams c \<and> block_size c' = block_size c"
proof -
  note c = assms(1) [unfolded blocks_hold_def]
  have ne: "current_block c \<noteq> []" using c join_names_not_empty [OF assms(2,3)] by simp
  have nz: "list_all (\<lambda>f. 0 \<notin> set f) cur" using assms(3) by (auto simp add: file_names_def list_all_iff)
  have ts: "block_trigrams (current_block c) = Some (names_trigrams cur)"
    using scan_names_trigrams [OF assms(2) nz] c by (simp add: block_trigrams_def names_trigrams_def)
  let ?d = "of_nat (length bs) :: u32"
  have "\<exists>idx'. index_docids buf (names_trigrams cur) ?d (invindex c) = Some idx' \<and>
    (\<forall>t. fed buf (occurrences t 0 bs @ replicate (count_list (names_trigrams cur) t) ?d) = Some (idx' t))"
  proof (rule index_docids_fed)
    show "x \<le> ?d" if "x \<in> set (occurrences t 0 bs)" for t x
      using that assms(4) by (auto simp add: in_occurrences word_le_nat_alt unat_of_nat_small)
  qed (use c assms(4) in \<open>simp_all add: sorted_occurrences unat_of_nat_small\<close>)
  then obtain idx' where idx: "index_docids buf (names_trigrams cur) ?d (invindex c) = Some idx'"
    "\<forall>t. fed buf (occurrences t 0 (bs @ [cur])) = Some (idx' t)"
    by (auto simp add: occurrences_snoc)
  have "compress_block z (current_block c) = compressed_names z cur" "compressed_names z cur \<noteq> []"
    using c ne assms(5) by (simp_all add: compressed_names_def)
  with ne ts idx c show ?thesis
    by (simp add: flush_block_def Let_def blocks_hold_def streams_def block_offsets_snoc)
qed

end
