(* ===== verification/Corpus_Correct.thy ===== *)
theory Corpus_Correct
  imports Encoding_Corpus
begin

text \<open>
  The contract of the corpus builder of \<open>src/database-builder.cpp\<close>: which blocks it writes for a
  list of files, where they start, which posting list every trigram gets, and that the two
  compressed streams decompress to the encodings of all files. What the code relies on of zstd is
  the hypothesis \<open>zstd_laws\<close>.
\<close>

section \<open>The streaming interface of zstd\<close>

text \<open>
  \<open>given ctx\<close> is the input a context has taken and \<open>emitted ctx\<close> the output it has given out since
  its initialisation; \<open>pending ctx\<close> bounds the bytes it can still give out without more input.
  With input and output space left, a call makes progress; when \<open>ZSTD_endStream\<close> returns 0, the
  output is a frame of all the input.
\<close>

definition stream_step ::
    "('c \<Rightarrow> bytes) \<Rightarrow> ('c \<Rightarrow> bytes) \<Rightarrow> ('c \<Rightarrow> nat) \<Rightarrow> 'c zstd \<Rightarrow> 'c \<Rightarrow> bytes \<Rightarrow> nat \<Rightarrow> bool" where
  "stream_step given emitted pending z ctx buffer n \<longleftrightarrow>
     (\<exists>ctx' out k. compress_stream z ctx buffer n = Some (ctx', out, k) \<and> k \<le> length buffer \<and>
        given ctx' = given ctx @ take k buffer \<and> emitted ctx' = emitted ctx @ out \<and>
        (out = [] \<and> k = 0 \<longrightarrow> buffer = []) \<and> (out \<noteq> [] \<and> k = 0 \<longrightarrow> pending ctx' < pending ctx))"

definition end_step ::
    "('c \<Rightarrow> bytes) \<Rightarrow> ('c \<Rightarrow> bytes) \<Rightarrow> ('c \<Rightarrow> nat) \<Rightarrow> (bytes \<Rightarrow> bytes) \<Rightarrow> 'c zstd \<Rightarrow> 'c \<Rightarrow> nat \<Rightarrow> bool" where
  "end_step given emitted pending decompress z ctx n \<longleftrightarrow>
     (\<exists>ctx' out fin. end_stream z ctx n = Some (ctx', out, fin) \<and>
        given ctx' = given ctx \<and> emitted ctx' = emitted ctx @ out \<and>
        (fin \<longrightarrow> decompress (emitted ctx') = given ctx) \<and> (\<not> fin \<longrightarrow> pending ctx' < pending ctx))"

definition zstd_laws ::
    "('c \<Rightarrow> bytes) \<Rightarrow> ('c \<Rightarrow> bytes) \<Rightarrow> ('c \<Rightarrow> nat) \<Rightarrow> (bytes \<Rightarrow> bytes) \<Rightarrow> 'c zstd \<Rightarrow> bool" where
  "zstd_laws given emitted pending decompress z \<longleftrightarrow>
     (\<forall>b. b \<noteq> [] \<longrightarrow> compress_block z b \<noteq> [] \<and> decompress (compress_block z b) = b) \<and>
     (\<forall>ctx buffer n. 0 < n \<longrightarrow> stream_step given emitted pending z ctx buffer n) \<and>
     (\<forall>ctx n. 0 < n \<longrightarrow> end_step given emitted pending decompress z ctx n)"

lemma zstd_laws_stream:
  "zstd_laws given emitted pending decompress z \<Longrightarrow> 0 < n \<Longrightarrow> stream_step given emitted pending z ctx buffer n"
  by (simp add: zstd_laws_def)

lemma zstd_laws_end:
  "zstd_laws given emitted pending decompress z \<Longrightarrow> 0 < n \<Longrightarrow> end_step given emitted pending decompress z ctx n"
  by (simp add: zstd_laws_def)

lemma zstd_laws_block:
  "zstd_laws given emitted pending decompress z \<Longrightarrow> b \<noteq> [] \<Longrightarrow>
     compress_block z b \<noteq> [] \<and> decompress (compress_block z b) = b"
  by (simp add: zstd_laws_def)

lemma compress_buffered_total:
  assumes "zstd_laws given emitted pending decompress z"
  shows "\<exists>ctx' rest out. compress_buffered z slop ctx buffer compressed = Some (ctx', rest, compressed @ out) \<and>
    given ctx' @ rest = given ctx @ buffer \<and> emitted ctx' = emitted ctx @ out \<and> (slop = 0 \<longrightarrow> rest = [])"
proof (induction "(length buffer, pending ctx)" arbitrary: ctx buffer compressed
    rule: wf_induct_rule [OF wf_lex_prod [OF wf_less_than wf_less_than]])
  case 1
  show ?case
  proof (cases "slop \<le> length buffer")
    case True
    obtain ctx' out k where s: "compress_stream z ctx buffer 4096 = Some (ctx', out, k)" "k \<le> length buffer"
      "given ctx' = given ctx @ take k buffer" "emitted ctx' = emitted ctx @ out"
      "out = [] \<and> k = 0 \<longrightarrow> buffer = []" "out \<noteq> [] \<and> k = 0 \<longrightarrow> pending ctx' < pending ctx"
      using zstd_laws_stream [OF assms, of 4096 ctx buffer] by (auto simp add: stream_step_def)
    show ?thesis
    proof (cases "out = [] \<and> k = 0")
      case True
      with s \<open>slop \<le> length buffer\<close> show ?thesis by (subst compress_buffered.simps) simp
    next
      case False
      have "((length (drop k buffer), pending ctx'), length buffer, pending ctx) \<in> less_than <*lex*> less_than"
        using False s(2,6) by auto
      from 1 [OF this, of "compressed @ out"] obtain ctx'' rest out' where
        "compress_buffered z slop ctx' (drop k buffer) (compressed @ out) =
           Some (ctx'', rest, (compressed @ out) @ out')"
        "given ctx'' @ rest = given ctx' @ drop k buffer" "emitted ctx'' = emitted ctx' @ out'"
        "slop = 0 \<longrightarrow> rest = []" by auto
      with s False \<open>slop \<le> length buffer\<close> show ?thesis
        by (subst compress_buffered.simps) (auto intro!: exI [of _ "out @ out'"])
    qed
  qed (subst compress_buffered.simps, simp)
qed

lemma end_compressed_total:
  assumes "zstd_laws given emitted pending decompress z"
  shows "\<exists>ctx' out. end_compressed z ctx compressed = Some (ctx', compressed @ out) \<and>
    decompress (emitted ctx @ out) = given ctx"
proof (induction "pending ctx" arbitrary: ctx compressed rule: less_induct)
  case less
  obtain ctx' out fin where s: "end_stream z ctx 4096 = Some (ctx', out, fin)"
    "given ctx' = given ctx" "emitted ctx' = emitted ctx @ out"
    "fin \<longrightarrow> decompress (emitted ctx') = given ctx" "\<not> fin \<longrightarrow> pending ctx' < pending ctx"
    using zstd_laws_end [OF assms, of 4096 ctx] by (auto simp add: end_step_def)
  show ?case
  proof (cases fin)
    case True
    with s show ?thesis by (subst end_compressed.simps) simp
  next
    case False
    with s less.hyps [of ctx' "compressed @ out"] obtain ctx'' out' where
      "end_compressed z ctx' (compressed @ out) = Some (ctx'', (compressed @ out) @ out')"
      "decompress (emitted ctx' @ out') = given ctx'" by auto
    with s False show ?thesis
      by (subst end_compressed.simps) (auto intro!: exI [of _ "out @ out'"])
  qed
qed

section \<open>The invariant of the streams\<close>

definition metadata_bytes :: "file_metadata list \<Rightarrow> bytes" where
  "metadata_bytes ms = concat (map (encode_metadata_record []) ms)"

definition dir_time_bytes :: "dir_time list \<Rightarrow> bytes" where
  "dir_time_bytes ts = concat (map encode_dir_time ts)"

definition streams_hold ::
    "('c \<Rightarrow> bytes) \<Rightarrow> ('c \<Rightarrow> bytes) \<Rightarrow> 'c encoding_corpus \<Rightarrow> file_record list \<Rightarrow> bool" where
  "streams_hold given emitted c rs \<longleftrightarrow>
     (store_dir_times c \<longrightarrow>
        given (dir_time_ctx c) @ dir_times c = dir_time_bytes (map dir_timestamp rs) \<and>
        emitted (dir_time_ctx c) = dir_times_compressed c) \<and>
     (store_metadata c \<longrightarrow>
        given (metadata_ctx c) @ metadata_stream c = metadata_bytes (map rmetadata rs) \<and>
        emitted (metadata_ctx c) = metadata_compressed c)"

lemma streams_hold_cong: "streams c' = streams c \<Longrightarrow> streams_hold given emitted c' = streams_hold given emitted c"
  by (simp add: streams_def streams_hold_def fun_eq_iff)

text \<open>The two halves of \<open>add_file\<close>.\<close>

definition add_name :: "'c zstd \<Rightarrow> mem \<Rightarrow> bytes \<Rightarrow> 'c encoding_corpus \<Rightarrow> 'c encoding_corpus option" where
  "add_name z buf f c =
     (let c = c\<lparr>num_files := num_files c + 1,
                current_block := (if current_block c \<noteq> [] then current_block c @ [0] else []) @ f,
                num_files_in_block := num_files_in_block c + 1\<rparr>
      in if num_files_in_block c = block_size c then flush_block z buf c else Some c)"

definition add_streams :: "'c zstd \<Rightarrow> file_record \<Rightarrow> 'c encoding_corpus \<Rightarrow> 'c encoding_corpus option" where
  "add_streams z r c =
     do { c \<leftarrow> (if store_dir_times c then
                  compress_dir_times z 4096
                    (c\<lparr>dir_times := dir_times c @ encode_dir_time (dir_timestamp r)\<rparr>)
                else Some c);
          (if store_metadata c then
             compress_metadata z 4096
               (c\<lparr>metadata_stream := encode_metadata_record (metadata_stream c) (rmetadata r)\<rparr>)
           else Some c) }"

lemma add_file_parts: "add_file z buf r c = add_name z buf (rpath r) c \<bind> add_streams z r"
  unfolding add_file_def add_name_def add_streams_def [abs_def] Let_def ..

definition blocks_of :: "'c encoding_corpus \<Rightarrow> _" where
  "blocks_of c = (num_files c, num_files_in_block c, num_blocks c, current_block c, written c,
     outfp_pos c, filename_blocks c, invindex c, block_size c)"

lemma blocks_hold_cong:
  "blocks_of c' = blocks_of c \<Longrightarrow> blocks_hold z buf pos c' = blocks_hold z buf pos c"
  by (simp add: blocks_of_def blocks_hold_def fun_eq_iff)

lemma add_streams_holds:
  assumes "zstd_laws given emitted pending decompress z" and "streams_hold given emitted c rs"
  shows "\<exists>c'. add_streams z r c = Some c' \<and> streams_hold given emitted c' (rs @ [r]) \<and>
    blocks_of c' = blocks_of c \<and> store_dir_times c' = store_dir_times c \<and> store_metadata c' = store_metadata c"
proof -
  let ?d = "dir_times c @ encode_dir_time (dir_timestamp r)"
  let ?m = "encode_metadata_record (metadata_stream c) (rmetadata r)"
  obtain ctx rest out where d: "compress_buffered z 4096 (dir_time_ctx c) ?d (dir_times_compressed c) =
      Some (ctx, rest, dir_times_compressed c @ out)"
    "given ctx @ rest = given (dir_time_ctx c) @ ?d" "emitted ctx = emitted (dir_time_ctx c) @ out"
    using compress_buffered_total [OF assms(1), of 4096 "dir_time_ctx c" ?d "dir_times_compressed c"] by auto
  obtain ctx' rest' out' where m: "compress_buffered z 4096 (metadata_ctx c) ?m (metadata_compressed c) =
      Some (ctx', rest', metadata_compressed c @ out')"
    "given ctx' @ rest' = given (metadata_ctx c) @ ?m" "emitted ctx' = emitted (metadata_ctx c) @ out'"
    using compress_buffered_total [OF assms(1), of 4096 "metadata_ctx c" ?m "metadata_compressed c"] by auto
  have m2: "given ctx' @ rest' = (given (metadata_ctx c) @ metadata_stream c) @ encode_metadata_record [] (rmetadata r)"
    using m(2) encode_metadata_record_append [of "metadata_stream c" "rmetadata r"] by simp
  have d2: "given ctx @ rest = (given (dir_time_ctx c) @ dir_times c) @ encode_dir_time (dir_timestamp r)"
    using d(2) by simp
  show ?thesis
    using assms(2) d(1,3) m(1,3) d2 m2
    by (simp add: add_streams_def compress_dir_times_def compress_metadata_def streams_hold_def
        blocks_of_def metadata_bytes_def dir_time_bytes_def)
qed

lemma add_name_holds:
  assumes "blocks_hold z buf pos c bs cur" and "file_names cur" and "file_names [f]"
    and "block_size c = Suc (length cur) \<longrightarrow> length bs < 2 ^ 24" and "\<And>b. b \<noteq> [] \<Longrightarrow> compress_block z b \<noteq> []"
  shows "\<exists>c'. add_name z buf f c = Some c' \<and> streams c' = streams c \<and> block_size c' = block_size c \<and>
    (if block_size c = Suc (length cur) then blocks_hold z buf pos c' (bs @ [cur @ [f]]) []
     else blocks_hold z buf pos c' bs (cur @ [f]))"
proof -
  let ?c = "c\<lparr>num_files := num_files c + 1,
              current_block := (if current_block c \<noteq> [] then current_block c @ [0] else []) @ f,
              num_files_in_block := num_files_in_block c + 1\<rparr>"
  have fs: "file_names (cur @ [f])" using assms(2,3) by (simp add: file_names_def)
  have "join_names (cur @ [f]) = (if current_block c \<noteq> [] then current_block c @ [0] else []) @ f"
    using assms(1) join_names_not_empty [OF _ assms(2)] join_names_snoc [of cur f]
    by (cases "cur = []") (simp_all add: blocks_hold_def)
  with assms(1) have h: "blocks_hold z buf pos ?c bs (cur @ [f])"
    by (simp add: blocks_hold_def)
  have s: "streams ?c = streams c" "block_size ?c = block_size c" by (simp_all add: streams_def)
  have n: "num_files_in_block ?c = Suc (length cur)" using assms(1) by (simp add: blocks_hold_def)
  show ?thesis
  proof (cases "block_size c = Suc (length cur)")
    case True
    with flush_block_holds [OF h _ fs _ assms(5)] assms(4) s n show ?thesis
      by (auto simp add: add_name_def Let_def)
  next
    case False
    then have "add_name z buf f c = Some ?c" using n by (simp add: add_name_def Let_def)
    with False h s show ?thesis by auto
  qed
qed

section \<open>All files\<close>

text \<open>A database is built for files \<open>rs\<close>, of which \<open>todo\<close> are still to be added.\<close>

definition corpus_holds where
  "corpus_holds z buf pos n given emitted c rs bs cur \<longleftrightarrow>
     blocks_hold z buf pos c bs cur \<and> streams_hold given emitted c rs \<and> block_size c = n \<and>
     map rpath rs = concat bs @ cur \<and> file_names cur \<and> list_all (\<lambda>b. length b = n) bs \<and>
     (n = 0 \<longrightarrow> bs = []) \<and> (0 < n \<longrightarrow> length cur < n)"

lemma chunks_append: "length b = n \<Longrightarrow> 0 < n \<Longrightarrow> chunks n (b @ fs) = b # chunks n fs"
  by (cases b) auto

lemma chunks_concat:
  "list_all (\<lambda>b. length b = n) bs \<Longrightarrow> 0 < n \<Longrightarrow> chunks n (concat bs @ fs) = bs @ chunks n fs"
  by (induction bs) (auto simp add: chunks_append)

lemma chunks_last: "fs \<noteq> [] \<Longrightarrow> length fs \<le> n \<or> n = 0 \<Longrightarrow> chunks n fs = [fs]"
  by (cases fs) auto

lemma corpus_holds_chunks:
  assumes "corpus_holds z buf pos n given emitted c rs bs cur"
  shows "chunks n (map rpath rs) = (if cur = [] then bs else bs @ [cur])"
proof (cases "n = 0")
  case True
  with assms show ?thesis by (auto simp add: corpus_holds_def chunks_last)
next
  case False
  with assms show ?thesis by (auto simp add: corpus_holds_def chunks_concat chunks_last)
qed

lemma add_file_holds:
  assumes laws: "zstd_laws given emitted pending decompress z"
    and c: "corpus_holds z buf pos n given emitted c rs bs cur"
    and r: "file_names [rpath r]"
    and size: "length (chunks n (map rpath (rs @ r # todo))) \<le> 2 ^ 24"
  shows "\<exists>c' bs' cur'. add_file z buf r c = Some c' \<and>
    corpus_holds z buf pos n given emitted c' (rs @ [r]) bs' cur' \<and>
    store_dir_times c' = store_dir_times c \<and> store_metadata c' = store_metadata c"
proof -
  have h: "blocks_hold z buf pos c bs cur" "file_names cur" "streams_hold given emitted c rs"
    "block_size c = n" "map rpath rs = concat bs @ cur" "list_all (\<lambda>b. length b = n) bs"
    "n = 0 \<longrightarrow> bs = []" "0 < n \<longrightarrow> length cur < n"
    using c by (auto simp add: corpus_holds_def)
  have small: "block_size c = Suc (length cur) \<longrightarrow> length bs < 2 ^ 24"
  proof
    assume "block_size c = Suc (length cur)"
    then have "length (cur @ [rpath r]) = n" "0 < n" using h(4) by simp_all
    then have "chunks n (map rpath (rs @ r # todo)) = bs @ (cur @ [rpath r]) # chunks n (map rpath todo)"
      using chunks_concat [OF h(6) \<open>0 < n\<close>] chunks_append [of "cur @ [rpath r]" n] h(5) by simp
    then show "length bs < 2 ^ 24" using size by simp
  qed
  obtain c1 where 1: "add_name z buf (rpath r) c = Some c1" "streams c1 = streams c"
    "block_size c1 = block_size c"
    "if block_size c = Suc (length cur) then blocks_hold z buf pos c1 (bs @ [cur @ [rpath r]]) []
     else blocks_hold z buf pos c1 bs (cur @ [rpath r])"
    using add_name_holds [OF h(1,2) r small] zstd_laws_block [OF laws] by blast
  obtain c2 where 2: "add_streams z r c1 = Some c2" "streams_hold given emitted c2 (rs @ [r])"
    "blocks_of c2 = blocks_of c1" "store_dir_times c2 = store_dir_times c1"
    "store_metadata c2 = store_metadata c1"
    using add_streams_holds [OF laws, of c1 rs r] h(3) streams_hold_cong [OF 1(2)] by auto
  have f: "add_file z buf r c = Some c2" "store_dir_times c2 = store_dir_times c"
    "store_metadata c2 = store_metadata c" "block_size c2 = n"
    using 1 2 h(4) by (simp_all add: add_file_parts streams_def blocks_of_def)
  note b = blocks_hold_cong [OF 2(3), of z buf pos]
  show ?thesis
  proof (cases "n = Suc (length cur)")
    case True
    with 1(4) 2 h f b have "corpus_holds z buf pos n given emitted c2 (rs @ [r]) (bs @ [cur @ [rpath r]]) []"
      by (simp add: corpus_holds_def file_names_def)
    with f show ?thesis by blast
  next
    case False
    with 1(4) 2 h f b r have "corpus_holds z buf pos n given emitted c2 (rs @ [r]) bs (cur @ [rpath r])"
      by (auto simp add: corpus_holds_def file_names_def intro: Suc_lessI)
    with f show ?thesis by blast
  qed
qed

lemma add_files_holds:
  assumes laws: "zstd_laws given emitted pending decompress z"
    and c: "corpus_holds z buf pos n given emitted c rs bs cur"
    and r: "file_names (map rpath todo)"
    and size: "length (chunks n (map rpath (rs @ todo))) \<le> 2 ^ 24"
  shows "\<exists>c' bs' cur'. add_files z buf todo c = Some c' \<and>
    corpus_holds z buf pos n given emitted c' (rs @ todo) bs' cur' \<and>
    store_dir_times c' = store_dir_times c \<and> store_metadata c' = store_metadata c"
  using c r size
proof (induction todo arbitrary: c rs bs cur)
  case (Cons r todo)
  have "file_names [rpath r]" using Cons.prems(2) by (simp add: file_names_def)
  with add_file_holds [OF laws Cons.prems(1) _ Cons.prems(3)] obtain c' bs' cur' where
    1: "add_file z buf r c = Some c'" "corpus_holds z buf pos n given emitted c' (rs @ [r]) bs' cur'"
    "store_dir_times c' = store_dir_times c" "store_metadata c' = store_metadata c" by blast
  have "file_names (map rpath todo)" "length (chunks n (map rpath ((rs @ [r]) @ todo))) \<le> 2 ^ 24"
    using Cons.prems by (simp_all add: file_names_def)
  from Cons.IH [OF 1(2) this] 1 show ?case by auto
qed auto

lemma finish_blocks_holds:
  assumes laws: "zstd_laws given emitted pending decompress z"
    and c: "corpus_holds z buf pos n given emitted c rs bs cur"
    and size: "length (chunks n (map rpath rs)) \<le> 2 ^ 24"
  shows "\<exists>c'. finish_blocks z buf c = Some c' \<and>
    blocks_hold z buf pos c' (chunks n (map rpath rs)) [] \<and> streams_hold given emitted c' rs \<and>
    store_dir_times c' = store_dir_times c \<and> store_metadata c' = store_metadata c"
proof -
  have h: "blocks_hold z buf pos c bs cur" "file_names cur" "streams_hold given emitted c rs"
    using c by (auto simp add: corpus_holds_def)
  note ch = corpus_holds_chunks [OF c]
  show ?thesis
  proof (cases "cur = []")
    case True
    then have "finish_blocks z buf c = Some c"
      using h(1) by (simp add: finish_blocks_def flush_block_def blocks_hold_def)
    with True h ch show ?thesis by auto
  next
    case False
    with size ch have "length bs < 2 ^ 24" by simp
    with flush_block_holds [OF h(1) False h(2)] zstd_laws_block [OF laws] obtain c' where
      "flush_block z buf c = Some c'" "blocks_hold z buf pos c' (bs @ [cur]) []" "streams c' = streams c"
      by blast
    with False h(3) ch streams_hold_cong [of c' c given emitted] show ?thesis
      by (auto simp add: finish_blocks_def streams_def)
  qed
qed

text \<open>What \<open>DatabaseBuilder\<close> does with a corpus: all files, then \<open>finish\<close>.\<close>

definition build_corpus ::
    "'c zstd \<Rightarrow> mem \<Rightarrow> file_record list \<Rightarrow> 'c encoding_corpus \<Rightarrow> 'c encoding_corpus option" where
  "build_corpus z buf rs c = add_files z buf rs c \<bind> finish_blocks z buf"

lemma concat_chunks [simp]: "concat (chunks n fs) = fs"
  by (induction n fs rule: chunks.induct) auto

lemma chunks_nonempty: "i < length (chunks n fs) \<Longrightarrow> chunks n fs ! i \<noteq> []"
  by (induction n fs arbitrary: i rule: chunks.induct) (auto simp add: nth_Cons' split: if_splits)

lemma new_corpus_holds:
  assumes "given ctx = []" and "emitted ctx = []" and "given ctx' = []" and "emitted ctx' = []"
  shows "corpus_holds z buf pos n given emitted
    (new_encoding_corpus pos n with_times with_meta ctx ctx') [] [] []"
  using assms
  by (auto simp add: corpus_holds_def blocks_hold_def streams_hold_def new_encoding_corpus_def fed_def
      file_names_def block_offsets_def dir_time_bytes_def metadata_bytes_def)

lemma build_corpus_holds:
  assumes "zstd_laws given emitted pending decompress z"
    and "given ctx = []" and "emitted ctx = []" and "given ctx' = []" and "emitted ctx' = []"
    and "file_names (map rpath rs)" and "length (chunks n (map rpath rs)) \<le> 2 ^ 24"
  obtains c where
    "build_corpus z buf rs (new_encoding_corpus pos n with_times with_meta ctx ctx') = Some c"
    "blocks_hold z buf pos c (chunks n (map rpath rs)) []" "streams_hold given emitted c rs"
    "store_dir_times c = with_times" "store_metadata c = with_meta"
proof -
  let ?c = "new_encoding_corpus pos n with_times with_meta ctx ctx'"
  have f: "store_dir_times ?c = with_times" "store_metadata ?c = with_meta"
    by (simp_all add: new_encoding_corpus_def)
  from add_files_holds [OF assms(1) new_corpus_holds [of given ctx emitted ctx', OF assms(2-5)] assms(6)]
    assms(7) f obtain c1 bs cur where
    1: "add_files z buf rs ?c = Some c1" "corpus_holds z buf pos n given emitted c1 rs bs cur"
    "store_dir_times c1 = with_times" "store_metadata c1 = with_meta"
    by (metis append_Nil)
  from finish_blocks_holds [OF assms(1) 1(2) assms(7)] 1 show thesis
    by (auto simp add: build_corpus_def intro: that)
qed

text \<open>The numbers of the blocks that hold a trigram.\<close>

definition blocks_with :: "u32 \<Rightarrow> bytes list list \<Rightarrow> nat list" where
  "blocks_with t bs = filter (\<lambda>i. t \<in> set (names_trigrams (bs ! i))) [0..<length bs]"

lemma remdups_occurrences:
  assumes "length bs \<le> 2 ^ 24"
  shows "remdups_adj (occurrences t 0 bs) = map of_nat (blocks_with t bs)"
proof (rule strict_sorted_equal)
  show "sorted_wrt (<) (remdups_adj (occurrences t 0 bs))"
    using sorted_occurrences [of 0 bs t] assms by (intro sorted_remdups_adj_strict) simp
  have "i < j \<Longrightarrow> j < length bs \<Longrightarrow> of_nat i < (of_nat j :: u32)" for i j
    using assms by (simp add: word_less_nat_alt unat_of_nat_small)
  then have "sorted_wrt (\<lambda>i j. of_nat i < (of_nat j :: u32)) (blocks_with t bs)"
    unfolding blocks_with_def
    by (intro sorted_wrt_filter) (auto simp add: sorted_wrt_iff_nth_less)
  then show "sorted_wrt (<) (map of_nat (blocks_with t bs) :: u32 list)" by (simp add: sorted_wrt_map)
  show "set (remdups_adj (occurrences t 0 bs)) = set (map of_nat (blocks_with t bs) :: u32 list)"
    by (auto simp add: in_occurrences blocks_with_def set_eq_iff)
qed

lemma fed_builder_holds:
  assumes "fed buf (d # ds) = Some (Some b)" and "sorted (d # ds)"
    and "\<And>x. x \<in> set (d # ds) \<Longrightarrow> unat x < 2 ^ 24"
  shows "builder_holds b d (tl (remdups_adj (d # ds)))"
proof -
  have "unat d < 2 ^ 28" using assms(3) [of d] by simp
  then obtain b0 where b0: "add_first_docid buf d new_posting_list_builder = Some b0" "builder_holds b0 d []"
    by (rule add_first_docid_holds [of d buf]) blast
  have "\<exists>b'. add_docids buf ds b0 = Some b' \<and> builder_holds b' d ([] @ tl (remdups_adj (last [d] # ds)))"
    by (rule add_docids_holds [OF b0(2)]) (use assms in auto)
  with b0(1) assms(1) show ?thesis by (auto simp add: fed_def)
qed

lemma finished_list_decodes:
  assumes "fed buf docids = Some (Some b)" and "sorted docids"
    and "\<And>x. x \<in> set docids \<Longrightarrow> unat x < 2 ^ 24"
  shows "\<exists>b' k. finish_posting_list buf' b = Some b' \<and> get_num_docids b' = Some k \<and>
    unat k = length (remdups_adj docids) \<and>
    (\<forall>m p sse2. load m p (length (encoded b')) = encoded b' \<longrightarrow>
      decode_pfor_delta1_128 sse2 m p (unat k) True =
        Some (p + length (encoded b'), remdups_adj docids))"
proof -
  obtain d ds where docids: "docids = d # ds" using assms(1) by (cases docids) (auto simp add: fed_def)
  define rest where "rest = tl (remdups_adj docids)"
  have all: "remdups_adj docids = d # rest" by (simp add: rest_def docids)
  have srt: "sorted_wrt (<) (d # rest)"
    using sorted_remdups_adj_strict [OF assms(2)] by (simp only: all)
  have small: "unat y < 2 ^ 24" if "y \<in> set (d # rest)" for y
    using that assms(3) [of y] by (metis all remdups_adj_set)
  have "builder_holds b d rest"
    using fed_builder_holds [of buf d ds b] assms unfolding docids rest_def by blast
  then obtain b' where b': "finish_posting_list buf' b = Some b'" "list_holds b' d rest"
    by (rule finish_holds [OF _ srt, of b buf']) (use small in auto)
  have "length (d # rest) \<le> 2 ^ 24" by (rule length_small_docids [OF srt small])
  then have k: "unat (of_nat (Suc (length rest)) :: u32) = Suc (length rest)"
    by (intro unat_of_nat_small) simp
  have "get_num_docids b' = Some (of_nat (Suc (length rest)))"
    using b'(2) by (simp add: get_num_docids_def list_holds_def)
  then show ?thesis
    by (intro exI [of _ b'] exI [of _ "of_nat (Suc (length rest))"])
      (simp add: b' k all list_holds_decodes [OF b'(2)] del: of_nat_Suc)
qed

lemma block_sorted_small:
  assumes "length bs \<le> 2 ^ 24"
  shows "sorted (occurrences t 0 bs)" and "x \<in> set (occurrences t 0 bs) \<Longrightarrow> unat x < 2 ^ 24"
  using assms sorted_occurrences [of 0 bs t] by (auto simp add: in_occurrences unat_of_nat_small)

lemma compressed_dir_times_result:
  assumes "zstd_laws given emitted pending decompress z" and "streams_hold given emitted c rs"
  shows "\<exists>ts. get_compressed_dir_times z c = Some ts \<and>
    (if store_dir_times c then decompress ts = dir_time_bytes (map dir_timestamp rs) else ts = [])"
proof -
  obtain x out where x: "compress_buffered z 0 (dir_time_ctx c) (dir_times c) (dir_times_compressed c) =
      Some (x, [], dir_times_compressed c @ out)"
    "given x = given (dir_time_ctx c) @ dir_times c" "emitted x = emitted (dir_time_ctx c) @ out"
    using compress_buffered_total [OF assms(1), of 0 "dir_time_ctx c" "dir_times c"] by fastforce
  obtain y out' where y: "end_compressed z x (dir_times_compressed c @ out) =
      Some (y, (dir_times_compressed c @ out) @ out')" "decompress (emitted x @ out') = given x"
    using end_compressed_total [OF assms(1), of x] by blast
  from x y assms(2) show ?thesis
    by (auto simp add: get_compressed_dir_times_def compress_dir_times_def streams_hold_def)
qed

lemma compressed_metadata_result:
  assumes "zstd_laws given emitted pending decompress z" and "streams_hold given emitted c rs"
  shows "\<exists>ts. get_compressed_metadata z c = Some ts \<and>
    (if store_metadata c then decompress ts = metadata_bytes (map rmetadata rs) else ts = [])"
proof -
  obtain x out where x: "compress_buffered z 0 (metadata_ctx c) (metadata_stream c) (metadata_compressed c) =
      Some (x, [], metadata_compressed c @ out)"
    "given x = given (metadata_ctx c) @ metadata_stream c" "emitted x = emitted (metadata_ctx c) @ out"
    using compress_buffered_total [OF assms(1), of 0 "metadata_ctx c" "metadata_stream c"] by fastforce
  obtain y out' where y: "end_compressed z x (metadata_compressed c @ out) =
      Some (y, (metadata_compressed c @ out) @ out')" "decompress (emitted x @ out') = given x"
    using end_compressed_total [OF assms(1), of x] by blast
  from x y assms(2) show ?thesis
    by (auto simp add: get_compressed_metadata_def compress_metadata_def streams_hold_def)
qed

section \<open>Properties\<close>

text \<open>A compressor that stores its input, for the concrete instances.\<close>

definition storing_zstd :: "bytes zstd" where
  "storing_zstd =
     \<lparr>compress_block = (\<lambda>b. b),
      compress_stream = (\<lambda>ctx buffer n. Some (ctx @ take n buffer, take n buffer, min n (length buffer))),
      end_stream = (\<lambda>ctx n. Some (ctx, [], True))\<rparr>"

lemma storing_zstd_laws: "zstd_laws (\<lambda>ctx. ctx) (\<lambda>ctx. ctx) (\<lambda>_. 0) (\<lambda>b. b) storing_zstd"
  by (auto simp add: zstd_laws_def stream_step_def end_step_def storing_zstd_def min_def)

definition sample_record :: "string \<Rightarrow> file_record" where
  "sample_record name = \<lparr>rpath = str name, dir_timestamp = \<lparr>sec = 5, nsec = 7\<rparr>, rmetadata = no_metadata\<rparr>"

lemma wf_sample: "wf_metadata (rmetadata (sample_record name))"
  by (simp add: sample_record_def wf_metadata_def no_metadata_def no_hash_def wf_hash_def hash_kind_of_byte_def)

text \<open>C20: The corpus builder returns for every list of files with names, without zero bytes, that
  need at most \<open>2 ^ 24\<close> blocks: it counts every file, cuts the names in their order into blocks of
  \<open>block_size\<close> (the last one possibly shorter), and writes for every block, at the offset that it
  records for it, bytes that decompress to the names of the block joined by zero bytes.\<close>
theorem corpus_blocks:
  assumes "zstd_laws given emitted pending decompress z"
    and "given ctx = []" and "emitted ctx = []" and "given ctx' = []" and "emitted ctx' = []"
    and "file_names (map rpath rs)" and "length (chunks n (map rpath rs)) \<le> 2 ^ 24"
  shows "\<exists>c. build_corpus z buf rs (new_encoding_corpus pos n with_times with_meta ctx ctx') = Some c \<and>
    num_files c = length rs \<and> num_blocks c = length (chunks n (map rpath rs)) \<and>
    concat (chunks n (map rpath rs)) = map rpath rs \<and>
    length (filename_blocks c) = num_blocks c \<and>
    (\<forall>i < num_blocks c. \<exists>before block after. written c = before @ block @ after \<and>
      filename_blocks c ! i = pos + of_nat (length before) \<and>
      decompress block = join_names (chunks n (map rpath rs) ! i))"
proof -
  let ?bs = "chunks n (map rpath rs)"
  obtain c where c: "build_corpus z buf rs (new_encoding_corpus pos n with_times with_meta ctx ctx') = Some c"
    "blocks_hold z buf pos c ?bs []"
    by (rule build_corpus_holds [OF assms, of buf pos with_times with_meta]) blast
  have "\<exists>before block after. written c = before @ block @ after \<and>
      filename_blocks c ! i = pos + of_nat (length before) \<and> decompress block = join_names (?bs ! i)"
    if i: "i < length ?bs" for i
  proof (intro exI conjI)
    have "?bs = take i ?bs @ ?bs ! i # drop (Suc i) ?bs" using i by (rule id_take_nth_drop)
    then have "map (compressed_names z) ?bs =
        map (compressed_names z) (take i ?bs) @ compressed_names z (?bs ! i) #
          map (compressed_names z) (drop (Suc i) ?bs)"
      by (metis list.simps(9) map_append)
    then show "written c = concat (map (compressed_names z) (take i ?bs)) @ compressed_names z (?bs ! i) @
        concat (map (compressed_names z) (drop (Suc i) ?bs))"
      using c(2) by (simp add: blocks_hold_def)
    show "filename_blocks c ! i = pos + of_nat (length (concat (map (compressed_names z) (take i ?bs))))"
      using c(2) i by (simp add: blocks_hold_def block_offsets_def)
    have "set (?bs ! i) \<subseteq> set (concat ?bs)" using nth_mem [OF i] by (simp only: set_concat) blast
    then have "set (?bs ! i) \<subseteq> set (map rpath rs)" by (simp only: concat_chunks)
    then have "file_names (?bs ! i)" using assms(6) unfolding file_names_def list_all_iff by blast
    moreover have "?bs ! i \<noteq> []" using i by (rule chunks_nonempty)
    ultimately show "decompress (compressed_names z (?bs ! i)) = join_names (?bs ! i)"
      using zstd_laws_block [OF assms(1)] join_names_not_empty by (simp add: compressed_names_def)
  qed
  with c show ?thesis by (auto simp add: blocks_hold_def block_offsets_def)
qed

lemma corpus_blocks_witness:
  "\<exists>c. build_corpus storing_zstd (\<lambda>_. 0xaa) (map sample_record [''/a'', ''/bin'', ''/c''])
      (new_encoding_corpus 56 2 True True [] []) = Some c \<and> num_blocks c = 2"
proof -
  let ?rs = "map sample_record [''/a'', ''/bin'', ''/c'']"
  have "file_names (map rpath ?rs)" "length (chunks 2 (map rpath ?rs)) = 2"
    by (simp_all add: file_names_def sample_record_def str_def)
  with corpus_blocks [OF storing_zstd_laws, of "[]" "[]" ?rs 2 "\<lambda>_. 0xaa" 56 True True]
  show ?thesis by fastforce
qed

text \<open>C10: The index of the corpus is exact. After all files are added, a trigram has no posting list
  when no block holds it; else finishing its list succeeds, and wherever the bytes of the list
  lie, both decoders return exactly the numbers of the blocks whose names contain the trigram,
  ascending (the names that the block scan indexes, see \<open>block_trigrams_of_names\<close>).\<close>
theorem corpus_index:
  assumes "zstd_laws given emitted pending decompress z"
    and "given ctx = []" and "emitted ctx = []" and "given ctx' = []" and "emitted ctx' = []"
    and "file_names (map rpath rs)" and "length (chunks n (map rpath rs)) \<le> 2 ^ 24"
  shows "\<exists>c. build_corpus z buf rs (new_encoding_corpus pos n with_times with_meta ctx ctx') = Some c \<and>
    (\<forall>t. case invindex c t of
       None \<Rightarrow> blocks_with t (chunks n (map rpath rs)) = []
     | Some b \<Rightarrow>
         \<exists>b' k. finish_posting_list buf' b = Some b' \<and> get_num_docids b' = Some k \<and>
           unat k = length (blocks_with t (chunks n (map rpath rs))) \<and>
           (\<forall>m p sse2. load m p (length (encoded b')) = encoded b' \<longrightarrow>
             decode_pfor_delta1_128 sse2 m p (unat k) True =
               Some (p + length (encoded b'), map of_nat (blocks_with t (chunks n (map rpath rs))))))"
proof -
  let ?bs = "chunks n (map rpath rs)"
  obtain c where c: "build_corpus z buf rs (new_encoding_corpus pos n with_times with_meta ctx ctx') = Some c"
    "blocks_hold z buf pos c ?bs []"
    by (rule build_corpus_holds [OF assms, of buf pos with_times with_meta]) blast
  have fed: "fed buf (occurrences t 0 ?bs) = Some (invindex c t)" for t
    using c(2) by (simp add: blocks_hold_def)
  have "blocks_with t ?bs = []" if "invindex c t = None" for t
  proof -
    from fed [of t] that have "occurrences t 0 ?bs = []" by (auto simp add: fed_def bind_eq_Some_conv split: list.splits)
    then show ?thesis using remdups_occurrences [OF assms(7), of t] by simp
  qed
  moreover have "\<exists>b' k. finish_posting_list buf' b = Some b' \<and> get_num_docids b' = Some k \<and>
      unat k = length (blocks_with t ?bs) \<and>
      (\<forall>m p sse2. load m p (length (encoded b')) = encoded b' \<longrightarrow>
        decode_pfor_delta1_128 sse2 m p (unat k) True =
          Some (p + length (encoded b'), map of_nat (blocks_with t ?bs)))"
    if "invindex c t = Some b" for t b
    using finished_list_decodes [of buf "occurrences t 0 ?bs" b buf'] fed [of t] that
      block_sorted_small [OF assms(7), where t = t] remdups_occurrences [OF assms(7), of t] by simp
  ultimately show ?thesis using c(1) by (auto split: option.split)
qed

lemma corpus_index_witness:
  "\<exists>c. build_corpus storing_zstd (\<lambda>_. 0xaa) (map sample_record [''/a'', ''/bin'', ''/c''])
      (new_encoding_corpus 56 2 True True [] []) = Some c \<and>
    invindex c (trigram_of 47 98 105) \<noteq> None"
proof -
  let ?rs = "map sample_record [''/a'', ''/bin'', ''/c'']"
  have f: "file_names (map rpath ?rs)"
    "chunks 2 (map rpath ?rs) = [[str ''/a'', str ''/bin''], [str ''/c'']]"
    by (simp_all add: file_names_def sample_record_def str_def)
  have "blocks_with (trigram_of 47 98 105) [[str ''/a'', str ''/bin''], [str ''/c'']] \<noteq> []"
    by (simp add: blocks_with_def names_trigrams_def indexed_names_def str_def)
  with f corpus_index [OF storing_zstd_laws, of "[]" "[]" ?rs 2 "\<lambda>_. 0xaa" 56 True True "\<lambda>_. 0"]
  show ?thesis by (fastforce split: option.splits)
qed

text \<open>Nothing of the two per-file streams is lost in the buffered compression: after all files
  are added, both streams can be ended (the code's assertion that the buffer is empty holds);
  the first decompresses to the time stamps of all files in order, and the second, decoded record
  by record, to the metadata of all files in order. A stream that is not stored is empty.\<close>
theorem corpus_streams_roundtrip:
  assumes "zstd_laws given emitted pending decompress z"
    and "given ctx = []" and "emitted ctx = []" and "given ctx' = []" and "emitted ctx' = []"
    and "file_names (map rpath rs)" and "length (chunks n (map rpath rs)) \<le> 2 ^ 24"
    and "list_all wf_metadata (map rmetadata rs)"
  shows "\<exists>c ts ms. build_corpus z buf rs (new_encoding_corpus pos n with_times with_meta ctx ctx') = Some c \<and>
    get_compressed_dir_times z c = Some ts \<and> get_compressed_metadata z c = Some ms \<and>
    (if with_times then decompress ts = concat (map (encode_dir_time \<circ> dir_timestamp) rs) else ts = []) \<and>
    (if with_meta then decode_records (decompress ms) = map rmetadata rs else ms = [])"
proof -
  obtain c where c: "build_corpus z buf rs (new_encoding_corpus pos n with_times with_meta ctx ctx') = Some c"
    "streams_hold given emitted c rs" "store_dir_times c = with_times" "store_metadata c = with_meta"
    by (rule build_corpus_holds [OF assms(1-7), of buf pos with_times with_meta]) blast
  obtain ts ms where t: "get_compressed_dir_times z c = Some ts"
      "if with_times then decompress ts = dir_time_bytes (map dir_timestamp rs) else ts = []"
    and m: "get_compressed_metadata z c = Some ms"
      "if with_meta then decompress ms = metadata_bytes (map rmetadata rs) else ms = []"
    using compressed_dir_times_result [OF assms(1) c(2)] compressed_metadata_result [OF assms(1) c(2)] c(3,4)
    by metis
  have "decode_records (metadata_bytes (map rmetadata rs)) = map rmetadata rs"
    using records.dec_all_concat [of "map rmetadata rs" "[]"] assms(8) records.dec_Nil
    by (auto simp add: metadata_bytes_def list_all_iff)
  with c(1) t m show ?thesis
    by (intro exI [of _ c] exI [of _ ts] exI [of _ ms]) (simp add: dir_time_bytes_def comp_def)
qed

lemma corpus_streams_roundtrip_witness:
  "\<exists>c ms. build_corpus storing_zstd (\<lambda>_. 0xaa) (map sample_record [''/a'', ''/bin'', ''/c''])
      (new_encoding_corpus 56 2 False True [] []) = Some c \<and>
    get_compressed_dir_times storing_zstd c = Some [] \<and>
    get_compressed_metadata storing_zstd c = Some ms \<and> decode_records ms = [no_metadata, no_metadata, no_metadata]"
proof -
  let ?rs = "map sample_record [''/a'', ''/bin'', ''/c'']"
  have "file_names (map rpath ?rs)" "length (chunks 2 (map rpath ?rs)) \<le> 2 ^ 24"
    "list_all wf_metadata (map rmetadata ?rs)" "map rmetadata ?rs = [no_metadata, no_metadata, no_metadata]"
    using wf_sample by (simp_all add: file_names_def sample_record_def str_def)
  with corpus_streams_roundtrip [OF storing_zstd_laws, of "[]" "[]" ?rs 2 "\<lambda>_. 0xaa" 56 False True]
  show ?thesis by fastforce
qed

end
