(* ===== verification/Search_Lookup.thy ===== *)
theory Search_Lookup
  imports Search_Correct Corpus_Correct
begin

text \<open>
  From the needles to the candidates: what the hash-table lookups make of the groups, and the
  composition of the index with the search. A file that matches all needles lies in a candidate
  block, so the verification of the candidates finds it.
\<close>

section \<open>Lookups\<close>

text \<open>The groups \<open>gs\<close> after the trigrams in \<open>P\<close> have been looked up.\<close>

definition looked_up_state ::
    "(u32 \<Rightarrow> (trigram \<times> u64) option) \<Rightarrow> u32 set \<Rightarrow> trigram_disjunction \<Rightarrow> trigram_disjunction \<Rightarrow> bool" where
  "looked_up_state lookup P td0 td \<longleftrightarrow>
     trigram_alternatives td = trigram_alternatives td0 \<and> docids td = [] \<and>
     unat (remaining_trigrams_to_read td) = card (set (trigram_alternatives td0) - P) \<and>
     distinct (read_trigrams td) \<and>
     set (read_trigrams td) = {x. \<exists>t \<in> set (trigram_alternatives td0) \<inter> P. lookup t = Some x}"

definition fresh_group :: "trigram_disjunction \<Rightarrow> bool" where
  "fresh_group td \<longleftrightarrow> distinct (trigram_alternatives td) \<and> trigram_alternatives td \<noteq> [] \<and>
     length (trigram_alternatives td) < 2 ^ 32 \<and> read_trigrams td = [] \<and> docids td = [] \<and>
     remaining_trigrams_to_read td = of_nat (length (trigram_alternatives td))"

definition group_missing :: "(u32 \<Rightarrow> (trigram \<times> u64) option) \<Rightarrow> trigram_disjunction \<Rightarrow> bool" where
  "group_missing lookup td \<longleftrightarrow> (\<forall>t \<in> set (trigram_alternatives td). lookup t = None)"

definition entries_named :: "(u32 \<Rightarrow> (trigram \<times> u64) option) \<Rightarrow> bool" where
  "entries_named lookup \<longleftrightarrow> (\<forall>t x. lookup t = Some x \<longrightarrow> trgm (fst x) = t)"

lemma no_image: "{x. \<exists>t \<in> S. f t = Some x} = {} \<longleftrightarrow> (\<forall>t \<in> S. f t = None)"
proof
  show "\<forall>t \<in> S. f t = None" if "{x. \<exists>t \<in> S. f t = Some x} = {}"
  proof
    fix t assume "t \<in> S"
    with that show "f t = None" by (cases "f t") auto
  qed
qed simp

lemma looked_up_group:
  assumes g: "looked_up_state lookup P td0 td" and t: "t \<in> set (trigram_alternatives td0)" "t \<notin> P"
    and n: "entries_named lookup"
    and r: "looked_up (lookup t) td = (td', over)"
  shows "looked_up_state lookup (insert t P) td0 td' \<and>
    over = (set (trigram_alternatives td0) \<subseteq> insert t P \<and> group_missing lookup td0)"
proof -
  let ?A = "set (trigram_alternatives td0)"
  have card: "card (?A - P) = Suc (card (?A - insert t P))"
  proof -
    have "card (?A - P) = Suc (card (?A - P - {t}))" by (rule card.remove) (use t in auto)
    then show ?thesis by (simp only: Diff_insert [of ?A t P])
  qed
  have u: "unat (remaining_trigrams_to_read td) = Suc (card (?A - insert t P))"
    using g card by (simp add: looked_up_state_def)
  then have "remaining_trigrams_to_read td \<noteq> 0" by auto
  then have rem: "unat (remaining_trigrams_to_read td - 1) = card (?A - insert t P)"
    using u by (simp add: unat_minus_one)
  have zero: "remaining_trigrams_to_read td - 1 = 0 \<longleftrightarrow> ?A \<subseteq> insert t P"
    using rem unat_eq_zero [of "remaining_trigrams_to_read td - 1"] by (auto simp add: card_eq_0_iff)
  show ?thesis
  proof (cases "lookup t")
    case None
    have reads: "set (read_trigrams td) = {x. \<exists>t' \<in> ?A \<inter> insert t P. lookup t' = Some x}"
      using g None unfolding looked_up_state_def by auto
    have "read_trigrams td = [] \<and> ?A \<subseteq> insert t P \<longleftrightarrow> ?A \<subseteq> insert t P \<and> group_missing lookup td0"
    proof -
      have "read_trigrams td = [] \<longleftrightarrow> (\<forall>t' \<in> ?A \<inter> insert t P. lookup t' = None)"
        unfolding set_empty [symmetric] reads by (rule no_image)
      then show ?thesis unfolding group_missing_def by (cases "?A \<subseteq> insert t P") (auto simp add: Int_absorb2)
    qed
    with r None g reads rem zero show ?thesis
      by (auto simp add: looked_up_def looked_up_state_def Let_def)
  next
    case (Some x)
    obtain e len where x: "x = (e, len)" by (cases x)
    have new: "x \<notin> set (read_trigrams td)"
    proof
      assume "x \<in> set (read_trigrams td)"
      then obtain t' where "t' \<in> P" "lookup t' = Some x" using g unfolding looked_up_state_def by auto
      with Some n t(2) show False unfolding entries_named_def by metis
    qed
    have miss: "\<not> group_missing lookup td0" using Some t(1) unfolding group_missing_def by fastforce
    have "set (read_trigrams td @ [x]) = {x. \<exists>t' \<in> ?A \<inter> insert t P. lookup t' = Some x}"
      using g Some t(1) unfolding looked_up_state_def by auto
    with r Some x g new rem miss show ?thesis
      by (auto simp add: looked_up_def looked_up_state_def)
  qed
qed

definition groups_looked_up where
  "groups_looked_up lookup P gs0 gs \<longleftrightarrow> length gs = length gs0 \<and>
     (\<forall>j < length gs0. looked_up_state lookup (P j) (gs0 ! j) (gs ! j))"

definition some_missing :: "(u32 \<Rightarrow> (trigram \<times> u64) option) \<Rightarrow> (nat \<Rightarrow> u32 set) \<Rightarrow> trigram_disjunction list \<Rightarrow> bool" where
  "some_missing lookup P gs0 \<longleftrightarrow>
     (\<exists>j < length gs0. set (trigram_alternatives (gs0 ! j)) \<subseteq> P j \<and> group_missing lookup (gs0 ! j))"

lemma looked_up_all_groups:
  assumes "groups_looked_up lookup P gs0 gs" and n: "entries_named lookup" and "distinct is"
    and "\<And>i. i \<in> set is \<Longrightarrow> i < length gs0 \<and> t \<in> set (trigram_alternatives (gs0 ! i)) \<and> t \<notin> P i"
    and "looked_up_all (lookup t) is (gs, early) = (gs', early')"
    and "early = some_missing lookup P gs0"
  shows "groups_looked_up lookup (\<lambda>j. if j \<in> set is then insert t (P j) else P j) gs0 gs' \<and>
    early' = some_missing lookup (\<lambda>j. if j \<in> set is then insert t (P j) else P j) gs0"
  using assms(1,3-6)
proof (induction "is" arbitrary: P gs early)
  case (Cons i "is")
  obtain td over where r: "looked_up (lookup t) (gs ! i) = (td, over)" by (cases "looked_up (lookup t) (gs ! i)")
  let ?P = "P(i := insert t (P i))"
  have i: "i < length gs0" "t \<in> set (trigram_alternatives (gs0 ! i))" "t \<notin> P i" using Cons.prems(3) [of i] by auto
  have g: "looked_up_state lookup (P i) (gs0 ! i) (gs ! i)" and len: "length gs = length gs0"
    using Cons.prems(1) i(1) by (auto simp add: groups_looked_up_def)
  note one = looked_up_group [OF g i(2,3) n r]
  have 1: "groups_looked_up lookup ?P gs0 (gs[i := td])"
    using Cons.prems(1) one len i(1) by (auto simp add: groups_looked_up_def nth_list_update)
  have 2: "(early \<or> over) = some_missing lookup ?P gs0"
    using Cons.prems(5) one i by (auto simp add: some_missing_def split: if_splits)
  have d: "looked_up_all (lookup t) is (gs[i := td], early \<or> over) = (gs', early')"
    using Cons.prems(4) r by simp
  have P: "(\<lambda>j. if j \<in> set is then insert t (?P j) else ?P j) =
      (\<lambda>j. if j \<in> set (i # is) then insert t (P j) else P j)"
    using Cons.prems(2) by (auto simp add: fun_eq_iff)
  have "groups_looked_up lookup (\<lambda>j. if j \<in> set is then insert t (?P j) else ?P j) gs0 gs' \<and>
    early' = some_missing lookup (\<lambda>j. if j \<in> set is then insert t (?P j) else ?P j) gs0"
    by (rule Cons.IH [OF 1 _ _ d 2]) (use Cons.prems(2,3) in auto)
  then show ?case unfolding P .
qed simp

lemma groups_looked_up_cong:
  assumes "\<And>j. j < length gs0 \<Longrightarrow>
    set (trigram_alternatives (gs0 ! j)) \<inter> P j = set (trigram_alternatives (gs0 ! j)) \<inter> Q j"
  shows "groups_looked_up lookup P gs0 gs = groups_looked_up lookup Q gs0 gs"
    and "some_missing lookup P gs0 = some_missing lookup Q gs0"
proof -
  have d: "set (trigram_alternatives (gs0 ! j)) - P j = set (trigram_alternatives (gs0 ! j)) - Q j"
    and s: "set (trigram_alternatives (gs0 ! j)) \<subseteq> P j \<longleftrightarrow> set (trigram_alternatives (gs0 ! j)) \<subseteq> Q j"
    if "j < length gs0" for j
    using assms [OF that] by blast+
  show "groups_looked_up lookup P gs0 gs = groups_looked_up lookup Q gs0 gs"
    using d assms by (simp add: groups_looked_up_def looked_up_state_def cong: conj_cong)
  show "some_missing lookup P gs0 = some_missing lookup Q gs0"
    using s by (auto simp add: some_missing_def)
qed

lemma look_up_groups:
  assumes "groups_looked_up lookup (\<lambda>_. P) gs0 gs" and n: "entries_named lookup"
    and "distinct ts" and "set ts \<inter> P = {}" and f: "list_all fresh_group gs0"
    and "look_up lookup ts (gs, early) = (gs', early')" and "early = some_missing lookup (\<lambda>_. P) gs0"
  shows "groups_looked_up lookup (\<lambda>_. P \<union> set ts) gs0 gs' \<and>
    early' = some_missing lookup (\<lambda>_. P \<union> set ts) gs0"
  using assms(1,3,4,6,7)
proof (induction ts arbitrary: P gs early)
  case (Cons t ts)
  obtain gs1 early1 where r: "looked_up_all (lookup t) (uses_trigram gs t) (gs, early) = (gs1, early1)"
    by (cases "looked_up_all (lookup t) (uses_trigram gs t) (gs, early)")
  have len: "length gs = length gs0" using Cons.prems(1) by (simp add: groups_looked_up_def)
  have alts: "trigram_alternatives (gs ! j) = trigram_alternatives (gs0 ! j)" if "j < length gs0" for j
    using Cons.prems(1) that by (simp add: groups_looked_up_def looked_up_state_def)
  have "distinct (trigram_alternatives td)" if "td \<in> set gs" for td
  proof -
    from that obtain j where "td = gs ! j" "j < length gs0" unfolding in_set_conv_nth len by blast
    with alts f show ?thesis by (simp add: list_all_length fresh_group_def)
  qed
  then have u: "uses_trigram gs t = filter (\<lambda>i. t \<in> set (trigram_alternatives (gs ! i))) [0..<length gs]"
    by (rule uses_trigram_distinct)
  have ui: "i \<in> set (uses_trigram gs t) \<longleftrightarrow> i < length gs0 \<and> t \<in> set (trigram_alternatives (gs0 ! i))" for i
    unfolding u using alts len by auto
  have "t \<notin> P" using Cons.prems(3) by simp
  let ?P = "\<lambda>j. if j \<in> set (uses_trigram gs t) then insert t P else P"
  have "groups_looked_up lookup ?P gs0 gs1 \<and> early1 = some_missing lookup ?P gs0"
    by (rule looked_up_all_groups [OF Cons.prems(1) n _ _ r Cons.prems(5)])
      (use ui \<open>t \<notin> P\<close> u in auto)
  moreover have "set (trigram_alternatives (gs0 ! j)) \<inter> ?P j = set (trigram_alternatives (gs0 ! j)) \<inter> insert t P"
    if "j < length gs0" for j using ui that by auto
  note groups_looked_up_cong [of gs0 ?P "\<lambda>_. insert t P", OF this]
  ultimately have 1: "groups_looked_up lookup (\<lambda>_. insert t P) gs0 gs1"
    "early1 = some_missing lookup (\<lambda>_. insert t P) gs0" by simp_all
  have "look_up lookup ts (gs1, early1) = (gs', early')" using r Cons.prems(4) by simp
  from Cons.IH [OF 1(1) _ _ this 1(2)] Cons.prems(2,3) show ?case by auto
qed simp

lemma fresh_looked_up:
  assumes "list_all fresh_group gs0"
  shows "groups_looked_up lookup (\<lambda>_. {}) gs0 gs0" and "\<not> some_missing lookup (\<lambda>_. {}) gs0"
proof -
  have f: "fresh_group (gs0 ! j)" if "j < length gs0" for j using assms that by (simp add: list_all_length)
  then show "groups_looked_up lookup (\<lambda>_. {}) gs0 gs0"
    by (auto simp add: groups_looked_up_def looked_up_state_def fresh_group_def distinct_card unat_of_nat_small)
  show "\<not> some_missing lookup (\<lambda>_. {}) gs0" using f by (auto simp add: some_missing_def fresh_group_def)
qed

text \<open>All lookups done: the early exit is exact, and the groups are ready for the search loop.\<close>

lemma looked_up_groups_ok:
  assumes f: "list_all fresh_group gs0" and n: "entries_named lookup" and "distinct ts"
    and all: "\<And>td. td \<in> set gs0 \<Longrightarrow> set (trigram_alternatives td) \<subseteq> set ts"
    and r: "look_up lookup ts (gs0, False) = (gs, early)"
  shows "early = (\<exists>td \<in> set gs0. group_missing lookup td)"
    and "\<not> early \<Longrightarrow> list_all (group_ok lookup) (map reset_for_reads gs)"
    and "map trigram_alternatives gs = map trigram_alternatives gs0"
proof -
  have *: "groups_looked_up lookup (\<lambda>_. set ts) gs0 gs \<and> early = some_missing lookup (\<lambda>_. set ts) gs0"
    using look_up_groups [OF fresh_looked_up(1) [OF f] n assms(3) _ f r] fresh_looked_up(2) [OF f] by simp
  have sub: "set (trigram_alternatives (gs0 ! j)) \<subseteq> set ts" if "j < length gs0" for j using all that by simp
  show e: "early = (\<exists>td \<in> set gs0. group_missing lookup td)"
    using * sub unfolding some_missing_def by (metis in_set_conv_nth)
  have len: "length gs = length gs0" using * by (simp add: groups_looked_up_def)
  have st: "looked_up_state lookup (set ts) (gs0 ! j) (gs ! j)" if "j < length gs0" for j
    using * that by (simp add: groups_looked_up_def)
  show "map trigram_alternatives gs = map trigram_alternatives gs0"
  proof (rule nth_equalityI)
    fix j assume "j < length (map trigram_alternatives gs)"
    with len st [of j] show "map trigram_alternatives gs ! j = map trigram_alternatives gs0 ! j"
      unfolding looked_up_state_def by simp
  qed (simp add: len)
  show "list_all (group_ok lookup) (map reset_for_reads gs)" if early: "\<not> early"
  proof -
    have "group_ok lookup (reset_for_reads (gs ! j))" if j: "j < length gs0" for j
    proof -
      let ?A = "set (trigram_alternatives (gs0 ! j))"
      have fr: "distinct (trigram_alternatives (gs0 ! j))" "length (trigram_alternatives (gs0 ! j)) < 2 ^ 32"
        using f j by (auto simp add: list_all_length fresh_group_def)
      have "?A \<inter> set ts = ?A" using sub [OF j] by blast
      with st [OF j] have g: "trigram_alternatives (gs ! j) = trigram_alternatives (gs0 ! j)"
        "docids (gs ! j) = []" "distinct (read_trigrams (gs ! j))"
        "set (read_trigrams (gs ! j)) = {x. \<exists>t \<in> ?A. lookup t = Some x}"
        unfolding looked_up_state_def by simp_all
      have "\<not> group_missing lookup (gs0 ! j)" using early e j by auto
      then have ne: "read_trigrams (gs ! j) \<noteq> []"
        unfolding set_empty [symmetric] g(4) no_image group_missing_def .
      have "set (read_trigrams (gs ! j)) \<subseteq> (\<lambda>t. the (lookup t)) ` ?A" unfolding g(4) by force
      then have "card (set (read_trigrams (gs ! j))) \<le> card ?A"
        by (meson List.finite_set card_image_le card_mono finite_imageI order_trans)
      then have "length (read_trigrams (gs ! j)) < 2 ^ 32"
        using fr g(3) by (simp add: distinct_card)
      with g fr(1) ne show ?thesis by (simp add: group_ok_def reset_for_reads_def)
    qed
    with len show ?thesis by (simp add: list_all_length)
  qed
qed

end
