(* ===== verification/Search_Complete.thy ===== *)
theory Search_Complete
  imports Search_Lookup
begin

text \<open>
  The composition of the index with the search: for plain needles, the block of every file that
  matches all of them is among the candidates that are verified in the end.
\<close>

section \<open>The groups of plain needles\<close>

lemma set_unique_groups [simp]: "set (unique_groups gs) = set gs"
  by (simp add: unique_groups_def)

lemma length_name_groups [simp]: "length (name_groups gs) = length gs"
  by (simp add: name_groups_def)

lemma name_groups_nth: "i < length gs \<Longrightarrow> name_groups gs ! i = (gs ! i)\<lparr>td_index := of_nat i\<rparr>"
  by (simp add: name_groups_def)

lemma in_name_groups: "td \<in> set (name_groups gs) \<Longrightarrow> \<exists>td0 \<in> set gs. \<exists>i. td = td0\<lparr>td_index := i\<rparr>"
  unfolding in_set_conv_nth length_name_groups using name_groups_nth by (metis nth_mem)

definition plain_needle :: "needle \<Rightarrow> bool" where
  "plain_needle nd \<longleftrightarrow> n_type nd = STRSTR \<and> backslash \<notin> set (n_str nd)"

lemma in_needle_groups:
  assumes "td \<in> set (needle_groups needles)"
  shows "\<exists>nd g i. nd \<in> set needles \<and> g \<in> set (parse_trigrams_case_sensitive (n_str nd)) \<and>
    td = (new_group g)\<lparr>td_index := i\<rparr>"
proof -
  from in_name_groups [OF assms [unfolded needle_groups_def], unfolded set_unique_groups] obtain td0 i where
    "td0 \<in> set (map new_group (concat (map (parse_trigrams_case_sensitive \<circ> n_str) needles)))"
    "td = td0\<lparr>td_index := i\<rparr>" by blast
  then show ?thesis by auto
qed

lemma parse_trigrams_singletons: "g \<in> set (parse_trigrams_from needle i) \<Longrightarrow> \<exists>t. g = [t]"
proof (induction needle i rule: parse_trigrams_from.induct)
  case (1 needle i)
  then show ?case by (subst (asm) (2) parse_trigrams_from.simps) (auto simp add: Let_def split: if_splits)
qed

lemma needle_group_single:
  assumes "td \<in> set (needle_groups needles)"
  shows "\<exists>t. trigram_alternatives td = [t]" and "fresh_group td"
proof -
  from in_needle_groups [OF assms] obtain nd g i where
    td: "nd \<in> set needles" "g \<in> set (parse_trigrams_case_sensitive (n_str nd))" "td = (new_group g)\<lparr>td_index := i\<rparr>" by blast
  obtain t where "g = [t]"
    using parse_trigrams_singletons td(2) unfolding parse_trigrams_case_sensitive_def by blast
  with td(3) show "\<exists>t. trigram_alternatives td = [t]" "fresh_group td"
    by (simp_all add: new_group_def fresh_group_def)
qed

section \<open>The index of a corpus\<close>

text \<open>
  What the database of a corpus with the blocks \<open>bs\<close> answers (the lookups by \<open>find_trigram\<close> and
  the decoded posting lists): see \<open>corpus_index\<close> and \<open>hashtable_lookup\<close>.
\<close>

definition index_of ::
    "bytes list list \<Rightarrow> (u32 \<Rightarrow> (trigram \<times> u64) option) \<Rightarrow> (trigram \<times> u64 \<Rightarrow> u32 list) \<Rightarrow> bool" where
  "index_of bs lookup posting \<longleftrightarrow>
     (\<forall>t. case lookup t of
        None \<Rightarrow> blocks_with t bs = []
      | Some x \<Rightarrow> trgm (fst x) = t \<and> posting x = map of_nat (blocks_with t bs))"

lemma index_of_laws:
  assumes "index_of bs lookup posting" and "length bs \<le> 2 ^ 24"
  shows "lookup_ok lookup posting" and "entries_named lookup"
proof -
  have "sorted_wrt (<) (map of_nat (blocks_with t bs) :: u32 list)" for t
    using remdups_occurrences [OF assms(2), of t] block_sorted_small(1) [OF assms(2), of t]
    by (metis sorted_remdups_adj_strict)
  moreover have "trgm (fst x) = t \<and> posting x = map of_nat (blocks_with t bs)" if "lookup t = Some x" for t x
    using spec [OF assms(1) [unfolded index_of_def], of t] that by simp
  ultimately show "lookup_ok lookup posting" "entries_named lookup"
    unfolding lookup_ok_def entries_named_def by metis+
qed

lemma index_of_block:
  assumes "index_of bs lookup posting" and "t \<in> set (names_trigrams (bs ! i))" and "i < length bs"
  shows "\<exists>x. lookup t = Some x \<and> of_nat i \<in> set (posting x)"
proof -
  have "i \<in> set (blocks_with t bs)" using assms(2,3) by (simp add: blocks_with_def)
  with spec [OF assms(1) [unfolded index_of_def], of t] show ?thesis by (cases "lookup t") auto
qed

lemma file_block_in_groups:
  assumes ix: "index_of bs lookup posting" and i: "i < length bs"
    and f: "dir @ haystack \<in> set (indexed_names (bs ! i))"
    and plain: "list_all plain_needle needles"
    and m: "list_all (\<lambda>nd. matches fnmatch regexec ic nd haystack) needles"
    and td: "td \<in> set (needle_groups needles)"
  shows "\<exists>t x. trigram_alternatives td = [t] \<and> lookup t = Some x \<and> of_nat i \<in> set (posting x)"
proof -
  from in_needle_groups [OF td] obtain nd g j where
    nd: "nd \<in> set needles" "g \<in> set (parse_trigrams_case_sensitive (n_str nd))"
    "td = (new_group g)\<lparr>td_index := j\<rparr>" by blast
  have "n_type nd = STRSTR" "backslash \<notin> set (n_str nd)" "matches fnmatch regexec ic nd haystack"
    using plain m nd(1) by (auto simp add: list_all_iff plain_needle_def)
  from required_trigram_occurs [OF this(1,2) nd(2) this(3), of dir] obtain t where
    t: "g = [t]" "t \<in> set (file_trigrams (dir @ haystack))" by blast
  then have "t \<in> set (names_trigrams (bs ! i))" using f by (auto simp add: names_trigrams_def)
  from index_of_block [OF ix this i] t(1) nd(3) show ?thesis by (auto simp add: new_group_def)
qed

lemma index_finds_block:
  assumes "index_of bs lookup posting" and "length bs \<le> 2 ^ 24"
    and "list_all plain_needle needles" and "needle_groups needles \<noteq> []"
    and "distinct ts" and "set ts = (\<Union>td \<in> set (needle_groups needles). set (trigram_alternatives td))"
    and "i < length bs" and "dir @ haystack \<in> set (indexed_names (bs ! i))"
    and "list_all (\<lambda>nd. matches fnmatch regexec ic nd haystack) needles"
  shows "\<exists>gs. look_up lookup ts (needle_groups needles, False) = (gs, False) \<and>
    (\<forall>gs' s. mset gs' = mset (map reset_for_reads gs) \<and> reachable False posting (start_search gs') s \<and>
       phase s = Search_Over \<longrightarrow> \<not> search_done s \<and> of_nat i \<in> set (cur_candidates s))"
proof -
  note laws = index_of_laws [OF assms(1,2)]
  note hit = file_block_in_groups [OF assms(1,7,8,3,9)]
  obtain gs early where r: "look_up lookup ts (needle_groups needles, False) = (gs, early)"
    by (cases "look_up lookup ts (needle_groups needles, False)")
  have fresh: "list_all fresh_group (needle_groups needles)"
    using needle_group_single(2) by (auto simp add: list_all_iff)
  have sub: "set (trigram_alternatives td) \<subseteq> set ts" if "td \<in> set (needle_groups needles)" for td
    using that assms(6) by blast
  have "early = (\<exists>td \<in> set (needle_groups needles). group_missing lookup td)"
    by (rule looked_up_groups_ok(1) [OF fresh laws(2) assms(5) _ r]) (rule sub)
  then have early: "\<not> early" using hit unfolding group_missing_def by fastforce
  have ok: "list_all (group_ok lookup) (map reset_for_reads gs)"
    by (rule looked_up_groups_ok(2) [OF fresh laws(2) assms(5) _ r]) (rule sub, assumption, rule early)
  have alts: "map trigram_alternatives gs = map trigram_alternatives (needle_groups needles)"
    by (rule looked_up_groups_ok(3) [OF fresh laws(2) assms(5) _ r]) (rule sub)
  have "\<not> search_done s \<and> of_nat i \<in> set (cur_candidates s)"
    if run: "mset gs' = mset (map reset_for_reads gs)" "reachable False posting (start_search gs') s"
      "phase s = Search_Over" for gs' s
  proof -
    have set: "set gs' = set (map reset_for_reads gs)" using run(1) by (rule mset_eq_setD)
    have ok': "list_all (group_ok lookup) gs'" using ok unfolding list_all_iff set .
    have "length gs = length (needle_groups needles)" using alts by (metis length_map)
    with assms(4) run(1) have ne: "gs' \<noteq> []" by auto
    have "of_nat i \<in> group_blocks posting td" if td: "td \<in> set gs'" for td
    proof -
      from td set obtain td1 where td1: "td1 \<in> set gs" "td = reset_for_reads td1" by auto
      then have "trigram_alternatives td1 \<in> set (map trigram_alternatives (needle_groups needles))"
        unfolding alts [symmetric] by simp
      then obtain td0 where "td0 \<in> set (needle_groups needles)"
        "trigram_alternatives td1 = trigram_alternatives td0" by auto
      with hit obtain t x where x: "trigram_alternatives td = [t]" "lookup t = Some x" "of_nat i \<in> set (posting x)"
        using td1(2) by (metis reset_for_reads_def trigram_disjunction.ext_inject
            trigram_disjunction.surjective trigram_disjunction.update_convs(6))
      have "group_ok lookup td" using ok' td by (simp add: list_all_iff)
      then have "x \<in> set (read_trigrams td)" using x(1,2) unfolding group_ok_def by simp
      with x(3) show ?thesis by (auto simp add: group_blocks_def)
    qed
    then have "of_nat i \<in> common_blocks posting gs'" by (simp add: common_blocks_def)
    with search_over [OF ok' laws(1) ne run(2,3)] show ?thesis by (auto split: if_splits)
  qed
  with r early show ?thesis by auto
qed

section \<open>Properties\<close>

text \<open>The search loses no match. Let the index be that of a corpus, the needles plain strings
  without backslashes with at least one trigram among them. When a file that the index scan covers
  matches all needles (on its whole name or on its last component), then the lookups, completing
  in any order, find every group, and in every run of the search loop (any order of the groups of
  equal size, any completion order of the reads) that ends, the block of the file is a candidate.\<close>
theorem search_finds_block:
  assumes "index_of bs lookup posting" and "length bs \<le> 2 ^ 24"
    and "list_all plain_needle needles" and "needle_groups needles \<noteq> []"
    and "distinct ts" and "set ts = (\<Union>td \<in> set (needle_groups needles). set (trigram_alternatives td))"
    and "i < length bs" and "dir @ haystack \<in> set (indexed_names (bs ! i))"
    and "list_all (\<lambda>nd. matches fnmatch regexec ic nd haystack) needles"
  shows "\<exists>gs. look_up lookup ts (needle_groups needles, False) = (gs, False) \<and>
    (\<forall>gs' s. mset gs' = mset (map reset_for_reads gs) \<and> reachable False posting (start_search gs') s \<and>
       phase s = Search_Over \<longrightarrow> \<not> search_done s \<and> of_nat i \<in> set (cur_candidates s))"
  using assms by (rule index_finds_block)

text \<open>An index for the concrete instances: the block of \<open>/abc\<close> and \<open>/d\<close>.\<close>

definition sample_blocks :: "bytes list list" where
  "sample_blocks = [[str ''/abc'', str ''/d'']]"

definition sample_lookup :: "u32 \<Rightarrow> (trigram \<times> u64) option" where
  "sample_lookup t =
     (if blocks_with t sample_blocks = [] then None
      else Some (\<lparr>trgm = t, num_docids = of_nat (length (blocks_with t sample_blocks)), tr_offset = 0\<rparr>, 0))"

definition sample_posting :: "trigram \<times> u64 \<Rightarrow> u32 list" where
  "sample_posting x = map of_nat (blocks_with (trgm (fst x)) sample_blocks)"

definition abc_needle :: needle where
  "abc_needle = \<lparr>n_type = STRSTR, n_str = str ''abc''\<rparr>"

lemma sample_index: "index_of sample_blocks sample_lookup sample_posting"
  by (simp add: index_of_def sample_lookup_def sample_posting_def)

lemma abc_groups: "needle_groups [abc_needle] = [(new_group [trigram_of 97 98 99])\<lparr>td_index := 0\<rparr>]"
  by (simp add: needle_groups_def abc_needle_def str_def parse_trigrams_case_sensitive_def
      parse_trigrams_from.simps read_trigram_def read_unigram_def WILDCARD_UNIGRAM_def
      PREMATURE_END_UNIGRAM_def trigram_of_def Let_def unique_groups_def name_groups_def)

lemma abc_plain: "plain_needle abc_needle"
  by (simp add: plain_needle_def abc_needle_def str_def)

lemma abc_block: "sample_lookup (trigram_of 97 98 99) \<noteq> None"
  by (simp add: sample_lookup_def sample_blocks_def blocks_with_def names_trigrams_def indexed_names_def str_def)

lemma search_finds_block_witness:
  "\<exists>gs. look_up sample_lookup [trigram_of 97 98 99] (needle_groups [abc_needle], False) = (gs, False) \<and>
    (\<forall>gs' s. mset gs' = mset (map reset_for_reads gs) \<and> reachable False sample_posting (start_search gs') s \<and>
       phase s = Search_Over \<longrightarrow> \<not> search_done s \<and> of_nat 0 \<in> set (cur_candidates s))"
proof (rule search_finds_block [OF sample_index, where needles = "[abc_needle]" and i = 0 and dir = "[]"
      and haystack = "str ''/abc''" and fnmatch = "\<lambda>_ _ _. False" and regexec = "\<lambda>_ _. False" and ic = False])
  show "list_all (\<lambda>nd. matches (\<lambda>_ _ _. False) (\<lambda>_ _. False) False nd (str ''/abc'')) [abc_needle]"
    by (simp add: matches_def abc_needle_def str_def)
qed (simp_all add: abc_groups abc_plain sample_blocks_def indexed_names_def str_def new_group_def)

text \<open>C9: The result of the search loop, in every run and for groups with any number of
  alternatives (also case-insensitive ones): if the loop gave up, no block is in a posting list of
  every group; else the candidates are sorted without repetition, hold every block that is in a
  posting list of every group, and hold only blocks of one of the groups.\<close>
theorem search_candidates:
  assumes "list_all (group_ok lookup) gs" and "lookup_ok lookup posting" and "gs \<noteq> []"
    and "reachable ignore_case posting (start_search gs) s" and "phase s = Search_Over"
  shows "if search_done s then common_blocks posting gs = {}
    else sorted_wrt (<) (cur_candidates s) \<and> common_blocks posting gs \<subseteq> set (cur_candidates s) \<and>
      (\<exists>td \<in> set gs. set (cur_candidates s) \<subseteq> group_blocks posting td)"
  using assms by (rule search_over)

lemma search_candidates_witness:
  "\<exists>lookup gs s. gs \<noteq> [] \<and> reachable True sample_posting (start_search gs) s \<and> phase s = Search_Over \<and>
    (if search_done s then common_blocks sample_posting gs = {}
     else sorted_wrt (<) (cur_candidates s) \<and> common_blocks sample_posting gs \<subseteq> set (cur_candidates s) \<and>
       (\<exists>td \<in> set gs. set (cur_candidates s) \<subseteq> group_blocks sample_posting td))"
proof -
  obtain x where x: "sample_lookup (trigram_of 97 98 99) = Some x" using abc_block by auto
  let ?g = "(new_group [trigram_of 97 98 99])\<lparr>read_trigrams := [x]\<rparr>"
  have lk: "lookup_ok sample_lookup sample_posting"
    by (rule index_of_laws [OF sample_index]) (simp add: sample_blocks_def)
  have g: "list_all (group_ok sample_lookup) [?g]" using x by (simp add: group_ok_def new_group_def)
  obtain s where s: "reachable True sample_posting (start_search [?g]) s" "phase s = Search_Over"
    using search_reaches_end [OF reachable.start] by blast
  from search_candidates [OF g lk _ s] s show ?thesis by blast
qed


text \<open>The lookup phase is exact, in whatever order the lookups complete: the early exit (no
  match in this database) is taken just when some group has no alternative in the index; else
  every group holds exactly the entries of its alternatives that are in the index, at least one,
  and waits for as many posting lists.\<close>
theorem lookups_exact:
  assumes "list_all fresh_group gs0" and "entries_named lookup" and "distinct ts"
    and "set ts = (\<Union>td \<in> set gs0. set (trigram_alternatives td))"
    and "look_up lookup ts (gs0, False) = (gs, early)"
  shows "if \<exists>td \<in> set gs0. \<forall>t \<in> set (trigram_alternatives td). lookup t = None then early
    else \<not> early \<and> list_all (group_ok lookup) (map reset_for_reads gs)"
proof -
  have sub: "set (trigram_alternatives td) \<subseteq> set ts" if "td \<in> set gs0" for td using that assms(4) by blast
  have e: "early = (\<exists>td \<in> set gs0. group_missing lookup td)"
    by (rule looked_up_groups_ok(1) [OF assms(1-3) _ assms(5)]) (rule sub)
  have "\<not> early \<Longrightarrow> list_all (group_ok lookup) (map reset_for_reads gs)"
    by (rule looked_up_groups_ok(2) [OF assms(1-3) _ assms(5)]) (rule sub)
  with e show ?thesis unfolding group_missing_def by auto
qed

lemma lookups_exact_witness:
  "\<exists>gs. look_up sample_lookup [trigram_of 97 98 99] (needle_groups [abc_needle], False) = (gs, False) \<and>
    list_all (group_ok sample_lookup) (map reset_for_reads gs)"
proof -
  obtain gs early where r:
    "look_up sample_lookup [trigram_of 97 98 99] (needle_groups [abc_needle], False) = (gs, early)"
    by (cases "look_up sample_lookup [trigram_of 97 98 99] (needle_groups [abc_needle], False)")
  have "list_all fresh_group (needle_groups [abc_needle])" by (simp add: abc_groups fresh_group_def new_group_def)
  moreover have "entries_named sample_lookup"
    by (rule index_of_laws [OF sample_index]) (simp add: sample_blocks_def)
  moreover have "set [trigram_of 97 98 99] = (\<Union>td \<in> set (needle_groups [abc_needle]). set (trigram_alternatives td))"
    by (simp add: abc_groups new_group_def)
  ultimately have "if \<exists>td \<in> set (needle_groups [abc_needle]). \<forall>t \<in> set (trigram_alternatives td). sample_lookup t = None
      then early else \<not> early \<and> list_all (group_ok sample_lookup) (map reset_for_reads gs)"
    by (intro lookups_exact [OF _ _ _ _ r]) simp_all
  with r abc_block show ?thesis by (simp add: abc_groups new_group_def)
qed

end
