(* ===== verification/Scan_File_Block.thy ===== *)
theory Scan_File_Block
  imports Serializer Search_Complete
begin

text \<open>
  \<open>scan_file_block\<close> and \<open>scan_docids\<close> of \<open>src/flocate.cpp\<close>: a block is decompressed, every name in
  it is matched against all needles, and each match becomes one numbered result for the
  serializer. The numbers of a block's results fill the range of the block without a gap, so the
  output of a search is the list of the visible matches in the order of the blocks. Decompression,
  \<open>fnmatch\<close>, \<open>regexec\<close>, and the answers of \<open>access\<close> and \<open>lstat\<close> are parameters.
\<close>

section \<open>The names of a block\<close>

function block_names :: "bytes \<Rightarrow> bytes list" where
  "block_names ptr =
     (if ptr = [] then []
      else takeWhile (\<lambda>c. c \<noteq> 0) ptr # block_names (drop (length (takeWhile (\<lambda>c. c \<noteq> 0) ptr) + 1) ptr))"
  by pat_completeness auto
termination
  by (relation "measure length") auto

declare block_names.simps [simp del]

text \<open>\<open>strrchr(filename, '/')\<close>\<close>

definition base_name :: "bytes \<Rightarrow> bytes" where
  "base_name filename =
     (if slash \<in> set filename then rev (takeWhile (\<lambda>c. c \<noteq> slash) (rev filename)) else filename)"

definition is_found ::
    "(bytes \<Rightarrow> bytes \<Rightarrow> bool \<Rightarrow> bool) \<Rightarrow> (bytes \<Rightarrow> bytes \<Rightarrow> bool) \<Rightarrow> bool \<Rightarrow> bool \<Rightarrow> needle list \<Rightarrow> bytes \<Rightarrow> bool" where
  "is_found fnmatch regexec ignore_case match_basename needles filename =
     list_all (\<lambda>nd. matches fnmatch regexec ignore_case nd
       (if match_basename then base_name filename else filename)) needles"

text \<open>
  The calls of \<open>test_candidate\<close> and of \<open>serializer->print\<close> with an empty message: number, numbers
  covered and the candidate. One candidate is always held back, as the range of the last one
  extends to the end of the block's range.
\<close>

fun scan_loop :: "(bytes \<Rightarrow> bool) \<Rightarrow> u64 \<Rightarrow> bytes list \<Rightarrow> u64 \<Rightarrow> bytes option \<Rightarrow> (u64 \<times> u64 \<times> bytes option) list" where
  "scan_loop found seq [] local_seq None = [(push_bit 32 seq, push_bit 32 1, None)]"
| "scan_loop found seq [] local_seq (Some p) = [(local_seq, push_bit 32 (seq + 1) - local_seq, Some p)]"
| "scan_loop found seq (f # fs) local_seq pending_candidate =
     (if found f then
        case pending_candidate of
          None \<Rightarrow> scan_loop found seq fs local_seq (Some f)
        | Some p \<Rightarrow> (local_seq, 1, Some p) # scan_loop found seq fs (local_seq + 1) (Some f)
      else scan_loop found seq fs local_seq pending_candidate)"

definition scan_file_block ::
    "(bytes \<Rightarrow> bytes option) \<Rightarrow> (bytes \<Rightarrow> bool) \<Rightarrow> bytes \<Rightarrow> u64 \<Rightarrow> (u64 \<times> u64 \<times> bytes option) list option" where
  "scan_file_block decompress found compressed seq =
     (case decompress compressed of
        None \<Rightarrow> None
      | Some block \<Rightarrow> Some (scan_loop found seq (block_names (block @ [0])) (push_bit 32 seq) None))"

text \<open>\<open>check_access\<close> and \<open>stat_if_needed\<close>; the result that reaches the serializer, and the count.\<close>

definition stat_if_needed :: "bool \<Rightarrow> (bytes \<Rightarrow> bool) \<Rightarrow> bytes \<Rightarrow> bool \<Rightarrow> bool" where
  "stat_if_needed check_existence lstat_ok filename access_ok =
     (if \<not> access_ok \<or> \<not> check_existence then access_ok else lstat_ok filename)"

fun to_result :: "(bytes \<Rightarrow> bool) \<Rightarrow> u64 \<times> u64 \<times> bytes option \<Rightarrow> element" where
  "to_result ok (s, k, None) = \<lparr>eseq = s, skip = k, msg = []\<rparr>"
| "to_result ok (s, k, Some f) = \<lparr>eseq = s, skip = k, msg = (if ok f then f else [])\<rparr>"

definition matched :: "(bytes \<Rightarrow> bool) \<Rightarrow> (u64 \<times> u64 \<times> bytes option) list \<Rightarrow> nat" where
  "matched ok rs = length (filter (\<lambda>(s, k, r). case r of None \<Rightarrow> False | Some f \<Rightarrow> ok f) rs)"

fun scan_docids ::
    "(bytes \<Rightarrow> bytes option) \<Rightarrow> (bytes \<Rightarrow> bool) \<Rightarrow> bytes list \<Rightarrow> nat \<Rightarrow> (u64 \<times> u64 \<times> bytes option) list option" where
  "scan_docids decompress found [] i = Some []"
| "scan_docids decompress found (b # bs) i =
     do { rs \<leftarrow> scan_file_block decompress found b (of_nat i);
          map_option ((@) rs) (scan_docids decompress found bs (Suc i)) }"

section \<open>Names are read back\<close>

lemma block_names_Cons:
  assumes "0 \<notin> set f"
  shows "block_names (f @ 0 # rest) = f # block_names rest"
proof -
  have "takeWhile (\<lambda>c. c \<noteq> 0) (f @ 0 # rest) = f" using assms by (induction f) auto
  then show ?thesis by (subst block_names.simps) simp
qed

lemma block_names_join:
  "fs \<noteq> [] \<Longrightarrow> list_all (\<lambda>f. 0 \<notin> set f) fs \<Longrightarrow> block_names (join_names fs @ [0]) = fs"
proof (induction fs rule: join_names.induct)
  case (2 f)
  then show ?case using block_names_Cons [of f "[]"] by (simp add: block_names.simps)
next
  case (3 f g fs)
  then show ?case using block_names_Cons [of f "join_names (g # fs) @ [0]"] by simp
qed simp

lemma base_name_suffix: "\<exists>dir. filename = dir @ base_name filename"
proof (cases "slash \<in> set filename")
  case True
  have "rev filename = takeWhile (\<lambda>c. c \<noteq> slash) (rev filename) @ dropWhile (\<lambda>c. c \<noteq> slash) (rev filename)"
    by simp
  then have "filename = rev (dropWhile (\<lambda>c. c \<noteq> slash) (rev filename)) @ rev (takeWhile (\<lambda>c. c \<noteq> slash) (rev filename))"
    by (metis rev_append rev_rev_ident)
  with True show ?thesis unfolding base_name_def by auto
qed (simp add: base_name_def)

section \<open>The results of a block\<close>

lemma in_sequence_append:
  "in_sequence s (xs @ ys) \<longleftrightarrow> in_sequence s xs \<and> in_sequence (s + sum_list (map skip xs)) ys"
  by (induction xs arbitrary: s) (auto simp add: add.assoc)

lemma unat_block_start:
  assumes "unat (seq :: u64) < 2 ^ 32"
  shows "unat (push_bit 32 seq) = unat seq * 2 ^ 32"
  using assms by (simp add: push_bit_eq_mult unat_word_ariths)

lemma block_end:
  assumes "unat (seq :: u64) + 1 < 2 ^ 32"
  shows "unat (push_bit 32 (seq + 1)) = unat seq * 2 ^ 32 + 2 ^ 32"
proof -
  have "unat (seq + 1) = unat seq + 1" using assms by (simp add: unat_word_ariths)
  with unat_block_start [of "seq + 1"] assms show ?thesis by simp
qed

text \<open>The elements of a held-back candidate and of the names still to be read fill the range.\<close>

lemma scan_loop_results:
  assumes "unat seq + 1 < 2 ^ 32" and "unat seq * 2 ^ 32 \<le> unat local_seq"
    and "unat local_seq + length fs < unat seq * 2 ^ 32 + 2 ^ 32"
    and "p = None \<Longrightarrow> local_seq = push_bit 32 seq"
  shows "in_sequence local_seq (map (to_result ok) (scan_loop found seq fs local_seq p)) \<and>
    local_seq + sum_list (map (skip \<circ> to_result ok) (scan_loop found seq fs local_seq p)) = push_bit 32 (seq + 1) \<and>
    messages (map (to_result ok) (scan_loop found seq fs local_seq p)) =
      filter (\<lambda>m. m \<noteq> []) (filter ok (case p of None \<Rightarrow> [] | Some f \<Rightarrow> [f])) @
      filter (\<lambda>m. m \<noteq> []) (filter ok (filter found fs)) \<and>
    matched ok (scan_loop found seq fs local_seq p) =
      length (filter ok (case p of None \<Rightarrow> [] | Some f \<Rightarrow> [f])) + length (filter ok (filter found fs))"
  using assms
proof (induction found seq fs local_seq p rule: scan_loop.induct)
  case (1 found seq local_seq)
  have "push_bit 32 seq + push_bit 32 1 = push_bit 32 (seq + 1)" by (simp add: push_bit_add)
  moreover have "unat (push_bit 32 seq) + unat (push_bit 32 (1 :: u64)) < 2 ^ 64"
    using unat_block_start [of seq] unat_block_start [of 1] "1.prems" by simp
  moreover have "(0 :: u64) < push_bit 32 1" by (simp add: word_less_nat_alt unat_block_start)
  ultimately show ?case using "1.prems" by (simp add: matched_def)
next
  case (2 found seq local_seq p)
  note e = block_end [OF "2.prems"(1)]
  have "unat (push_bit 32 (seq + 1) - local_seq) = unat (push_bit 32 (seq + 1)) - unat local_seq"
    using "2.prems" e by (intro unat_sub) (simp add: word_le_nat_alt)
  with e "2.prems" have "0 < push_bit 32 (seq + 1) - local_seq"
    "unat local_seq + unat (push_bit 32 (seq + 1) - local_seq) < 2 ^ 64"
    by (simp_all add: word_less_nat_alt)
  then show ?case by (simp add: matched_def)
next
  case (3 found seq f fs local_seq p)
  show ?case
  proof (cases "found f")
    case False
    with 3 show ?thesis by simp
  next
    case True
    show ?thesis
    proof (cases p)
      case None
      with 3 True show ?thesis by (simp split: if_splits)
    next
      case (Some q)
      have s: "unat (local_seq + 1) = unat local_seq + 1"
        using "3.prems" by (simp add: unat_word_ariths)
      with "3.IH"(2) [OF True Some] "3.prems" True Some show ?thesis
        by (cases "f = []"; cases "ok f") (auto simp add: matched_def add.assoc)
    qed
  qed
qed

text \<open>What \<open>decompress\<close> gives for the blocks that are read.\<close>

definition holds_names :: "(bytes \<Rightarrow> bytes option) \<Rightarrow> bytes \<Rightarrow> bytes list \<Rightarrow> bool" where
  "holds_names decompress compressed fs \<longleftrightarrow>
     decompress compressed = Some (join_names fs) \<and> fs \<noteq> [] \<and> file_names fs \<and> length fs < 2 ^ 32"

lemma scan_file_block_results:
  assumes "holds_names decompress compressed fs" and "unat seq + 1 < 2 ^ 32"
  shows "\<exists>rs. scan_file_block decompress found compressed seq = Some rs \<and>
    in_sequence (push_bit 32 seq) (map (to_result ok) rs) \<and>
    push_bit 32 seq + sum_list (map (skip \<circ> to_result ok) rs) = push_bit 32 (seq + 1) \<and>
    messages (map (to_result ok) rs) = filter ok (filter found fs) \<and>
    matched ok rs = length (filter ok (filter found fs))"
proof -
  have names: "block_names (join_names fs @ [0]) = fs"
    using assms(1) by (intro block_names_join) (auto simp add: holds_names_def file_names_def list_all_iff)
  have "filter (\<lambda>m. m \<noteq> []) (filter ok (filter found fs)) = filter ok (filter found fs)"
    using assms(1) by (auto simp add: holds_names_def file_names_def list_all_iff intro!: filter_cong)
  with scan_loop_results [of seq "push_bit 32 seq" fs None ok found] assms names unat_block_start [of seq]
  show ?thesis by (simp add: scan_file_block_def holds_names_def)
qed

lemma matched_append [simp]: "matched ok (xs @ ys) = matched ok xs + matched ok ys"
  by (simp add: matched_def)

lemma scan_docids_results:
  assumes "list_all2 (holds_names decompress) cs blocks" and "i + length cs < 2 ^ 32"
  shows "\<exists>rs. scan_docids decompress found cs i = Some rs \<and>
    in_sequence (push_bit 32 (of_nat i)) (map (to_result ok) rs) \<and>
    messages (map (to_result ok) rs) = filter ok (filter found (concat blocks)) \<and>
    matched ok rs = length (filter ok (filter found (concat blocks)))"
  using assms
proof (induction cs blocks arbitrary: i rule: list_all2_induct)
  case Nil
  then show ?case by (simp add: matched_def)
next
  case (Cons c cs fs blocks)
  have i: "unat (of_nat i :: u64) + 1 < 2 ^ 32" using Cons.prems by (simp add: unat_of_nat_small)
  obtain rs where rs: "scan_file_block decompress found c (of_nat i) = Some rs"
    "in_sequence (push_bit 32 (of_nat i)) (map (to_result ok) rs)"
    "push_bit 32 (of_nat i) + sum_list (map (skip \<circ> to_result ok) rs) = push_bit 32 (of_nat i + 1)"
    "messages (map (to_result ok) rs) = filter ok (filter found fs)"
    "matched ok rs = length (filter ok (filter found fs))"
    using scan_file_block_results [OF Cons.hyps(1) i, of found ok] by blast
  obtain rs' where rs': "scan_docids decompress found cs (Suc i) = Some rs'"
    "in_sequence (push_bit 32 (of_nat (Suc i))) (map (to_result ok) rs')"
    "messages (map (to_result ok) rs') = filter ok (filter found (concat blocks))"
    "matched ok rs' = length (filter ok (filter found (concat blocks)))"
    using Cons.IH [of "Suc i"] Cons.prems by auto
  from rs rs' show ?case by (simp add: in_sequence_append add.commute)
qed

section \<open>Properties\<close>

text \<open>C6: The output of a search over the candidate blocks. Every block that is read is scanned, and in
  whatever order the results of the scans and of the access checks arrive, the printed names are
  exactly the names of the blocks that match all needles and are visible to the user, in the order
  of the blocks and of the names in them, up to the limit; the count that is returned is the
  number of these names.\<close>
theorem search_output:
  assumes "list_all2 (holds_names decompress) cs blocks" and "length cs < 2 ^ 32" and "0 < limit"
  shows "\<exists>rs. scan_docids decompress found cs 0 = Some rs \<and>
    matched ok rs = length (filter ok (filter found (concat blocks))) \<and>
    (\<forall>es. mset es = mset (map (to_result ok) rs) \<longrightarrow>
       printed (print_all False es (new_serializer limit)) =
         take (nat limit) (filter ok (filter found (concat blocks))))"
proof -
  obtain rs where rs: "scan_docids decompress found cs 0 = Some rs" "in_sequence 0 (map (to_result ok) rs)"
    "messages (map (to_result ok) rs) = filter ok (filter found (concat blocks))"
    "matched ok rs = length (filter ok (filter found (concat blocks)))"
    using scan_docids_results [OF assms(1), of 0 found ok] assms(2) by auto
  have "printed (print_all False es (new_serializer limit)) = take (nat limit) (messages (map (to_result ok) rs))"
    if "mset es = mset (map (to_result ok) rs)" for es
    using printed_in_order [OF rs(2) that assms(3)] by (simp add: Let_def)
  with rs show ?thesis by auto
qed

lemma search_output_witness:
  "\<exists>rs. scan_docids (\<lambda>b. Some b) (\<lambda>f. length f = 2) [join_names [str ''/a'', str ''/bin'', str ''/c''], str ''/d''] 0 = Some rs \<and>
    matched (\<lambda>_. True) rs = 3 \<and>
    printed (print_all False (rev (map (to_result (\<lambda>_. True)) rs)) (new_serializer 2)) = [str ''/a'', str ''/c'']"
proof -
  have "list_all2 (holds_names (\<lambda>b. Some b)) [join_names [str ''/a'', str ''/bin'', str ''/c''], str ''/d'']
      [[str ''/a'', str ''/bin'', str ''/c''], [str ''/d'']]"
    by (simp add: holds_names_def file_names_def str_def)
  from search_output [OF this, of 2 "\<lambda>f. length f = 2" "\<lambda>_. True"] show ?thesis by (auto simp add: str_def)
qed

text \<open>The names of a block as the builder joins them are read back exactly, and the part of a name
  that is matched under \<open>--basename\<close> is a suffix of it without a slash.\<close>
theorem block_names_read_back:
  assumes "fs \<noteq> []" and "list_all (\<lambda>f. 0 \<notin> set f) fs"
  shows "block_names (join_names fs @ [0]) = fs \<and>
    list_all (\<lambda>f. (\<exists>dir. f = dir @ base_name f) \<and> slash \<notin> set (base_name f)) fs"
proof -
  have "slash \<notin> set (base_name f)" for f by (auto simp add: base_name_def dest: set_takeWhileD)
  then show ?thesis using block_names_join [OF assms] base_name_suffix by (simp add: list_all_iff)
qed

lemma block_names_read_back_witness:
  "block_names (join_names [str ''/a'', [], str ''/b/c''] @ [0]) = [str ''/a'', [], str ''/b/c'']"
  by (rule conjunct1 [OF block_names_read_back]) (simp_all add: str_def)

end
