(* ===== verification/Escaped_Output.thy ===== *)
theory Escaped_Output
  imports Prelude
begin

text \<open>
  \<open>print_possibly_escaped\<close> of \<open>src/serializer.cpp\<close>: how one file name is printed. \<open>mbtowc\<close> of the C
  library (a locale-dependent decoder) is a parameter: the bytes of the character at the head of a
  string (-1 for malformed input, 0 for the end) and the wide character.
\<close>

abbreviation quote :: byte where "quote \<equiv> 39"
abbreviation double_quote :: byte where "double_quote \<equiv> 34"
abbreviation escape_char :: byte where "escape_char \<equiv> 92"
abbreviation newline :: byte where "newline \<equiv> 10"

type_synonym mbtowc = "bytes \<Rightarrow> int \<times> nat"

definition at_end :: "bytes \<Rightarrow> bool" where
  "at_end ptr \<longleftrightarrow> ptr = [] \<or> hd ptr = 0"

function all_safe :: "mbtowc \<Rightarrow> bytes \<Rightarrow> bool" where
  "all_safe mbtowc ptr =
     (let (ret, pwc) = mbtowc ptr
      in if ret = -1 then False
         else if ret = 0 then True
         else if pwc < 32 \<or> pwc = 39 \<or> pwc = 34 \<or> pwc = 92 then False
         else if pwc = 96 then False
         else if at_end (drop (nat ret) ptr) \<or> ret < 0 then True
         else all_safe mbtowc (drop (nat ret) ptr))"
  by pat_completeness auto
termination
  by (relation "measure (\<lambda>(_, ptr). length ptr)") (auto simp add: at_end_def)

declare all_safe.simps [simp del]

definition needs_escape :: "byte \<Rightarrow> bool" where
  "needs_escape c \<longleftrightarrow> c < 32 \<or> c = quote \<or> c = double_quote \<or> c = escape_char"

text \<open>The \<open>switch\<close> of the escapes, the last one being \<open>printf("\\%03o")\<close>.\<close>

definition escape_of :: "byte \<Rightarrow> bytes" where
  "escape_of c =
     (if c = 7 then [escape_char, 97]
      else if c = 8 then [escape_char, 98]
      else if c = 12 then [escape_char, 102]
      else if c = 10 then [escape_char, 110]
      else if c = 13 then [escape_char, 114]
      else if c = 9 then [escape_char, 116]
      else if c = 11 then [escape_char, 118]
      else if c = escape_char then [escape_char, escape_char]
      else if c = quote then [escape_char, quote]
      else if c = double_quote then [escape_char, double_quote]
      else [escape_char, 48 + c div 64, 48 + c div 8 mod 8, 48 + c mod 8])"

function escape_from :: "mbtowc \<Rightarrow> bytes \<Rightarrow> bool \<Rightarrow> bytes" where
  "escape_from mbtowc ptr in_escaped_mode =
     (if at_end ptr then []
      else
        let ret = fst (mbtowc ptr)
        in if ret = -1 then str ''?'' @ escape_from mbtowc (drop 1 ptr) in_escaped_mode
           else if ret \<le> 0 then []
           else if needs_escape (hd ptr) then
             (if in_escaped_mode then [] else [quote, 36, quote]) @ escape_of (hd ptr) @
             escape_from mbtowc (drop (nat ret) ptr) True
           else
             (if in_escaped_mode then [quote, quote] else []) @ take (nat ret) ptr @
             escape_from mbtowc (drop (nat ret) ptr) False)"
  by pat_completeness auto
termination
  by (relation "measure (\<lambda>(_, ptr, _). length ptr)") (auto simp add: at_end_def)

declare escape_from.simps [simp del]

definition print_possibly_escaped :: "bool \<Rightarrow> bool \<Rightarrow> bool \<Rightarrow> mbtowc \<Rightarrow> bytes \<Rightarrow> bytes" where
  "print_possibly_escaped print_nul literal_printing stdout_is_tty mbtowc name =
     (let c_str = takeWhile (\<lambda>c. c \<noteq> 0) name
      in if print_nul then c_str @ [0]
         else if literal_printing \<or> \<not> stdout_is_tty then c_str @ [newline]
         else if all_safe mbtowc name then c_str @ [newline]
         else [quote] @ escape_from mbtowc name False @ [quote, newline])"

section \<open>Reading the output in a shell\<close>

text \<open>
  The quoting rules of bash(1) that the code relies on: in single quotes every character stands
  for itself; in \<open>$'...'\<close> the escapes are read back.
\<close>

datatype shell_mode = Unquoted | Single | Dollar

definition octal :: "byte \<Rightarrow> byte \<Rightarrow> byte \<Rightarrow> byte" where
  "octal a b c = (a - 48) * 64 + (b - 48) * 8 + (c - 48)"

definition letter_escape :: "byte \<Rightarrow> byte option" where
  "letter_escape c =
     (if c = 97 then Some 7 else if c = 98 then Some 8 else if c = 102 then Some 12
      else if c = 110 then Some 10 else if c = 114 then Some 13 else if c = 116 then Some 9
      else if c = 118 then Some 11 else if c = escape_char then Some escape_char
      else if c = quote then Some quote else if c = double_quote then Some double_quote else None)"

fun shell_read :: "shell_mode \<Rightarrow> bytes \<Rightarrow> bytes option" where
  "shell_read Unquoted [] = Some []"
| "shell_read Unquoted (c # cs) =
     (if c = quote then shell_read Single cs
      else if c = 36 \<and> cs \<noteq> [] \<and> hd cs = quote then shell_read Dollar (tl cs)
      else map_option ((#) c) (shell_read Unquoted cs))"
| "shell_read Single [] = None"
| "shell_read Single (c # cs) =
     (if c = quote then shell_read Unquoted cs else map_option ((#) c) (shell_read Single cs))"
| "shell_read Dollar [] = None"
| "shell_read Dollar (c # cs) =
     (if c = quote then shell_read Unquoted cs
      else if c \<noteq> escape_char then map_option ((#) c) (shell_read Dollar cs)
      else
        case cs of
          [] \<Rightarrow> None
        | d # ds \<Rightarrow>
            (case letter_escape d of
               Some x \<Rightarrow> map_option ((#) x) (shell_read Dollar ds)
             | None \<Rightarrow>
                 (case ds of
                    e # f # fs \<Rightarrow> map_option ((#) (octal d e f)) (shell_read Dollar fs)
                  | _ \<Rightarrow> None)))"

section \<open>What is assumed of mbtowc\<close>

text \<open>
  An encoding that extends ASCII, as UTF-8: a byte below 128 is a character of its own, and the
  further bytes of a longer character are not below 128.
\<close>

definition extends_ascii :: "mbtowc \<Rightarrow> bool" where
  "extends_ascii mbtowc \<longleftrightarrow>
     (\<forall>ptr. ptr \<noteq> [] \<and> hd ptr \<noteq> 0 \<longrightarrow>
        (if hd ptr < 128 then mbtowc ptr = (1, unat (hd ptr))
         else fst (mbtowc ptr) = -1 \<or>
           (1 \<le> fst (mbtowc ptr) \<and> nat (fst (mbtowc ptr)) \<le> length ptr \<and>
            list_all (\<lambda>c. 128 \<le> c) (take (nat (fst (mbtowc ptr))) ptr))))"

function well_formed :: "mbtowc \<Rightarrow> bytes \<Rightarrow> bool" where
  "well_formed mbtowc ptr =
     (if ptr = [] then True
      else if 1 \<le> fst (mbtowc ptr) then well_formed mbtowc (drop (nat (fst (mbtowc ptr))) ptr)
      else False)"
  by pat_completeness auto
termination
  by (relation "measure (\<lambda>(_, ptr). length ptr)") auto

declare well_formed.simps [simp del]

lemma extends_ascii_cases:
  assumes "extends_ascii mbtowc" and "ptr \<noteq> []" and "hd ptr \<noteq> 0"
  obtains "hd ptr < 128" and "mbtowc ptr = (1, unat (hd ptr))"
  | "128 \<le> hd ptr" and "fst (mbtowc ptr) = -1"
  | "128 \<le> hd ptr" and "1 \<le> fst (mbtowc ptr)" and "nat (fst (mbtowc ptr)) \<le> length ptr"
      and "list_all (\<lambda>c. 128 \<le> c) (take (nat (fst (mbtowc ptr))) ptr)"
  using assms unfolding extends_ascii_def by (metis linorder_not_less)

lemma octal_digits:
  assumes "(c :: byte) < 32"
  shows "octal (48 + c div 64) (48 + c div 8 mod 8) (48 + c mod 8) = c"
    and "letter_escape (48 + c div 64) = None"
proof -
  have c: "unat c < 32" using assms by (simp add: word_less_nat_alt)
  have "unat (c div 64) = 0" using c by (simp add: unat_div)
  then have 0: "c div 64 = 0" by (simp add: unat_eq_zero)
  have "unat (c div 8) < 8" using c by (simp add: unat_div)
  then have "unat (c div 8 mod 8) = unat (c div 8)" by (simp add: unat_mod)
  then have 8: "c div 8 mod 8 = c div 8" by (rule unsigned_word_eqI)
  show "octal (48 + c div 64) (48 + c div 8 mod 8) (48 + c mod 8) = c"
    unfolding 0 8 octal_def using mult_div_mod_eq [of 8 c] by (simp add: mult.commute)
  show "letter_escape (48 + c div 64) = None" unfolding 0 by (simp add: letter_escape_def)
qed

lemma escape_read_back:
  assumes "needs_escape c"
  shows "shell_read Dollar (escape_of c @ rest) = map_option ((#) c) (shell_read Dollar rest)"
proof -
  consider "c \<in> {7, 8, 12, 10, 13, 9, 11, escape_char, quote, double_quote}"
    | "c \<notin> {7, 8, 12, 10, 13, 9, 11, escape_char, quote, double_quote}" "c < 32"
    using assms by (auto simp add: needs_escape_def)
  then show ?thesis
  proof cases
    case 1
    then show ?thesis unfolding insert_iff empty_iff
      by (elim disjE FalseE; simp add: escape_of_def letter_escape_def)
  next
    case 2
    then have e: "escape_of c = [escape_char, 48 + c div 64, 48 + c div 8 mod 8, 48 + c mod 8]"
      by (simp add: escape_of_def)
    have "octal (48 + c div 64) (48 + c div 8 mod 8) (48 + c mod 8) = c \<and> letter_escape (48 + c div 64) = None"
      using octal_digits [OF 2(2)] by simp
    then show ?thesis unfolding e by simp
  qed
qed

lemma shell_read_single_raw:
  "quote \<notin> set cs \<Longrightarrow> shell_read Single (cs @ rest) = map_option ((@) cs) (shell_read Single rest)"
  by (induction cs; cases "shell_read Single rest") auto

lemma shell_switch:
  "shell_read Single ([quote, 36, quote] @ rest) = shell_read Dollar rest"
  "shell_read Dollar ([quote, quote] @ rest) = shell_read Single rest"
  by simp_all

lemma needs_escape_single:
  assumes "extends_ascii mbtowc" and "ptr \<noteq> []" and "hd ptr \<noteq> 0" and "needs_escape (hd ptr)"
  shows "fst (mbtowc ptr) = 1"
proof -
  have "hd ptr < 128" using assms(4) by (auto simp add: needs_escape_def word_less_nat_alt)
  with extends_ascii_cases [OF assms(1-3)] show ?thesis by (metis fst_conv linorder_not_less)
qed

lemma raw_no_quote:
  assumes "extends_ascii mbtowc" and "ptr \<noteq> []" and "hd ptr \<noteq> 0" and "\<not> needs_escape (hd ptr)"
    and "1 \<le> fst (mbtowc ptr)"
  shows "list_all (\<lambda>c. 32 \<le> c \<and> c \<noteq> quote) (take (nat (fst (mbtowc ptr))) ptr)"
proof (rule extends_ascii_cases [OF assms(1-3)])
  assume a: "hd ptr < 128" "mbtowc ptr = (1, unat (hd ptr))"
  have "take 1 ptr = [hd ptr]" using assms(2) by (cases ptr) auto
  with a assms(4) show ?thesis by (auto simp add: needs_escape_def linorder_not_less)
next
  have big: "32 \<le> c \<and> c \<noteq> quote" if "128 \<le> c" for c :: byte
    using that by (auto simp add: word_le_nat_alt)
  assume "list_all (\<lambda>c. 128 \<le> c) (take (nat (fst (mbtowc ptr))) ptr)"
  then show ?thesis using big unfolding list_all_iff by blast
qed (use assms(5) in simp)

text \<open>The quoted form is read back from the mode that the flag of the loop stands for.\<close>

lemma escape_from_read_back:
  assumes "extends_ascii mbtowc" and "0 \<notin> set ptr" and "well_formed mbtowc ptr"
  shows "shell_read (if in_escaped_mode then Dollar else Single)
    (escape_from mbtowc ptr in_escaped_mode @ [quote]) = Some ptr"
  using assms
proof (induction mbtowc ptr in_escaped_mode rule: escape_from.induct)
  case (1 mbtowc ptr in_escaped_mode)
  show ?case
  proof (cases "ptr = []")
    case True
    then show ?thesis by (simp add: escape_from.simps at_end_def)
  next
    case False
    then have hd0: "hd ptr \<noteq> 0" using "1.prems"(2) by (metis hd_in_set)
    let ?ret = "fst (mbtowc ptr)" and ?rest = "drop (nat (fst (mbtowc ptr))) ptr"
    have wf: "1 \<le> ?ret" "well_formed mbtowc ?rest"
      using "1.prems"(3) False by (simp_all add: well_formed.simps [of _ ptr] split: if_splits)
    have z: "0 \<notin> set ?rest" using "1.prems"(2) by (meson in_set_dropD)
    have ne: "\<not> at_end ptr" using False hd0 by (simp add: at_end_def)
    have step: "?ret \<noteq> -1" "\<not> ?ret \<le> 0" using wf(1) by simp_all
    show ?thesis
    proof (cases "needs_escape (hd ptr)")
      case True
      have "?ret = 1" by (rule needs_escape_single [OF "1.prems"(1) False hd0 True])
      then have ptr: "ptr = hd ptr # ?rest" using False by (cases ptr) simp_all
      have IH: "shell_read Dollar (escape_from mbtowc ?rest True @ [quote]) = Some ?rest"
        using "1.IH"(2) [OF ne refl step True "1.prems"(1) z wf(2)] by simp
      have "shell_read Dollar (escape_of (hd ptr) @ escape_from mbtowc ?rest True @ [quote]) = Some ptr"
        using escape_read_back [OF True] IH ptr by simp
      then show ?thesis
        using ne step True by (simp add: escape_from.simps [of _ ptr] Let_def)
    next
      case False
      have "quote \<notin> set (take (nat ?ret) ptr)"
        using raw_no_quote [OF "1.prems"(1) \<open>ptr \<noteq> []\<close> hd0 False wf(1)] by (auto simp add: list_all_iff)
      moreover have "shell_read Single (escape_from mbtowc ?rest False @ [quote]) = Some ?rest"
        using "1.IH"(3) [OF ne refl step False "1.prems"(1) z wf(2)] by simp
      ultimately have "shell_read Single (take (nat ?ret) ptr @ escape_from mbtowc ?rest False @ [quote]) = Some ptr"
        by (simp add: shell_read_single_raw)
      then show ?thesis
        using ne step False by (simp add: escape_from.simps [of _ ptr] Let_def)
    qed
  qed
qed

lemma escape_of_printable: "list_all (\<lambda>c. 32 \<le> c) (escape_of c)"
proof -
  have "unat c < 256" using unsigned_less [of c] by simp
  then have "unat (c div 64) < 4" "unat (c div 8 mod 8) < 8" "unat (c mod 8) < 8"
    by (simp_all add: unat_div unat_mod)
  then have "32 \<le> 48 + c div 64" "32 \<le> 48 + c div 8 mod 8" "32 \<le> 48 + c mod 8"
    by (simp_all add: word_le_nat_alt unat_word_ariths unat_div unat_mod)
  then show ?thesis by (simp add: escape_of_def word_le_nat_alt)
qed

lemma escape_from_printable:
  assumes "extends_ascii mbtowc"
  shows "list_all (\<lambda>c. 32 \<le> c) (escape_from mbtowc ptr in_escaped_mode)"
  using assms
proof (induction mbtowc ptr in_escaped_mode rule: escape_from.induct)
  case (1 mbtowc ptr in_escaped_mode)
  show ?case
  proof (cases "at_end ptr \<or> fst (mbtowc ptr) = -1 \<or> fst (mbtowc ptr) \<le> 0")
    case True
    then show ?thesis using "1.IH"(1) [OF _ refl _ "1.prems"]
      by (subst escape_from.simps) (auto simp add: Let_def str_def)
  next
    case False
    then have ne: "\<not> at_end ptr" and step: "fst (mbtowc ptr) \<noteq> -1" "\<not> fst (mbtowc ptr) \<le> 0" by auto
    then have p: "ptr \<noteq> []" "hd ptr \<noteq> 0" "1 \<le> fst (mbtowc ptr)" by (auto simp add: at_end_def)
    let ?rest = "drop (nat (fst (mbtowc ptr))) ptr"
    show ?thesis
    proof (cases "needs_escape (hd ptr)")
      case True
      have "list_all (\<lambda>c. 32 \<le> c) (escape_from mbtowc ?rest True)"
        by (rule "1.IH"(2) [OF ne refl step True "1.prems"])
      then show ?thesis using ne step True escape_of_printable [of "hd ptr"]
        by (subst escape_from.simps) (simp add: Let_def)
    next
      case False
      have "list_all (\<lambda>c. 32 \<le> c) (escape_from mbtowc ?rest False)"
        by (rule "1.IH"(3) [OF ne refl step False "1.prems"])
      moreover have "list_all (\<lambda>c. 32 \<le> c) (take (nat (fst (mbtowc ptr))) ptr)"
        using raw_no_quote [OF "1.prems" p(1,2) False p(3)] by (auto simp add: list_all_iff)
      ultimately show ?thesis using ne step False
        by (subst escape_from.simps) (simp add: Let_def)
    qed
  qed
qed

lemma takeWhile_split:
  "list_all (\<lambda>c. c \<noteq> 0) (take n ptr) \<Longrightarrow>
     takeWhile (\<lambda>c. c \<noteq> 0) ptr = take n ptr @ takeWhile (\<lambda>c. c \<noteq> (0 :: byte)) (drop n ptr)"
  using takeWhile_append2 [of "take n ptr" "\<lambda>c. c \<noteq> 0" "drop n ptr"] by (simp add: list_all_iff)

lemma all_safe_printable:
  assumes "extends_ascii mbtowc" and "all_safe mbtowc ptr" and "\<not> at_end ptr"
  shows "list_all (\<lambda>c. 32 \<le> c) (takeWhile (\<lambda>c. c \<noteq> 0) ptr)"
  using assms
proof (induction mbtowc ptr rule: all_safe.induct)
  case (1 mbtowc ptr)
  have p: "ptr \<noteq> []" "hd ptr \<noteq> 0" using "1.prems"(3) by (auto simp add: at_end_def)
  obtain ret pwc where r: "mbtowc ptr = (ret, pwc)" by (cases "mbtowc ptr")
  have s: "ret \<noteq> -1" "pwc \<ge> 32 \<or> ret = 0" and go: "ret \<noteq> 0 \<Longrightarrow> \<not> at_end (drop (nat ret) ptr) \<Longrightarrow> 0 \<le> ret \<Longrightarrow>
      all_safe mbtowc (drop (nat ret) ptr) \<and> \<not> (pwc < 32 \<or> pwc = 39 \<or> pwc = 34 \<or> pwc = 92) \<and> pwc \<noteq> 96"
    using "1.prems"(2) r by (auto simp add: all_safe.simps [of _ ptr] Let_def not_less split: if_splits)
  have ret: "1 \<le> ret" and head: "list_all (\<lambda>c. 32 \<le> c \<and> c \<noteq> 0) (take (nat ret) ptr)"
  proof -
    have big: "32 \<le> c \<and> c \<noteq> 0" if "128 \<le> c" for c :: byte using that by (auto simp add: word_le_nat_alt)
    from extends_ascii_cases [OF "1.prems"(1) p]
    have "1 \<le> ret \<and> list_all (\<lambda>c. 32 \<le> c \<and> c \<noteq> 0) (take (nat ret) ptr)"
    proof cases
      case 1
      then have "32 \<le> hd ptr" using r s by (auto simp add: word_le_nat_alt)
      with 1 r p show ?thesis by (cases ptr) auto
    next
      case 2
      with r s show ?thesis by simp
    next
      case 3
      with r big show ?thesis by (auto simp add: list_all_iff)
    qed
    then show "1 \<le> ret" "list_all (\<lambda>c. 32 \<le> c \<and> c \<noteq> 0) (take (nat ret) ptr)" by blast+
  qed
  have "list_all (\<lambda>c. 32 \<le> c) (takeWhile (\<lambda>c. c \<noteq> 0) (drop (nat ret) ptr))"
  proof (cases "at_end (drop (nat ret) ptr)")
    case True
    then have "takeWhile (\<lambda>c. c \<noteq> 0) (drop (nat ret) ptr) = []"
      unfolding at_end_def by (cases "drop (nat ret) ptr") auto
    then show ?thesis by simp
  next
    case False
    with go ret have "all_safe mbtowc (drop (nat ret) ptr)" "\<not> (pwc < 32 \<or> pwc = 39 \<or> pwc = 34 \<or> pwc = 92)"
      "pwc \<noteq> 96" by auto
    with False ret s show ?thesis by (intro "1.IH" [OF r [symmetric] refl] "1.prems"(1)) auto
  qed
  with head takeWhile_split [of "nat ret" ptr] show ?case by (auto simp add: list_all_iff)
qed

section \<open>Properties\<close>

text \<open>An ASCII locale, for the concrete instances.\<close>

definition ascii_mbtowc :: mbtowc where
  "ascii_mbtowc ptr =
     (if ptr = [] then (-1, 0) else if hd ptr = 0 then (0, 0)
      else if hd ptr < 128 then (1, unat (hd ptr)) else (-1, 0))"

lemma ascii_extends: "extends_ascii ascii_mbtowc"
  by (auto simp add: extends_ascii_def ascii_mbtowc_def)

text \<open>C18: What is printed for a name on a terminal, quoted or not, has no control character below 32
  besides the final newline, also when the name is malformed in the locale's encoding.\<close>
theorem terminal_output_printable:
  assumes "extends_ascii mbtowc" and "\<not> at_end name"
  shows "\<exists>out. print_possibly_escaped False False True mbtowc name = out @ [10] \<and> list_all (\<lambda>c. 32 \<le> c) out"
proof (cases "all_safe mbtowc name")
  case True
  then show ?thesis using all_safe_printable [OF assms(1) True assms(2)]
    by (simp add: print_possibly_escaped_def Let_def)
next
  case False
  have "list_all (\<lambda>c. 32 \<le> c) ([quote] @ escape_from mbtowc name False @ [quote])"
    using escape_from_printable [OF assms(1), of name False] by (simp add: word_le_nat_alt)
  with False show ?thesis
    by (intro exI [of _ "[quote] @ escape_from mbtowc name False @ [quote]"])
      (simp add: print_possibly_escaped_def Let_def)
qed

lemma terminal_output_printable_witness:
  "\<exists>out. print_possibly_escaped False False True ascii_mbtowc [47, 10, 200] = out @ [10] \<and> list_all (\<lambda>c. 32 \<le> c) out"
  by (rule terminal_output_printable [OF ascii_extends]) (simp add: at_end_def)

text \<open>C17: A name that is printed quoted can be pasted into a shell: by the quoting rules of bash, the
  printed line is read back as exactly the name, when the name is well formed in the locale's
  encoding.\<close>
theorem quoted_name_pastes_back:
  assumes "extends_ascii mbtowc" and "0 \<notin> set name" and "well_formed mbtowc name" and "\<not> all_safe mbtowc name"
  shows "\<exists>out. print_possibly_escaped False False True mbtowc name = out @ [10] \<and> shell_read Unquoted out = Some name"
proof -
  have "print_possibly_escaped False False True mbtowc name = ([quote] @ escape_from mbtowc name False @ [quote]) @ [10]"
    using assms(4) by (simp add: print_possibly_escaped_def Let_def)
  moreover have "shell_read Unquoted ([quote] @ escape_from mbtowc name False @ [quote]) = Some name"
    using escape_from_read_back [OF assms(1-3), of False] by simp
  ultimately show ?thesis by blast
qed

lemma quoted_name_pastes_back_witness:
  "\<exists>out. print_possibly_escaped False False True ascii_mbtowc [47, 39, 10, 97] = out @ [10] \<and>
    shell_read Unquoted out = Some [47, 39, 10, 97]"
  by (rule quoted_name_pastes_back [OF ascii_extends])
    (simp_all add: well_formed.simps all_safe.simps ascii_mbtowc_def at_end_def word_less_nat_alt)

text \<open>Not every control character is kept from a terminal: DEL (127) counts as safe, and so does
  every C1 control of a UTF-8 name, as the control sequence introducer U+009B; both are printed raw.\<close>
theorem control_characters_printed_raw:
  "print_possibly_escaped False False True ascii_mbtowc [47, 127] = [47, 127, 10] \<and>
   print_possibly_escaped False False True
     (\<lambda>ptr. if hd ptr = 0xc2 then (2, 0x9b) else ascii_mbtowc ptr) [47, 0xc2, 0x9b] = [47, 0xc2, 0x9b, 10]"
  by (simp add: print_possibly_escaped_def all_safe.simps ascii_mbtowc_def at_end_def Let_def word_less_nat_alt)

end
