(* ===== verification/Database_Builder.thy ===== *)
theory Database_Builder
  imports Corpus_Correct Hash_Table
begin

text \<open>
  \<open>DatabaseBuilder\<close> of \<open>src/database-builder.cpp\<close>: the layout of a database file. The file is the
  header, the dictionary, the compressed blocks of names, their offsets, the hash table, the
  posting lists, and the sections that only updatedb reads; at the end the header is written again
  with all offsets. The names of the output file (temporary file, link, rename) are not modelled.
\<close>

section \<open>The header\<close>

record header =
  version :: u32
  hashtable_size :: u32
  extra_ht_slots :: u32
  hdr_num_docids :: u32
  hash_table_offset_bytes :: u64
  filename_index_offset_bytes :: u64
  max_version :: u32
  zstd_dictionary_length_bytes :: u32
  zstd_dictionary_offset_bytes :: u64
  directory_data_length_bytes :: u64
  directory_data_offset_bytes :: u64
  next_zstd_dictionary_length_bytes :: u64
  next_zstd_dictionary_offset_bytes :: u64
  conf_block_length_bytes :: u64
  conf_block_offset_bytes :: u64
  metadata_length_bytes :: u64
  metadata_offset_bytes :: u64
  history_length_bytes :: u64
  history_offset_bytes :: u64
  metadata_flags :: u32
  check_visibility :: bool

definition magic :: bytes where
  "magic = [0] @ str ''flocate''"

text \<open>The bytes of the struct on a little-endian machine with 8-byte alignment, padding zeroed.\<close>

definition header_bytes :: "header \<Rightarrow> bytes" where
  "header_bytes h =
     magic @ put_le 4 (version h) @ put_le 4 (hashtable_size h) @ put_le 4 (extra_ht_slots h) @
     put_le 4 (hdr_num_docids h) @ put_le 8 (hash_table_offset_bytes h) @
     put_le 8 (filename_index_offset_bytes h) @ put_le 4 (max_version h) @
     put_le 4 (zstd_dictionary_length_bytes h) @ put_le 8 (zstd_dictionary_offset_bytes h) @
     put_le 8 (directory_data_length_bytes h) @ put_le 8 (directory_data_offset_bytes h) @
     put_le 8 (next_zstd_dictionary_length_bytes h) @ put_le 8 (next_zstd_dictionary_offset_bytes h) @
     put_le 8 (conf_block_length_bytes h) @ put_le 8 (conf_block_offset_bytes h) @
     put_le 8 (metadata_length_bytes h) @ put_le 8 (metadata_offset_bytes h) @
     put_le 8 (history_length_bytes h) @ put_le 8 (history_offset_bytes h) @
     put_le 4 (metadata_flags h) @ [if check_visibility h then 1 else 0, 0, 0, 0]"

definition header_size :: nat where
  "header_size = 144"

definition num_overflow_slots :: nat where
  "num_overflow_slots = 16"

definition NUM_TRIGRAMS :: nat where
  "NUM_TRIGRAMS = 2 ^ 24"

definition METADATA_FLAG_POSIX_V2 :: u32 where
  "METADATA_FLAG_POSIX_V2 = 2"

definition new_header :: "bool \<Rightarrow> header" where
  "new_header visibility =
     \<lparr>version = -1, hashtable_size = 0, extra_ht_slots = of_nat num_overflow_slots, hdr_num_docids = 0,
      hash_table_offset_bytes = -1, filename_index_offset_bytes = -1, max_version = 3,
      zstd_dictionary_length_bytes = -1, zstd_dictionary_offset_bytes = -1,
      directory_data_length_bytes = 0, directory_data_offset_bytes = 0,
      next_zstd_dictionary_length_bytes = 0, next_zstd_dictionary_offset_bytes = 0,
      conf_block_length_bytes = 0, conf_block_offset_bytes = 0, metadata_length_bytes = 0,
      metadata_offset_bytes = 0, history_length_bytes = 0, history_offset_bytes = 0,
      metadata_flags = 0, check_visibility = visibility\<rparr>"

section \<open>The builder\<close>

text \<open>\<open>contents\<close> is what has been written to the file besides the blocks of the current corpus.\<close>

record 'c database_builder =
  contents :: bytes
  hdr :: header
  corpus :: "'c encoding_corpus"
  next_dictionary :: bytes
  conf_block :: bytes
  history_events :: "history_event list"

definition open_database :: "bool \<Rightarrow> bytes \<Rightarrow> bytes \<times> header" where
  "open_database visibility dictionary =
     (let h = new_header visibility; file = header_bytes h
      in if dictionary = [] then
           (file, h\<lparr>zstd_dictionary_offset_bytes := 0, zstd_dictionary_length_bytes := 0\<rparr>)
         else
           (file @ dictionary,
            h\<lparr>zstd_dictionary_offset_bytes := of_nat (length file),
              zstd_dictionary_length_bytes := of_nat (length dictionary)\<rparr>))"

definition start_corpus ::
    "bool \<Rightarrow> bytes \<Rightarrow> nat \<Rightarrow> bool \<Rightarrow> bool \<Rightarrow> 'c \<Rightarrow> 'c \<Rightarrow> 'c database_builder" where
  "start_corpus visibility dictionary bsize with_times with_meta ctx1 ctx2 =
     (let (file, h) = open_database visibility dictionary
      in \<lparr>contents = file, hdr = h,
          corpus = new_encoding_corpus (of_nat (length file)) bsize with_times with_meta ctx1 ctx2,
          next_dictionary = [], conf_block = [], history_events = []\<rparr>)"

fun finish_lists ::
    "mem \<Rightarrow> u32 list \<Rightarrow> (u32 \<Rightarrow> posting_list_builder option) \<Rightarrow> (u32 \<Rightarrow> posting_list_builder option) option" where
  "finish_lists buf [] idx = Some idx"
| "finish_lists buf (t # ts) idx =
     (case idx t of
        None \<Rightarrow> finish_lists buf ts idx
      | Some b \<Rightarrow>
          (case finish_posting_list buf b of
             None \<Rightarrow> None
           | Some b \<Rightarrow> finish_lists buf ts (idx(t := Some b))))"

definition trigrams_in_order :: "u32 list" where
  "trigrams_in_order = map of_nat [0..<NUM_TRIGRAMS]"

definition list_size :: "(u32 \<Rightarrow> posting_list_builder option) \<Rightarrow> u32 \<Rightarrow> u32" where
  "list_size idx t = (case idx t of None \<Rightarrow> 0 | Some b \<Rightarrow> pl_num_docids b)"

definition list_bytes :: "(u32 \<Rightarrow> posting_list_builder option) \<Rightarrow> u32 \<Rightarrow> bytes" where
  "list_bytes idx t = (case idx t of None \<Rightarrow> [] | Some b \<Rightarrow> encoded b)"

definition trigram_bytes :: "trigram \<Rightarrow> bytes" where
  "trigram_bytes e = put_le 4 (trgm e) @ put_le 4 (num_docids e) @ put_le 8 (tr_offset e)"

text \<open>An optional section: it is appended, and the header gets its offset and length.\<close>

definition add_section ::
    "bytes \<Rightarrow> (u64 \<Rightarrow> u64 \<Rightarrow> header \<Rightarrow> header) \<Rightarrow> bytes \<times> header \<Rightarrow> bytes \<times> header" where
  "add_section bs set_place fh =
     (if bs = [] then fh
      else (fst fh @ bs, set_place (of_nat (length (fst fh))) (of_nat (length bs)) (snd fh)))"

definition index_part :: "bytes \<Rightarrow> 'c encoding_corpus \<Rightarrow> bytes" where
  "index_part file c = concat (map (put_le 8) (filename_blocks c @ [of_nat (length file)]))"

text \<open>
  \<open>finish_corpus\<close> after \<open>corpus->finish()\<close>: the sections that the search reads. The result is the
  file and the header so far; \<open>fuel\<close> bounds the number of attempts at the hash table.
\<close>

definition write_search_index ::
    "nat \<Rightarrow> mem \<Rightarrow> bytes \<Rightarrow> 'c encoding_corpus \<Rightarrow> header \<Rightarrow> (bytes \<times> header) option" where
  "write_search_index fuel buf start c h =
     (let file = start @ written c;
          h = h\<lparr>hdr_num_docids := of_nat (length (filename_blocks c)),
                filename_index_offset_bytes := of_nat (length file)\<rparr>;
          file = file @ index_part file c
      in do {
        idx \<leftarrow> finish_lists buf trigrams_in_order (invindex c);
        let all_trigrams = filter (\<lambda>t. idx t \<noteq> None) trigrams_in_order in do {
          first_size \<leftarrow> next_prime (length all_trigrams);
          (ht_size, ht) \<leftarrow> size_table fuel (list_size idx) all_trigrams num_overflow_slots first_size;
          let table_offset = length file;
              ht = set_offsets (\<lambda>t. of_nat (length (list_bytes idx t)))
                     (of_nat (table_offset + 16 * (ht_size + num_overflow_slots + 1))) ht;
              file = file @ concat (map trigram_bytes ht);
              file = file @ posting_lists (list_bytes idx) ht
          in Some (file, h\<lparr>hash_table_offset_bytes := of_nat table_offset,
                           hashtable_size := of_nat ht_size\<rparr>) } })"

text \<open>\<open>compress_all\<close> is \<open>ZSTD_compress\<close> at level 6; None is its error.\<close>

definition finish_corpus ::
    "'c zstd \<Rightarrow> (bytes \<Rightarrow> bytes option) \<Rightarrow> nat \<Rightarrow> mem \<Rightarrow> 'c database_builder \<Rightarrow> bytes option" where
  "finish_corpus z compress_all fuel buf db =
     do {
       c \<leftarrow> finish_blocks z buf (corpus db);
       fh \<leftarrow> write_search_index fuel buf (contents db) c (hdr db);
       dir_times \<leftarrow> get_compressed_dir_times z c;
       let fh = add_section dir_times
             (\<lambda>off len h. h\<lparr>directory_data_offset_bytes := off, directory_data_length_bytes := len\<rparr>) fh in do {
       metadata \<leftarrow> get_compressed_metadata z c;
       let fh = add_section metadata
             (\<lambda>off len h. h\<lparr>metadata_offset_bytes := off, metadata_length_bytes := len,
                            metadata_flags := METADATA_FLAG_POSIX_V2\<rparr>) fh in do {
       history \<leftarrow> (if history_events db = [] then Some []
                   else compress_all (encode_history_stream (history_events db)));
       let fh = (if history_events db = [] then fh
                 else (fst fh @ history,
                       (snd fh)\<lparr>history_offset_bytes := of_nat (length (fst fh)),
                                 history_length_bytes := of_nat (length history)\<rparr>));
           fh = add_section (next_dictionary db)
             (\<lambda>off len h. h\<lparr>next_zstd_dictionary_offset_bytes := off, next_zstd_dictionary_length_bytes := len\<rparr>) fh;
           fh = add_section (conf_block db)
             (\<lambda>off len h. h\<lparr>conf_block_offset_bytes := off, conf_block_length_bytes := len\<rparr>) fh;
           h = (snd fh)\<lparr>version := 2\<rparr>
       in Some (header_bytes h @ drop header_size (fst fh)) } } }"

lemma length_header_bytes [simp]: "length (header_bytes h) = header_size"
  by (simp add: header_bytes_def header_size_def magic_def str_def)

lemma length_trigram_bytes [simp]: "length (trigram_bytes e) = 16"
  by (simp add: trigram_bytes_def)

end
