(* ===== verification/Pread.thy ===== *)
theory Pread
  imports Prelude
begin

text \<open>
  \<open>try_complete_pread\<close> and \<open>complete_pread\<close> of \<open>src/complete_pread.cpp\<close>. The kernel is a parameter
  that may answer every call differently: with some of the bytes, an interruption or an error. The
  loop puts the parts together; it gives the bytes of the file, or reports a short read.
\<close>

datatype read_result = Interrupted | Failed | Bytes bytes

text \<open>Some None is the result false (end of file or an error), None a loop that never ends.\<close>

partial_function (option) try_complete_pread ::
    "(nat \<Rightarrow> nat \<Rightarrow> nat \<Rightarrow> read_result) \<Rightarrow> nat \<Rightarrow> nat \<Rightarrow> nat \<Rightarrow> bytes \<Rightarrow> bytes option option" where
  "try_complete_pread sys call len offset ptr =
     (if 0 < len then
        case sys call len offset of
          Interrupted \<Rightarrow> try_complete_pread sys (Suc call) len offset ptr
        | Failed \<Rightarrow> Some None
        | Bytes bs \<Rightarrow>
            (if bs = [] then Some None
             else try_complete_pread sys (Suc call) (len - length bs) (offset + length bs) (ptr @ bs))
      else Some (Some ptr))"

definition complete_pread ::
    "(nat \<Rightarrow> nat \<Rightarrow> nat \<Rightarrow> read_result) \<Rightarrow> nat \<Rightarrow> nat \<Rightarrow> bytes option option" where
  "complete_pread sys len offset = try_complete_pread sys 0 len offset []"

text \<open>What a read of \<open>len\<close> bytes at \<open>offset\<close> gives; None is the exit on a short read.\<close>

definition pread :: "bytes \<Rightarrow> nat \<Rightarrow> nat \<Rightarrow> bytes option" where
  "pread file len offset =
     (if len = 0 then Some []
      else if offset + len \<le> length file then Some (take len (drop offset file)) else None)"

text \<open>
  A kernel that serves \<open>file\<close>: it gives bytes of the file, at least one before its end, and is not
  interrupted for ever.
\<close>

definition read_ok :: "bytes \<Rightarrow> nat \<Rightarrow> nat \<Rightarrow> read_result \<Rightarrow> bool" where
  "read_ok file len offset r =
     (case r of
        Interrupted \<Rightarrow> True
      | Failed \<Rightarrow> False
      | Bytes bs \<Rightarrow> bs = take (length bs) (drop offset file) \<and> length bs \<le> len \<and>
          (0 < len \<and> offset < length file \<longrightarrow> bs \<noteq> []))"

definition serves :: "bytes \<Rightarrow> (nat \<Rightarrow> nat \<Rightarrow> nat \<Rightarrow> read_result) \<Rightarrow> bool" where
  "serves file sys \<longleftrightarrow>
     (\<forall>call len offset. read_ok file len offset (sys call len offset)) \<and>
     (\<forall>call len offset. \<exists>k. sys (call + k) len offset \<noteq> Interrupted)"

lemma serves_ok: "serves file sys \<Longrightarrow> read_ok file len offset (sys call len offset)"
  by (simp add: serves_def)

lemma serves_bytes:
  assumes "serves file sys" and "sys call len offset = Bytes bs"
  shows "bs = take (length bs) (drop offset file)" and "length bs \<le> len"
    and "0 < len \<Longrightarrow> offset < length file \<Longrightarrow> bs \<noteq> []"
  using serves_ok [OF assms(1), of len offset call] assms(2) by (simp_all add: read_ok_def)

lemma skip_interruptions:
  assumes "sys (call + k) len offset \<noteq> Interrupted" and "0 < len"
  shows "\<exists>call'. sys call' len offset \<noteq> Interrupted \<and>
    try_complete_pread sys call len offset ptr = try_complete_pread sys call' len offset ptr"
  using assms(1)
proof (induction k arbitrary: call)
  case 0
  then show ?case by auto
next
  case (Suc k)
  show ?case
  proof (cases "sys call len offset = Interrupted")
    case True
    then have "try_complete_pread sys call len offset ptr = try_complete_pread sys (Suc call) len offset ptr"
      using assms(2) by (subst try_complete_pread.simps) simp
    with Suc.IH [of "Suc call"] Suc.prems show ?thesis by simp
  qed auto
qed

lemma try_complete_pread_serves:
  assumes "serves file sys"
  shows "try_complete_pread sys call len offset ptr = Some (map_option ((@) ptr) (pread file len offset))"
proof (induction len arbitrary: call offset ptr rule: less_induct)
  case (less len)
  show ?case
  proof (cases "0 < len")
    case False
    then show ?thesis by (subst try_complete_pread.simps) (simp add: pread_def)
  next
    case True
    obtain k where "sys (call + k) len offset \<noteq> Interrupted" using assms unfolding serves_def by blast
    from skip_interruptions [of sys call k len offset ptr, OF this True] obtain call' where
      c: "sys call' len offset \<noteq> Interrupted"
      "try_complete_pread sys call len offset ptr = try_complete_pread sys call' len offset ptr" by blast
    have "sys call' len offset \<noteq> Failed"
      using serves_ok [OF assms, of len offset call'] by (auto simp add: read_ok_def)
    with c(1) obtain bs where bs: "sys call' len offset = Bytes bs" by (cases "sys call' len offset") auto
    note b = serves_bytes [OF assms bs]
    show ?thesis
    proof (cases "bs = []")
      case True
      with b(3) \<open>0 < len\<close> have "length file \<le> offset" by force
      with True \<open>0 < len\<close> bs show ?thesis
        unfolding c(2) by (subst try_complete_pread.simps) (simp add: pread_def)
    next
      case False
      have "drop offset file \<noteq> []" using b(1) False by (metis take_Nil)
      then have l: "offset + length bs \<le> length file" using arg_cong [OF b(1), of length] False by (simp add: min_def split: if_splits)
      have "len - length bs < len" using False \<open>0 < len\<close> by simp
      note IH = less.IH [OF this, of "Suc call'" "offset + length bs" "ptr @ bs"]
      have "try_complete_pread sys call' len offset ptr =
          try_complete_pread sys (Suc call') (len - length bs) (offset + length bs) (ptr @ bs)"
        using False \<open>0 < len\<close> bs by (subst try_complete_pread.simps) simp
      note step = this [unfolded IH]
      moreover have "map_option ((@) (ptr @ bs)) (pread file (len - length bs) (offset + length bs)) =
          map_option ((@) ptr) (pread file len offset)"
      proof (cases "offset + len \<le> length file")
        case True
        have "take len (drop offset file) = take (length bs) (drop offset file) @
            take (len - length bs) (drop (length bs) (drop offset file))"
          using b(2) by (metis le_add_diff_inverse take_add)
        then have "take len (drop offset file) = bs @ take (len - length bs) (drop (offset + length bs) file)"
          unfolding b(1) [symmetric] by (simp add: add.commute)
        with True b(2) \<open>0 < len\<close> l show ?thesis by (auto simp add: pread_def)
      next
        case False
        with b(2) l show ?thesis by (auto simp add: pread_def)
      qed
      ultimately show ?thesis unfolding c(2) step by simp
    qed
  qed
qed

section \<open>Properties\<close>

text \<open>C38: However the kernel cuts a read into parts and interrupts it, as long as it is not interrupted
  for ever, the loop returns: with exactly the requested bytes of the file, or with the report of a
  short read when the file ends before them.\<close>
theorem complete_pread_total:
  assumes "serves file sys"
  shows "complete_pread sys len offset =
    Some (if len = 0 \<or> offset + len \<le> length file then Some (take len (drop offset file)) else None)"
  unfolding complete_pread_def try_complete_pread_serves [OF assms]
  by (auto simp add: pread_def option.map_ident)

lemma complete_pread_total_witness:
  "complete_pread (\<lambda>call len offset. if even call then Interrupted
     else Bytes (take 1 (take len (drop offset [1, 2, 3, 4])))) 2 1 = Some (Some [2, 3])"
proof -
  have "serves [1, 2, 3, 4] (\<lambda>call len offset. if even call then Interrupted
     else Bytes (take 1 (take len (drop offset [1, 2, 3, 4]))))"
    unfolding serves_def
  proof (intro conjI allI)
    fix call len offset :: nat
    show "\<exists>k. (if even (call + k) then Interrupted
        else Bytes (take 1 (take len (drop offset [1, 2, 3, 4])))) \<noteq> Interrupted"
      by (cases "even call") (auto intro: exI [of _ 1] exI [of _ 0])
  qed (auto simp add: read_ok_def min_def)
  from complete_pread_total [OF this, of 2 1] show ?thesis by simp
qed

end
