(* ===== verification/Database.thy ===== *)
theory Database
  imports Database_Builder Pread
begin

text \<open>
  The reader of a database file: the class \<open>Corpus\<close> of \<open>src/flocate.cpp\<close> and the reads of
  posting lists in \<open>do_search_file\<close>. Every read is a \<open>pread\<close> of the file, None is an exit with an
  error message. The theorems connect it with the writer.
\<close>

section \<open>Header\<close>

definition header_field :: "nat \<Rightarrow> nat \<Rightarrow> bytes \<Rightarrow> 'a::len word" where
  "header_field off n bs = get_le n (drop off bs)"

definition decode_header :: "bytes \<Rightarrow> header" where
  "decode_header bs =
     \<lparr>version = header_field 8 4 bs, hashtable_size = header_field 12 4 bs,
      extra_ht_slots = header_field 16 4 bs, hdr_num_docids = header_field 20 4 bs,
      hash_table_offset_bytes = header_field 24 8 bs,
      filename_index_offset_bytes = header_field 32 8 bs, max_version = header_field 40 4 bs,
      zstd_dictionary_length_bytes = header_field 44 4 bs,
      zstd_dictionary_offset_bytes = header_field 48 8 bs,
      directory_data_length_bytes = header_field 56 8 bs,
      directory_data_offset_bytes = header_field 64 8 bs,
      next_zstd_dictionary_length_bytes = header_field 72 8 bs,
      next_zstd_dictionary_offset_bytes = header_field 80 8 bs,
      conf_block_length_bytes = header_field 88 8 bs, conf_block_offset_bytes = header_field 96 8 bs,
      metadata_length_bytes = header_field 104 8 bs, metadata_offset_bytes = header_field 112 8 bs,
      history_length_bytes = header_field 120 8 bs, history_offset_bytes = header_field 128 8 bs,
      metadata_flags = header_field 136 4 bs, check_visibility = (bs ! 140 \<noteq> 0)\<rparr>"

definition open_corpus :: "bool \<Rightarrow> bytes \<Rightarrow> header option" where
  "open_corpus ignore_visibility file =
     do {
       bs \<leftarrow> pread file header_size 0;
       let h = decode_header bs in
       if take 8 bs \<noteq> magic then None
       else if version h \<noteq> 0 \<and> version h \<noteq> 1 \<and> version h \<noteq> 2 then None
       else
         let h = (if version h = 0
                  then h\<lparr>zstd_dictionary_offset_bytes := 0, zstd_dictionary_length_bytes := 0\<rparr> else h);
             h = (if max_version h < 2 then h\<lparr>check_visibility := True\<rparr> else h);
             h = (if ignore_visibility then h\<lparr>check_visibility := False\<rparr> else h)
         in Some h }"

section \<open>Reads\<close>

definition decode_trigram :: "bytes \<Rightarrow> trigram" where
  "decode_trigram bs = \<lparr>trgm = get_le 4 bs, num_docids = get_le 4 (drop 4 bs), tr_offset = get_le 8 (drop 8 bs)\<rparr>"

fun decode_trigrams :: "nat \<Rightarrow> bytes \<Rightarrow> trigram list" where
  "decode_trigrams 0 bs = []"
| "decode_trigrams (Suc n) bs = decode_trigram bs # decode_trigrams n (drop 16 bs)"

definition corpus_find_trigram :: "bytes \<Rightarrow> header \<Rightarrow> u32 \<Rightarrow> (trigram \<times> u64) option option" where
  "corpus_find_trigram file h t =
     (let bucket = hash_trigram t (unat (hashtable_size h));
          slots = unat (extra_ht_slots h)
      in do {
        s \<leftarrow> pread file (16 * (slots + 2)) (unat (hash_table_offset_bytes h) + 16 * bucket);
        Some (scan_entries (slots + 1) t (decode_trigrams (slots + 2) s)) })"

definition offset_for_block :: "header \<Rightarrow> u32 \<Rightarrow> nat" where
  "offset_for_block h docid = unat (filename_index_offset_bytes h) + unat docid * 8"

definition get_compressed_filename_block :: "bytes \<Rightarrow> header \<Rightarrow> u32 \<Rightarrow> bytes option" where
  "get_compressed_filename_block file h docid =
     do {
       s \<leftarrow> pread file 16 (offset_for_block h docid);
       let offset = get_le 8 s :: u64; len = get_le 8 (drop 8 s) - offset
       in pread file (unat len) (unat offset) }"

text \<open>
  A posting list is read into a buffer at \<open>p\<close> of the memory \<open>m\<close>; behind the buffer the decoder may
  see anything.
\<close>

definition read_posting_list :: "bool \<Rightarrow> mem \<Rightarrow> nat \<Rightarrow> bytes \<Rightarrow> trigram \<times> u64 \<Rightarrow> u32 list option" where
  "read_posting_list sse2 m p file x =
     do {
       s \<leftarrow> pread file (unat (snd x)) (unat (tr_offset (fst x)));
       (_, decoded) \<leftarrow> decode_pfor_delta1_128 sse2 (store m p s) p (unat (num_docids (fst x))) True;
       Some decoded }"

section \<open>What was written is read\<close>

lemma get_le_put_le_exact [simp]:
  fixes v :: "'a::len word"
  assumes "LENGTH('a) \<le> 8 * n"
  shows "get_le n (put_le n v) = v"
  using get_le_put_le [OF assms, of v "[]"] by simp

lemma header_field_append [simp]:
  "off = length pre \<Longrightarrow> LENGTH('a) \<le> 8 * n \<Longrightarrow>
   header_field off n (pre @ put_le n (v :: 'a::len word) @ rest) = v"
  by (simp add: header_field_def)

lemma pread_prefix:
  "offset + len \<le> length file \<Longrightarrow> pread (file @ rest) len offset = pread file len offset"
  by (simp add: pread_def)

lemma pread_ok: "offset + len \<le> length file \<Longrightarrow> pread file len offset = Some (take len (drop offset file))"
  by (simp add: pread_def)

lemma pread_part: "offset = length pre \<Longrightarrow> len = length part \<Longrightarrow> pread (pre @ part @ post) len offset = Some part"
  by (simp add: pread_def)

lemma decode_header_bytes [simp]: "decode_header (header_bytes h @ rest) = h"
  by (simp add: decode_header_def header_bytes_def magic_def str_def header_field_def nth_append)

lemma decode_trigrams_written:
  "decode_trigrams n (concat (map trigram_bytes (take n es)) @ rest) = take n es" if "n \<le> length es"
  using that
proof (induction n arbitrary: es)
  case (Suc n)
  then obtain e es' where es: "es = e # es'" by (cases es) auto
  have "decode_trigram (trigram_bytes e @ bs) = e" for bs
    by (simp add: decode_trigram_def trigram_bytes_def)
  with Suc es show ?case by simp
qed simp

lemma length_concat_fixed: "(\<And>x. length (f x) = n) \<Longrightarrow> length (concat (map f xs)) = n * length xs"
  by (induction xs) simp_all

lemma read_fixed:
  assumes "\<And>x. length (f x) = n" and "i + k \<le> length xs"
  shows "pread (pre @ concat (map f xs) @ post) (n * k) (length pre + n * i) =
    Some (concat (map f (take k (drop i xs))))"
proof -
  have "xs = take i xs @ take k (drop i xs) @ drop k (drop i xs)" by (simp del: drop_drop)
  then have "concat (map f xs) =
      concat (map f (take i xs)) @ concat (map f (take k (drop i xs))) @ concat (map f (drop k (drop i xs)))"
    by (metis concat_append map_append)
  then have "pre @ concat (map f xs) @ post =
      (pre @ concat (map f (take i xs))) @ concat (map f (take k (drop i xs))) @
        concat (map f (drop k (drop i xs))) @ post" by simp
  moreover have "length (concat (map f (take i xs))) = n * i" "length (concat (map f (take k (drop i xs)))) = n * k"
    using assms(2) by (simp_all add: length_concat_fixed [OF assms(1)])
  ultimately show ?thesis by (simp only:) (rule pread_part, simp_all)
qed

lemma corpus_find_trigram_written:
  assumes "file = pre @ concat (map trigram_bytes table) @ post"
    and "unat (hash_table_offset_bytes h) = length pre" and "unat (hashtable_size h) = ht_size"
    and "unat (extra_ht_slots h) = slots" and "length table = ht_size + slots + 1" and "0 < ht_size"
  shows "corpus_find_trigram file h t = Some (find_trigram ht_size slots table t)"
proof -
  let ?b = "hash_trigram t ht_size"
  have b: "?b + (slots + 2) \<le> length table" using hash_trigram_less [OF assms(6), of t] assms(5) by simp
  from read_fixed [where f = trigram_bytes, OF length_trigram_bytes b, of pre post] have
    "pread file (16 * (slots + 2)) (length pre + 16 * ?b) =
      Some (concat (map trigram_bytes (take (slots + 2) (drop ?b table))))"
    unfolding assms(1) .
  moreover have "decode_trigrams (slots + 2) (concat (map trigram_bytes (take (slots + 2) (drop ?b table)))) =
      take (slots + 2) (drop ?b table)"
    using decode_trigrams_written [of "slots + 2" "drop ?b table" "[]"] b by simp
  ultimately show ?thesis
    by (simp only: corpus_find_trigram_def assms(2-4) find_trigram_def Let_def bind.bind_lunit)
qed

lemma block_ends:
  assumes "i < length bs"
  shows "(block_offsets z pos bs @ [pos + of_nat (length (concat (map (compressed_names z) bs)))]) ! Suc i =
    pos + of_nat (length (concat (map (compressed_names z) (take (Suc i) bs))))"
proof (cases "Suc i < length bs")
  case True
  then show ?thesis by (simp add: block_offsets_def nth_append)
next
  case False
  with assms have "Suc i = length bs" by simp
  then show ?thesis by (simp add: block_offsets_def nth_append)
qed

lemma block_written:
  assumes fl: "file = pre @ blocks @ concat (map (put_le 8) offs) @ post"
    and blocks: "blocks = concat (map (compressed_names z) bs)"
    and offs: "offs = block_offsets z (of_nat (length pre)) bs @ [of_nat (length pre) + of_nat (length blocks)]"
    and index: "unat (filename_index_offset_bytes h) = length (pre @ blocks)"
    and i: "i < length bs" and small: "length file < 2 ^ 63" "length bs < 2 ^ 32"
  shows "get_compressed_filename_block file h (of_nat i) = Some (compressed_names z (bs ! i))"
proof -
  define before where "before = concat (map (compressed_names z) (take i bs))"
  let ?b = "compressed_names z (bs ! i)"
  have ui: "unat (of_nat i :: u32) = i" using i small(2) by (simp add: unat_of_nat_small)
  have len: "length offs = Suc (length bs)" by (simp add: offs block_offsets_def)
  have "i + 2 \<le> length offs" using i len by simp
  from read_fixed [where f = "put_le 8", OF length_put_le this, of "pre @ blocks" post] have r:
    "pread file 16 (length (pre @ blocks) + 8 * i) = Some (concat (map (put_le 8) (take 2 (drop i offs))))"
    by (simp add: fl)
  have two: "take 2 (drop i offs) = [offs ! i, offs ! Suc i]"
    using i len by (simp add: numeral_2_eq_2 Cons_nth_drop_Suc [symmetric])
  have o1: "offs ! i = of_nat (length pre) + of_nat (length before)"
    using i by (simp add: offs nth_append block_offsets_def before_def)
  have o2: "offs ! Suc i = of_nat (length pre) + of_nat (length before + length ?b)"
    unfolding offs blocks block_ends [OF i] using i by (simp add: take_Suc_conv_app_nth before_def)
  have bl: "blocks = before @ ?b @ concat (map (compressed_names z) (drop (Suc i) bs))"
    using arg_cong [OF id_take_nth_drop [OF i], of "\<lambda>l. concat (map (compressed_names z) l)"]
    by (simp add: before_def blocks)
  have fits: "length pre + length before + length ?b \<le> length file" by (simp add: fl bl)
  then have u: "unat (offs ! i) = length (pre @ before)"
    unfolding o1 using small(1) by (simp add: unat_of_nat_small flip: of_nat_add)
  have "offs ! Suc i - offs ! i = of_nat (length ?b)" unfolding o1 o2 by simp
  then have u2: "unat (offs ! Suc i - offs ! i) = length ?b"
    using fits small(1) by (simp add: unat_of_nat_small)
  have "pread file (length ?b) (length (pre @ before)) = Some ?b"
    using pread_part [of "length (pre @ before)" "pre @ before" "length ?b" ?b] by (simp add: fl bl)
  with r u u2 show ?thesis
    by (simp add: get_compressed_filename_block_def offset_for_block_def index ui two mult.commute)
qed

section \<open>The posting lists and the hash table\<close>

lemma size_table_result:
  assumes "size_table fuel g ts slots n = Some (ht_size, ht)" and "0 < n"
  shows "0 < ht_size" and "create_hashtable g ts ht_size slots = Table ht"
  using assms
proof (induction fuel arbitrary: n)
  case (Suc fuel)
  { case 1 then show ?case using Suc.IH(1) next_prime_positive
      by (auto simp add: grow_def split: hash_result.splits option.splits) }
  { case 2 then show ?case using Suc.IH(2) next_prime_positive
      by (auto simp add: grow_def split: hash_result.splits option.splits) }
qed simp_all

lemma posting_lists_set_offsets [simp]:
  "posting_lists encoded_of (set_offsets size_of base es) = posting_lists encoded_of es"
  by (induction size_of base es rule: set_offsets.induct) (simp_all add: posting_lists_def)

lemma finish_lists_result:
  "finish_lists buf ts idx = Some idx' \<Longrightarrow> distinct ts \<Longrightarrow>
   idx' t = (case idx t of None \<Rightarrow> None | Some b \<Rightarrow> if t \<in> set ts then finish_posting_list buf b else Some b)"
proof (induction buf ts idx rule: finish_lists.induct)
  case (2 buf t' ts idx)
  show ?case
  proof (cases "idx t'")
    case None
    with 2 show ?thesis by (cases "t = t'") (simp_all split: option.splits)
  next
    case (Some b)
    with 2(3) obtain b' where b': "finish_posting_list buf b = Some b'"
      "finish_lists buf ts (idx(t' := Some b')) = Some idx'" by (auto split: option.splits)
    have "distinct ts" "t' \<notin> set ts" using 2(4) by simp_all
    with 2(2) [OF Some b'] Some b'(1) show ?thesis by (cases "t = t'") (simp_all split: option.splits)
  qed
qed (simp split: option.splits)

lemma finish_lists_total:
  "(\<And>t b. t \<in> set ts \<Longrightarrow> idx t = Some b \<Longrightarrow> finish_posting_list buf b \<noteq> None) \<Longrightarrow> distinct ts \<Longrightarrow>
   finish_lists buf ts idx \<noteq> None"
proof (induction buf ts idx rule: finish_lists.induct)
  case (2 buf t ts idx)
  show ?case
  proof (cases "idx t")
    case None
    have "finish_lists buf ts idx \<noteq> None" by (rule 2(1) [OF None]) (use 2(3,4) in auto)
    with None show ?thesis by simp
  next
    case (Some b)
    then obtain b' where b': "finish_posting_list buf b = Some b'" using 2(3) by fastforce
    have "finish_lists buf ts (idx(t := Some b')) \<noteq> None"
      by (rule 2(2) [OF Some b']) (use 2(3,4) in \<open>auto split: if_splits\<close>)
    with Some b' show ?thesis by simp
  qed
qed simp

lemma trigrams_in_order_set: "t \<in> set trigrams_in_order \<longleftrightarrow> unat t < NUM_TRIGRAMS"
proof
  assume "unat t < NUM_TRIGRAMS"
  then have "t = of_nat (unat t)" "unat t \<in> {0..<NUM_TRIGRAMS}" by simp_all
  then show "t \<in> set trigrams_in_order" unfolding trigrams_in_order_def by (metis image_eqI set_map set_upt)
next
  assume "t \<in> set trigrams_in_order"
  then obtain k where "t = of_nat k" "k < NUM_TRIGRAMS" by (auto simp add: trigrams_in_order_def)
  then show "unat t < NUM_TRIGRAMS" by (simp add: NUM_TRIGRAMS_def unat_of_nat_small)
qed

lemma distinct_trigrams_in_order: "distinct trigrams_in_order"
  unfolding trigrams_in_order_def distinct_map
  by (auto intro!: inj_onI simp add: NUM_TRIGRAMS_def dest!: arg_cong [where f = unat] simp add: unat_of_nat_small)

lemma trigram_of_less: "unat (trigram_of a b c) < NUM_TRIGRAMS"
proof -
  have "trigram_of a b c = take_bit 24 (trigram_of a b c)"
    by (rule bit_word_eqI)
      (auto simp add: trigram_of_def bit_or_iff bit_push_bit_iff bit_ucast_iff bit_take_bit_iff
        dest: bit_imp_le_length)
  then have "unat (trigram_of a b c) = take_bit 24 (unat (trigram_of a b c))"
    by (metis unsigned_take_bit_eq)
  then show ?thesis by (metis NUM_TRIGRAMS_def take_bit_nat_less_exp)
qed

lemma file_trigrams_less: "t \<in> set (file_trigrams f) \<Longrightarrow> unat t < NUM_TRIGRAMS"
  by (induction f rule: file_trigrams.induct) (auto simp add: trigram_of_less)

lemma blocks_with_large: "NUM_TRIGRAMS \<le> unat t \<Longrightarrow> blocks_with t bs = []"
  using file_trigrams_less [of t] by (force simp add: blocks_with_def names_trigrams_def filter_empty_conv)

end
