(* ===== verification/Database_Correct.thy ===== *)
theory Database_Correct
  imports Database Search_Complete
begin

text \<open>
  What \<open>DatabaseBuilder\<close> writes is what \<open>Corpus\<close> reads: the header, the blocks of names under their
  numbers, and the index of trigrams with the posting lists.
\<close>

section \<open>The finished index\<close>

definition finished_lists :: "bytes list list \<Rightarrow> (u32 \<Rightarrow> posting_list_builder option) \<Rightarrow> bool" where
  "finished_lists bs idx \<longleftrightarrow>
     (\<forall>t. case idx t of
        None \<Rightarrow> blocks_with t bs = []
      | Some b \<Rightarrow> blocks_with t bs \<noteq> [] \<and> unat (pl_num_docids b) = length (blocks_with t bs) \<and>
          (\<forall>m p sse2. load m p (length (encoded b)) = encoded b \<longrightarrow>
            decode_pfor_delta1_128 sse2 m p (length (blocks_with t bs)) True =
              Some (p + length (encoded b), map of_nat (blocks_with t bs))))"

lemma unused_trigram:
  assumes "blocks_hold z buf pos c bs []" and "length bs \<le> 2 ^ 24"
  shows "invindex c t = None \<longleftrightarrow> blocks_with t bs = []"
proof -
  have "fed buf (occurrences t 0 bs) = Some (invindex c t)"
    using assms(1) by (simp add: blocks_hold_def)
  then have "invindex c t = None \<longleftrightarrow> occurrences t 0 bs = []"
    by (cases "occurrences t 0 bs"; cases "invindex c t") (auto simp add: fed_def bind_eq_Some_conv)
  also have "\<dots> \<longleftrightarrow> blocks_with t bs = []"
    using remdups_occurrences [OF assms(2), of t] by (metis map_is_Nil_conv remdups_adj_Nil_iff)
  finally show ?thesis .
qed

lemma finish_lists_finished:
  assumes "blocks_hold z buf pos c bs []" and "length bs \<le> 2 ^ 24"
  shows "\<exists>idx. finish_lists buf' trigrams_in_order (invindex c) = Some idx \<and> finished_lists bs idx"
proof -
  have fed: "fed buf (occurrences t 0 bs) = Some (invindex c t)" for t
    using assms(1) by (simp add: blocks_hold_def)
  have one: "\<exists>b' k. finish_posting_list buf' b = Some b' \<and> get_num_docids b' = Some k \<and>
      unat k = length (blocks_with t bs) \<and>
      (\<forall>m p sse2. load m p (length (encoded b')) = encoded b' \<longrightarrow>
        decode_pfor_delta1_128 sse2 m p (unat k) True =
          Some (p + length (encoded b'), map of_nat (blocks_with t bs)))"
    if "invindex c t = Some b" for t b
    using finished_list_decodes [of buf "occurrences t 0 bs" b buf'] fed [of t] that
      block_sorted_small [OF assms(2), where t = t] remdups_occurrences [OF assms(2), of t] by simp
  have "finish_lists buf' trigrams_in_order (invindex c) \<noteq> None"
    by (rule finish_lists_total [OF _ distinct_trigrams_in_order]) (use one in force)
  then obtain idx where idx: "finish_lists buf' trigrams_in_order (invindex c) = Some idx" by blast
  note res = finish_lists_result [OF idx distinct_trigrams_in_order]
  have "case idx t of
      None \<Rightarrow> blocks_with t bs = []
    | Some b \<Rightarrow> blocks_with t bs \<noteq> [] \<and> unat (pl_num_docids b) = length (blocks_with t bs) \<and>
        (\<forall>m p sse2. load m p (length (encoded b)) = encoded b \<longrightarrow>
          decode_pfor_delta1_128 sse2 m p (length (blocks_with t bs)) True =
            Some (p + length (encoded b), map of_nat (blocks_with t bs)))" for t
  proof (cases "invindex c t")
    case None
    with res [of t] unused_trigram [OF assms, of t] show ?thesis by simp
  next
    case (Some b)
    then have ne: "blocks_with t bs \<noteq> []" using unused_trigram [OF assms, of t] by simp
    then have "t \<in> set trigrams_in_order"
      using blocks_with_large [of t bs] trigrams_in_order_set [of t] by (simp add: not_le [symmetric]) blast
    with Some res [of t] have "idx t = finish_posting_list buf' b" by simp
    with one [OF Some] obtain b' k where b': "idx t = Some b'" "get_num_docids b' = Some k"
      "unat k = length (blocks_with t bs)"
      "\<forall>m p sse2. load m p (length (encoded b')) = encoded b' \<longrightarrow>
        decode_pfor_delta1_128 sse2 m p (unat k) True =
          Some (p + length (encoded b'), map of_nat (blocks_with t bs))" by metis
    have "pl_num_docids b' = k" using b'(2) by (simp add: get_num_docids_def split: if_splits)
    with b' ne show ?thesis by simp
  qed
  then have "finished_lists bs idx" unfolding finished_lists_def by blast
  with idx show ?thesis by blast
qed

lemma finished_lists_at:
  assumes "finished_lists bs idx"
  shows "blocks_with t bs = [] \<longleftrightarrow> idx t = None"
    and "unat (list_size idx t) = length (blocks_with t bs)"
    and "idx t \<noteq> None \<Longrightarrow> load m p (length (list_bytes idx t)) = list_bytes idx t \<Longrightarrow>
      decode_pfor_delta1_128 sse2 m p (length (blocks_with t bs)) True =
        Some (p + length (list_bytes idx t), map of_nat (blocks_with t bs))"
  using spec [OF assms [unfolded finished_lists_def], of t]
  by (auto simp add: list_size_def list_bytes_def split: option.splits)

section \<open>Reading the index\<close>

lemma create_hashtable_length:
  assumes "create_hashtable g ts ht_size slots = Table ht"
  shows "length ht = ht_size + slots + 1"
proof -
  have entry: "length ht' = length ht" if "insert_entry n k ht e b d = Table ht'" for n k ht e b d ht'
    using that
  proof (induction "length ht - b" arbitrary: ht e b d)
    case (Suc m)
    let ?od = "(b + 2 ^ 32 - hash_trigram (trgm (ht ! b)) n) mod 2 ^ 32"
    have m: "m = length ht - (b + 1)" "m = length (ht[b := e]) - (b + 1)" using Suc.hyps(2) by simp_all
    show ?case
    proof (cases "num_docids (ht ! b) \<noteq> 0")
      case True
      then have "\<exists>e' d'. insert_entry n k ht e' (b + 1) d' = Table ht' \<or>
          insert_entry n k (ht[b := e]) e' (b + 1) d' = Table ht'"
        using Suc.prems insert_entry.simps [of n k ht e b d] by (auto simp add: Let_def split: if_splits)
      with Suc.hyps(1) [OF m(1)] Suc.hyps(1) [OF m(2)] show ?thesis by auto
    next
      case False
      with Suc.prems insert_entry.simps [of n k ht e b d] show ?thesis by (auto split: if_splits)
    qed
  next
    case 0
    with insert_entry.simps [of n k ht e b d] show ?case by simp
  qed
  have "insert_all g n k ts ht0 = Table ht' \<Longrightarrow> length ht' = length ht0" for n k ht0 ht'
    by (induction g n k ts ht0 rule: insert_all.induct) (auto split: hash_result.splits dest: entry)
  with assms show ?thesis by (fastforce simp add: create_hashtable_def)
qed

text \<open>What the file answers for a trigram: it is in no block, or the blocks that hold it can be read.\<close>

definition trigram_answer :: "bytes \<Rightarrow> header \<Rightarrow> bytes list list \<Rightarrow> u32 \<Rightarrow> bool" where
  "trigram_answer file h bs t \<longleftrightarrow>
     (\<exists>r. corpus_find_trigram file h t = Some r \<and>
       (case r of
          None \<Rightarrow> blocks_with t bs = []
        | Some x \<Rightarrow> trgm (fst x) = t \<and>
            (\<forall>sse2 m p. read_posting_list sse2 m p file x = Some (map of_nat (blocks_with t bs)))))"

lemma load_store_self: "length s = n \<Longrightarrow> load (store m p s) p n = s"
  using load_store by blast

lemma read_posting_list_written:
  assumes fin: "finished_lists bs idx" and t: "idx t \<noteq> None"
    and fl: "file = pre @ pls @ post" and small: "length file < 2 ^ 64"
    and e: "num_docids e = list_size idx t" "base = of_nat (length pre)"
    and at: "take (length (list_bytes idx t)) (drop (unat (tr_offset e - base)) pls) = list_bytes idx t"
  shows "read_posting_list sse2 m p file (e, of_nat (length (list_bytes idx t))) =
    Some (map of_nat (blocks_with t bs))"
proof -
  let ?s = "list_bytes idx t"
  let ?off = "unat (tr_offset e - base)"
  have len: "length ?s \<le> length pls" using arg_cong [OF at, of length] by simp
  then have "length ?s < 2 ^ 64" using small by (simp add: fl)
  then have us: "unat (of_nat (length ?s) :: u64) = length ?s" by (simp add: unat_of_nat_small)
  have "pread file (length ?s) (unat (tr_offset e)) = Some ?s"
  proof (cases "?s = []")
    case False
    have "length ?s \<le> length pls - ?off" using arg_cong [OF at, of length] by simp
    moreover have "length ?s \<noteq> 0" using False by simp
    ultimately have inside: "?off + length ?s \<le> length pls" by linarith
    have "unat base = length pre" using small by (simp add: e(2) fl unat_of_nat_small)
    moreover have "unat base + ?off < 2 ^ 64"
      using inside small \<open>unat base = length pre\<close> by (simp add: fl)
    then have "unat (tr_offset e) = unat base + ?off"
      using unat_add_lem [of base "tr_offset e - base"] by simp
    ultimately have "unat (tr_offset e) = length (pre @ take ?off pls)"
      using inside by simp
    moreover have "file = (pre @ take ?off pls) @ ?s @ drop (length ?s) (drop ?off pls) @ post"
      unfolding fl by (subst at [symmetric]) (simp del: drop_drop)
    ultimately show ?thesis using pread_part by metis
  qed (simp add: pread_def)
  moreover have "decode_pfor_delta1_128 sse2 (store m p ?s) p (unat (num_docids e)) True =
      Some (p + length ?s, map of_nat (blocks_with t bs))"
    unfolding e(1) finished_lists_at(2) [OF fin]
    by (rule finished_lists_at(3) [OF fin t load_store_self]) simp
  ultimately show ?thesis by (simp add: read_posting_list_def us)
qed

lemma index_read:
  assumes fin: "finished_lists bs idx"
    and all: "ts = filter (\<lambda>t. idx t \<noteq> None) trigrams_in_order"
    and tab: "create_hashtable (list_size idx) ts ht_size slots = Table ht" "0 < ht_size"
    and table: "table = set_offsets (\<lambda>t. of_nat (length (list_bytes idx t))) base ht"
    and base: "base = of_nat (length (pre @ concat (map trigram_bytes table)))"
    and fl: "file = pre @ concat (map trigram_bytes table) @ posting_lists (list_bytes idx) ht @ post"
    and small: "length file < 2 ^ 36"
    and h: "unat (hash_table_offset_bytes h) = length pre" "unat (hashtable_size h) = ht_size"
      "unat (extra_ht_slots h) = slots"
    and t: "t \<noteq> -1"
  shows "trigram_answer file h bs t"
proof -
  have nz: "list_size idx t \<noteq> 0" if "t \<in> set ts" for t
    using that finished_lists_at(1,2) [OF fin, of t] by (auto simp add: all)
  have mem: "t \<in> set ts \<longleftrightarrow> idx t \<noteq> None"
    using blocks_with_large [of t bs] finished_lists_at(1) [OF fin, of t] trigrams_in_order_set [of t]
    by (auto simp add: all)
  have len: "length ht = length table" by (simp add: table)
  have "16 * length ht \<le> length file" by (simp add: fl len length_concat_fixed [of trigram_bytes 16])
  then have small_table: "length ht < 2 ^ 32" using small by simp
  have lht: "length ht = ht_size + slots + 1"
    using create_hashtable_length [OF tab(1)] .
  have lookup: "corpus_find_trigram file h t = Some (find_trigram ht_size slots table t)"
    by (rule corpus_find_trigram_written [OF fl h _ tab(2)]) (simp add: lht len [symmetric])
  have "length (posting_lists (list_bytes idx) ht) < 2 ^ 64" using small by (simp add: fl)
  from built_table_lookup [OF tab(2) _ _ _ tab(1) t this, of base] nz small_table lht
  have found: "if t \<in> set ts
    then \<exists>e. find_trigram ht_size slots table t = Some (e, of_nat (length (list_bytes idx t))) \<and>
      trgm e = t \<and> num_docids e = list_size idx t \<and>
      take (length (list_bytes idx t)) (drop (unat (tr_offset e - base)) (posting_lists (list_bytes idx) ht)) =
        list_bytes idx t
    else find_trigram ht_size slots table t = None"
    by (simp add: table list_all_iff all distinct_trigrams_in_order)
  show ?thesis
  proof (cases "t \<in> set ts")
    case True
    with found obtain e where e: "find_trigram ht_size slots table t = Some (e, of_nat (length (list_bytes idx t)))"
      "trgm e = t" "num_docids e = list_size idx t"
      "take (length (list_bytes idx t)) (drop (unat (tr_offset e - base)) (posting_lists (list_bytes idx) ht)) =
        list_bytes idx t" by auto
    have fl': "file = (pre @ concat (map trigram_bytes table)) @ posting_lists (list_bytes idx) ht @ post"
      by (simp add: fl)
    have "read_posting_list sse2 m p file (e, of_nat (length (list_bytes idx t))) =
        Some (map of_nat (blocks_with t bs))" for sse2 m p
      by (rule read_posting_list_written [OF fin _ fl' _ e(3) base e(4)]) (use True mem small in simp_all)
    with lookup e(1,2) show ?thesis by (simp add: trigram_answer_def)
  next
    case False
    with found lookup mem finished_lists_at(1) [OF fin, of t] show ?thesis by (simp add: trigram_answer_def)
  qed
qed

section \<open>The sections behind the index\<close>

definition search_part :: "header \<Rightarrow> u32 \<times> u32 \<times> u32 \<times> u64 \<times> u64 \<times> u32 \<times> bool" where
  "search_part h = (hashtable_size h, extra_ht_slots h, hdr_num_docids h, hash_table_offset_bytes h,
     filename_index_offset_bytes h, max_version h, check_visibility h)"

definition extends :: "bytes \<times> header \<Rightarrow> bytes \<times> header \<Rightarrow> bool" where
  "extends fh fh' \<longleftrightarrow> (\<exists>rest. fst fh' = fst fh @ rest) \<and> search_part (snd fh') = search_part (snd fh)"

lemma extends_refl: "extends fh fh"
  by (simp add: extends_def)

lemma extends_trans: "extends a b \<Longrightarrow> extends b c \<Longrightarrow> extends a c"
  unfolding extends_def by fastforce

lemma extends_section:
  assumes "\<And>off len h. search_part (set_place off len h) = search_part h" and "extends fh fh'"
  shows "extends fh (add_section bs set_place fh')"
  using assms unfolding extends_def add_section_def by auto

lemma bind_eq_SomeE:
  assumes "x \<bind> f = Some y"
  obtains a where "x = Some a" and "f a = Some y"
  using assms by (auto simp add: bind_eq_Some_conv)

lemma finish_corpus_parts:
  assumes "finish_corpus z compress_all fuel buf db = Some file"
  shows "\<exists>c fh rest h. finish_blocks z buf (corpus db) = Some c \<and>
    write_search_index fuel buf (contents db) c (hdr db) = Some fh \<and>
    file = header_bytes h @ drop header_size (fst fh @ rest) \<and>
    search_part h = search_part (snd fh) \<and> version h = 2"
proof -
  from assms obtain c fh dir_times metadata history where
    c: "finish_blocks z buf (corpus db) = Some c"
    and fh: "write_search_index fuel buf (contents db) c (hdr db) = Some fh"
    and parts: "get_compressed_dir_times z c = Some dir_times" "get_compressed_metadata z c = Some metadata"
      "(if history_events db = [] then Some []
        else compress_all (encode_history_stream (history_events db))) = Some history"
    unfolding finish_corpus_def Let_def by (elim bind_eq_SomeE) blast
  define fh1 where "fh1 = add_section dir_times
    (\<lambda>off len h. h\<lparr>directory_data_offset_bytes := off, directory_data_length_bytes := len\<rparr>) fh"
  define fh2 where "fh2 = add_section metadata
    (\<lambda>off len h. h\<lparr>metadata_offset_bytes := off, metadata_length_bytes := len,
                   metadata_flags := METADATA_FLAG_POSIX_V2\<rparr>) fh1"
  define fh3 where "fh3 = (if history_events db = [] then fh2
    else (fst fh2 @ history, (snd fh2)\<lparr>history_offset_bytes := of_nat (length (fst fh2)),
            history_length_bytes := of_nat (length history)\<rparr>))"
  define fh4 where "fh4 = add_section (next_dictionary db)
    (\<lambda>off len h. h\<lparr>next_zstd_dictionary_offset_bytes := off, next_zstd_dictionary_length_bytes := len\<rparr>) fh3"
  define fh5 where "fh5 = add_section (conf_block db)
    (\<lambda>off len h. h\<lparr>conf_block_offset_bytes := off, conf_block_length_bytes := len\<rparr>) fh4"
  have "extends fh fh1" unfolding fh1_def by (rule extends_section [OF _ extends_refl]) (simp add: search_part_def)
  then have "extends fh fh2" unfolding fh2_def by (rule extends_section [rotated]) (simp add: search_part_def)
  moreover have "extends fh2 fh3" by (simp add: fh3_def extends_def search_part_def)
  ultimately have "extends fh fh3" by (rule extends_trans)
  then have "extends fh fh4" unfolding fh4_def by (rule extends_section [rotated]) (simp add: search_part_def)
  then have "extends fh fh5" unfolding fh5_def by (rule extends_section [rotated]) (simp add: search_part_def)
  then obtain rest where rest: "fst fh5 = fst fh @ rest" "search_part (snd fh5) = search_part (snd fh)"
    unfolding extends_def by blast
  have "file = header_bytes ((snd fh5)\<lparr>version := 2\<rparr>) @ drop header_size (fst fh5)"
    using assms by (simp add: finish_corpus_def c fh parts fh1_def fh2_def fh3_def fh4_def fh5_def Let_def
        cong: if_cong)
  moreover have "search_part ((snd fh5)\<lparr>version := 2\<rparr>) = search_part (snd fh)"
    using rest(2) by (simp add: search_part_def)
  ultimately show ?thesis
    unfolding rest(1) using c fh
    by (intro exI [of _ c] exI [of _ fh] exI [of _ rest] exI [of _ "(snd fh5)\<lparr>version := 2\<rparr>"]) simp
qed

end
