(* ===== verification/Database_Roundtrip.thy ===== *)
theory Database_Roundtrip
  imports Database_Correct
begin

text \<open>
  The whole database: what is written by \<open>start_corpus\<close>, \<open>add_file\<close> for every file and
  \<open>finish_corpus\<close> is answered by \<open>Corpus\<close>.
\<close>

lemma search_index_parts:
  assumes "write_search_index fuel buf start c h = Some (file0, h')"
  shows "\<exists>idx ht_size ht F table.
    finish_lists buf trigrams_in_order (invindex c) = Some idx \<and>
    create_hashtable (list_size idx) (filter (\<lambda>t. idx t \<noteq> None) trigrams_in_order) ht_size num_overflow_slots =
      Table ht \<and> 0 < ht_size \<and>
    F = start @ written c @ index_part (start @ written c) c \<and>
    table = set_offsets (\<lambda>t. of_nat (length (list_bytes idx t)))
      (of_nat (length F + 16 * (ht_size + num_overflow_slots + 1))) ht \<and>
    file0 = F @ concat (map trigram_bytes table) @ posting_lists (list_bytes idx) ht \<and>
    h' = h\<lparr>hdr_num_docids := of_nat (length (filename_blocks c)),
           filename_index_offset_bytes := of_nat (length (start @ written c)),
           hash_table_offset_bytes := of_nat (length F), hashtable_size := of_nat ht_size\<rparr>"
proof -
  let ?ts = "\<lambda>idx. filter (\<lambda>t. idx t \<noteq> None) trigrams_in_order"
  from assms obtain idx n ht_size ht where
    1: "finish_lists buf trigrams_in_order (invindex c) = Some idx"
    and 2: "next_prime (length (?ts idx)) = Some n"
    and 3: "size_table fuel (list_size idx) (?ts idx) num_overflow_slots n = Some (ht_size, ht)"
    unfolding write_search_index_def Let_def by (elim bind_eq_SomeE) (auto split: prod.splits)
  note ht = size_table_result [OF 3 next_prime_positive [OF 2]]
  from assms show ?thesis
    unfolding write_search_index_def Let_def 1 2 3 bind.bind_lunit prod.case
    by (intro exI [of _ idx] exI [of _ ht_size] exI [of _ ht]) (use 1 ht in auto)
qed

lemma contents_start:
  "\<exists>h. contents (start_corpus visibility dictionary n with_times with_meta ctx ctx') = header_bytes h @ dictionary"
  by (auto simp add: start_corpus_def open_database_def Let_def)

lemma start_corpus_parts:
  assumes "db = start_corpus visibility dictionary n with_times with_meta ctx ctx'"
  shows "corpus db = new_encoding_corpus (of_nat (length (contents db))) n with_times with_meta ctx ctx'"
    and "extra_ht_slots (hdr db) = of_nat num_overflow_slots" and "max_version (hdr db) = 3"
    and "check_visibility (hdr db) = visibility"
  by (simp_all add: assms start_corpus_def open_database_def new_header_def Let_def)

text \<open>The answers of a file that was written by the builder, for the blocks of names \<open>bs\<close>.\<close>

definition database_holds :: "(bytes \<Rightarrow> bytes) \<Rightarrow> bytes list list \<Rightarrow> bytes \<Rightarrow> header \<Rightarrow> bool" where
  "database_holds decompress bs file h \<longleftrightarrow>
     unat (hdr_num_docids h) = length bs \<and>
     (\<forall>i < length bs. \<exists>block. get_compressed_filename_block file h (of_nat i) = Some block \<and>
        decompress block = join_names (bs ! i)) \<and>
     (\<forall>t. t \<noteq> -1 \<longrightarrow> trigram_answer file h bs t)"

lemma written_database_holds:
  assumes blocks: "blocks_hold z buf (of_nat (length start)) c bs []" "length bs \<le> 2 ^ 24"
    and dec: "\<And>b. b \<in> set bs \<Longrightarrow> decompress (compressed_names z b) = join_names b"
    and w: "write_search_index fuel buf start c h0 = Some (file0, h1)"
      "extra_ht_slots h0 = of_nat num_overflow_slots"
    and fl: "file = pre @ drop (length start) file0 @ post" "length pre = length start" "length file < 2 ^ 36"
    and h: "search_part h = search_part h1"
  shows "database_holds decompress bs file h"
proof -
  from search_index_parts [OF w(1)] obtain idx ht_size ht F table where
    idx: "finish_lists buf trigrams_in_order (invindex c) = Some idx"
    and tab: "create_hashtable (list_size idx) (filter (\<lambda>t. idx t \<noteq> None) trigrams_in_order) ht_size
      num_overflow_slots = Table ht" "0 < ht_size"
    and F: "F = start @ written c @ index_part (start @ written c) c"
    and table: "table = set_offsets (\<lambda>t. of_nat (length (list_bytes idx t)))
      (of_nat (length F + 16 * (ht_size + num_overflow_slots + 1))) ht"
    and file0: "file0 = F @ concat (map trigram_bytes table) @ posting_lists (list_bytes idx) ht"
    and h1: "h1 = h0\<lparr>hdr_num_docids := of_nat (length (filename_blocks c)),
           filename_index_offset_bytes := of_nat (length (start @ written c)),
           hash_table_offset_bytes := of_nat (length F), hashtable_size := of_nat ht_size\<rparr>" by blast
  let ?index = "index_part (start @ written c) c"
  let ?F = "pre @ written c @ ?index"
  have lF: "length F = length ?F" by (simp add: F fl(2))
  have fl2: "file = ?F @ concat (map trigram_bytes table) @ posting_lists (list_bytes idx) ht @ post"
    by (simp add: fl(1) file0 F)
  have lht: "length table = ht_size + num_overflow_slots + 1"
    using create_hashtable_length [OF tab(1)] by (simp add: table)
  have "16 * (ht_size + num_overflow_slots + 1) \<le> length file"
    by (simp add: fl2 length_concat_fixed [of trigram_bytes 16] lht)
  then have uh: "unat (of_nat ht_size :: u32) = ht_size"
    using fl(3) by (intro unat_of_nat_small) simp
  have "finished_lists bs idx" using finish_lists_finished [OF blocks, of buf] idx by auto
  note read = index_read [OF this refl tab table _ fl2 fl(3)]
  have bits: "hashtable_size h = of_nat ht_size" "extra_ht_slots h = of_nat num_overflow_slots"
    "hdr_num_docids h = of_nat (length bs)" "hash_table_offset_bytes h = of_nat (length ?F)"
    "filename_index_offset_bytes h = of_nat (length (pre @ written c))"
    using h w(2) blocks(1) unfolding h1 lF fl(2) [symmetric]
    by (simp_all add: search_part_def blocks_hold_def block_offsets_def fl(2))
  have "length ?F < 2 ^ 64" "length (pre @ written c) < 2 ^ 64" using fl(3) by (simp_all add: fl2)
  then have u: "unat (hash_table_offset_bytes h) = length ?F"
    "unat (filename_index_offset_bytes h) = length (pre @ written c)"
    unfolding bits by (simp_all add: unat_of_nat_small del: length_append)
  have ans: "trigram_answer file h bs t" if "t \<noteq> -1" for t
  proof (rule read)
    show "of_nat (length F + 16 * (ht_size + num_overflow_slots + 1)) =
        (of_nat (length (?F @ concat (map trigram_bytes table))) :: u64)"
      by (simp add: lF length_concat_fixed [of trigram_bytes 16] lht)
    show "unat (extra_ht_slots h) = num_overflow_slots" by (simp add: bits num_overflow_slots_def)
  qed (use that u uh bits in simp_all)
  have blk: "get_compressed_filename_block file h (of_nat i) = Some (compressed_names z (bs ! i))"
    if i: "i < length bs" for i
  proof (rule block_written [OF _ _ _ u(2) i])
    show "file = pre @ written c @ concat (map (put_le 8) (filename_blocks c @ [of_nat (length (start @ written c))])) @
        (concat (map trigram_bytes table) @ posting_lists (list_bytes idx) ht @ post)"
      by (simp add: fl2 index_part_def)
  qed (use blocks fl in \<open>simp_all add: blocks_hold_def\<close>)
  have "unat (hdr_num_docids h) = length bs" using blocks(2) by (simp add: bits unat_of_nat_small)
  with ans blk dec show ?thesis unfolding database_holds_def by (metis nth_mem)
qed

text \<open>
  The attempts to build the hash table, in terms of the blocks of names: the number of blocks that
  hold a trigram is the size of its posting list.
\<close>

definition names_table :: "nat \<Rightarrow> bytes list list \<Rightarrow> (nat \<times> trigram list) option" where
  "names_table fuel bs =
     (let ts = filter (\<lambda>t. blocks_with t bs \<noteq> []) trigrams_in_order
      in next_prime (length ts) \<bind>
           size_table fuel (\<lambda>t. of_nat (length (blocks_with t bs))) ts num_overflow_slots)"

lemma write_search_index_total:
  assumes "blocks_hold z buf pos c bs []" and "length bs \<le> 2 ^ 24" and "names_table fuel bs \<noteq> None"
  shows "\<exists>fh. write_search_index fuel buf' start c h = Some fh"
proof -
  from finish_lists_finished [OF assms(1,2), of buf'] obtain idx where
    idx: "finish_lists buf' trigrams_in_order (invindex c) = Some idx" "finished_lists bs idx" by blast
  have "list_size idx t = of_nat (length (blocks_with t bs))" for t
    using arg_cong [OF finished_lists_at(2) [OF idx(2), of t], of "of_nat :: nat \<Rightarrow> u32"] by simp
  then have e1: "list_size idx = (\<lambda>t. of_nat (length (blocks_with t bs)))" by (rule ext)
  have e2: "(\<lambda>t. idx t \<noteq> None) = (\<lambda>t. blocks_with t bs \<noteq> [])"
    using finished_lists_at(1) [OF idx(2)] by (intro ext) simp
  from assms(3) obtain n ht_size ht where
    n: "next_prime (length (filter (\<lambda>t. blocks_with t bs \<noteq> []) trigrams_in_order)) = Some n"
    and ht: "size_table fuel (\<lambda>t. of_nat (length (blocks_with t bs)))
      (filter (\<lambda>t. blocks_with t bs \<noteq> []) trigrams_in_order) num_overflow_slots n = Some (ht_size, ht)"
    unfolding names_table_def Let_def by (auto simp add: bind_eq_Some_conv)
  show ?thesis
    unfolding write_search_index_def Let_def idx(1) bind.bind_lunit e1 e2 n ht prod.case by blast
qed

lemma open_corpus_written:
  assumes "file = header_bytes h @ rest" and "version h = 2" and "max_version h = 3"
  shows "open_corpus ignore_visibility file =
    Some (if ignore_visibility then h\<lparr>check_visibility := False\<rparr> else h)"
proof -
  have "pread file header_size 0 = Some (header_bytes h)"
    by (simp add: assms(1) pread_def header_size_def)
  moreover have "decode_header (header_bytes h) = h" using decode_header_bytes [of h "[]"] by simp
  moreover have "take 8 (header_bytes h) = magic"
    by (simp add: header_bytes_def magic_def str_def)
  ultimately show ?thesis using assms(2,3) by (simp add: open_corpus_def)
qed

lemma database_holds_visibility:
  "database_holds decompress bs file h \<Longrightarrow> database_holds decompress bs file (h\<lparr>check_visibility := v\<rparr>)"
  by (simp add: database_holds_def trigram_answer_def corpus_find_trigram_def
      get_compressed_filename_block_def offset_for_block_def)

lemma built_database:
  assumes db: "db = start_corpus visibility dictionary n with_times with_meta ctx ctx'"
    and blocks: "blocks_hold z buf (of_nat (length (contents db))) c bs []" "length bs \<le> 2 ^ 24"
    and dec: "\<And>b. b \<in> set bs \<Longrightarrow> decompress (compressed_names z b) = join_names b"
    and fin: "finish_corpus z compress_all fuel buf db' = Some file" "finish_blocks z buf (corpus db') = Some c"
    and same: "contents db' = contents db" "hdr db' = hdr db"
    and small: "length file < 2 ^ 36"
  shows "\<exists>h. open_corpus ignore_visibility file = Some h \<and>
    check_visibility h = (visibility \<and> \<not> ignore_visibility) \<and> database_holds decompress bs file h"
proof -
  from finish_corpus_parts [OF fin(1)] obtain file0 h1 rest h where
    w: "write_search_index fuel buf (contents db) c (hdr db) = Some (file0, h1)"
    and f: "file = header_bytes h @ drop header_size (file0 @ rest)"
    and h: "search_part h = search_part h1" "version h = 2"
    unfolding fin(2) same by auto
  from search_index_parts [OF w] obtain idx ht_size ht F table where
    F: "F = contents db @ written c @ index_part (contents db @ written c) c"
    "file0 = F @ concat (map trigram_bytes table) @ posting_lists (list_bytes idx) ht"
    and h1: "h1 = (hdr db)\<lparr>hdr_num_docids := of_nat (length (filename_blocks c)),
           filename_index_offset_bytes := of_nat (length (contents db @ written c)),
           hash_table_offset_bytes := of_nat (length F), hashtable_size := of_nat ht_size\<rparr>" by blast
  from contents_start [of visibility dictionary n with_times with_meta ctx ctx'] obtain hd0 where
    start: "contents db = header_bytes hd0 @ dictionary" unfolding db by blast
  have fl: "file = (header_bytes h @ dictionary) @ drop (length (contents db)) file0 @ rest"
    by (simp add: f F start)
  have holds: "database_holds decompress bs file h"
    by (rule written_database_holds [OF blocks dec w start_corpus_parts(2) [OF db] fl _ small h(1)])
      (simp_all add: start)
  have "max_version h = 3" "check_visibility h = visibility"
    using h(1) start_corpus_parts(3,4) [OF db] unfolding h1 by (simp_all add: search_part_def)
  with open_corpus_written [OF f h(2)] holds database_holds_visibility show ?thesis by auto
qed

lemma build_and_read:
  assumes "zstd_laws given emitted pending decompress z"
    and "given ctx = []" and "emitted ctx = []" and "given ctx' = []" and "emitted ctx' = []"
    and "file_names (map rpath rs)" and "length (chunks n (map rpath rs)) \<le> 2 ^ 24"
    and "names_table fuel (chunks n (map rpath rs)) \<noteq> None"
    and "events \<noteq> [] \<Longrightarrow> compress_all (encode_history_stream events) \<noteq> None"
    and "db = start_corpus visibility dictionary n with_times with_meta ctx ctx'"
  shows "\<exists>c file. add_files z buf rs (corpus db) = Some c \<and>
    finish_corpus z compress_all fuel buf
      (db\<lparr>corpus := c, next_dictionary := next_dict, conf_block := conf, history_events := events\<rparr>) = Some file \<and>
    (length file < 2 ^ 36 \<longrightarrow>
      (\<exists>h. open_corpus ignore_visibility file = Some h \<and>
        check_visibility h = (visibility \<and> \<not> ignore_visibility) \<and>
        database_holds decompress (chunks n (map rpath rs)) file h))"
proof -
  let ?bs = "chunks n (map rpath rs)"
  obtain c where c: "build_corpus z buf rs (corpus db) = Some c"
    "blocks_hold z buf (of_nat (length (contents db))) c ?bs []" "streams_hold given emitted c rs"
    unfolding start_corpus_parts(1) [OF assms(10)]
    by (rule build_corpus_holds [OF assms(1-7), of buf "of_nat (length (contents db))" with_times with_meta]) blast
  from c(1) obtain c1 where c1: "add_files z buf rs (corpus db) = Some c1" "finish_blocks z buf c1 = Some c"
    unfolding build_corpus_def by (elim bind_eq_SomeE)
  let ?db = "db\<lparr>corpus := c1, next_dictionary := next_dict, conf_block := conf, history_events := events\<rparr>"
  obtain fh where fh: "write_search_index fuel buf (contents db) c (hdr db) = Some fh"
    using write_search_index_total [OF c(2) assms(7,8)] by blast
  obtain history where hist: "events \<noteq> [] \<Longrightarrow> compress_all (encode_history_stream events) = Some history"
    using assms(9) by (cases "events = []") auto
  obtain ts ms where ts: "get_compressed_dir_times z c = Some ts" "get_compressed_metadata z c = Some ms"
    using compressed_dir_times_result [OF assms(1) c(3)] compressed_metadata_result [OF assms(1) c(3)] by blast
  have "finish_corpus z compress_all fuel buf ?db \<noteq> None"
    by (cases "events = []") (simp_all add: finish_corpus_def Let_def c1(2) fh ts hist)
  then obtain file1 where f1: "finish_corpus z compress_all fuel buf ?db = Some file1" by blast
  have dec: "decompress (compressed_names z b) = join_names b" if "b \<in> set ?bs" for b
  proof -
    have "set b \<subseteq> set (map rpath rs)" using that concat_chunks [of n "map rpath rs"] by (metis UN_upper set_concat)
    then have "file_names b" using assms(6) unfolding file_names_def list_all_iff by blast
    moreover have "b \<noteq> []" using that chunks_nonempty by (metis in_set_conv_nth)
    ultimately show ?thesis
      using zstd_laws_block [OF assms(1)] join_names_not_empty by (simp add: compressed_names_def)
  qed
  note built = built_database [OF assms(10) c(2) assms(7) dec f1]
  from c1 f1 show ?thesis
    by (intro exI [of _ c1] exI [of _ file1]) (use c1(2) in \<open>simp add: built\<close>)
qed

text \<open>The concrete instance: the files \<open>/ab\<close> and \<open>/c\<close> in one block.\<close>

abbreviation sample_trigram :: u32 where "sample_trigram \<equiv> trigram_of 47 97 98"

definition sample_files :: "file_record list" where
  "sample_files = map sample_record [''/ab'', ''/c'']"

lemma sample_files_names: "map rpath sample_files = [str ''/ab'', str ''/c'']"
  by (simp add: sample_files_def sample_record_def)

definition sample_names :: "bytes list list" where
  "sample_names = [[str ''/ab'', str ''/c'']]"

lemma sample_chunks: "chunks 2 (map rpath sample_files) = sample_names"
  by (simp add: sample_files_names sample_names_def)

lemma sample_names_trigrams: "names_trigrams [str ''/ab'', str ''/c''] = [sample_trigram]"
  by (simp add: names_trigrams_def indexed_names_def str_def)

lemma sample_blocks_with: "blocks_with t sample_names = (if t = sample_trigram then [0] else [])"
  by (auto simp add: blocks_with_def sample_names_def sample_names_trigrams)

lemma filter_single:
  "distinct xs \<Longrightarrow> x \<in> set xs \<Longrightarrow> (\<And>y. P y \<longleftrightarrow> y = x) \<Longrightarrow> filter P xs = [x]"
  by (induction xs) (auto simp add: filter_empty_conv)

lemma sample_trigrams: "filter (\<lambda>t. blocks_with t sample_names \<noteq> []) trigrams_in_order = [sample_trigram]"
  by (rule filter_single [OF distinct_trigrams_in_order])
    (simp_all add: trigrams_in_order_set trigram_of_less sample_blocks_with)

lemma next_prime_1: "next_prime (Suc 0) = Some (Suc 0)"
  by (simp add: next_prime_def while_option_unfold is_prime_def ceil_sqrt_from.simps)

lemma sample_table:
  "size_table (Suc 0) g [sample_trigram] num_overflow_slots (Suc 0) =
     Some (1, \<lparr>trgm = sample_trigram, num_docids = g sample_trigram, tr_offset = 0\<rparr> # replicate 17 empty_slot)"
proof -
  have "replicate 18 empty_slot = empty_slot # replicate 17 empty_slot" by (simp add: numeral_eq_Suc)
  moreover have "hash_trigram t (Suc 0) = 0" for t by (simp add: hash_trigram_def)
  ultimately show ?thesis
    by (simp add: create_hashtable_def num_overflow_slots_def insert_entry.simps)
qed

lemma sample_list_bytes:
  assumes "blocks_hold z buf pos c sample_names []" and "finish_lists buf' trigrams_in_order (invindex c) = Some idx"
  shows "length (list_bytes idx sample_trigram) = 1"
proof -
  have "occurrences sample_trigram 0 sample_names = [0]"
    by (simp add: sample_names_def sample_names_trigrams)
  then have "fed buf [0] = Some (invindex c sample_trigram)"
    using assms(1) unfolding blocks_hold_def by metis
  then obtain b where "invindex c sample_trigram = Some b" "length (encoded b) = 1" "pending_deltas b = []"
    by (auto simp add: fed_def add_first_docid_def write_header_def new_posting_list_builder_def write_baseval_def dest: sym)
  then show ?thesis
    using finish_lists_result [OF assms(2) distinct_trigrams_in_order, of sample_trigram]
    by (simp add: list_bytes_def finish_posting_list_def trigrams_in_order_set trigram_of_less)
qed

lemma posting_lists_replicate: "posting_lists f (replicate k empty_slot) = []"
  by (simp add: posting_lists_def map_replicate_const concat_replicate_trivial)

lemma posting_lists_Cons:
  "posting_lists f (e # es) = (if num_docids e = 0 then [] else f (trgm e)) @ posting_lists f es"
  by (simp add: posting_lists_def)

lemma sample_length:
  assumes "blocks_hold storing_zstd buf pos c sample_names []"
    and "write_search_index (Suc 0) buf start c h = Some (file0, h')"
  shows "length file0 = length start + 311"
proof -
  obtain idx where idx: "finish_lists buf trigrams_in_order (invindex c) = Some idx" "finished_lists sample_names idx"
    using finish_lists_finished [OF assms(1), of buf] by (auto simp add: sample_names_def)
  have "(\<lambda>t. idx t \<noteq> None) = (\<lambda>t. blocks_with t sample_names \<noteq> [])"
    using finished_lists_at(1) [OF idx(2)] by (intro ext) simp
  then have ts: "filter (\<lambda>t. idx t \<noteq> None) trigrams_in_order = [sample_trigram]"
    using sample_trigrams by simp
  have "list_size idx sample_trigram \<noteq> 0"
    using finished_lists_at(2) [OF idx(2), of sample_trigram] by (auto simp add: sample_blocks_with)
  moreover have "length (written c) = 6" "length (filename_blocks c) = 1"
    using assms(1) by (simp_all add: blocks_hold_def sample_names_def compressed_names_def storing_zstd_def str_def block_offsets_def)
  moreover have one: "length [sample_trigram] = Suc 0" by simp
  ultimately show ?thesis
    using assms(2) unfolding write_search_index_def Let_def idx(1) bind.bind_lunit ts one next_prime_1
      sample_table prod.case
    by (auto simp add: posting_lists_Cons posting_lists_replicate sample_list_bytes [OF assms(1) idx(1)]
        index_part_def length_concat_fixed [of trigram_bytes 16] length_concat_fixed [of "put_le 8" 8])
qed

lemma sample_database_length:
  assumes "db = start_corpus True [] 2 False False [] []"
    and "add_files storing_zstd buf rs (corpus db) = Some c1" and "map rpath rs = map rpath sample_files"
    and "finish_corpus storing_zstd compress_all (Suc 0) buf
      (db\<lparr>corpus := c1, next_dictionary := [], conf_block := [], history_events := []\<rparr>) = Some file1"
  shows "length file1 = 455"
proof -
  have bs: "chunks 2 (map rpath rs) = sample_names" unfolding assms(3) by (rule sample_chunks)
  obtain c where c: "build_corpus storing_zstd buf rs (corpus db) = Some c"
    "blocks_hold storing_zstd buf (of_nat (length (contents db))) c sample_names []"
    "store_dir_times c = False" "store_metadata c = False"
    unfolding start_corpus_parts(1) [OF assms(1)] bs [symmetric]
    by (rule build_corpus_holds [OF storing_zstd_laws, of "[]" "[]" rs 2 buf
          "of_nat (length (contents db))" False False])
      (simp_all add: assms(3) sample_files_names file_names_def str_def)
  with assms(2) have fin: "finish_blocks storing_zstd buf c1 = Some c" by (simp add: build_corpus_def)
  have "length (contents db) = 144"
    by (simp add: assms(1) start_corpus_def open_database_def Let_def header_size_def)
  moreover from assms(4) obtain file0 h where
    "write_search_index (Suc 0) buf (contents db) c (hdr db) = Some (file0, h)"
    "file1 = header_bytes (h\<lparr>version := 2\<rparr>) @ drop header_size file0"
    using c(3,4) by (auto simp add: finish_corpus_def fin get_compressed_dir_times_def
        get_compressed_metadata_def add_section_def bind_eq_Some_conv)
  ultimately show ?thesis using sample_length [OF c(2)] by (simp add: header_size_def)
qed

lemma sample_database:
  "\<exists>file h. open_corpus False file = Some h \<and> check_visibility h \<and>
    database_holds (\<lambda>b. b) [[str ''/ab'', str ''/c'']] file h \<and> length file = 455"
proof -
  let ?db = "start_corpus True [] 2 False False [] [] :: bytes database_builder"
  have "names_table (Suc 0) sample_names \<noteq> None"
    by (simp add: names_table_def sample_trigrams next_prime_1 sample_table Let_def del: size_table.simps)
  then obtain c file1 where f: "add_files storing_zstd (\<lambda>_. 0) sample_files (corpus ?db) = Some c"
    "finish_corpus storing_zstd Some (Suc 0) (\<lambda>_. 0)
      (?db\<lparr>corpus := c, next_dictionary := [], conf_block := [], history_events := []\<rparr>) = Some file1"
    "length file1 < 2 ^ 36 \<longrightarrow> (\<exists>h. open_corpus False file1 = Some h \<and>
        check_visibility h = (True \<and> \<not> False) \<and>
        database_holds (\<lambda>b. b) sample_names file1 h)"
    using build_and_read [OF storing_zstd_laws, of "[]" "[]" sample_files 2 "Suc 0" "[]" Some ?db True "[]"
        False False "\<lambda>_. 0" "[]" "[]" False]
    by (auto simp add: sample_chunks sample_files_names file_names_def str_def sample_names_def)
  from sample_database_length [OF refl f(1) refl f(2)] f(3) show ?thesis by (auto simp add: sample_names_def)
qed

section \<open>Properties\<close>



end
