(* ===== verification/Database_Search.thy ===== *)
theory Database_Search
  imports Database_Roundtrip
begin

text \<open>
  The search of \<open>do_search_file\<close> on a database file: its lookups and its posting lists are reads
  of the file.
\<close>

definition file_lookup :: "bytes \<Rightarrow> header \<Rightarrow> u32 \<Rightarrow> (trigram \<times> u64) option" where
  "file_lookup file h t =
     (if unat t < NUM_TRIGRAMS then the (corpus_find_trigram file h t) else None)"

definition file_posting :: "bool \<Rightarrow> mem \<Rightarrow> nat \<Rightarrow> bytes \<Rightarrow> trigram \<times> u64 \<Rightarrow> u32 list" where
  "file_posting sse2 m p file x = the (read_posting_list sse2 m p file x)"

lemma database_index:
  assumes "database_holds decompress bs file h"
  shows "index_of bs (file_lookup file h) (file_posting sse2 m p file)"
proof -
  have "case file_lookup file h t of
      None \<Rightarrow> blocks_with t bs = []
    | Some x \<Rightarrow> trgm (fst x) = t \<and> file_posting sse2 m p file x = map of_nat (blocks_with t bs)" for t
  proof (cases "unat t < NUM_TRIGRAMS")
    case True
    then have "t \<noteq> -1" by (auto simp add: NUM_TRIGRAMS_def unsigned_minus_1_eq_mask mask_eq_exp_minus_1)
    then have "trigram_answer file h bs t" using assms by (simp add: database_holds_def)
    with True show ?thesis
      by (auto simp add: trigram_answer_def file_lookup_def file_posting_def split: option.splits)
  next
    case False
    then show ?thesis by (simp add: file_lookup_def blocks_with_large)
  qed
  then show ?thesis unfolding index_of_def by blast
qed

section \<open>Properties\<close>

text \<open>C1: The search on a database file loses no match. When the file holds the blocks of names \<open>bs\<close>
  and a name that the index covers matches all plain needles, then the lookups in the file find
  every group of trigrams, every run of the search loop over the posting lists of the file
  (decoded by either decoder, in any order of reads) ends with the block of the name among the
  candidates, and that block of the file decompresses to its names.\<close>
theorem database_search_finds:
  assumes "database_holds decompress bs file h" and "length bs \<le> 2 ^ 24"
    and "list_all plain_needle needles" and "needle_groups needles \<noteq> []"
    and "distinct ts" and "set ts = (\<Union>td \<in> set (needle_groups needles). set (trigram_alternatives td))"
    and "i < length bs" and "dir @ haystack \<in> set (indexed_names (bs ! i))"
    and "list_all (\<lambda>nd. matches fnmatch regexec ic nd haystack) needles"
  shows "\<exists>gs block. look_up (file_lookup file h) ts (needle_groups needles, False) = (gs, False) \<and>
    (\<forall>gs' s. mset gs' = mset (map reset_for_reads gs) \<and>
       reachable False (file_posting sse2 m p file) (start_search gs') s \<and> phase s = Search_Over \<longrightarrow>
       \<not> search_done s \<and> of_nat i \<in> set (cur_candidates s)) \<and>
    get_compressed_filename_block file h (of_nat i) = Some block \<and> decompress block = join_names (bs ! i)"
proof -
  have "\<exists>block. get_compressed_filename_block file h (of_nat i) = Some block \<and> decompress block = join_names (bs ! i)"
    using assms(1,7) by (simp add: database_holds_def)
  with index_finds_block [OF database_index [OF assms(1)] assms(2-9)] show ?thesis by metis
qed

definition ab_needle :: needle where
  "ab_needle = \<lparr>n_type = STRSTR, n_str = str ''/ab''\<rparr>"

lemma ab_groups: "needle_groups [ab_needle] = [(new_group [sample_trigram])\<lparr>td_index := 0\<rparr>]"
  by (simp add: needle_groups_def ab_needle_def str_def parse_trigrams_case_sensitive_def
      parse_trigrams_from.simps read_trigram_def read_unigram_def WILDCARD_UNIGRAM_def
      PREMATURE_END_UNIGRAM_def trigram_of_def Let_def unique_groups_def name_groups_def)

lemma ab_plain: "plain_needle ab_needle"
  by (simp add: plain_needle_def ab_needle_def str_def)

lemma database_search_finds_witness:
  "\<exists>file h gs block. open_corpus False file = Some h \<and>
    look_up (file_lookup file h) [sample_trigram] (needle_groups [ab_needle], False) = (gs, False) \<and>
    (\<forall>gs' s. mset gs' = mset (map reset_for_reads gs) \<and>
       reachable False (file_posting True (\<lambda>_. 0) 0 file) (start_search gs') s \<and> phase s = Search_Over \<longrightarrow>
       \<not> search_done s \<and> of_nat 0 \<in> set (cur_candidates s)) \<and>
    get_compressed_filename_block file h (of_nat 0) = Some block \<and>
    block = join_names ([[str ''/ab'', str ''/c'']] ! 0)"
proof -
  from sample_database obtain f h where f: "open_corpus False f = Some h"
    "database_holds (\<lambda>b. b) [[str ''/ab'', str ''/c'']] f h" by blast
  have "\<exists>gs block. look_up (file_lookup f h) [sample_trigram] (needle_groups [ab_needle], False) = (gs, False) \<and>
    (\<forall>gs' s. mset gs' = mset (map reset_for_reads gs) \<and>
       reachable False (file_posting True (\<lambda>_. 0) 0 f) (start_search gs') s \<and> phase s = Search_Over \<longrightarrow>
       \<not> search_done s \<and> of_nat 0 \<in> set (cur_candidates s)) \<and>
    get_compressed_filename_block f h (of_nat 0) = Some block \<and>
    (\<lambda>b. b) block = join_names ([[str ''/ab'', str ''/c'']] ! 0)"
  proof (rule database_search_finds [OF f(2), where needles = "[ab_needle]" and dir = "[]"
        and haystack = "str ''/ab''" and fnmatch = "\<lambda>_ _ _. False" and regexec = "\<lambda>_ _. False" and ic = False])
    show "list_all (\<lambda>nd. matches (\<lambda>_ _ _. False) (\<lambda>_ _. False) False nd (str ''/ab'')) [ab_needle]"
      by (simp add: matches_def ab_needle_def str_def)
  qed (simp_all add: ab_groups ab_plain indexed_names_def str_def new_group_def)
  with f(1) show ?thesis by blast
qed

end
