(* ===== verification/Trigrams_Ignore_Case.thy ===== *)
theory Trigrams_Ignore_Case
  imports Trigrams
begin

text \<open>
  \<open>parse_trigrams_ignore_case\<close> of \<open>src/parse_trigrams.cpp\<close>: the pattern is read as code points, each
  with its spellings in the other case, and the groups of trigrams are generated from a set of
  states that together follow all spellings of the pattern. The functions of the locale
  (\<open>mbtowc\<close>, \<open>wctomb\<close>, \<open>towlower\<close>, \<open>towupper\<close>) are parameters. Every group holds, for every
  spelling of the pattern, one of the trigrams that the case-sensitive search would require for it.
\<close>

section \<open>unique_sort\<close>

definition unique_sort :: "'a::linorder list \<Rightarrow> 'a list" where
  "unique_sort c = remdups_adj (sort c)"

lemma set_unique_sort [simp]: "set (unique_sort c) = set c"
  by (simp add: unique_sort_def)

section \<open>Code points and their alternatives\<close>

text \<open>
  \<open>mbtowc\<close> on a nonempty string gives the code point and its length less one; \<open>wctomb\<close> gives the
  bytes of a code point. None is the exit for a malformed pattern.
\<close>

record ctype =
  mbtowc :: "bytes \<Rightarrow> (u32 \<times> nat) option"
  wctomb :: "u32 \<Rightarrow> bytes"
  towlower :: "u32 \<Rightarrow> u32"
  towupper :: "u32 \<Rightarrow> u32"

definition alternatives_of :: "ctype \<Rightarrow> bytes \<Rightarrow> u32 \<Rightarrow> bytes list" where
  "alternatives_of ct spelling ch =
     [spelling] @
     (if towlower ct ch \<noteq> ch then [wctomb ct (towlower ct ch)] else []) @
     (if towupper ct ch \<noteq> ch \<and> towupper ct ch \<noteq> towlower ct ch then [wctomb ct (towupper ct ch)] else [])"

function alternatives_for_cp :: "ctype \<Rightarrow> bytes \<Rightarrow> bytes list list option" where
  "alternatives_for_cp ct ptr =
     (if ptr = [] then Some []
      else
        case mbtowc ct ptr of
          None \<Rightarrow> None
        | Some (ch, k) \<Rightarrow>
            map_option (\<lambda>alts. alternatives_of ct (take (Suc k) ptr) ch # alts)
              (alternatives_for_cp ct (drop (Suc k) ptr)))"
  by pat_completeness auto
termination
  by (relation "measure (\<lambda>(ct, ptr). length ptr)") auto

declare alternatives_for_cp.simps [simp del]

section \<open>States\<close>

datatype trigram_state = Trigram_State (buffered: bytes) (next_codepoint: nat)

text \<open>\<open>operator<\<close>, the order of the states by which they are sorted.\<close>

definition trigram_state_before :: "trigram_state \<Rightarrow> trigram_state \<Rightarrow> bool" where
  "trigram_state_before s t \<longleftrightarrow>
     (if next_codepoint s \<noteq> next_codepoint t then next_codepoint s < next_codepoint t
      else buffered s < buffered t)"

instantiation trigram_state :: linorder
begin

definition less_trigram_state :: "trigram_state \<Rightarrow> trigram_state \<Rightarrow> bool" where
  [simp]: "less_trigram_state s t \<longleftrightarrow> trigram_state_before s t"

definition less_eq_trigram_state :: "trigram_state \<Rightarrow> trigram_state \<Rightarrow> bool" where
  "less_eq_trigram_state s t \<longleftrightarrow> s < t \<or> s = t"

instance
proof
  fix x y z :: trigram_state
  show "x < y \<longleftrightarrow> x \<le> y \<and> \<not> y \<le> x"
    by (cases x; cases y) (auto simp add: trigram_state_before_def less_eq_trigram_state_def)
  show "x \<le> x" by (simp add: less_eq_trigram_state_def)
  show "x \<le> y \<Longrightarrow> y \<le> z \<Longrightarrow> x \<le> z"
    by (cases x; cases y; cases z)
      (auto simp add: trigram_state_before_def less_eq_trigram_state_def split: if_splits)
  show "x \<le> y \<Longrightarrow> y \<le> x \<Longrightarrow> x = y"
    by (cases x; cases y) (auto simp add: trigram_state_before_def less_eq_trigram_state_def split: if_splits)
  show "x \<le> y \<or> y \<le> x"
    by (cases x; cases y) (auto simp add: trigram_state_before_def less_eq_trigram_state_def)
qed

end

text \<open>One pass of the inner loop; None is the return from the function.\<close>

fun extend_pass :: "bytes list list \<Rightarrow> trigram_state list \<Rightarrow> (trigram_state list \<times> bool) option" where
  "extend_pass alts [] = Some ([], False)"
| "extend_pass alts (s # ss) =
     (if read_trigram (buffered s) 0 \<noteq> PREMATURE_END_UNIGRAM then
        map_option (\<lambda>(new_states, again). (s # new_states, again)) (extend_pass alts ss)
      else if next_codepoint s = length alts then None
      else
        map_option
          (\<lambda>(new_states, again).
             (map (\<lambda>rune. Trigram_State (buffered s @ rune) (next_codepoint s + 1)) (alts ! next_codepoint s) @
                new_states,
              alts ! next_codepoint s \<noteq> [] \<or> again))
          (extend_pass alts ss))"

partial_function (option) extend_states ::
    "bytes list list \<Rightarrow> trigram_state list \<Rightarrow> trigram_state list option option" where
  "extend_states alts states =
     (case extend_pass alts states of
        None \<Rightarrow> Some None
      | Some (states, need_another_pass) \<Rightarrow>
          if need_another_pass then extend_states alts states else Some (Some states))"

definition cut_first :: "trigram_state \<Rightarrow> trigram_state" where
  "cut_first s = Trigram_State (drop (snd (read_unigram (buffered s) 0)) (buffered s)) (next_codepoint s)"

text \<open>The outer loop; None is the failed assertion or a loop that never ends.\<close>

partial_function (option) generate_groups ::
    "bytes list list \<Rightarrow> trigram_state list \<Rightarrow> u32 list list \<Rightarrow> u32 list list option" where
  "generate_groups alts states trigram_groups =
     (case extend_states alts states of
        None \<Rightarrow> None
      | Some None \<Rightarrow> Some trigram_groups
      | Some (Some states) \<Rightarrow>
          let trigrams = map (\<lambda>s. read_trigram (buffered s) 0) states;
              states = unique_sort (map cut_first states);
              trigram_groups =
                (if WILDCARD_UNIGRAM \<in> set trigrams then trigram_groups
                 else trigram_groups @ [unique_sort trigrams])
          in
          if PREMATURE_END_UNIGRAM \<in> set trigrams then None
          else if 100 < length states then Some trigram_groups
          else generate_groups alts states trigram_groups)"

definition parse_trigrams_ignore_case :: "ctype \<Rightarrow> bytes \<Rightarrow> u32 list list option" where
  "parse_trigrams_ignore_case ct needle =
     (case alternatives_for_cp ct needle of
        None \<Rightarrow> None
      | Some alts \<Rightarrow> generate_groups alts [Trigram_State [] 0] [])"

section \<open>Reading the start of a pattern\<close>

lemma class_end_prefix:
  "fst (class_end s start len) \<noteq> PREMATURE_END_UNIGRAM \<Longrightarrow> class_end (s @ r) start len = class_end s start len"
proof (induction s start len rule: class_end.induct)
  case (1 s start len)
  show ?case
  proof (cases "length s \<le> start + len")
    case True
    with 1(2) show ?thesis by (simp add: class_end.simps [of s])
  next
    case False
    with 1 show ?thesis
      by (cases "s ! (start + len) = close_bracket")
        (simp_all add: class_end.simps [of s start len] class_end.simps [of "s @ r" start len] nth_append)
  qed
qed

lemma read_unigram_class:
  assumes "\<not> length s \<le> i" and "s ! i = open_bracket"
  shows "read_unigram s i =
    (let len = 1 in
     if length s \<le> i + len then (PREMATURE_END_UNIGRAM, len)
     else
       let len = (if s ! (i + len) = 33 then len + 1 else len) in
       if length s \<le> i + len then (PREMATURE_END_UNIGRAM, len)
       else
         let len = (if s ! (i + len) = close_bracket then len + 1 else len)
         in class_end s i len)"
  using assms by (simp add: read_unigram_def)

lemma read_unigram_prefix:
  assumes "fst (read_unigram s i) \<noteq> PREMATURE_END_UNIGRAM"
  shows "read_unigram (s @ r) i = read_unigram s i"
proof (cases "length s \<le> i")
  case True
  with assms show ?thesis by (simp add: read_unigram_def)
next
  case False
  then have c: "(s @ r) ! i = s ! i" by (simp add: nth_append)
  note u = read_unigram_def [of s i] read_unigram_def [of "s @ r" i]
  consider "s ! i = backslash" | "s ! i = 42" | "s ! i = open_bracket"
    | "s ! i = 63" | "s ! i \<noteq> backslash" "s ! i \<noteq> 42" "s ! i \<noteq> 63" "s ! i \<noteq> open_bracket" by blast
  then show ?thesis
  proof cases
    case 1
    with assms False c show ?thesis by (cases "length s \<le> i + 1") (simp_all add: u nth_append)
  next
    case 3
    define len where "len = (if s ! (i + 1) = 33 then 1 + 1 else 1 :: nat)"
    have "\<not> length s \<le> i" "\<not> length (s @ r) \<le> i" using False by simp_all
    note cls = read_unigram_class [OF this(1) 3] read_unigram_class [OF this(2)]
    have l1: "\<not> length s \<le> i + 1" using assms cls(1) by auto
    then have n1: "(s @ r) ! (i + 1) = s ! (i + 1)" by (simp add: nth_append)
    have l2: "\<not> length s \<le> i + len"
    proof
      assume "length s \<le> i + len"
      with l1 cls(1) have "fst (read_unigram s i) = PREMATURE_END_UNIGRAM"
        by (simp only: Let_def len_def [symmetric] if_False if_True fst_conv)
      with assms show False by simp
    qed
    then have n2: "(s @ r) ! (i + len) = s ! (i + len)" by (simp add: nth_append)
    have m: "\<not> length (s @ r) \<le> i + 1" "\<not> length (s @ r) \<le> i + len" using l1 l2 by simp_all
    have "(s @ r) ! i = open_bracket" using c 3 by simp
    note cls' = cls(2) [OF this]
    have e: "read_unigram s i = class_end s i (if s ! (i + len) = close_bracket then len + 1 else len)"
      "read_unigram (s @ r) i = class_end (s @ r) i (if s ! (i + len) = close_bracket then len + 1 else len)"
      using cls(1) cls' l1 l2 m by (simp_all only: Let_def n1 len_def [symmetric] n2 if_False)
    show ?thesis unfolding e by (rule class_end_prefix) (use assms e(1) in simp)
  qed (use False c in \<open>simp_all add: u\<close>)
qed

lemma read_trigram_prefix:
  assumes "read_trigram s i \<noteq> PREMATURE_END_UNIGRAM"
  shows "read_trigram (s @ r) i = read_trigram s i"
proof -
  obtain u1 l1 where v1: "read_unigram s i = (u1, l1)" by fastforce
  obtain u2 l2 where v2: "read_unigram s (i + l1) = (u2, l2)" by fastforce
  obtain u3 l3 where v3: "read_unigram s (i + l1 + l2) = (u3, l3)" by fastforce
  have "u1 \<noteq> PREMATURE_END_UNIGRAM" using assms v1 by (auto simp add: read_trigram_def)
  then have w1: "read_unigram (s @ r) i = (u1, l1)" using read_unigram_prefix [of s i r] v1 by simp
  show ?thesis
  proof (cases "u1 = WILDCARD_UNIGRAM")
    case False
    then have "u2 \<noteq> PREMATURE_END_UNIGRAM"
      using assms v1 v2 \<open>u1 \<noteq> PREMATURE_END_UNIGRAM\<close> by (auto simp add: read_trigram_def)
    then have w2: "read_unigram (s @ r) (i + l1) = (u2, l2)"
      using read_unigram_prefix [of s "i + l1" r] v2 by simp
    show ?thesis
    proof (cases "u2 = WILDCARD_UNIGRAM")
      case False
      then have "u3 \<noteq> PREMATURE_END_UNIGRAM"
        using assms v1 v2 v3 \<open>u1 \<noteq> WILDCARD_UNIGRAM\<close> \<open>u1 \<noteq> PREMATURE_END_UNIGRAM\<close> \<open>u2 \<noteq> PREMATURE_END_UNIGRAM\<close>
        by (auto simp add: read_trigram_def)
      then have w3: "read_unigram (s @ r) (i + l1 + l2) = (u3, l3)"
        using read_unigram_prefix [of s "i + l1 + l2" r] v3 by simp
      show ?thesis by (simp add: read_trigram_def v1 v2 v3 w1 w2 w3)
    qed (simp add: read_trigram_def v1 v2 w1 w2)
  qed (simp add: read_trigram_def v1 w1)
qed

lemma not_premature:
  assumes "read_trigram s 0 \<noteq> PREMATURE_END_UNIGRAM"
  shows "fst (read_unigram s 0) \<noteq> PREMATURE_END_UNIGRAM" and "s \<noteq> []"
proof -
  have u: "fst (read_unigram s 0) \<noteq> PREMATURE_END_UNIGRAM"
    using assms by (cases "read_unigram s 0") (auto simp add: read_trigram_def)
  then show "fst (read_unigram s 0) \<noteq> PREMATURE_END_UNIGRAM" and "s \<noteq> []"
    by (auto simp add: read_unigram_def)
qed

section \<open>Case-sensitive groups from a position\<close>

lemma class_end_drop: "i \<le> length s \<Longrightarrow> class_end (drop i s) 0 len = class_end s i len"
proof (induction s i len rule: class_end.induct)
  case (1 s i len)
  have e: "length (drop i s) \<le> 0 + len \<longleftrightarrow> length s \<le> i + len" by auto
  show ?case
  proof (cases "length s \<le> i + len")
    case True
    then show ?thesis unfolding class_end.simps [of s i len] class_end.simps [of "drop i s" 0 len] e by simp
  next
    case False
    then have "drop i s ! (0 + len) = s ! (i + len)" using 1(2) by simp
    with 1 False show ?thesis
      unfolding class_end.simps [of s i len] class_end.simps [of "drop i s" 0 len] e by simp
  qed
qed

lemma read_unigram_drop: "read_unigram (drop i s) j = read_unigram s (i + j)"
proof (cases "i + j \<le> length s")
  case True
  have e: "length (drop i s) \<le> j \<longleftrightarrow> length s \<le> i + j"
    "length (drop i s) \<le> j + k \<longleftrightarrow> length s \<le> i + j + k" for k by auto
  have n: "drop i s ! j = s ! (i + j)" "drop i s ! (j + k) = s ! (i + j + k)" for k
    using True by (simp_all add: add.assoc)
  have ce: "class_end (drop i s) j len = class_end s (i + j) len" for len
    using True class_end_drop [of "i + j" s len] class_end_drop [of j "drop i s" len] by (simp add: add.commute)
  show ?thesis by (simp only: read_unigram_def Let_def e n ce)
next
  case False
  then have "length (drop i s) \<le> j" "length s \<le> i + j" by simp_all
  then show ?thesis by (simp only: read_unigram_def if_True)
qed

lemma read_trigram_drop: "read_trigram (drop i s) j = read_trigram s (i + j)"
  unfolding read_trigram_def read_unigram_drop add.assoc ..

lemma parse_trigrams_drop: "parse_trigrams_from (drop i s) j = parse_trigrams_from s (i + j)"
proof (induction "length s - (i + j)" arbitrary: j rule: less_induct)
  case less
  show ?case
  proof (cases "i + j < length s")
    case True
    let ?l = "snd (read_unigram s (i + j))"
    have "length s - (i + (j + ?l)) < length s - (i + j)"
      using read_unigram_progress(1) [OF True] True by simp
    from less [OF this] True show ?thesis
      by (simp add: parse_trigrams_from.simps [of "drop i s" j] parse_trigrams_from.simps [of s "i + j"]
          read_unigram_drop read_trigram_drop Let_def add.assoc less_diff_conv add.commute)
  next
    case False
    then have "\<not> j < length (drop i s)" by simp
    with False show ?thesis
      by (simp only: parse_trigrams_from.simps [of "drop i s" j] parse_trigrams_from.simps [of s "i + j"] if_False)
  qed
qed

text \<open>The groups of a pattern and of what follows its first letter.\<close>

lemma parse_trigrams_first:
  assumes "read_trigram s 0 \<noteq> PREMATURE_END_UNIGRAM"
  shows "parse_trigrams_case_sensitive (s @ r) =
    (if read_trigram s 0 = WILDCARD_UNIGRAM then [] else [[read_trigram s 0]]) @
      parse_trigrams_case_sensitive (drop (snd (read_unigram s 0)) s @ r)"
proof -
  note np = not_premature [OF assms]
  let ?l = "snd (read_unigram s 0)"
  have "0 + ?l \<le> length s" by (rule read_unigram_progress(2)) (use np in simp)
  then have "drop ?l s @ r = drop ?l (s @ r)" by simp
  then show ?thesis
    using np assms read_unigram_prefix [OF np(1), of r] read_trigram_prefix [OF assms, of r]
      parse_trigrams_drop [of ?l "s @ r" 0]
    by (simp add: parse_trigrams_case_sensitive_def parse_trigrams_from.simps [of "s @ r" 0] Let_def)
qed

section \<open>The states follow every spelling\<close>

definition spelling :: "bytes list list \<Rightarrow> bytes list \<Rightarrow> bool" where
  "spelling alts w \<longleftrightarrow> list_all2 (\<lambda>x alt. x \<in> set alt) w alts"

definition follows :: "bytes list \<Rightarrow> trigram_state \<Rightarrow> bool" where
  "follows w s \<longleftrightarrow>
     set (parse_trigrams_case_sensitive (buffered s @ concat (drop (next_codepoint s) w))) \<subseteq>
       set (parse_trigrams_case_sensitive (concat w))"

definition all_followed :: "bytes list list \<Rightarrow> trigram_state list \<Rightarrow> bool" where
  "all_followed alts states \<longleftrightarrow> (\<forall>w. spelling alts w \<longrightarrow> (\<exists>s \<in> set states. follows w s))"

text \<open>The longest text that a state still can read.\<close>

definition longest :: "bytes list \<Rightarrow> nat" where
  "longest alt = foldr (\<lambda>x m. max (length x) m) alt 0"

definition text_left :: "bytes list list \<Rightarrow> trigram_state \<Rightarrow> nat" where
  "text_left alts s = length (buffered s) + sum_list (map longest (drop (next_codepoint s) alts))"

definition states_ok :: "bytes list list \<Rightarrow> nat \<Rightarrow> trigram_state list \<Rightarrow> bool" where
  "states_ok alts n states \<longleftrightarrow> states \<noteq> [] \<and> all_followed alts states \<and>
     (\<forall>s \<in> set states. next_codepoint s \<le> length alts \<and> text_left alts s < n)"

lemma longest_ge: "x \<in> set alt \<Longrightarrow> length x \<le> longest alt"
  by (induction alt) (auto simp add: longest_def le_max_iff_disj)

lemma spelling_nth: "spelling alts w \<Longrightarrow> i < length alts \<Longrightarrow> w ! i \<in> set (alts ! i)"
  by (simp add: spelling_def list_all2_conv_all_nth)

lemma follows_extend:
  assumes "spelling alts w" and "next_codepoint s < length alts" and "follows w s"
  shows "follows w (Trigram_State (buffered s @ w ! next_codepoint s) (next_codepoint s + 1))"
proof -
  have "length w = length alts" using assms(1) by (simp add: spelling_def list_all2_lengthD)
  then have "drop (next_codepoint s) w = w ! next_codepoint s # drop (next_codepoint s + 1) w"
    using assms(2) by (simp add: Cons_nth_drop_Suc)
  with assms(3) show ?thesis by (simp add: follows_def)
qed

lemma extend_pass_followed:
  assumes "extend_pass alts states = Some (states', again)" and "spelling alts w"
    and "s \<in> set states" and "follows w s" and "\<forall>s \<in> set states. next_codepoint s \<le> length alts"
  shows "\<exists>s' \<in> set states'. follows w s'"
  using assms
proof (induction states arbitrary: states' again)
  case (Cons s0 ss)
  from Cons.prems(1) obtain a b where ab: "extend_pass alts ss = Some (a, b)" "set a \<subseteq> set states'"
    and first: "read_trigram (buffered s0) 0 \<noteq> PREMATURE_END_UNIGRAM \<and> s0 \<in> set states' \<or>
      next_codepoint s0 \<noteq> length alts \<and>
      (\<lambda>rune. Trigram_State (buffered s0 @ rune) (next_codepoint s0 + 1)) ` set (alts ! next_codepoint s0)
        \<subseteq> set states'"
    by (auto simp add: subset_insertI split: if_splits)
  show ?case
  proof (cases "s = s0")
    case True
    have "next_codepoint s0 \<le> length alts" using Cons.prems(5) by simp
    with first show ?thesis
      using True Cons.prems(4) follows_extend [OF Cons.prems(2), of s0] spelling_nth [OF Cons.prems(2), of "next_codepoint s0"]
      by (metis image_subset_iff le_neq_implies_less)
  next
    case False
    with Cons.IH [OF ab(1) Cons.prems(2)] Cons.prems(3-5) ab(2) show ?thesis by auto
  qed
qed simp

text \<open>What a pass changes: incomplete states advance, and no state gets more text to read.\<close>

lemma extend_pass_states:
  assumes "extend_pass alts states = Some (states', again)" and "s' \<in> set states'"
  shows "s' \<in> set states \<and> read_trigram (buffered s') 0 \<noteq> PREMATURE_END_UNIGRAM \<or>
    (\<exists>s \<in> set states. \<exists>rune \<in> set (alts ! next_codepoint s).
      read_trigram (buffered s) 0 = PREMATURE_END_UNIGRAM \<and> next_codepoint s \<noteq> length alts \<and>
      s' = Trigram_State (buffered s @ rune) (next_codepoint s + 1))"
  using assms
  by (induction states arbitrary: states' again) (auto split: if_splits)

lemma text_left_extend:
  assumes "next_codepoint s < length alts" and "rune \<in> set (alts ! next_codepoint s)"
  shows "text_left alts (Trigram_State (buffered s @ rune) (next_codepoint s + 1)) \<le> text_left alts s"
  using longest_ge [OF assms(2)] assms(1)
  by (simp add: text_left_def Cons_nth_drop_Suc [symmetric])

lemma extend_pass_ok:
  assumes "extend_pass alts states = Some (states', again)" and "states_ok alts n states"
    and "list_all (\<lambda>alt. alt \<noteq> []) alts"
  shows "states_ok alts n states'"
proof -
  note ok = assms(2) [unfolded states_ok_def]
  have f: "all_followed alts states'"
    unfolding all_followed_def
  proof (intro allI impI)
    fix w assume w: "spelling alts w"
    with ok obtain s where "s \<in> set states" "follows w s" unfolding all_followed_def by blast
    with extend_pass_followed [OF assms(1) w] ok show "\<exists>s' \<in> set states'. follows w s'" by blast
  qed
  have "spelling alts (map hd alts)"
    using assms(3) by (auto simp add: spelling_def list_all2_conv_all_nth list_all_length)
  with f have "states' \<noteq> []" unfolding all_followed_def by fastforce
  moreover have "next_codepoint s' \<le> length alts \<and> text_left alts s' < n" if s': "s' \<in> set states'" for s'
    using extend_pass_states [OF assms(1) s']
  proof (elim disjE bexE conjE)
    assume "s' \<in> set states"
    with ok show ?thesis by blast
  next
    fix s rune
    assume s: "s \<in> set states" "rune \<in> set (alts ! next_codepoint s)" "next_codepoint s \<noteq> length alts"
      "s' = Trigram_State (buffered s @ rune) (next_codepoint s + 1)"
    with ok have "next_codepoint s < length alts" "text_left alts s < n" by (auto simp add: le_neq_implies_less)
    with text_left_extend [OF this(1) s(2)] s(4) show ?thesis by simp
  qed
  ultimately show ?thesis using f unfolding states_ok_def by blast
qed

lemma extend_pass_again:
  "extend_pass alts states = Some (states', True) \<Longrightarrow>
   \<exists>s \<in> set states. read_trigram (buffered s) 0 = PREMATURE_END_UNIGRAM \<and> next_codepoint s \<noteq> length alts"
  by (induction states arbitrary: states') (auto split: if_splits)

lemma extend_pass_complete:
  "extend_pass alts states = Some (states', False) \<Longrightarrow> list_all (\<lambda>alt. alt \<noteq> []) alts \<Longrightarrow>
   \<forall>s \<in> set states. next_codepoint s \<le> length alts \<Longrightarrow>
   states' = states \<and> (\<forall>s \<in> set states. read_trigram (buffered s) 0 \<noteq> PREMATURE_END_UNIGRAM)"
  by (induction states arbitrary: states') (auto simp add: list_all_length le_neq_implies_less split: if_splits)

definition codepoints_left :: "bytes list list \<Rightarrow> trigram_state \<Rightarrow> nat" where
  "codepoints_left alts s =
     (if read_trigram (buffered s) 0 = PREMATURE_END_UNIGRAM then Suc (length alts - next_codepoint s) else 0)"

lemma extend_states_total:
  assumes "states_ok alts n states" and "list_all (\<lambda>alt. alt \<noteq> []) alts"
    and "\<forall>s \<in> set states. codepoints_left alts s \<le> d"
  shows "\<exists>r. extend_states alts states = Some r \<and>
    (case r of None \<Rightarrow> True
     | Some states' \<Rightarrow> states_ok alts n states' \<and>
         (\<forall>s \<in> set states'. read_trigram (buffered s) 0 \<noteq> PREMATURE_END_UNIGRAM))"
  using assms(1,3)
proof (induction d arbitrary: states rule: less_induct)
  case (less d)
  show ?case
  proof (cases "extend_pass alts states")
    case None
    then show ?thesis by (subst extend_states.simps) simp
  next
    case (Some p)
    obtain states' again where p: "p = (states', again)" by fastforce
    note pass = Some [unfolded p]
    have ok: "states_ok alts n states'" by (rule extend_pass_ok [OF pass less.prems(1) assms(2)])
    show ?thesis
    proof (cases again)
      case False
      with extend_pass_complete [of alts states states'] pass assms(2) less.prems(1)
      have "\<forall>s \<in> set states'. read_trigram (buffered s) 0 \<noteq> PREMATURE_END_UNIGRAM"
        unfolding states_ok_def by auto
      with pass False ok show ?thesis by (subst extend_states.simps) simp
    next
      case True
      with extend_pass_again [of alts states states'] pass obtain s0 where
        "s0 \<in> set states" "codepoints_left alts s0 \<noteq> 0" by (auto simp add: codepoints_left_def)
      then have "0 < d" using less.prems(2) by fastforce
      moreover have "codepoints_left alts s' \<le> d - 1" if s': "s' \<in> set states'" for s'
        using extend_pass_states [OF pass s']
      proof (elim disjE bexE conjE)
        fix s rune
        assume s: "s \<in> set states" "read_trigram (buffered s) 0 = PREMATURE_END_UNIGRAM"
          "next_codepoint s \<noteq> length alts" "s' = Trigram_State (buffered s @ rune) (next_codepoint s + 1)"
        with less.prems have "Suc (length alts - next_codepoint s) \<le> d" "next_codepoint s < length alts"
          by (auto simp add: codepoints_left_def states_ok_def le_neq_implies_less)
        with s(4) show ?thesis by (auto simp add: codepoints_left_def)
      qed (simp add: codepoints_left_def)
      ultimately show ?thesis
        using less.IH [of "d - 1" states'] ok pass True by (subst extend_states.simps) simp
    qed
  qed
qed

section \<open>The groups\<close>

definition group_hits :: "bytes list list \<Rightarrow> u32 list \<Rightarrow> bool" where
  "group_hits alts g \<longleftrightarrow>
     (\<forall>w. spelling alts w \<longrightarrow> (\<exists>t \<in> set g. [t] \<in> set (parse_trigrams_case_sensitive (concat w))))"

lemma cut_first_follows:
  assumes "read_trigram (buffered s) 0 \<noteq> PREMATURE_END_UNIGRAM" and "follows w s"
  shows "follows w (cut_first s)"
    and "read_trigram (buffered s) 0 \<noteq> WILDCARD_UNIGRAM \<Longrightarrow>
      [read_trigram (buffered s) 0] \<in> set (parse_trigrams_case_sensitive (concat w))"
  using assms(2) parse_trigrams_first [OF assms(1), of "concat (drop (next_codepoint s) w)"]
  by (auto simp add: follows_def cut_first_def)

lemma cut_first_text:
  assumes "read_trigram (buffered s) 0 \<noteq> PREMATURE_END_UNIGRAM"
  shows "text_left alts (cut_first s) < text_left alts s"
  using read_unigram_progress [of 0 "buffered s"] not_premature [OF assms]
  by (simp add: text_left_def cut_first_def)

lemma cut_states_ok:
  assumes "states_ok alts n states" and "\<forall>s \<in> set states. read_trigram (buffered s) 0 \<noteq> PREMATURE_END_UNIGRAM"
  shows "0 < n" and "states_ok alts (n - 1) (unique_sort (map cut_first states))"
proof -
  note ok = assms(1) [unfolded states_ok_def]
  then obtain s where "s \<in> set states" "text_left alts s < n" by (cases states) auto
  then show "0 < n" by simp
  have "all_followed alts (unique_sort (map cut_first states))"
    using ok assms(2) cut_first_follows(1) unfolding all_followed_def by fastforce
  moreover have "unique_sort (map cut_first states) \<noteq> []"
    using ok set_unique_sort [of "map cut_first states"] by (metis list.map_disc_iff set_empty)
  moreover have "next_codepoint s \<le> length alts \<and> text_left alts s < n - 1"
    if "s \<in> set (unique_sort (map cut_first states))" for s
  proof -
    from that obtain s0 where s0: "s0 \<in> set states" "s = cut_first s0" by auto
    with ok have "next_codepoint s0 \<le> length alts" "text_left alts s0 < n" by auto
    with cut_first_text [of s0 alts] assms(2) s0 show ?thesis by (auto simp add: cut_first_def)
  qed
  ultimately show "states_ok alts (n - 1) (unique_sort (map cut_first states))"
    unfolding states_ok_def by blast
qed

lemma generate_groups_total:
  assumes "states_ok alts n states" and "list_all (\<lambda>alt. alt \<noteq> []) alts" and "list_all (group_hits alts) gs"
  shows "\<exists>gs'. generate_groups alts states gs = Some gs' \<and> list_all (group_hits alts) gs'"
  using assms(1,3)
proof (induction n arbitrary: states gs rule: less_induct)
  case (less n)
  have "\<forall>s \<in> set states. codepoints_left alts s \<le> Suc (length alts)"
    by (simp add: codepoints_left_def)
  from extend_states_total [OF less.prems(1) assms(2) this] obtain r where
    r: "extend_states alts states = Some r"
    "case r of None \<Rightarrow> True
     | Some states' \<Rightarrow> states_ok alts n states' \<and>
         (\<forall>s \<in> set states'. read_trigram (buffered s) 0 \<noteq> PREMATURE_END_UNIGRAM)" by blast
  show ?case
  proof (cases r)
    case None
    with r less.prems(2) show ?thesis by (subst generate_groups.simps) simp
  next
    case (Some states')
    let ?trigrams = "map (\<lambda>s. read_trigram (buffered s) 0) states'"
    have s: "states_ok alts n states'" "\<forall>s \<in> set states'. read_trigram (buffered s) 0 \<noteq> PREMATURE_END_UNIGRAM"
      using r(2) Some by simp_all
    note cut = cut_states_ok [OF s]
    define gs1 where "gs1 = (if WILDCARD_UNIGRAM \<in> set ?trigrams then gs else gs @ [unique_sort ?trigrams])"
    have "group_hits alts (unique_sort ?trigrams)" if "WILDCARD_UNIGRAM \<notin> set ?trigrams"
      unfolding group_hits_def
    proof (intro allI impI)
      fix w assume "spelling alts w"
      with s(1) obtain s0 where s0: "s0 \<in> set states'" "follows w s0"
        unfolding states_ok_def all_followed_def by blast
      moreover have "read_trigram (buffered s0) 0 \<noteq> WILDCARD_UNIGRAM" using that s0(1) by force
      ultimately have "[read_trigram (buffered s0) 0] \<in> set (parse_trigrams_case_sensitive (concat w))"
        using cut_first_follows(2) s(2) by blast
      with s0(1) show "\<exists>t \<in> set (unique_sort ?trigrams). [t] \<in> set (parse_trigrams_case_sensitive (concat w))"
        by (intro bexI [of _ "read_trigram (buffered s0) 0"]) auto
    qed
    with less.prems(2) have gs1: "list_all (group_hits alts) gs1" by (simp add: gs1_def)
    have pre: "PREMATURE_END_UNIGRAM \<notin> set ?trigrams" using s(2) by force
    have step: "generate_groups alts states gs =
        (if 100 < length (unique_sort (map cut_first states')) then Some gs1
         else generate_groups alts (unique_sort (map cut_first states')) gs1)"
      unfolding generate_groups.simps [of alts states] r(1) Some gs1_def Let_def option.case
      using pre by (simp only: if_False)
    have "n - 1 < n" using cut(1) by simp
    from less.IH [OF this cut(2) gs1] gs1 show ?thesis unfolding step by auto
  qed
qed

lemma alternatives_not_empty:
  "alternatives_for_cp ct ptr = Some alts \<Longrightarrow> list_all (\<lambda>alt. alt \<noteq> []) alts"
proof (induction ct ptr arbitrary: alts rule: alternatives_for_cp.induct)
  case (1 ct ptr)
  then show ?case
    by (subst (asm) (2) alternatives_for_cp.simps)
      (auto simp add: alternatives_of_def split: if_splits option.splits)
qed

section \<open>Properties\<close>

text \<open>C15: Parsing a pattern for a case-insensitive search ends for every pattern that is a string of
  code points, and never fails its assertion. Every group of alternative trigrams that it gives is
  required by all spellings of the pattern: take any of the alternatives for each code point, and
  the group holds one of the trigrams that the case-sensitive parser gives for that spelling.\<close>
theorem ignore_case_groups_required:
  assumes "alternatives_for_cp ct needle = Some alts"
  shows "\<exists>groups. parse_trigrams_ignore_case ct needle = Some groups \<and>
    (\<forall>g \<in> set groups. \<forall>w. list_all2 (\<lambda>x alt. x \<in> set alt) w alts \<longrightarrow>
      (\<exists>t \<in> set g. [t] \<in> set (parse_trigrams_case_sensitive (concat w))))"
proof -
  have "follows w (Trigram_State [] 0)" for w by (simp add: follows_def)
  then have "states_ok alts (Suc (text_left alts (Trigram_State [] 0))) [Trigram_State [] 0]"
    by (simp add: states_ok_def all_followed_def)
  from generate_groups_total [OF this alternatives_not_empty [OF assms], of "[]"] assms show ?thesis
    by (auto simp add: parse_trigrams_ignore_case_def group_hits_def spelling_def list_all_iff)
qed

text \<open>Single bytes with the two cases of the ASCII letters.\<close>

definition ascii :: ctype where
  "ascii =
     \<lparr>mbtowc = (\<lambda>s. Some (ucast (hd s), 0)), wctomb = (\<lambda>ch. [ucast ch]),
      towlower = (\<lambda>ch. if 65 \<le> ch \<and> ch \<le> 90 then ch + 32 else ch),
      towupper = (\<lambda>ch. if 97 \<le> ch \<and> ch \<le> 122 then ch - 32 else ch)\<rparr>"

lemma ignore_case_groups_required_witness:
  "\<exists>groups. parse_trigrams_ignore_case ascii (str ''aB1'') = Some groups \<and>
    (\<forall>g \<in> set groups. \<exists>t \<in> set g. [t] \<in> set (parse_trigrams_case_sensitive (str ''Ab1'')))"
proof -
  have "alternatives_for_cp ascii (str ''aB1'') = Some [[[97], [65]], [[66], [98]], [[49]]]"
    by (simp add: str_def ascii_def alternatives_for_cp.simps alternatives_of_def)
  from ignore_case_groups_required [OF this] obtain groups where
    g: "parse_trigrams_ignore_case ascii (str ''aB1'') = Some groups"
    "\<forall>g \<in> set groups. \<forall>w. list_all2 (\<lambda>x alt. x \<in> set alt) w [[[97], [65]], [[66], [98]], [[49]]] \<longrightarrow>
      (\<exists>t \<in> set g. [t] \<in> set (parse_trigrams_case_sensitive (concat w)))" by blast
  have "concat [[65], [98], [49]] = str ''Ab1''" by (simp add: str_def)
  moreover have "list_all2 (\<lambda>x alt. x \<in> set alt) [[65], [98], [49]] [[[97], [65]], [[66], [98]], [[49 :: byte]]]"
    by simp
  ultimately show ?thesis using g by metis
qed

end
