(* ===== verification/Path_Order.thy ===== *)
theory Path_Order
  imports Prelude "HOL-Library.Multiset"
begin

text \<open>
  \<open>src/lib.cpp\<close>: the order of path names in the database, in which a directory is followed by all
  that is below it, and the search in a sorted list of paths that moves along with the scan.
\<close>

fun dir_path_cmp :: "bytes \<Rightarrow> bytes \<Rightarrow> int" where
  "dir_path_cmp [] [] = 0"
| "dir_path_cmp [] (b # bs) = -1"
| "dir_path_cmp (a # as) [] = 1"
| "dir_path_cmp (a # as) (b # bs) =
     (if a = b then dir_path_cmp as bs
      else if a = slash then -1
      else if b = slash then 1
      else int (unat a) - int (unat b))"

text \<open>The order is the lexicographic one, with the slash before all other characters.\<close>

definition byte_key :: "byte \<Rightarrow> nat" where
  "byte_key c = (if c = slash then 0 else Suc (unat c))"

definition path_key :: "bytes \<Rightarrow> nat list" where
  "path_key = map byte_key"

definition string_list_dir_path_sort :: "bytes list \<Rightarrow> bytes list" where
  "string_list_dir_path_sort list = sort_key path_key list"

function string_list_contains_dir_path :: "bytes list \<Rightarrow> nat \<Rightarrow> bytes \<Rightarrow> bool \<times> nat" where
  "string_list_contains_dir_path list idx path =
     (if idx < length list \<and> dir_path_cmp (list ! idx) path < 0
      then string_list_contains_dir_path list (idx + 1) path
      else if idx < length list \<and> dir_path_cmp (list ! idx) path = 0 then (True, idx + 1)
      else (False, idx))"
  by pat_completeness auto
termination
  by (relation "measure (\<lambda>(list, idx, path). length list - idx)") auto

declare string_list_contains_dir_path.simps [simp del]

text \<open>Successive calls.\<close>

fun contains_dir_paths :: "bytes list \<Rightarrow> nat \<Rightarrow> bytes list \<Rightarrow> bool list" where
  "contains_dir_paths list idx [] = []"
| "contains_dir_paths list idx (path # paths) =
     (let (found, idx) = string_list_contains_dir_path list idx path
      in found # contains_dir_paths list idx paths)"

section \<open>The order\<close>

lemma byte_key_eq [simp]: "byte_key a = byte_key b \<longleftrightarrow> a = b"
  by (auto simp add: byte_key_def word_unat_eq_iff)

lemma byte_key_slash [simp]: "byte_key slash = 0"
  by (simp add: byte_key_def)

lemma byte_key_less:
  assumes "a \<noteq> b"
  shows "byte_key a < byte_key b \<longleftrightarrow> a = slash \<or> b \<noteq> slash \<and> int (unat a) - int (unat b) < 0"
proof -
  have "int (unat a) - int (unat b) < 0 \<longleftrightarrow> unat a < unat b" by linarith
  with assms show ?thesis by (auto simp only: byte_key_def split: if_splits)
qed

lemma path_key_simps [simp]:
  "path_key [] = []" "path_key (c # cs) = byte_key c # path_key cs" "path_key (p @ q) = path_key p @ path_key q"
  by (simp_all add: path_key_def)

lemma path_key_inject: "path_key a = path_key b \<longleftrightarrow> a = b"
proof (induction a arbitrary: b)
  case (Cons x a)
  then show ?case by (cases b) auto
qed (cases b, auto simp add: path_key_def)

lemma dir_path_cmp_0: "dir_path_cmp a b = 0 \<longleftrightarrow> a = b"
proof (induction a b rule: dir_path_cmp.induct)
  case (4 a as b bs)
  have "int (unat a) - int (unat b) = 0 \<longleftrightarrow> a = b" by (simp only: word_unat_eq_iff) linarith
  with 4 show ?case by (auto simp only: dir_path_cmp.simps list.inject split: if_splits)
qed simp_all

lemma dir_path_cmp_less: "dir_path_cmp a b < 0 \<longleftrightarrow> path_key a < path_key b"
proof (induction a b rule: dir_path_cmp.induct)
  case (4 a as b bs)
  show ?case
  proof (cases "a = b")
    case False
    then have "\<not> (1 :: int) < 0" and "dir_path_cmp (a # as) (b # bs) < 0 \<longleftrightarrow> byte_key a < byte_key b"
      unfolding byte_key_less [OF False] dir_path_cmp.simps by (simp_all split: if_splits)
    with False show ?thesis by simp
  qed (use 4 in simp)
qed simp_all

lemma dir_path_cmp_greater: "0 < dir_path_cmp a b \<longleftrightarrow> path_key b < path_key a"
  using dir_path_cmp_0 [of a b] dir_path_cmp_less [of a b] path_key_inject [of a b]
  by (metis linorder_less_linear order_less_asym)

lemmas dir_path_cmp_key = dir_path_cmp_0 dir_path_cmp_less dir_path_cmp_greater

text \<open>What lies below a directory.\<close>

definition below :: "bytes \<Rightarrow> bytes \<Rightarrow> bool" where
  "below d p \<longleftrightarrow> p = d \<or> (\<exists>rest. p = d @ [slash] @ rest)"

lemma between_below:
  assumes "path_key d < path_key p" and "path_key p < path_key (d @ [slash] @ rest)"
  shows "\<exists>rest. p = d @ [slash] @ rest"
  using assms
proof (induction d arbitrary: p)
  case Nil
  then obtain c p' where p: "p = c # p'" by (cases p) auto
  with Nil have "byte_key c = 0" by auto
  then have "c = slash" by (simp add: byte_key_def split: if_splits)
  with p show ?case by simp
next
  case (Cons c d)
  then obtain c' p' where p: "p = c' # p'" by (cases p) auto
  with Cons.prems have "byte_key c' = byte_key c" by auto
  then have "c' = c" by simp
  with Cons p show ?case by auto
qed

lemma below_key: "below d p \<Longrightarrow> path_key d \<le> path_key p"
proof (induction d arbitrary: p)
  case (Cons c d)
  then obtain p' where "p = c # p'" "below d p'" by (auto simp add: below_def)
  with Cons.IH show ?case by simp
qed simp

lemma subtree_interval:
  assumes "below d p" and "below d r" and "path_key p < path_key q" and "path_key q < path_key r"
  shows "below d q"
proof -
  have q: "path_key d < path_key q" using below_key [OF assms(1)] assms(3) by simp
  then have "r \<noteq> d" using assms(4) by auto
  then obtain rest where "r = d @ [slash] @ rest" using assms(2) by (auto simp add: below_def)
  with between_below [OF q] assms(4) show ?thesis unfolding below_def by metis
qed

section \<open>The moving search\<close>

lemma sorted_paths: "sorted (map path_key list) \<Longrightarrow> i \<le> j \<Longrightarrow> j < length list \<Longrightarrow>
    path_key (list ! i) \<le> path_key (list ! j)"
  using sorted_nth_mono [of "map path_key list" i j] by simp

lemma contains_step:
  assumes "sorted (map path_key list)" and "\<forall>i < idx. i < length list \<longrightarrow> path_key (list ! i) < path_key path"
  shows "\<exists>idx'. string_list_contains_dir_path list idx path = (path \<in> set list, idx') \<and>
    (\<forall>i < idx'. i < length list \<longrightarrow> path_key (list ! i) \<le> path_key path)"
  using assms
proof (induction list idx path rule: string_list_contains_dir_path.induct)
  case (1 list idx path)
  consider "idx < length list" "path_key (list ! idx) < path_key path"
    | "idx < length list" "list ! idx = path"
    | "idx < length list \<longrightarrow> path_key path < path_key (list ! idx)"
    using path_key_inject by (metis linorder_cases)
  then show ?case
  proof cases
    case 1
    then show ?thesis
      using "1.IH" "1.prems" by (subst string_list_contains_dir_path.simps) (auto simp add: dir_path_cmp_key less_Suc_eq)
  next
    case 2
    then show ?thesis
      using "1.prems" by (subst string_list_contains_dir_path.simps)
        (auto simp add: dir_path_cmp_key less_Suc_eq less_imp_le)
  next
    case 3
    have "path \<noteq> list ! i" if i: "i < length list" for i
    proof (cases "i < idx")
      case True
      with "1.prems"(2) i show ?thesis by auto
    next
      case False
      then have "idx \<le> i" by simp
      then have "path_key (list ! idx) \<le> path_key (list ! i)" using i by (rule sorted_paths [OF "1.prems"(1)])
      with False 3 i show ?thesis by auto
    qed
    then have "path \<notin> set list" by (auto simp add: in_set_conv_nth)
    moreover have "\<not> (idx < length list \<and> dir_path_cmp (list ! idx) path < 0)"
      "\<not> (idx < length list \<and> dir_path_cmp (list ! idx) path = 0)"
      using 3 by (auto simp add: dir_path_cmp_key)
    then have "string_list_contains_dir_path list idx path = (False, idx)"
      by (subst string_list_contains_dir_path.simps) (simp only: if_False)
    ultimately show ?thesis using "1.prems" by (auto intro: less_imp_le)
  qed
qed

lemma contains_later:
  assumes "\<forall>i < idx. i < length list \<longrightarrow> path_key (list ! i) \<le> path_key p" and "path_key p < path_key q"
  shows "\<forall>i < idx. i < length list \<longrightarrow> path_key (list ! i) < path_key q"
  using assms by (meson le_less_trans)

lemma contains_all:
  assumes "sorted (map path_key list)" and "sorted_wrt (\<lambda>p q. path_key p < path_key q) paths"
    and "\<forall>i < idx. i < length list \<longrightarrow> (\<forall>p \<in> set paths. path_key (list ! i) < path_key p)"
  shows "contains_dir_paths list idx paths = map (\<lambda>p. p \<in> set list) paths"
  using assms(2,3)
proof (induction paths arbitrary: idx)
  case (Cons p ps)
  obtain idx' where c: "string_list_contains_dir_path list idx p = (p \<in> set list, idx')"
    "\<forall>i < idx'. i < length list \<longrightarrow> path_key (list ! i) \<le> path_key p"
    using contains_step [OF assms(1), of idx p] Cons.prems(2) by auto
  have "\<forall>i < idx'. i < length list \<longrightarrow> (\<forall>q \<in> set ps. path_key (list ! i) < path_key q)"
    using contains_later [OF c(2)] Cons.prems(1) by auto
  with Cons.IH [of idx'] Cons.prems(1) c(1) show ?case by simp
qed simp

section \<open>Properties\<close>

text \<open>C34: The order of paths is a total order in which every directory comes before everything below
  it and what lies below it is an interval: no path outside it comes in between. Sorting a list
  of paths orders it that way.\<close>
theorem dir_path_order:
  "(dir_path_cmp a b = 0 \<longleftrightarrow> a = b) \<and>
   (dir_path_cmp a b < 0 \<longleftrightarrow> 0 < dir_path_cmp b a) \<and>
   (dir_path_cmp a b < 0 \<and> dir_path_cmp b c < 0 \<longrightarrow> dir_path_cmp a c < 0) \<and>
   dir_path_cmp d (d @ [slash] @ rest) < 0 \<and>
   (below d a \<and> below d c \<and> dir_path_cmp a b < 0 \<and> dir_path_cmp b c < 0 \<longrightarrow> below d b) \<and>
   sorted_wrt (\<lambda>p q. dir_path_cmp p q \<le> 0) (string_list_dir_path_sort list) \<and>
   mset (string_list_dir_path_sort list) = mset list"
proof -
  have "dir_path_cmp p q \<le> 0 \<longleftrightarrow> path_key p \<le> path_key q" for p q
    using dir_path_cmp_greater [of p q] by (metis not_le)
  then have "sorted_wrt (\<lambda>p q. dir_path_cmp p q \<le> 0) (string_list_dir_path_sort list)"
    using sorted_sort_key [of path_key list] by (simp add: string_list_dir_path_sort_def sorted_map)
  moreover have "dir_path_cmp d (d @ [slash] @ rest) < 0"
    by (induction d) (simp_all add: dir_path_cmp_less)
  ultimately show ?thesis
    using subtree_interval [of d a c b]
    by (auto simp add: dir_path_cmp_key string_list_dir_path_sort_def)
qed

lemma dir_path_order_witness:
  "below (str ''/a'') (str ''/a/z'') \<and> below (str ''/a'') (str ''/a/c'') \<and>
   dir_path_cmp (str ''/a/b'') (str ''/a/c'') < 0 \<and> dir_path_cmp (str ''/a/c'') (str ''/a/z'') < 0 \<and>
   dir_path_cmp (str ''/a/b'') (str ''/a/z'') < 0"
proof -
  have "dir_path_cmp (str ''/a/b'') (str ''/a/c'') < 0" "dir_path_cmp (str ''/a/c'') (str ''/a/z'') < 0"
    by (simp_all add: str_def dir_path_cmp_less byte_key_def)
  with dir_path_order [of "str ''/a/b''" "str ''/a/c''" "str ''/a/z''" "str ''/a''" "[]" "[]"] show ?thesis
    by (auto simp add: below_def str_def)
qed

text \<open>Looking up increasing paths one after the other in a sorted list, with the index that moves
  along, answers for each of them whether it is in the list.\<close>
theorem contains_increasing_paths:
  assumes "sorted_wrt (\<lambda>p q. dir_path_cmp p q < 0) paths"
  shows "contains_dir_paths (string_list_dir_path_sort list) 0 paths = map (\<lambda>p. p \<in> set list) paths"
  using contains_all [of "string_list_dir_path_sort list" paths 0] assms
  by (simp add: string_list_dir_path_sort_def dir_path_cmp_less)

lemma contains_increasing_paths_witness:
  "contains_dir_paths (string_list_dir_path_sort [str ''/tmp'', str ''/a/b'', str ''/a'']) 0
     [str ''/'', str ''/a'', str ''/a/c'', str ''/tmp''] = [False, True, False, True]"
  using contains_increasing_paths [of "[str ''/'', str ''/a'', str ''/a/c'', str ''/tmp'']"
      "[str ''/tmp'', str ''/a/b'', str ''/a'']"]
  by (simp add: str_def dir_path_cmp_less byte_key_def)

end
