(* ===== verification/Dictionary_Builder.thy ===== *)
theory Dictionary_Builder
  imports Encoding_Corpus "HOL-Library.Multiset"
begin

text \<open>
  \<open>DictionaryBuilder\<close> of \<open>src/database-builder.cpp\<close>: blocks of names are sampled (reservoir sampling)
  and a dictionary is trained on the samples. The draws of the random generator are a parameter,
  \<open>draw n\<close> being the number that is drawn from 0 to \<open>n\<close>; \<open>ZDICT_trainFromBuffer\<close> is a parameter
  too. None is a write to a sample that does not exist.
\<close>

record dictionary_builder =
  blocks_to_keep :: nat
  db_block_size :: nat
  db_current_block :: bytes
  block_num :: nat
  db_num_files_in_block :: nat
  keep_current_block :: bool
  slot_for_current_block :: int
  sampled_blocks :: "bytes list"
  lengths :: "nat list"

definition new_dictionary_builder :: "nat \<Rightarrow> nat \<Rightarrow> dictionary_builder" where
  "new_dictionary_builder keep bsize =
     \<lparr>blocks_to_keep = keep, db_block_size = bsize, db_current_block = [], block_num = 0,
      db_num_files_in_block = 0, keep_current_block = True, slot_for_current_block = -1,
      sampled_blocks = [], lengths = []\<rparr>"

definition store_block :: "dictionary_builder \<Rightarrow> dictionary_builder option" where
  "store_block b =
     (if keep_current_block b then
        if slot_for_current_block b = -1 then
          Some (b\<lparr>lengths := lengths b @ [length (db_current_block b)],
                  sampled_blocks := sampled_blocks b @ [db_current_block b]\<rparr>)
        else
          let slot = nat (slot_for_current_block b) in
          if length (sampled_blocks b) \<le> slot \<or> length (lengths b) \<le> slot then None
          else Some (b\<lparr>lengths := (lengths b)[slot := length (db_current_block b)],
                       sampled_blocks := (sampled_blocks b)[slot := db_current_block b]\<rparr>)
      else Some b)"

definition choose_next :: "(nat \<Rightarrow> nat) \<Rightarrow> dictionary_builder \<Rightarrow> dictionary_builder" where
  "choose_next draw b =
     (if block_num b < blocks_to_keep b then
        b\<lparr>keep_current_block := True, slot_for_current_block := -1\<rparr>
      else
        let idx = draw (block_num b) in
        b\<lparr>keep_current_block := (idx < blocks_to_keep b), slot_for_current_block := int idx\<rparr>)"

definition dictionary_flush_block :: "(nat \<Rightarrow> nat) \<Rightarrow> dictionary_builder \<Rightarrow> dictionary_builder option" where
  "dictionary_flush_block draw b =
     map_option
       (\<lambda>b. choose_next draw
          (b\<lparr>db_current_block := [], db_num_files_in_block := 0, block_num := block_num b + 1\<rparr>))
       (store_block b)"

definition dictionary_add_file ::
    "(nat \<Rightarrow> nat) \<Rightarrow> bytes \<Rightarrow> dictionary_builder \<Rightarrow> dictionary_builder option" where
  "dictionary_add_file draw path b =
     (let b = (if keep_current_block b then
                 b\<lparr>db_current_block :=
                     (if db_current_block b \<noteq> [] then db_current_block b @ [0] else []) @ path\<rparr>
               else b);
          b = b\<lparr>db_num_files_in_block := db_num_files_in_block b + 1\<rparr>
      in if db_num_files_in_block b = db_block_size b then dictionary_flush_block draw b else Some b)"

fun dictionary_add_files ::
    "(nat \<Rightarrow> nat) \<Rightarrow> bytes list \<Rightarrow> dictionary_builder \<Rightarrow> dictionary_builder option" where
  "dictionary_add_files draw [] b = Some b"
| "dictionary_add_files draw (p # ps) b =
     (case dictionary_add_file draw p b of None \<Rightarrow> None | Some b \<Rightarrow> dictionary_add_files draw ps b)"

text \<open>The trained dictionary (empty on an error) and the builder; \<open>trainer\<close> gets the size of the
  dictionary, the samples in one buffer, and their lengths.\<close>

definition train ::
    "(nat \<Rightarrow> bytes \<Rightarrow> nat list \<Rightarrow> bytes option) \<Rightarrow> nat \<Rightarrow> dictionary_builder \<Rightarrow> bytes \<times> dictionary_builder" where
  "train trainer buf_size b =
     (let sorted_blocks = sort (sampled_blocks b);
          b = b\<lparr>sampled_blocks := sorted_blocks\<rparr>
      in case trainer buf_size (concat sorted_blocks) (lengths b) of
           None \<Rightarrow> ([], b)
         | Some buf \<Rightarrow> (buf, b\<lparr>sampled_blocks := [], lengths := []\<rparr>))"

section \<open>The reservoir\<close>

text \<open>\<open>bs\<close> are the blocks of names that are complete, \<open>cur\<close> the names of the current one.\<close>

definition reservoir :: "bytes list list \<Rightarrow> bytes list \<Rightarrow> dictionary_builder \<Rightarrow> bool" where
  "reservoir bs cur b \<longleftrightarrow>
     block_num b = length bs \<and> db_num_files_in_block b = length cur \<and>
     (keep_current_block b \<longrightarrow> db_current_block b = join_names cur) \<and>
     (\<not> keep_current_block b \<longrightarrow> db_current_block b = []) \<and>
     lengths b = map length (sampled_blocks b) \<and>
     length (sampled_blocks b) = min (max 1 (blocks_to_keep b)) (length bs) \<and>
     mset (sampled_blocks b) \<subseteq># mset (map join_names bs) \<and>
     (keep_current_block b \<longrightarrow>
        (if slot_for_current_block b = -1 then length bs < max 1 (blocks_to_keep b)
         else 0 \<le> slot_for_current_block b \<and> slot_for_current_block b < int (length (sampled_blocks b)) \<and>
           max 1 (blocks_to_keep b) \<le> length bs)) \<and>
     (\<not> keep_current_block b \<longrightarrow> max 1 (blocks_to_keep b) \<le> length bs)"

lemma join_names_snoc_any:
  assumes "file_names cur"
  shows "(if join_names cur \<noteq> [] then join_names cur @ [0] else []) @ path = join_names (cur @ [path])"
proof (cases "cur = []")
  case False
  then show ?thesis using join_names_not_empty [OF False assms] by (simp add: join_names_snoc)
qed simp

lemma subset_mset_update:
  assumes "mset xs \<subseteq># M" and "i < length xs"
  shows "mset (xs[i := y]) \<subseteq># add_mset y M"
proof -
  have "mset (xs[i := y]) = add_mset y (mset xs - {#xs ! i#})" using assms(2) by (rule mset_update)
  moreover have "mset xs - {#xs ! i#} \<subseteq># M" using assms(1) by (meson diff_subset_eq_self subset_mset.order_trans)
  ultimately show ?thesis by simp
qed

lemma store_block_reservoir:
  assumes "reservoir bs cur b"
  shows "\<exists>b'. store_block b = Some b' \<and> lengths b' = map length (sampled_blocks b') \<and>
    length (sampled_blocks b') = min (max 1 (blocks_to_keep b)) (length bs + 1) \<and>
    mset (sampled_blocks b') \<subseteq># mset (map join_names (bs @ [cur])) \<and>
    blocks_to_keep b' = blocks_to_keep b \<and> block_num b' = block_num b \<and> db_block_size b' = db_block_size b"
proof -
  note r = assms [unfolded reservoir_def]
  consider "\<not> keep_current_block b" | "keep_current_block b" "slot_for_current_block b = -1"
    | "keep_current_block b" "slot_for_current_block b \<noteq> -1" by blast
  then show ?thesis
  proof cases
    case 1
    with r show ?thesis
      by (auto simp add: store_block_def min_def intro: subset_mset.order_trans)
  next
    case 2
    with r show ?thesis by (auto simp add: store_block_def min_def)
  next
    case 3
    let ?slot = "nat (slot_for_current_block b)"
    have s: "?slot < length (sampled_blocks b)" "?slot < length (lengths b)" using r 3 by auto
    then have "mset ((sampled_blocks b)[?slot := join_names cur]) \<subseteq># mset (map join_names (bs @ [cur]))"
      using subset_mset_update [of "sampled_blocks b" "mset (map join_names bs)" ?slot "join_names cur"] r by simp
    with s 3 r show ?thesis
      by (auto simp add: store_block_def Let_def map_update min_def)
  qed
qed

lemma flush_reservoir:
  assumes "reservoir bs cur b"
  shows "\<exists>b'. dictionary_flush_block draw b = Some b' \<and> reservoir (bs @ [cur]) [] b' \<and>
    blocks_to_keep b' = blocks_to_keep b \<and> db_block_size b' = db_block_size b"
proof -
  have n: "block_num b = length bs" using assms by (simp add: reservoir_def)
  obtain b1 where b1: "store_block b = Some b1" "lengths b1 = map length (sampled_blocks b1)"
    "length (sampled_blocks b1) = min (max 1 (blocks_to_keep b)) (length bs + 1)"
    "mset (sampled_blocks b1) \<subseteq># mset (map join_names (bs @ [cur]))"
    "blocks_to_keep b1 = blocks_to_keep b" "block_num b1 = block_num b" "db_block_size b1 = db_block_size b"
    using store_block_reservoir [OF assms] by blast
  let ?b = "b1\<lparr>db_current_block := [], db_num_files_in_block := 0, block_num := block_num b1 + 1\<rparr>"
  have "reservoir (bs @ [cur]) [] (choose_next draw ?b)"
    using b1(2-6) n by (auto simp add: reservoir_def choose_next_def Let_def)
  moreover have "blocks_to_keep (choose_next draw ?b) = blocks_to_keep b"
    "db_block_size (choose_next draw ?b) = db_block_size b"
    using b1 by (simp_all add: choose_next_def Let_def)
  ultimately show ?thesis by (simp add: dictionary_flush_block_def b1(1))
qed

lemma add_file_reservoir:
  assumes "reservoir bs cur b" and "file_names (cur @ [p])"
  shows "\<exists>b'. dictionary_add_file draw p b = Some b' \<and>
    (if Suc (length cur) = db_block_size b then reservoir (bs @ [cur @ [p]]) [] b'
     else reservoir bs (cur @ [p]) b') \<and>
    blocks_to_keep b' = blocks_to_keep b \<and> db_block_size b' = db_block_size b"
proof -
  define b1 where "b1 = (if keep_current_block b then
      b\<lparr>db_current_block := (if db_current_block b \<noteq> [] then db_current_block b @ [0] else []) @ p\<rparr>
    else b)\<lparr>db_num_files_in_block := length cur + 1\<rparr>"
  have c: "(if join_names cur \<noteq> [] then join_names cur @ [0] else []) @ p = join_names (cur @ [p])"
    using assms(2) by (intro join_names_snoc_any) (simp add: file_names_def)
  have r: "reservoir bs (cur @ [p]) b1"
    using assms(1) c by (auto simp add: reservoir_def b1_def)
  have s: "blocks_to_keep b1 = blocks_to_keep b" "db_block_size b1 = db_block_size b"
    "db_num_files_in_block b1 = length cur + 1" by (simp_all add: b1_def)
  have "db_num_files_in_block b = length cur" using assms(1) by (simp add: reservoir_def)
  then have "dictionary_add_file draw p b =
      (if Suc (length cur) = db_block_size b then dictionary_flush_block draw b1 else Some b1)"
    by (simp add: dictionary_add_file_def Let_def b1_def)
  with r s flush_reservoir [OF r, of draw] show ?thesis by auto
qed

lemma add_files_reservoir:
  assumes "reservoir bs cur b" and "file_names (cur @ ps)" and "db_block_size b = n"
    and "0 < n \<longrightarrow> length cur < n"
  shows "\<exists>b' bs' cur'. dictionary_add_files draw ps b = Some b' \<and> reservoir bs' cur' b' \<and>
    concat bs' @ cur' = concat bs @ cur @ ps \<and> blocks_to_keep b' = blocks_to_keep b"
  using assms
proof (induction ps arbitrary: bs cur b)
  case (Cons p ps)
  have names: "file_names (cur @ [p])" "file_names ps" using Cons.prems(2) by (auto simp add: file_names_def)
  from add_file_reservoir [OF Cons.prems(1) names(1), of draw] Cons.prems(3) obtain b1 where
    b1: "dictionary_add_file draw p b = Some b1"
    "if Suc (length cur) = n then reservoir (bs @ [cur @ [p]]) [] b1 else reservoir bs (cur @ [p]) b1"
    "blocks_to_keep b1 = blocks_to_keep b" "db_block_size b1 = n" by auto
  show ?case
  proof (cases "Suc (length cur) = n")
    case True
    with Cons.IH [of "bs @ [cur @ [p]]" "[]" b1] b1 names show ?thesis by auto
  next
    case False
    with Cons.IH [of bs "cur @ [p]" b1] b1 names Cons.prems(2,4) show ?thesis by auto
  qed
qed auto

section \<open>Properties\<close>



text \<open>The samples are sorted for the trainer but their lengths are not: the lengths need not be those
  of the samples in the buffer.\<close>

lemma train_lengths_unsorted:
  "\<exists>b. dictionary_add_files (\<lambda>n. n) [str ''/b'', str ''/a/c''] (new_dictionary_builder 2 1) = Some b \<and>
    lengths b = [2, 4] \<and> map length (sort (sampled_blocks b)) = [4, 2]"
  by (simp add: new_dictionary_builder_def dictionary_add_file_def dictionary_flush_block_def
      store_block_def choose_next_def str_def)

end
