(* ===== verification/Parse_Size.thy ===== *)
theory Parse_Size
  imports Prelude
begin

text \<open>
  \<open>parse_size\<close> of \<open>include/parse_size.h\<close>: a number of bytes with an optional suffix, as a 64-bit
  integer. \<open>strtoull\<close> in base 10 is modelled as the C standard describes it. Strings hold no zero
  byte, so that the end of the list is the terminator.
\<close>

definition is_space :: "byte \<Rightarrow> bool" where
  "is_space c \<longleftrightarrow> c = 32 \<or> 9 \<le> c \<and> c \<le> 13"

definition is_digit :: "byte \<Rightarrow> bool" where
  "is_digit c \<longleftrightarrow> 48 \<le> c \<and> c \<le> 57"

definition decimal :: "bytes \<Rightarrow> nat" where
  "decimal ds = fold (\<lambda>c n. 10 * n + (unat c - 48)) ds 0"

text \<open>The value and the rest of the string; None when there is no number or \<open>errno\<close> is set.\<close>

definition strtoull :: "bytes \<Rightarrow> (u64 \<times> bytes) option" where
  "strtoull s =
     (let s = dropWhile is_space s;
          neg = (s \<noteq> [] \<and> hd s = 45);
          s = (if s \<noteq> [] \<and> (hd s = 45 \<or> hd s = 43) then tl s else s);
          ds = takeWhile is_digit s
      in if ds = [] \<or> 2 ^ 64 \<le> decimal ds then None
         else Some (if neg then - of_nat (decimal ds) else of_nat (decimal ds), dropWhile is_digit s))"

definition to_upper :: "byte \<Rightarrow> byte" where
  "to_upper c = (if 97 \<le> c \<and> c \<le> 122 then c - 32 else c)"

text \<open>The switch: the shift and the rest of the string; None is the default.\<close>

definition size_suffix :: "bytes \<Rightarrow> (nat \<times> bytes) option" where
  "size_suffix end =
     (if end = [] then Some (0, [])
      else if to_upper (hd end) = 75 then Some (10, tl end)
      else if to_upper (hd end) = 77 then Some (20, tl end)
      else if to_upper (hd end) = 71 then Some (30, tl end)
      else if to_upper (hd end) = 84 then Some (40, tl end)
      else None)"

definition parse_size :: "bytes \<Rightarrow> u64 option" where
  "parse_size s =
     (if s = [] \<or> hd s = 45 then None
      else
        case strtoull s of
          None \<Rightarrow> None
        | Some (val, end) \<Rightarrow>
            (case size_suffix end of
               None \<Rightarrow> None
             | Some (shift, end) \<Rightarrow>
                 if end \<noteq> [] then None
                 else if shift \<noteq> 0 \<and> drop_bit shift (-1) < val then None
                 else Some (push_bit shift val)))"

lemma digit_facts:
  assumes "is_digit c"
  shows "\<not> is_space c" and "c \<noteq> 45" and "c \<noteq> 43"
  using assms by (auto simp add: is_digit_def is_space_def word_le_nat_alt)

lemma suffix_no_digit: "size_suffix end = Some r \<Longrightarrow> end = [] \<or> \<not> is_digit (hd end)"
  by (auto simp add: size_suffix_def is_digit_def to_upper_def word_le_nat_alt split: if_splits)

lemma size_suffix_cases:
  "size_suffix end = Some (shift, rest) \<Longrightarrow> shift \<in> {0, 10, 20, 30, 40}"
  by (auto simp add: size_suffix_def split: if_splits)

lemma strtoull_digits:
  assumes "ds \<noteq> []" and "list_all is_digit ds" and "rest = [] \<or> \<not> is_digit (hd rest)"
  shows "strtoull (ds @ rest) = (if 2 ^ 64 \<le> decimal ds then None else Some (of_nat (decimal ds), rest))"
proof -
  obtain c cs where ds: "ds = c # cs" using assms(1) by (cases ds) auto
  then have c: "is_digit c" using assms(2) by simp
  have w: "dropWhile is_space (ds @ rest) = ds @ rest" using digit_facts [OF c] by (simp add: ds)
  have e: "takeWhile is_digit rest = []" "dropWhile is_digit rest = rest"
    using assms(3) by (cases rest; simp)+
  have t: "takeWhile is_digit (ds @ rest) = ds" "dropWhile is_digit (ds @ rest) = rest"
    using assms(2) e by (simp_all add: list_all_iff takeWhile_append2 dropWhile_append2)
  have h: "hd (ds @ rest) = c" by (simp add: ds)
  show ?thesis
    using digit_facts [OF c] assms(1) unfolding strtoull_def w Let_def h by (simp add: t)
qed

lemma too_large_for_shift:
  assumes "k \<in> {10, 20, 30, 40 :: nat}" and "n < 2 ^ 64"
  shows "drop_bit k (-1 :: u64) < of_nat n \<longleftrightarrow> 2 ^ 64 \<le> n * 2 ^ k"
proof -
  have m: "unat (-1 :: u64) = 2 ^ 64 - 1" by (simp add: unsigned_minus_1_eq_mask mask_eq_exp_minus_1)
  have "drop_bit k (-1 :: u64) < of_nat n \<longleftrightarrow> (2 ^ 64 - 1) div 2 ^ k < n"
    unfolding word_less_nat_alt unsigned_drop_bit_eq m
    using assms(2) by (simp add: drop_bit_eq_div unat_of_nat_small)
  also have "\<dots> \<longleftrightarrow> 2 ^ 64 \<le> n * 2 ^ k" using assms(1) by auto
  finally show ?thesis .
qed

section \<open>Properties\<close>



text \<open>A minus sign is refused only as the first character.\<close>

lemma parse_size_minus_after_space: "parse_size (str '' -1'') = Some (-1)"
  by (simp add: parse_size_def strtoull_def str_def is_space_def is_digit_def decimal_def size_suffix_def
      word_le_nat_alt Let_def)

end
