(* ===== verification/Snapshot_Diff.thy ===== *)
theory Snapshot_Diff
  imports Metadata "HOL-Library.Multiset"
begin

text \<open>
  The comparisons of \<open>src/showdiff.cpp\<close>: two snapshots (\<open>diff_snapshots\<close>), the filter of events,
  and the fields that an event lists. A snapshot holds its paths sorted, with the metadata of each
  path; the two loop indexes are the rests of the lists from them.
\<close>

record prune_config =
  prune_bind_mounts :: bool
  prunefs :: "bytes list"
  prunenames :: "bytes list"
  prunepaths :: "bytes list"

record snapshot =
  paths :: "bytes list"
  metadata :: "file_metadata list"
  hash_kind_of :: hash_kind
  prune :: prune_config
  scan_root :: bytes

definition make_event :: "event_kind \<Rightarrow> bytes \<Rightarrow> file_metadata \<Rightarrow> file_metadata \<Rightarrow> history_event" where
  "make_event k path old new =
     empty_event\<lparr>ekind := k, epath := path, old_metadata := old, new_metadata := new\<rparr>"

fun diff_from ::
    "bool \<Rightarrow> (bytes \<times> file_metadata) list \<Rightarrow> (bytes \<times> file_metadata) list \<Rightarrow> history_event list" where
  "diff_from compare_atime [] [] = []"
| "diff_from compare_atime [] ((q, n) # new) =
     make_event Added q no_metadata n # diff_from compare_atime [] new"
| "diff_from compare_atime ((p, m) # old) [] =
     make_event Removed p m no_metadata # diff_from compare_atime old []"
| "diff_from compare_atime ((p, m) # old) ((q, n) # new) =
     (if p = q then
        (if \<not> metadata_equals m n compare_atime then [make_event Modified q m n] else []) @
        diff_from compare_atime old new
      else if p < q then make_event Removed p m no_metadata # diff_from compare_atime old ((q, n) # new)
      else make_event Added q no_metadata n # diff_from compare_atime ((p, m) # old) new)"

definition diff_snapshots :: "bool \<Rightarrow> snapshot \<Rightarrow> snapshot \<Rightarrow> history_event list" where
  "diff_snapshots compare_atime old_snap new_snap =
     diff_from compare_atime (zip (paths old_snap) (metadata old_snap)) (zip (paths new_snap) (metadata new_snap))"

section \<open>The filter of events\<close>

record event_filter =
  show_added :: bool
  show_removed :: bool
  show_modified :: bool
  filter_specified :: bool

definition new_event_filter :: event_filter where
  "new_event_filter =
     \<lparr>show_added = True, show_removed = True, show_modified = True, filter_specified = False\<rparr>"

definition enable :: "event_kind \<Rightarrow> event_filter \<Rightarrow> event_filter" where
  "enable k f =
     (let f = (if \<not> filter_specified f then
                 f\<lparr>show_added := False, show_removed := False, show_modified := False, filter_specified := True\<rparr>
               else f)
      in case k of
           Added \<Rightarrow> f\<lparr>show_added := True\<rparr>
         | Removed \<Rightarrow> f\<lparr>show_removed := True\<rparr>
         | Modified \<Rightarrow> f\<lparr>show_modified := True\<rparr>
         | _ \<Rightarrow> f)"

definition accepts :: "event_filter \<Rightarrow> event_kind \<Rightarrow> bool" where
  "accepts f k =
     (case k of
        Added \<Rightarrow> show_added f
      | Removed \<Rightarrow> show_removed f
      | Modified \<Rightarrow> show_modified f
      | _ \<Rightarrow> True)"

text \<open>The events that are printed, and the number that is returned.\<close>

definition print_events :: "event_filter \<Rightarrow> history_event list \<Rightarrow> history_event list \<times> nat" where
  "print_events f events =
     (let shown = filter (\<lambda>e. accepts f (ekind e)) events
      in (shown, length (filter (\<lambda>e. ekind e \<noteq> RunMarker) shown)))"

section \<open>What a diff is\<close>

definition path_event ::
    "bool \<Rightarrow> (bytes \<times> file_metadata) list \<Rightarrow> (bytes \<times> file_metadata) list \<Rightarrow> bytes \<Rightarrow> history_event list" where
  "path_event compare_atime old new p =
     (case (map_of old p, map_of new p) of
        (None, None) \<Rightarrow> []
      | (Some m, None) \<Rightarrow> [make_event Removed p m no_metadata]
      | (None, Some n) \<Rightarrow> [make_event Added p no_metadata n]
      | (Some m, Some n) \<Rightarrow>
          if metadata_equals m n compare_atime then [] else [make_event Modified p m n])"

definition all_paths :: "(bytes \<times> file_metadata) list \<Rightarrow> (bytes \<times> file_metadata) list \<Rightarrow> bytes list" where
  "all_paths old new = sorted_list_of_set (fst ` set old \<union> fst ` set new)"

abbreviation sorted_entries :: "(bytes \<times> file_metadata) list \<Rightarrow> bool" where
  "sorted_entries es \<equiv> sorted_wrt (<) (map fst es)"

lemma sorted_list_of_set_Cons:
  assumes "finite A" and "\<And>a. a \<in> A \<Longrightarrow> x < (a :: 'a::linorder)"
  shows "sorted_list_of_set (insert x A) = x # sorted_list_of_set A"
  using assms
  by (metis insort_is_Cons less_imp_le order_less_irrefl set_sorted_list_of_set
      sorted_list_of_set_insert)

lemma set_all_paths [simp]: "set (all_paths old new) = fst ` set old \<union> fst ` set new"
  by (simp add: all_paths_def del: sorted_list_of_set_insert_remove)

lemma all_paths_head:
  assumes "fst ` set old' \<union> fst ` set new' = insert x (fst ` set old \<union> fst ` set new)"
    and "\<And>y. y \<in> fst ` set old \<Longrightarrow> x < y" and "\<And>y. y \<in> fst ` set new \<Longrightarrow> x < y"
  shows "all_paths old' new' = x # all_paths old new"
  unfolding all_paths_def assms(1) by (rule sorted_list_of_set_Cons) (use assms(2,3) in auto)

lemma sorted_entries_less: "sorted_entries ((p, m) # es) \<Longrightarrow> y \<in> fst ` set es \<Longrightarrow> p < y"
  by auto

lemma map_of_later: "sorted_entries ((p, m) # es) \<Longrightarrow> q \<le> p \<Longrightarrow> map_of es q = None"
  by (auto simp add: map_of_eq_None_iff)

lemma path_event_Cons:
  assumes "q \<noteq> p"
  shows "path_event c ((p, m) # old) new q = path_event c old new q"
    and "path_event c old ((p, n) # new) q = path_event c old new q"
  using assms by (simp_all add: path_event_def)

lemma concat_path_events:
  assumes "\<And>q. q \<in> set qs \<Longrightarrow> f q = g q"
  shows "concat (map f qs) = concat (map g qs)"
  using assms by (metis map_cong)

lemma diff_from_spec:
  assumes "sorted_entries old" and "sorted_entries new"
  shows "diff_from c old new = concat (map (path_event c old new) (all_paths old new))"
  using assms
proof (induction c old new rule: diff_from.induct)
  case (1 c)
  then show ?case by (simp add: all_paths_def)
next
  case (2 c q n new)
  have "all_paths [] ((q, n) # new) = q # all_paths [] new"
    by (rule all_paths_head) (use 2 in auto)
  moreover have "concat (map (path_event c [] ((q, n) # new)) (all_paths [] new)) =
      concat (map (path_event c [] new) (all_paths [] new))"
    using 2 by (intro concat_path_events path_event_Cons) auto
  moreover have "path_event c [] ((q, n) # new) q = [make_event Added q no_metadata n]"
    by (simp add: path_event_def)
  ultimately show ?case using 2 by simp
next
  case (3 c p m old)
  have "all_paths ((p, m) # old) [] = p # all_paths old []"
    by (rule all_paths_head) (use 3 in auto)
  moreover have "concat (map (path_event c ((p, m) # old) []) (all_paths old [])) =
      concat (map (path_event c old []) (all_paths old []))"
    using 3 by (intro concat_path_events path_event_Cons) auto
  moreover have "path_event c ((p, m) # old) [] p = [make_event Removed p m no_metadata]"
    by (simp add: path_event_def)
  ultimately show ?case using 3 by simp
next
  case (4 c p m old q n new)
  consider "p = q" | "p < q" | "q < p" by (rule linorder_cases)
  then show ?case
  proof cases
    case 1
    have "all_paths ((p, m) # old) ((q, n) # new) = q # all_paths old new"
      by (rule all_paths_head) (use 4(4,5) 1 in \<open>auto dest: less_trans\<close>)
    moreover have "concat (map (path_event c ((p, m) # old) ((q, n) # new)) (all_paths old new)) =
        concat (map (path_event c old new) (all_paths old new))"
    proof (rule concat_path_events)
      fix x assume "x \<in> set (all_paths old new)"
      then have "x \<noteq> q" using 4(4,5) 1 by auto
      with 1 path_event_Cons show "path_event c ((p, m) # old) ((q, n) # new) x = path_event c old new x" by metis
    qed
    moreover have "path_event c ((p, m) # old) ((q, n) # new) q =
        (if \<not> metadata_equals m n c then [make_event Modified q m n] else [])"
      using 1 by (simp add: path_event_def)
    ultimately show ?thesis using 4 1 by simp
  next
    case 2
    have "all_paths ((p, m) # old) ((q, n) # new) = p # all_paths old ((q, n) # new)"
      by (rule all_paths_head) (use 4(4,5) 2 in \<open>auto dest: less_trans\<close>)
    moreover have "concat (map (path_event c ((p, m) # old) ((q, n) # new)) (all_paths old ((q, n) # new))) =
        concat (map (path_event c old ((q, n) # new)) (all_paths old ((q, n) # new)))"
      using 4(4,5) 2 by (intro concat_path_events path_event_Cons) (auto dest: less_trans)
    moreover have "path_event c ((p, m) # old) ((q, n) # new) p = [make_event Removed p m no_metadata]"
      using 4 2 map_of_later [of q n new p] by (auto simp add: path_event_def)
    ultimately show ?thesis using 4 2 less_imp_neq [OF 2] by simp
  next
    case 3
    have "all_paths ((p, m) # old) ((q, n) # new) = q # all_paths ((p, m) # old) new"
      by (rule all_paths_head) (use 4(4,5) 3 in \<open>auto dest: less_trans\<close>)
    moreover have "concat (map (path_event c ((p, m) # old) ((q, n) # new)) (all_paths ((p, m) # old) new)) =
        concat (map (path_event c ((p, m) # old) new) (all_paths ((p, m) # old) new))"
      using 4(4,5) 3 by (intro concat_path_events path_event_Cons) (auto dest: less_trans)
    moreover have "path_event c ((p, m) # old) ((q, n) # new) q = [make_event Added q no_metadata n]"
      using 4 3 map_of_later [of p m old q] by (auto simp add: path_event_def)
    ultimately show ?thesis using 4 3 less_imp_neq [OF 3] less_not_sym [OF 3] by simp
  qed
qed

section \<open>What the events of a diff do\<close>

definition apply_event :: "history_event \<Rightarrow> (bytes \<Rightarrow> file_metadata option) \<Rightarrow> bytes \<Rightarrow> file_metadata option" where
  "apply_event e m =
     (case ekind e of
        Added \<Rightarrow> m(epath e := Some (new_metadata e))
      | Removed \<Rightarrow> m(epath e := None)
      | Modified \<Rightarrow> m(epath e := Some (new_metadata e))
      | _ \<Rightarrow> m)"

definition snapshot_entries :: "snapshot \<Rightarrow> (bytes \<times> file_metadata) list" where
  "snapshot_entries s = zip (paths s) (metadata s)"

abbreviation wf_snapshot :: "snapshot \<Rightarrow> bool" where
  "wf_snapshot s \<equiv> sorted_wrt (<) (paths s) \<and> length (metadata s) = length (paths s)"

definition patched :: "bool \<Rightarrow> file_metadata option \<Rightarrow> file_metadata option \<Rightarrow> file_metadata option" where
  "patched c x y =
     (case (x, y) of (Some m, Some n) \<Rightarrow> if metadata_equals m n c then Some m else Some n | _ \<Rightarrow> y)"

lemma make_event_sel [simp]:
  "ekind (make_event k p m n) = k" "epath (make_event k p m n) = p"
  "new_metadata (make_event k p m n) = n" "old_metadata (make_event k p m n) = m"
  by (simp_all add: make_event_def)

lemma apply_path_event:
  assumes "m q = map_of old q"
  shows "fold apply_event (path_event c old new q) m = m(q := patched c (map_of old q) (map_of new q))"
  using assms by (auto simp add: path_event_def patched_def apply_event_def split: option.splits)

lemma apply_path_events:
  assumes "distinct qs" and "\<And>q. q \<in> set qs \<Longrightarrow> m q = map_of old q"
  shows "fold apply_event (concat (map (path_event c old new) qs)) m p =
    (if p \<in> set qs then patched c (map_of old p) (map_of new p) else m p)"
  using assms
proof (induction qs arbitrary: m)
  case (Cons q qs)
  let ?m = "m(q := patched c (map_of old q) (map_of new q))"
  have "fold apply_event (path_event c old new q) m = ?m"
    using Cons.prems by (intro apply_path_event) simp
  moreover have "fold apply_event (concat (map (path_event c old new) qs)) ?m p =
      (if p \<in> set qs then patched c (map_of old p) (map_of new p) else ?m p)"
    using Cons.prems by (intro Cons.IH) auto
  ultimately show ?case using Cons.prems(1) by auto
qed simp

lemma diff_snapshots_paths:
  assumes "wf_snapshot s" and "wf_snapshot t"
  shows "diff_snapshots c s t =
    concat (map (path_event c (snapshot_entries s) (snapshot_entries t))
      (all_paths (snapshot_entries s) (snapshot_entries t)))"
  using diff_from_spec [of "snapshot_entries s" "snapshot_entries t" c] assms
  by (simp add: diff_snapshots_def snapshot_entries_def)

lemma diff_patches:
  assumes "wf_snapshot s" and "wf_snapshot t"
  shows "fold apply_event (diff_snapshots c s t) (map_of (snapshot_entries s)) p =
    patched c (map_of (snapshot_entries s) p) (map_of (snapshot_entries t) p)"
proof -
  let ?ps = "all_paths (snapshot_entries s) (snapshot_entries t)"
  have "distinct ?ps" by (simp add: all_paths_def del: sorted_list_of_set_insert_remove)
  then have "fold apply_event (diff_snapshots c s t) (map_of (snapshot_entries s)) p =
      (if p \<in> set ?ps then patched c (map_of (snapshot_entries s) p) (map_of (snapshot_entries t) p)
       else map_of (snapshot_entries s) p)"
    unfolding diff_snapshots_paths [OF assms] by (rule apply_path_events) simp
  moreover have "map_of (snapshot_entries s) p = None" "map_of (snapshot_entries t) p = None"
    if "p \<notin> set ?ps"
    using that by (auto simp add: map_of_eq_None_iff)
  ultimately show ?thesis by (simp add: patched_def)
qed

section \<open>Property\<close>

lemma diff_snapshots_facts:
  assumes "wf_snapshot s" and "wf_snapshot t"
  shows "diff_snapshots c s t =
      concat (map (path_event c (snapshot_entries s) (snapshot_entries t))
        (all_paths (snapshot_entries s) (snapshot_entries t)))"
    and "rel_option (\<lambda>m n. metadata_equals m n c)
      (fold apply_event (diff_snapshots c s t) (map_of (snapshot_entries s)) p)
      (map_of (snapshot_entries t) p)"
    and "\<forall>m \<in> set (metadata s) \<union> set (metadata t). wf_metadata m \<Longrightarrow>
      fold apply_event (diff_snapshots True s t) (map_of (snapshot_entries s)) p =
        map_of (snapshot_entries t) p"
proof -
  show "diff_snapshots c s t =
      concat (map (path_event c (snapshot_entries s) (snapshot_entries t))
        (all_paths (snapshot_entries s) (snapshot_entries t)))"
    by (rule diff_snapshots_paths [OF assms])
  show "rel_option (\<lambda>m n. metadata_equals m n c)
      (fold apply_event (diff_snapshots c s t) (map_of (snapshot_entries s)) p)
      (map_of (snapshot_entries t) p)"
    unfolding diff_patches [OF assms]
    by (cases "map_of (snapshot_entries t) p")
      (auto simp add: patched_def option.rel_sel split: option.splits)
next
  assume "\<forall>m \<in> set (metadata s) \<union> set (metadata t). wf_metadata m"
  then have "wf_metadata m"
    if "map_of (snapshot_entries s) p = Some m \<or> map_of (snapshot_entries t) p = Some m" for m
    using that by (auto simp add: snapshot_entries_def dest!: map_of_SomeD set_zip_rightD)
  then show "fold apply_event (diff_snapshots True s t) (map_of (snapshot_entries s)) p =
      map_of (snapshot_entries t) p"
    unfolding diff_patches [OF assms]
    by (auto simp add: patched_def metadata_equals_wf split: option.splits)
qed

text \<open>C23: The diff of two snapshots is exact. Its events are those of the single paths in ascending
  order, for each path that is in a snapshot at most one: removed, added, or modified when the
  metadata differ (the access time only counts on request). They describe the whole change:
  applied to the old tree they give a tree with the same paths as the new one and metadata that
  compare as equal, with access times compared, exactly the new one.\<close>
theorem diff_snapshots_exact:
  assumes "wf_snapshot s" and "wf_snapshot t"
  shows "diff_snapshots c s t =
      concat (map (path_event c (snapshot_entries s) (snapshot_entries t))
        (all_paths (snapshot_entries s) (snapshot_entries t))) \<and>
    rel_option (\<lambda>m n. metadata_equals m n c)
      (fold apply_event (diff_snapshots c s t) (map_of (snapshot_entries s)) p)
      (map_of (snapshot_entries t) p) \<and>
    ((\<forall>m \<in> set (metadata s) \<union> set (metadata t). wf_metadata m) \<longrightarrow>
      fold apply_event (diff_snapshots True s t) (map_of (snapshot_entries s)) p =
        map_of (snapshot_entries t) p)"
  using diff_snapshots_facts [OF assms] by blast

definition sample_prune :: prune_config where
  "sample_prune = \<lparr>prune_bind_mounts = False, prunefs = [], prunenames = [], prunepaths = []\<rparr>"

definition sample_snapshot :: "(string \<times> u64) list \<Rightarrow> snapshot" where
  "sample_snapshot es =
     \<lparr>paths = map (str \<circ> fst) es, metadata = map (\<lambda>e. no_metadata\<lparr>enabled := True, fsize := snd e\<rparr>) es,
      hash_kind_of = HashNone, prune = sample_prune, scan_root = str ''/''\<rparr>"

lemma all_paths_code: "all_paths old new = sort (remdups (map fst (old @ new)))"
  by (simp add: all_paths_def sorted_list_of_set_sort_remdups flip: image_Un set_append set_map map_append)

lemma diff_snapshots_exact_witness:
  "map (\<lambda>e. (ekind e, epath e)) (diff_snapshots False (sample_snapshot [(''/a'', 1), (''/b'', 2), (''/c'', 3)])
     (sample_snapshot [(''/a'', 1), (''/b'', 5), (''/d'', 4)])) =
   [(Modified, str ''/b''), (Removed, str ''/c''), (Added, str ''/d'')]"
proof -
  have "wf_snapshot (sample_snapshot [(''/a'', 1), (''/b'', 2), (''/c'', 3)])"
    "wf_snapshot (sample_snapshot [(''/a'', 1), (''/b'', 5), (''/d'', 4)])"
    by (simp_all add: sample_snapshot_def str_def)
  from diff_snapshots_exact [OF this, THEN conjunct1] show ?thesis
    by (simp only: all_paths_code)
      (simp add: sample_snapshot_def str_def snapshot_entries_def path_event_def metadata_equals_def)
qed

end
