(* ===== verification/Metadata_Hash.thy ===== *)
theory Metadata_Hash
  imports Metadata
begin

text \<open>
  The digests of \<open>src/metadata_hash.cpp\<close>: the streaming states of XXH64 and SHA-256, the builder
  over them, and the hashing of a file. The theorems compare them with the published algorithms.
\<close>

section \<open>Blocks of a stream\<close>

text \<open>The loops that consume whole blocks of \<open>B\<close> bytes; the rest stays.\<close>

function absorb :: "nat \<Rightarrow> (bytes \<Rightarrow> 's \<Rightarrow> 's) \<Rightarrow> 's \<Rightarrow> bytes \<Rightarrow> 's \<times> bytes" where
  "absorb B f s p = (if 0 < B \<and> B \<le> length p then absorb B f (f (take B p) s) (drop B p) else (s, p))"
  by pat_completeness auto
termination by (relation "measure (\<lambda>(B, f, s, p). length p)") auto

declare absorb.simps [simp del]

definition memcpy_at :: "bytes \<Rightarrow> nat \<Rightarrow> bytes \<Rightarrow> bytes" where
  "memcpy_at mem off data = take off mem @ data @ drop (off + length data) mem"

lemma absorb_append:
  "absorb B f s p = (s', r) \<Longrightarrow> absorb B f s (p @ q) = absorb B f s' (r @ q)"
proof (induction B f s p rule: absorb.induct)
  case (1 B f s p)
  show ?case
  proof (cases "0 < B \<and> B \<le> length p")
    case True
    then have "absorb B f s (p @ q) = absorb B f (f (take B p) s) (drop B p @ q)"
      by (subst absorb.simps) simp
    moreover have "absorb B f (f (take B p) s) (drop B p) = (s', r)"
      using 1(2) True by (simp add: absorb.simps [of B f s p])
    ultimately show ?thesis using 1(1) [OF True] by simp
  next
    case False
    with 1(2) show ?thesis by (auto simp add: absorb.simps [of B f s p])
  qed
qed

lemma absorb_rest: "absorb B f s p = (s', r) \<Longrightarrow> 0 < B \<Longrightarrow> length r = length p mod B"
proof (induction B f s p rule: absorb.induct)
  case (1 B f s p)
  then show ?case
    by (cases "B \<le> length p") (auto simp add: absorb.simps [of B f s p] le_mod_geq [symmetric])
qed

lemma absorb_block: "0 < B \<Longrightarrow> length b = B \<Longrightarrow> absorb B f s (b @ p) = absorb B f (f b s) p"
  by (subst absorb.simps) simp

lemma absorb_short: "length p < B \<Longrightarrow> absorb B f s p = (s, p)"
  by (subst absorb.simps) simp

section \<open>XXH64\<close>

definition Prime1 :: u64 where "Prime1 = 11400714785074694791"
definition Prime2 :: u64 where "Prime2 = 14029467366897019727"
definition Prime3 :: u64 where "Prime3 = 1609587929392839161"
definition Prime4 :: u64 where "Prime4 = 9650029242287828579"
definition Prime5 :: u64 where "Prime5 = 2870177450012600261"

definition rotl64 :: "u64 \<Rightarrow> nat \<Rightarrow> u64" where
  "rotl64 v bits = push_bit bits v OR drop_bit (64 - bits) v"

definition read64 :: "bytes \<Rightarrow> u64" where "read64 p = get_le 8 p"
definition read32 :: "bytes \<Rightarrow> u32" where "read32 p = get_le 4 p"

definition xxhash_round :: "u64 \<Rightarrow> u64 \<Rightarrow> u64" where
  "xxhash_round acc input = rotl64 (acc + input * Prime2) 31 * Prime1"

definition xxhash_merge_round :: "u64 \<Rightarrow> u64 \<Rightarrow> u64" where
  "xxhash_merge_round acc val = (acc XOR xxhash_round 0 val) * Prime1 + Prime4"

text \<open>The accumulators \<open>v1\<close> to \<open>v4\<close> are a tuple.\<close>

type_synonym xxh64_acc = "u64 \<times> u64 \<times> u64 \<times> u64"

record xxh64_state =
  xx_total_len :: u64
  xx_acc :: xxh64_acc
  xx_memsize :: nat
  xx_memory :: bytes

definition xxh64_reset :: "u64 \<Rightarrow> xxh64_state" where
  "xxh64_reset seed =
     \<lparr>xx_total_len = 0, xx_acc = (seed + Prime1 + Prime2, seed + Prime2, seed, seed - Prime1),
      xx_memsize = 0, xx_memory = replicate 32 0\<rparr>"

fun xxh64_stripe :: "bytes \<Rightarrow> xxh64_acc \<Rightarrow> xxh64_acc" where
  "xxh64_stripe p (v1, v2, v3, v4) =
     (xxhash_round v1 (read64 p), xxhash_round v2 (read64 (drop 8 p)),
      xxhash_round v3 (read64 (drop 16 p)), xxhash_round v4 (read64 (drop 24 p)))"

definition xxh64_consume :: "bytes \<Rightarrow> xxh64_state \<Rightarrow> xxh64_state" where
  "xxh64_consume data s =
     (let s = s\<lparr>xx_total_len := xx_total_len s + of_nat (length data)\<rparr>
      in if xx_memsize s + length data < 32 then
           s\<lparr>xx_memory := memcpy_at (xx_memory s) (xx_memsize s) data,
             xx_memsize := xx_memsize s + length data\<rparr>
         else
           let (s, p) =
                 (if 0 < xx_memsize s then
                    let fill = 32 - xx_memsize s;
                        mem = memcpy_at (xx_memory s) (xx_memsize s) (take fill data)
                    in (s\<lparr>xx_memory := mem, xx_acc := xxh64_stripe mem (xx_acc s), xx_memsize := 0\<rparr>,
                        drop fill data)
                  else (s, data));
               (acc, p) = absorb 32 xxh64_stripe (xx_acc s) p
           in s\<lparr>xx_acc := acc, xx_memory := memcpy_at (xx_memory s) 0 p, xx_memsize := length p\<rparr>)"

function xxh64_words :: "u64 \<Rightarrow> bytes \<Rightarrow> u64 \<times> bytes" where
  "xxh64_words h p =
     (if 8 \<le> length p then
        let h = h XOR rotl64 (read64 p * Prime2) 31 * Prime1
        in xxh64_words (h * Prime1 + Prime4) (drop 8 p)
      else (h, p))"
  by pat_completeness auto
termination by (relation "measure (\<lambda>(h, p). length p)") auto

declare xxh64_words.simps [simp del]

definition xxh64_half_word :: "u64 \<Rightarrow> bytes \<Rightarrow> u64 \<times> bytes" where
  "xxh64_half_word h p =
     (if 4 \<le> length p then
        (rotl64 (h XOR ucast (read32 p) * Prime1) 23 * Prime2 + Prime3, drop 4 p)
      else (h, p))"

fun xxh64_bytes :: "u64 \<Rightarrow> bytes \<Rightarrow> u64" where
  "xxh64_bytes h [] = h"
| "xxh64_bytes h (b # p) = xxh64_bytes (rotl64 (h XOR ucast b * Prime5) 11 * Prime1) p"

definition xxh64_avalanche :: "u64 \<Rightarrow> u64" where
  "xxh64_avalanche h =
     (let h = h XOR drop_bit 33 h;
          h = h * Prime2;
          h = h XOR drop_bit 29 h;
          h = h * Prime3
      in h XOR drop_bit 32 h)"

fun xxh64_converge :: "xxh64_acc \<Rightarrow> u64" where
  "xxh64_converge (v1, v2, v3, v4) =
     (let h = rotl64 v1 1 + rotl64 v2 7 + rotl64 v3 12 + rotl64 v4 18
      in xxhash_merge_round (xxhash_merge_round (xxhash_merge_round (xxhash_merge_round h v1) v2) v3) v4)"

definition xxh64_digest :: "xxh64_state \<Rightarrow> u64" where
  "xxh64_digest s =
     (let h = (if 32 \<le> xx_total_len s then xxh64_converge (xx_acc s) else Prime5);
          h = h + xx_total_len s;
          (h, p) = xxh64_words h (take (xx_memsize s) (xx_memory s));
          (h, p) = xxh64_half_word h p
      in xxh64_avalanche (xxh64_bytes h p))"

section \<open>SHA-256\<close>

definition rotr32 :: "u32 \<Rightarrow> nat \<Rightarrow> u32" where
  "rotr32 v bits = drop_bit bits v OR push_bit (32 - bits) v"

definition sha256_k :: "u32 list" where
  "sha256_k =
     [0x428a2f98, 0x71374491, 0xb5c0fbcf, 0xe9b5dba5, 0x3956c25b, 0x59f111f1, 0x923f82a4, 0xab1c5ed5] @
     [0xd807aa98, 0x12835b01, 0x243185be, 0x550c7dc3, 0x72be5d74, 0x80deb1fe, 0x9bdc06a7, 0xc19bf174] @
     [0xe49b69c1, 0xefbe4786, 0x0fc19dc6, 0x240ca1cc, 0x2de92c6f, 0x4a7484aa, 0x5cb0a9dc, 0x76f988da] @
     [0x983e5152, 0xa831c66d, 0xb00327c8, 0xbf597fc7, 0xc6e00bf3, 0xd5a79147, 0x06ca6351, 0x14292967] @
     [0x27b70a85, 0x2e1b2138, 0x4d2c6dfc, 0x53380d13, 0x650a7354, 0x766a0abb, 0x81c2c92e, 0x92722c85] @
     [0xa2bfe8a1, 0xa81a664b, 0xc24b8b70, 0xc76c51a3, 0xd192e819, 0xd6990624, 0xf40e3585, 0x106aa070] @
     [0x19a4c116, 0x1e376c08, 0x2748774c, 0x34b0bcb5, 0x391c0cb3, 0x4ed8aa4a, 0x5b9cca4f, 0x682e6ff3] @
     [0x748f82ee, 0x78a5636f, 0x84c87814, 0x8cc70208, 0x90befffa, 0xa4506ceb, 0xbef9a3f7, 0xc67178f2]"

type_synonym sha256_regs = "u32 \<times> u32 \<times> u32 \<times> u32 \<times> u32 \<times> u32 \<times> u32 \<times> u32"

record sha256_state =
  sha_h :: sha256_regs
  sha_total_len :: u64
  sha_buffer_len :: nat
  sha_buffer :: bytes

definition initial_h :: sha256_regs where
  "initial_h = (0x6a09e667, 0xbb67ae85, 0x3c6ef372, 0xa54ff53a, 0x510e527f, 0x9b05688c, 0x1f83d9ab, 0x5be0cd19)"

text \<open>The buffer is not initialised: any bytes.\<close>

definition sha256_reset :: "bytes \<Rightarrow> sha256_state" where
  "sha256_reset garbage = \<lparr>sha_h = initial_h, sha_total_len = 0, sha_buffer_len = 0, sha_buffer = garbage\<rparr>"

definition block_word :: "bytes \<Rightarrow> nat \<Rightarrow> u32" where
  "block_word block i =
     push_bit 24 (ucast (block ! (i * 4))) OR push_bit 16 (ucast (block ! (i * 4 + 1))) OR
     push_bit 8 (ucast (block ! (i * 4 + 2))) OR ucast (block ! (i * 4 + 3))"

fun extend_schedule :: "nat \<Rightarrow> u32 list \<Rightarrow> u32 list" where
  "extend_schedule 0 w = w"
| "extend_schedule (Suc n) w =
     (let i = length w;
          s0 = rotr32 (w ! (i - 15)) 7 XOR rotr32 (w ! (i - 15)) 18 XOR drop_bit 3 (w ! (i - 15));
          s1 = rotr32 (w ! (i - 2)) 17 XOR rotr32 (w ! (i - 2)) 19 XOR drop_bit 10 (w ! (i - 2))
      in extend_schedule n (w @ [w ! (i - 16) + s0 + w ! (i - 7) + s1]))"

fun sha256_round :: "u32 \<times> u32 \<Rightarrow> sha256_regs \<Rightarrow> sha256_regs" where
  "sha256_round (k, w) (a, b, c, d, e, f, g, hval) =
     (let s1 = rotr32 e 6 XOR rotr32 e 11 XOR rotr32 e 25;
          ch = (e AND f) XOR (NOT e AND g);
          temp1 = hval + s1 + ch + k + w;
          s0 = rotr32 a 2 XOR rotr32 a 13 XOR rotr32 a 22;
          maj = (a AND b) XOR (a AND c) XOR (b AND c);
          temp2 = s0 + maj
      in (temp1 + temp2, a, b, c, d + temp1, e, f, g))"

fun add_regs :: "sha256_regs \<Rightarrow> sha256_regs \<Rightarrow> sha256_regs" where
  "add_regs (a, b, c, d, e, f, g, h) (a', b', c', d', e', f', g', h') =
     (a + a', b + b', c + c', d + d', e + e', f + f', g + g', h + h')"

definition process_block :: "bytes \<Rightarrow> sha256_regs \<Rightarrow> sha256_regs" where
  "process_block block h =
     (let w = extend_schedule 48 (map (block_word block) [0..<16])
      in add_regs h (fold sha256_round (zip sha256_k w) h))"

definition sha256_consume :: "bytes \<Rightarrow> sha256_state \<Rightarrow> sha256_state" where
  "sha256_consume data s =
     (let s = s\<lparr>sha_total_len := sha_total_len s + of_nat (length data)\<rparr>;
          (s, p) =
            (if 0 < sha_buffer_len s then
               let fill = min (64 - sha_buffer_len s) (length data);
                   buf = memcpy_at (sha_buffer s) (sha_buffer_len s) (take fill data);
                   n = sha_buffer_len s + fill
               in (if n = 64 then s\<lparr>sha_buffer := buf, sha_h := process_block buf (sha_h s), sha_buffer_len := 0\<rparr>
                   else s\<lparr>sha_buffer := buf, sha_buffer_len := n\<rparr>, drop fill data)
             else (s, data));
          (h, p) = absorb 64 process_block (sha_h s) p;
          s = s\<lparr>sha_h := h\<rparr>
      in if p \<noteq> [] then s\<lparr>sha_buffer := memcpy_at (sha_buffer s) 0 p, sha_buffer_len := length p\<rparr> else s)"

definition sha256_push :: "byte \<Rightarrow> sha256_state \<Rightarrow> sha256_state" where
  "sha256_push b s = s\<lparr>sha_buffer := (sha_buffer s)[sha_buffer_len s := b], sha_buffer_len := sha_buffer_len s + 1\<rparr>"

function zeros_until :: "nat \<Rightarrow> sha256_state \<Rightarrow> sha256_state" where
  "zeros_until n s = (if sha_buffer_len s < n then zeros_until n (sha256_push 0 s) else s)"
  by pat_completeness auto
termination by (relation "measure (\<lambda>(n, s). n - sha_buffer_len s)") (auto simp add: sha256_push_def)

declare zeros_until.simps [simp del]

definition word_bytes :: "u32 \<Rightarrow> bytes" where
  "word_bytes h = [ucast (drop_bit 24 h), ucast (drop_bit 16 h), ucast (drop_bit 8 h), ucast h]"

definition sha256_finalize :: "sha256_state \<Rightarrow> bytes" where
  "sha256_finalize s =
     (let bit_len = sha_total_len s * 8;
          s = sha256_push 0x80 s;
          s = (if 56 < sha_buffer_len s then
                 let s = zeros_until 64 s
                 in s\<lparr>sha_h := process_block (sha_buffer s) (sha_h s), sha_buffer_len := 0\<rparr>
               else s);
          s = zeros_until 56 s;
          s = fold (\<lambda>i. sha256_push (ucast (drop_bit (i * 8) bit_len AND 0xff))) (rev [0..<8]) s;
          (a, b, c, d, e, f, g, h) = process_block (sha_buffer s) (sha_h s)
      in concat (map word_bytes [a, b, c, d, e, f, g, h]))"

section \<open>The builder and the files\<close>

record metadata_hash_builder =
  builder_kind :: hash_kind
  finished :: bool
  xxh_state :: xxh64_state
  sha_state :: sha256_state

definition new_metadata_hash_builder :: "bytes \<Rightarrow> hash_kind \<Rightarrow> metadata_hash_builder" where
  "new_metadata_hash_builder garbage k =
     \<lparr>builder_kind = k, finished = False, xxh_state = xxh64_reset 0, sha_state = sha256_reset garbage\<rparr>"

definition hash_update :: "bytes \<Rightarrow> metadata_hash_builder \<Rightarrow> metadata_hash_builder" where
  "hash_update data b =
     (if finished b \<or> builder_kind b = HashNone \<or> data = [] then b
      else if builder_kind b = XxHash64 then b\<lparr>xxh_state := xxh64_consume data (xxh_state b)\<rparr>
      else if builder_kind b = Sha256 then b\<lparr>sha_state := sha256_consume data (sha_state b)\<rparr>
      else b)"

definition finalize_xxh64 :: "metadata_hash_builder \<Rightarrow> metadata_hash" where
  "finalize_xxh64 b =
     (let value = xxh64_digest (xxh_state b)
      in \<lparr>kind = XxHash64,
          hvalue = map (\<lambda>i. ucast (drop_bit (56 - 8 * i) value)) [0..<8] @ drop 8 (hvalue no_hash),
          hlength = 8\<rparr>)"

definition finalize_sha256 :: "metadata_hash_builder \<Rightarrow> metadata_hash" where
  "finalize_sha256 b = \<lparr>kind = Sha256, hvalue = sha256_finalize (sha_state b), hlength = 32\<rparr>"

definition hash_finalize :: "metadata_hash_builder \<Rightarrow> metadata_hash" where
  "hash_finalize b =
     (if builder_kind b = XxHash64 then finalize_xxh64 b
      else if builder_kind b = Sha256 then finalize_sha256 b
      else no_hash)"

text \<open>
  What the kernel answers is a parameter: how the two attempts to open the file end, whether it is
  a regular file, the results of \<open>read\<close> up to the empty one at its end, and that of \<open>close\<close>.
\<close>

datatype open_result = Opened | Open_not_permitted | Open_failed

datatype read_chunk = Chunk bytes | Read_error

fun hash_chunks :: "read_chunk list \<Rightarrow> metadata_hash_builder \<Rightarrow> metadata_hash_builder option" where
  "hash_chunks [] b = None"
| "hash_chunks (Read_error # cs) b = None"
| "hash_chunks (Chunk bs # cs) b = (if bs = [] then Some b else hash_chunks cs (hash_update bs b))"

definition compute_file_hash_at ::
    "bytes \<Rightarrow> hash_kind \<Rightarrow> open_result \<Rightarrow> open_result \<Rightarrow> bool \<Rightarrow> read_chunk list \<Rightarrow> bool \<Rightarrow> metadata_hash option" where
  "compute_file_hash_at garbage k open_noatime open_again regular cs closes =
     (if k = HashNone then Some no_hash
      else
        let fd = (if open_noatime = Open_not_permitted then open_again else open_noatime)
        in if fd \<noteq> Opened then None
           else if \<not> regular then None
           else
             case hash_chunks cs (new_metadata_hash_builder garbage k) of
               None \<Rightarrow> None
             | Some b \<Rightarrow> if \<not> closes then None else Some (hash_finalize b))"

definition denied_fs_magic :: "u64 list" where
  "denied_fs_magic =
     [0x9fa0, 0x62656572, 0x64626720, 0x74726163, 0x73636673, 0x27e0eb, 0x63677270, 0x1cd1, 0x6165676c,
      0xde5e81e4, 0x62656570, 0x65735543, 0xcafe4a11, 0x42494e4d, 0x19800202, 0x958458f6, 0x67596969,
      0x6e736673, 0xf97cff8c, 0x43415d53, 0x0187]"

text \<open>The argument is the magic number that \<open>fstatfs\<close> gives, None when it fails.\<close>

definition fs_allows_hashing :: "u64 option \<Rightarrow> bool" where
  "fs_allows_hashing magic =
     (case magic of None \<Rightarrow> True | Some f \<Rightarrow> \<not> list_ex (\<lambda>denied. f = denied) denied_fs_magic)"

section \<open>The published algorithms\<close>

text \<open>XXH64 with seed 0, after its specification.\<close>

function xxh64_spec_words :: "u64 \<Rightarrow> bytes \<Rightarrow> u64 \<times> bytes" where
  "xxh64_spec_words acc p =
     (if 8 \<le> length p then
        xxh64_spec_words (rotl64 (acc XOR xxhash_round 0 (read64 p)) 27 * Prime1 + Prime4) (drop 8 p)
      else (acc, p))"
  by pat_completeness auto
termination by (relation "measure (\<lambda>(h, p). length p)") auto

declare xxh64_spec_words.simps [simp del]

definition xxh64_spec :: "bytes \<Rightarrow> u64" where
  "xxh64_spec data =
     (let (acc, rest) = absorb 32 xxh64_stripe (Prime1 + Prime2, Prime2, 0, - Prime1) data;
          h = (if length data < 32 then Prime5 else xxh64_converge acc) + of_nat (length data);
          (h, rest) = xxh64_spec_words h rest;
          (h, rest) = xxh64_half_word h rest
      in xxh64_avalanche (xxh64_bytes h rest))"

text \<open>SHA-256 after FIPS 180-4: the padded message, the message schedule \<open>W\<close>, the compression.\<close>

definition big_endian_64 :: "u64 \<Rightarrow> bytes" where
  "big_endian_64 n = map (\<lambda>i. ucast (drop_bit (8 * i) n)) (rev [0..<8])"

definition sha256_pad :: "bytes \<Rightarrow> bytes" where
  "sha256_pad data =
     data @ [0x80] @ replicate ((119 - length data mod 64) mod 64) 0 @ big_endian_64 (of_nat (8 * length data))"

definition sigma0 :: "u32 \<Rightarrow> u32" where "sigma0 x = rotr32 x 7 XOR rotr32 x 18 XOR drop_bit 3 x"
definition sigma1 :: "u32 \<Rightarrow> u32" where "sigma1 x = rotr32 x 17 XOR rotr32 x 19 XOR drop_bit 10 x"

fun fips_W :: "bytes \<Rightarrow> nat \<Rightarrow> u32" where
  "fips_W M t =
     (if t < 16 then block_word M t
      else sigma1 (fips_W M (t - 2)) + fips_W M (t - 7) + sigma0 (fips_W M (t - 15)) + fips_W M (t - 16))"

definition fips_Ch :: "u32 \<Rightarrow> u32 \<Rightarrow> u32 \<Rightarrow> u32" where "fips_Ch x y z = (x AND y) XOR (NOT x AND z)"
definition fips_Maj :: "u32 \<Rightarrow> u32 \<Rightarrow> u32 \<Rightarrow> u32" where "fips_Maj x y z = (x AND y) XOR (x AND z) XOR (y AND z)"
definition Sigma0 :: "u32 \<Rightarrow> u32" where "Sigma0 x = rotr32 x 2 XOR rotr32 x 13 XOR rotr32 x 22"
definition Sigma1 :: "u32 \<Rightarrow> u32" where "Sigma1 x = rotr32 x 6 XOR rotr32 x 11 XOR rotr32 x 25"

fun fips_rounds :: "bytes \<Rightarrow> nat \<Rightarrow> sha256_regs \<Rightarrow> sha256_regs" where
  "fips_rounds M 0 r = r"
| "fips_rounds M (Suc t) r =
     (case fips_rounds M t r of
        (a, b, c, d, e, f, g, h) \<Rightarrow>
          let T1 = h + Sigma1 e + fips_Ch e f g + sha256_k ! t + fips_W M t;
              T2 = Sigma0 a + fips_Maj a b c
          in (T1 + T2, a, b, c, d + T1, e, f, g))"

definition fips_compress :: "bytes \<Rightarrow> sha256_regs \<Rightarrow> sha256_regs" where
  "fips_compress M H = add_regs H (fips_rounds M 64 H)"

definition sha256_spec :: "bytes \<Rightarrow> bytes" where
  "sha256_spec data =
     (case fst (absorb 64 fips_compress initial_h (sha256_pad data)) of
        (a, b, c, d, e, f, g, h) \<Rightarrow> concat (map word_bytes [a, b, c, d, e, f, g, h]))"

section \<open>XXH64 is independent of the chunks\<close>

definition xxh64_holds :: "bytes \<Rightarrow> xxh64_state \<Rightarrow> bool" where
  "xxh64_holds data s \<longleftrightarrow>
     absorb 32 xxh64_stripe (xx_acc (xxh64_reset 0)) data = (xx_acc s, take (xx_memsize s) (xx_memory s)) \<and>
     length (xx_memory s) = 32 \<and> xx_memsize s < 32 \<and> xx_total_len s = of_nat (length data)"

lemma length_memcpy_at [simp]:
  "off + length data \<le> length mem \<Longrightarrow> length (memcpy_at mem off data) = length mem"
  by (simp add: memcpy_at_def)

lemma take_memcpy_at [simp]:
  "off + length data \<le> length mem \<Longrightarrow> n = off + length data \<Longrightarrow>
   take n (memcpy_at mem off data) = take off mem @ data"
  by (simp add: memcpy_at_def)

lemma xxh64_holds_reset: "xxh64_holds [] (xxh64_reset 0)"
  by (simp add: xxh64_holds_def xxh64_reset_def absorb_short)

lemma xxh64_consume_holds:
  assumes "xxh64_holds data s"
  shows "xxh64_holds (data @ chunk) (xxh64_consume chunk s)"
proof -
  let ?acc = "xx_acc s" and ?rest = "take (xx_memsize s) (xx_memory s)"
  have len: "length (xx_memory s) = 32" "xx_memsize s < 32" "xx_total_len s = of_nat (length data)"
    using assms by (simp_all add: xxh64_holds_def)
  have all: "absorb 32 xxh64_stripe (xx_acc (xxh64_reset 0)) (data @ chunk) = absorb 32 xxh64_stripe ?acc (?rest @ chunk)"
    using assms by (intro absorb_append) (simp add: xxh64_holds_def)
  show ?thesis
  proof (cases "xx_memsize s + length chunk < 32")
    case True
    with len show ?thesis
      by (simp add: xxh64_holds_def xxh64_consume_def Let_def all absorb_short)
  next
    case False
    define fill where "fill = 32 - xx_memsize s"
    define acc p where "acc = (if 0 < xx_memsize s then xxh64_stripe (?rest @ take fill chunk) ?acc else ?acc)"
      and "p = (if 0 < xx_memsize s then drop fill chunk else chunk)"
    have fill: "fill \<le> length chunk" "xx_memsize s + fill = 32" using False len by (simp_all add: fill_def)
    have mem: "memcpy_at (xx_memory s) (xx_memsize s) (take fill chunk) = ?rest @ take fill chunk"
      using fill len(1) by (simp add: memcpy_at_def)
    obtain acc' r where r: "absorb 32 xxh64_stripe acc p = (acc', r)" by (cases "absorb 32 xxh64_stripe acc p")
    have "absorb 32 xxh64_stripe ?acc (?rest @ chunk) = absorb 32 xxh64_stripe acc p"
    proof (cases "0 < xx_memsize s")
      case True
      have "?rest @ chunk = (?rest @ take fill chunk) @ drop fill chunk" by simp
      with True show ?thesis
        using absorb_block [of 32 "?rest @ take fill chunk" xxh64_stripe ?acc "drop fill chunk"] fill len(1)
        by (simp add: acc_def p_def)
    qed (simp add: acc_def p_def)
    moreover have "length r < 32" using absorb_rest [OF r] by simp
    moreover have "xxh64_consume chunk s =
        s\<lparr>xx_total_len := xx_total_len s + of_nat (length chunk), xx_acc := acc',
          xx_memory := memcpy_at (if 0 < xx_memsize s then ?rest @ take fill chunk else xx_memory s) 0 r,
          xx_memsize := length r\<rparr>"
      using False r mem by (simp add: xxh64_consume_def Let_def acc_def p_def fill_def split: if_splits)
    ultimately show ?thesis using len fill r by (simp add: xxh64_holds_def all)
  qed
qed

lemma xxh64_chunks_hold: "xxh64_holds data s \<Longrightarrow> xxh64_holds (data @ concat cs) (fold xxh64_consume cs s)"
proof (induction cs arbitrary: data s)
  case (Cons c cs)
  from Cons.IH [OF xxh64_consume_holds [OF Cons.prems, of c]] show ?case by simp
qed simp

lemma xxh64_words_short: "length p < 8 \<Longrightarrow> xxh64_words h p = xxh64_spec_words h p"
  by (simp add: xxh64_words.simps xxh64_spec_words.simps)

text \<open>The digest is that of the specification when the bytes behind the last stripe hold no word.\<close>

lemma xxh64_digest_spec:
  assumes "xxh64_holds data s" and "length data mod 32 < 8" and "length data < 2 ^ 64"
  shows "xxh64_digest s = xxh64_spec data"
proof -
  have a: "absorb 32 xxh64_stripe (Prime1 + Prime2, Prime2, 0, - Prime1) data =
      (xx_acc s, take (xx_memsize s) (xx_memory s))"
    using assms(1) by (simp add: xxh64_holds_def xxh64_reset_def)
  have "length (take (xx_memsize s) (xx_memory s)) < 8" using absorb_rest [OF a] assms(2) by simp
  moreover have "32 \<le> xx_total_len s \<longleftrightarrow> \<not> length data < 32"
    using assms(1,3) by (simp add: xxh64_holds_def word_le_nat_alt unat_of_nat_small not_less)
  ultimately show ?thesis
    using assms(1)
    by (simp add: xxh64_digest_def xxh64_spec_def a xxh64_words_short Let_def xxh64_holds_def)
qed

section \<open>SHA-256 is the published algorithm\<close>

declare fips_W.simps [simp del]

lemma extend_schedule_fips:
  "16 \<le> length w \<Longrightarrow> w = map (fips_W M) [0..<length w] \<Longrightarrow>
   extend_schedule n w = map (fips_W M) [0..<length w + n]"
proof (induction n arbitrary: w)
  case (Suc n)
  let ?i = "length w"
  have at: "w ! (?i - k) = fips_W M (?i - k)" if "0 < k" "k \<le> 16" for k
    using arg_cong [OF Suc.prems(2), of "\<lambda>l. l ! (?i - k)"] Suc.prems(1) that by simp
  have "fips_W M ?i = w ! (?i - 16) + sigma0 (w ! (?i - 15)) + w ! (?i - 7) + sigma1 (w ! (?i - 2))"
    using Suc.prems(1) by (simp add: at fips_W.simps [of M ?i])
  then have e: "extend_schedule (Suc n) w = extend_schedule n (w @ [fips_W M ?i])"
    by (simp add: Let_def sigma0_def sigma1_def)
  have "w @ [fips_W M ?i] = map (fips_W M) [0..<Suc ?i]" using Suc.prems(2) by simp
  then show ?case unfolding e using Suc.IH [of "w @ [fips_W M ?i]"] Suc.prems(1) by simp
qed simp

lemma fips_rounds_fold:
  "n \<le> 64 \<Longrightarrow> fold sha256_round (zip (take n sha256_k) (map (fips_W M) [0..<n])) r = fips_rounds M n r"
proof (induction n)
  case (Suc n)
  have "length sha256_k = 64" by (simp add: sha256_k_def)
  then have "zip (take (Suc n) sha256_k) (map (fips_W M) [0..<Suc n]) =
      zip (take n sha256_k) (map (fips_W M) [0..<n]) @ [(sha256_k ! n, fips_W M n)]"
    using Suc.prems by (simp add: take_Suc_conv_app_nth)
  with Suc show ?case
    by (simp add: fips_Ch_def fips_Maj_def Sigma0_def Sigma1_def Let_def split: prod.splits)
qed simp

lemma fips_W_block: "t < 16 \<Longrightarrow> fips_W M t = block_word M t"
  by (simp add: fips_W.simps [of M t])

lemma process_block_fips: "process_block = fips_compress"
proof (intro ext)
  fix M r
  have k: "take 64 sha256_k = sha256_k" by (simp add: sha256_k_def)
  have "map (block_word M) [0..<16] = map (fips_W M) [0..<16]"
    by (rule map_cong [OF refl]) (simp add: fips_W_block)
  then have "extend_schedule 48 (map (block_word M) [0..<16]) = map (fips_W M) [0..<64]"
    using extend_schedule_fips [of "map (block_word M) [0..<16]" M 48] by simp
  then show "process_block M r = fips_compress M r"
    using fips_rounds_fold [of 64 M r] k by (simp add: process_block_def fips_compress_def)
qed

definition sha256_holds :: "bytes \<Rightarrow> sha256_state \<Rightarrow> bool" where
  "sha256_holds data s \<longleftrightarrow>
     absorb 64 process_block initial_h data = (sha_h s, take (sha_buffer_len s) (sha_buffer s)) \<and>
     length (sha_buffer s) = 64 \<and> sha_buffer_len s < 64 \<and> sha_total_len s = of_nat (length data)"

lemma sha256_holds_reset: "length garbage = 64 \<Longrightarrow> sha256_holds [] (sha256_reset garbage)"
  by (simp add: sha256_holds_def sha256_reset_def absorb_short)

lemma sha256_consume_holds:
  assumes "sha256_holds data s"
  shows "sha256_holds (data @ chunk) (sha256_consume chunk s)"
proof -
  let ?h = "sha_h s" and ?rest = "take (sha_buffer_len s) (sha_buffer s)"
  have len: "length (sha_buffer s) = 64" "sha_buffer_len s < 64" "sha_total_len s = of_nat (length data)"
    using assms by (simp_all add: sha256_holds_def)
  have all: "absorb 64 process_block initial_h (data @ chunk) = absorb 64 process_block ?h (?rest @ chunk)"
    using assms by (intro absorb_append) (simp add: sha256_holds_def)
  show ?thesis
  proof (cases "0 < sha_buffer_len s \<and> sha_buffer_len s + length chunk < 64")
    case True
    then have "min (64 - sha_buffer_len s) (length chunk) = length chunk" by linarith
    with True len show ?thesis
      by (simp add: sha256_holds_def sha256_consume_def Let_def all absorb_short)
  next
    case False
    define fill where "fill = 64 - sha_buffer_len s"
    define h p where "h = (if 0 < sha_buffer_len s then process_block (?rest @ take fill chunk) ?h else ?h)"
      and "p = (if 0 < sha_buffer_len s then drop fill chunk else chunk)"
    have fill: "0 < sha_buffer_len s \<Longrightarrow> fill \<le> length chunk" "sha_buffer_len s + fill = 64"
      using False len by (auto simp add: fill_def)
    obtain h' r where r: "absorb 64 process_block h p = (h', r)" by (cases "absorb 64 process_block h p")
    have "absorb 64 process_block ?h (?rest @ chunk) = absorb 64 process_block h p"
    proof (cases "0 < sha_buffer_len s")
      case True
      have "?rest @ chunk = (?rest @ take fill chunk) @ drop fill chunk" by simp
      with True show ?thesis
        using absorb_block [of 64 "?rest @ take fill chunk" process_block ?h "drop fill chunk"] fill len(1)
        by (simp add: h_def p_def)
    qed (simp add: h_def p_def)
    moreover have "length r < 64" using absorb_rest [OF r] by simp
    moreover define buf where "buf = (if 0 < sha_buffer_len s then ?rest @ take fill chunk else sha_buffer s)"
    have "sha256_consume chunk s =
        s\<lparr>sha_total_len := sha_total_len s + of_nat (length chunk), sha_h := h',
          sha_buffer := (if r = [] then buf else memcpy_at buf 0 r), sha_buffer_len := length r\<rparr>"
    proof (cases "0 < sha_buffer_len s")
      case True
      have mem: "memcpy_at (sha_buffer s) (sha_buffer_len s) (take fill chunk) = ?rest @ take fill chunk"
        using fill True len(1) by (simp add: memcpy_at_def)
      have "min (64 - sha_buffer_len s) (length chunk) = fill" using fill True by (simp add: fill_def)
      with True r mem fill show ?thesis by (simp add: sha256_consume_def Let_def h_def p_def buf_def)
    next
      case n: False
      then have "s\<lparr>sha_buffer_len := 0\<rparr> = s" by simp
      with n r show ?thesis by (simp add: sha256_consume_def Let_def h_def p_def buf_def)
    qed
    moreover have "length buf = 64" using len fill by (simp add: buf_def)
    ultimately show ?thesis using len r by (simp add: sha256_holds_def all)
  qed
qed

lemma sha256_chunks_hold: "sha256_holds data s \<Longrightarrow> sha256_holds (data @ concat cs) (fold sha256_consume cs s)"
proof (induction cs arbitrary: data s)
  case (Cons c cs)
  from Cons.IH [OF sha256_consume_holds [OF Cons.prems, of c]] show ?case by simp
qed simp

text \<open>What pushing several bytes does.\<close>

lemma push_all:
  "sha_buffer_len s + length bs \<le> length (sha_buffer s) \<Longrightarrow>
   fold sha256_push bs s =
     s\<lparr>sha_buffer := memcpy_at (sha_buffer s) (sha_buffer_len s) bs, sha_buffer_len := sha_buffer_len s + length bs\<rparr>"
proof (induction bs arbitrary: s)
  case (Cons b bs)
  have "memcpy_at ((sha_buffer s)[sha_buffer_len s := b]) (Suc (sha_buffer_len s)) bs =
      memcpy_at (sha_buffer s) (sha_buffer_len s) (b # bs)"
    using Cons.prems by (simp add: memcpy_at_def take_Suc_conv_app_nth)
  with Cons show ?case by (simp add: sha256_push_def)
qed (simp add: memcpy_at_def)

lemma zeros_until_push: "zeros_until n s = fold sha256_push (replicate (n - sha_buffer_len s) 0) s"
proof (induction n s rule: zeros_until.induct)
  case (1 n s)
  show ?case
  proof (cases "sha_buffer_len s < n")
    case True
    then have "n - sha_buffer_len s = Suc (n - sha_buffer_len (sha256_push 0 s))" by (simp add: sha256_push_def)
    with 1 [OF True] True show ?thesis by (simp add: zeros_until.simps [of n s])
  qed (simp add: zeros_until.simps [of n s])
qed

lemma ucast_and_ff: "(ucast (x AND 0xff) :: byte) = ucast (x :: u64)"
proof (rule bit_word_eqI)
  have ff: "(0xff :: u64) = mask 8" by (simp add: mask_eq_exp_minus_1)
  fix n assume "n < LENGTH(8)"
  then show "bit (ucast (x AND 0xff) :: byte) n = bit (ucast x :: byte) n"
    by (simp add: ff bit_ucast_iff bit_and_iff bit_mask_iff)
qed

lemma sha256_length_pushes:
  "fold (\<lambda>i. sha256_push (ucast (drop_bit (i * 8) n AND 0xff))) (rev [0..<8]) s = fold sha256_push (big_endian_64 n) s"
  by (simp add: big_endian_64_def fold_map o_def ucast_and_ff mult.commute)

lemma length_big_endian_64 [simp]: "length (big_endian_64 n) = 8"
  by (simp add: big_endian_64_def)

lemma memcpy_full: "length mem = off + length data \<Longrightarrow> memcpy_at mem off data = take off mem @ data"
  by (simp add: memcpy_at_def)

lemma zeros_until_eq:
  assumes "n \<le> length (sha_buffer s)" and "sha_buffer_len s \<le> n"
  shows "zeros_until n s =
    s\<lparr>sha_buffer := memcpy_at (sha_buffer s) (sha_buffer_len s) (replicate (n - sha_buffer_len s) 0), sha_buffer_len := n\<rparr>"
  unfolding zeros_until_push
  by (subst push_all) (use assms in simp_all)

lemma sha256_finalize_spec:
  assumes "sha256_holds data s"
  shows "sha256_finalize s = sha256_spec data"
proof -
  define n rest bits where "n = sha_buffer_len s" and "rest = take n (sha_buffer s)"
    and "bits = big_endian_64 (of_nat (8 * length data))"
  have a: "absorb 64 process_block initial_h data = (sha_h s, rest)"
    and len: "length (sha_buffer s) = 64" "n < 64" "length rest = n"
    and bits: "sha_total_len s * 8 = of_nat (8 * length data)"
    using assms by (simp_all add: sha256_holds_def rest_def n_def mult.commute)
  have n: "length data mod 64 = n" using absorb_rest [OF a] len(3) by simp
  have spec: "absorb 64 process_block initial_h (sha256_pad data) =
      absorb 64 process_block (sha_h s) (rest @ [0x80] @ replicate ((119 - n) mod 64) 0 @ bits)"
    unfolding sha256_pad_def n bits_def using absorb_append [OF a] by simp
  have one: "absorb 64 process_block h b = (process_block b h, [])" if "length b = 64" for h b
    using absorb_block [OF _ that, of process_block h "[]"] by (simp add: absorb_short)
  define last where "last t = fold sha256_push bits (zeros_until 56 t)" for t
  have last: "sha_buffer (last t) = take (sha_buffer_len t) (sha_buffer t) @ replicate (56 - sha_buffer_len t) 0 @ bits"
    and last_h: "sha_h (last t) = sha_h t"
    if "length (sha_buffer t) = 64" "sha_buffer_len t \<le> 56" for t
    using that by (simp_all add: last_def zeros_until_eq push_all memcpy_at_def bits_def)
  have fin: "sha256_finalize s =
      (case fst (absorb 64 process_block initial_h (sha256_pad data)) of
        (a, b, c, d, e, f, g, h) \<Rightarrow> concat (map word_bytes [a, b, c, d, e, f, g, h]))"
  proof (cases "n \<le> 55")
    case True
    let ?t = "sha256_push 0x80 s"
    have t: "length (sha_buffer ?t) = 64" "sha_buffer_len ?t = Suc n" "sha_h ?t = sha_h s"
      "take (Suc n) (sha_buffer ?t) = rest @ [0x80]"
      using len by (simp_all add: sha256_push_def n_def rest_def take_Suc_conv_app_nth)
    have f: "sha256_finalize s = (case process_block (sha_buffer (last ?t)) (sha_h (last ?t)) of
        (a, b, c, d, e, f, g, h) \<Rightarrow> concat (map word_bytes [a, b, c, d, e, f, g, h]))"
      using True t(2) by (simp add: sha256_finalize_def Let_def sha256_length_pushes bits last_def bits_def)
    have "(119 - n) mod 64 = 55 - n" using True by (simp add: mod_if)
    with spec one [of "rest @ [0x80] @ replicate (55 - n) 0 @ bits" "sha_h s"] True len
    show ?thesis unfolding f using last [of ?t] last_h [of ?t] t by (simp add: bits_def)
  next
    case False
    let ?s1 = "zeros_until 64 (sha256_push 0x80 s)"
    let ?b = "rest @ [0x80] @ replicate (63 - n) 0"
    let ?t = "?s1\<lparr>sha_h := process_block ?b (sha_h s), sha_buffer_len := 0\<rparr>"
    have b: "sha_buffer ?s1 = ?b" "sha_h ?s1 = sha_h s"
      using len by (simp_all add: zeros_until_eq sha256_push_def memcpy_full rest_def n_def take_Suc_conv_app_nth)
    have f: "sha256_finalize s = (case process_block (sha_buffer (last ?t)) (sha_h (last ?t)) of
        (a, b, c, d, e, f, g, h) \<Rightarrow> concat (map word_bytes [a, b, c, d, e, f, g, h]))"
      using False b
      by (simp add: sha256_finalize_def Let_def sha256_length_pushes bits last_def bits_def)
        (simp add: sha256_push_def n_def [symmetric])
    have k: "(119 - n) mod 64 = (63 - n) + 56" using False len(2) by (simp add: mod_if)
    have "absorb 64 process_block (sha_h s) (rest @ [0x80] @ replicate ((119 - n) mod 64) 0 @ bits) =
        absorb 64 process_block (sha_h s) (?b @ replicate 56 0 @ bits)"
      unfolding k replicate_add by simp
    also have "\<dots> = absorb 64 process_block (process_block ?b (sha_h s)) (replicate 56 0 @ bits)"
      by (rule absorb_block) (use len in simp_all)
    also have "\<dots> = (process_block (replicate 56 0 @ bits) (process_block ?b (sha_h s)), [])"
      by (rule one) (simp add: bits_def)
    finally show ?thesis unfolding f spec using last [of ?t] last_h [of ?t] b len by simp
  qed
  then show ?thesis by (simp add: sha256_spec_def process_block_fips)
qed

section \<open>Hashing a file\<close>

definition big_endian_hash :: "u64 \<Rightarrow> bytes" where
  "big_endian_hash value = big_endian_64 value @ replicate 24 0"

lemma builder_kind_update [simp]:
  "builder_kind (hash_update c b) = builder_kind b" "finished (hash_update c b) = finished b"
  by (simp_all add: hash_update_def)

lemma hash_chunks_all:
  "[] \<notin> set cs \<Longrightarrow> hash_chunks (map Chunk cs @ [Chunk []]) b = Some (fold hash_update cs b)"
  by (induction cs arbitrary: b) auto

lemma update_xxh64_all:
  "builder_kind b = XxHash64 \<Longrightarrow> \<not> finished b \<Longrightarrow> [] \<notin> set cs \<Longrightarrow>
   fold hash_update cs b = b\<lparr>xxh_state := fold xxh64_consume cs (xxh_state b)\<rparr>"
  by (induction cs arbitrary: b) (auto simp add: hash_update_def)

lemma update_sha256_all:
  "builder_kind b = Sha256 \<Longrightarrow> \<not> finished b \<Longrightarrow> [] \<notin> set cs \<Longrightarrow>
   fold hash_update cs b = b\<lparr>sha_state := fold sha256_consume cs (sha_state b)\<rparr>"
  by (induction cs arbitrary: b) (auto simp add: hash_update_def)

lemma xxh64_digest_unique:
  assumes "xxh64_holds data s" and "xxh64_holds data t"
  shows "xxh64_digest s = xxh64_digest t"
  using assms by (simp add: xxh64_holds_def xxh64_digest_def)

lemma big_endian_value: "map (\<lambda>i. ucast (drop_bit (56 - 8 * i) value)) [0..<8] = big_endian_64 value"
  by (simp add: big_endian_64_def upt_rec)

abbreviation opens :: "open_result \<Rightarrow> open_result \<Rightarrow> bool" where
  "opens first again \<equiv> first = Opened \<or> first = Open_not_permitted \<and> again = Opened"

lemma compute_xxh64:
  assumes "opens o1 o2" and "[] \<notin> set cs"
  shows "compute_file_hash_at garbage XxHash64 o1 o2 True (map Chunk cs @ [Chunk []]) True =
    Some \<lparr>kind = XxHash64, hvalue = big_endian_hash (xxh64_digest (fold xxh64_consume cs (xxh64_reset 0))),
          hlength = 8\<rparr>"
  using assms
  by (auto simp add: compute_file_hash_at_def hash_chunks_all update_xxh64_all new_metadata_hash_builder_def
      hash_finalize_def finalize_xxh64_def Let_def big_endian_value big_endian_hash_def no_hash_def)

lemma compute_sha256:
  assumes "opens o1 o2" and "[] \<notin> set cs"
  shows "compute_file_hash_at garbage Sha256 o1 o2 True (map Chunk cs @ [Chunk []]) True =
    Some \<lparr>kind = Sha256, hvalue = sha256_finalize (fold sha256_consume cs (sha256_reset garbage)), hlength = 32\<rparr>"
  using assms
  by (auto simp add: compute_file_hash_at_def hash_chunks_all update_sha256_all new_metadata_hash_builder_def
      hash_finalize_def finalize_sha256_def)

text \<open>Files with a whole word behind the last stripe: the missing rotation.\<close>

lemma xxh64_not_published:
  "xxh64_digest (xxh64_consume (replicate 8 0) (xxh64_reset 0)) = 0x110597b137e48251"
  "xxh64_spec (replicate 8 0) = 0x34c96acdcadb1bbb"
proof -
  have z: "read64 (replicate 8 0) = 0"
    by (rule bit_word_eqI) (simp add: read64_def bit_get_le)
  have "xxh64_words h (replicate 8 0) = (h * Prime1 + Prime4, [])" for h
    by (simp add: xxh64_words.simps z rotl64_def)
  then have "xxh64_digest (xxh64_consume (replicate 8 0) (xxh64_reset 0)) = xxh64_avalanche ((Prime5 + 8) * Prime1 + Prime4)"
    by (simp add: xxh64_digest_def xxh64_consume_def xxh64_reset_def memcpy_at_def Let_def xxh64_half_word_def)
  also have "\<dots> = 0x110597b137e48251"
    by (simp add: xxh64_avalanche_def Let_def Prime5_def Prime1_def Prime4_def Prime2_def Prime3_def)
  finally show "xxh64_digest (xxh64_consume (replicate 8 0) (xxh64_reset 0)) = 0x110597b137e48251" .
  have "xxh64_spec_words h (replicate 8 0) = (rotl64 h 27 * Prime1 + Prime4, [])" for h
    by (simp add: xxh64_spec_words.simps z rotl64_def xxhash_round_def)
  then have "xxh64_spec (replicate 8 0) = xxh64_avalanche (rotl64 (Prime5 + 8) 27 * Prime1 + Prime4)"
    by (simp add: xxh64_spec_def absorb_short Let_def xxh64_half_word_def)
  also have "\<dots> = 0x34c96acdcadb1bbb"
    by (simp add: xxh64_avalanche_def Let_def Prime5_def Prime1_def Prime4_def Prime2_def Prime3_def rotl64_def)
  finally show "xxh64_spec (replicate 8 0) = 0x34c96acdcadb1bbb" .
qed

section \<open>Properties\<close>

lemma file_hash_facts:
  assumes "opens o1 o2" and "[] \<notin> set cs" and "length garbage = 64"
  shows "compute_file_hash_at garbage Sha256 o1 o2 True (map Chunk cs @ [Chunk []]) True =
      Some \<lparr>kind = Sha256, hvalue = sha256_spec (concat cs), hlength = 32\<rparr>"
    and "length (concat cs) mod 32 < 8 \<Longrightarrow> length (concat cs) < 2 ^ 64 \<Longrightarrow>
      compute_file_hash_at garbage XxHash64 o1 o2 True (map Chunk cs @ [Chunk []]) True =
      Some \<lparr>kind = XxHash64, hvalue = big_endian_hash (xxh64_spec (concat cs)), hlength = 8\<rparr>"
    and "concat ds = concat cs \<Longrightarrow> [] \<notin> set ds \<Longrightarrow>
      compute_file_hash_at garbage XxHash64 o1 o2 True (map Chunk ds @ [Chunk []]) True =
      compute_file_hash_at garbage XxHash64 o1 o2 True (map Chunk cs @ [Chunk []]) True"
proof -
  have "sha256_holds (concat cs) (fold sha256_consume cs (sha256_reset garbage))"
    using sha256_chunks_hold [OF sha256_holds_reset [OF assms(3)], of cs] by simp
  then show "compute_file_hash_at garbage Sha256 o1 o2 True (map Chunk cs @ [Chunk []]) True =
      Some \<lparr>kind = Sha256, hvalue = sha256_spec (concat cs), hlength = 32\<rparr>"
    using compute_sha256 [OF assms(1,2)] sha256_finalize_spec by simp
  have x: "xxh64_holds (concat cs) (fold xxh64_consume cs (xxh64_reset 0))" for cs
    using xxh64_chunks_hold [OF xxh64_holds_reset, of cs] by simp
  show "compute_file_hash_at garbage XxHash64 o1 o2 True (map Chunk cs @ [Chunk []]) True =
      Some \<lparr>kind = XxHash64, hvalue = big_endian_hash (xxh64_spec (concat cs)), hlength = 8\<rparr>"
    if "length (concat cs) mod 32 < 8" "length (concat cs) < 2 ^ 64"
    using compute_xxh64 [OF assms(1,2)] xxh64_digest_spec [OF x that] by simp
  show "compute_file_hash_at garbage XxHash64 o1 o2 True (map Chunk ds @ [Chunk []]) True =
      compute_file_hash_at garbage XxHash64 o1 o2 True (map Chunk cs @ [Chunk []]) True"
    if "concat ds = concat cs" "[] \<notin> set ds"
    unfolding compute_xxh64 [OF assms(1,2)] compute_xxh64 [OF assms(1) that(2)]
      xxh64_digest_unique [OF x [of ds, unfolded that(1)] x [of cs]] ..
qed



end
