(* ===== verification/Configuration.thy ===== *)
theory Configuration
  imports Metadata Parse_Size Path_Order
begin

text \<open>
  The configuration of updatedb (\<open>src/conf.cpp\<close>): the values, the file \<open>/etc/updatedb.conf\<close> with its
  lexer, and the command line. Strings that the code passes as \<open>const char *\<close> end at their first
  zero byte. Exits with a message are errors.
\<close>

section \<open>The configuration\<close>

record configuration =
  conf_check_visibility :: bool
  conf_prunefs :: "bytes list"
  conf_prunenames :: "bytes list"
  conf_prunepaths :: "bytes list"
  conf_prune_bind_mounts :: bool
  conf_debug_pruning :: bool
  conf_scan_root :: "bytes option"
  conf_output :: bytes
  conf_verbose :: bool
  conf_block_size :: nat
  use_debug :: bool
  conf_metadata_hash_kind :: hash_kind
  conf_history_depth :: nat
  conf_compare_atime :: bool
  conf_hash_max_size :: u64
  conf_rehash_all :: bool

definition default_configuration :: configuration where
  "default_configuration =
     \<lparr>conf_check_visibility = True, conf_prunefs = [], conf_prunenames = [], conf_prunepaths = [],
      conf_prune_bind_mounts = False, conf_debug_pruning = False, conf_scan_root = None, conf_output = [],
      conf_verbose = False, conf_block_size = 32, use_debug = False, conf_metadata_hash_kind = HashNone,
      conf_history_depth = 1, conf_compare_atime = False, conf_hash_max_size = 0, conf_rehash_all = False\<rparr>"

section \<open>Values\<close>

definition c_str :: "bytes \<Rightarrow> bytes" where
  "c_str s = takeWhile (\<lambda>c. c \<noteq> 0) s"

definition parse_bool :: "bytes \<Rightarrow> bool option" where
  "parse_bool s =
     (if s = str ''0'' \<or> s = str ''no'' then Some False
      else if s = str ''1'' \<or> s = str ''yes'' then Some True
      else None)"

text \<open>\<open>strtol\<close> in base 10: the value and the rest of the string; None when there is no number or \<open>errno\<close> is set.\<close>

definition strtol :: "bytes \<Rightarrow> (int \<times> bytes) option" where
  "strtol s =
     (let s = dropWhile is_space s;
          neg = (s \<noteq> [] \<and> hd s = 45);
          s = (if s \<noteq> [] \<and> (hd s = 45 \<or> hd s = 43) then tl s else s);
          ds = takeWhile is_digit s;
          value = (if neg then - int (decimal ds) else int (decimal ds))
      in if ds = [] \<or> value < - (2 ^ 63) \<or> 2 ^ 63 \<le> value then None
         else Some (value, dropWhile is_digit s))"

abbreviation INT_MAX :: int where "INT_MAX \<equiv> 2147483647"

definition parse_int :: "bytes \<Rightarrow> nat option" where
  "parse_int s =
     (if s = [] then None
      else
        case strtol s of
          None \<Rightarrow> None
        | Some (value, end) \<Rightarrow>
            if end \<noteq> [] \<or> value < 0 \<or> INT_MAX < value then None else Some (nat value))"

definition to_lower :: "byte \<Rightarrow> byte" where
  "to_lower c = (if 65 \<le> c \<and> c \<le> 90 then c + 32 else c)"

definition parse_metadata_hash_kind :: "bytes \<Rightarrow> hash_kind option" where
  "parse_metadata_hash_kind value =
     (let lower = map to_lower value
      in if lower = str ''none'' then Some HashNone
         else if lower = str ''xxh64'' \<or> lower = str ''xxhash64'' \<or> lower = str ''fast'' then Some XxHash64
         else if lower = str ''sha256'' then Some Sha256
         else None)"

fun metadata_hash_kind_to_string :: "hash_kind \<Rightarrow> bytes" where
  "metadata_hash_kind_to_string HashNone = str ''none''"
| "metadata_hash_kind_to_string XxHash64 = str ''xxh64''"
| "metadata_hash_kind_to_string Sha256 = str ''sha256''"
| "metadata_hash_kind_to_string (UnnamedHashKind _) = str ''unknown''"

section \<open>String lists\<close>

function space_words :: "bytes \<Rightarrow> bytes list" where
  "space_words val =
     (let val = dropWhile is_space val
      in if val = [] then []
         else takeWhile (\<lambda>c. \<not> is_space c) val # space_words (dropWhile (\<lambda>c. \<not> is_space c) val))"
  by pat_completeness auto
termination
proof (relation "measure length")
  fix val rest :: bytes
  assume r: "rest = dropWhile is_space val" "rest \<noteq> []"
  then have "\<not> is_space (hd rest)" using r hd_dropWhile [of is_space val] by simp
  then have "length (dropWhile (\<lambda>c. \<not> is_space c) rest) < length rest"
    using r(2) by (cases rest) (simp_all add: length_dropWhile_le le_imp_less_Suc)
  also have "length rest \<le> length val" by (simp add: r(1) length_dropWhile_le)
  finally show "(dropWhile (\<lambda>c. \<not> is_space c) rest, val) \<in> measure length" by simp
qed simp

declare space_words.simps [simp del]

definition var_add_values :: "bytes list \<Rightarrow> bytes \<Rightarrow> bytes list" where
  "var_add_values list val = list @ space_words val"

definition var_finish :: "bytes list \<Rightarrow> bytes list" where
  "var_finish list = remdups_adj (sort list)"

section \<open>The lexer\<close>

datatype uc_token =
    UCT_EOF | UCT_EOL | UCT_IDENTIFIER | UCT_EQUAL | UCT_QUOTED | UCT_OTHER
  | UCT_PRUNE_BIND_MOUNTS | UCT_PRUNEFS | UCT_PRUNENAMES | UCT_PRUNEPATHS
  | UCT_METADATA_HASH | UCT_HISTORY_DEPTH | UCT_COMPARE_ATIME | UCT_HASH_MAX_SIZE

datatype uc_error =
    Missing_closing_quote nat
  | Unknown_variable nat bytes
  | Variable_name_expected nat
  | Variable_already_defined nat bytes
  | Equal_expected nat
  | Value_in_quotes_expected nat
  | Invalid_value nat bytes uc_token
  | Unexpected_data nat

record uc_state =
  uc_file :: bytes
  uc_line :: nat
  uc_current_line :: nat
  uc_lex_buf :: bytes

definition is_alpha :: "byte \<Rightarrow> bool" where
  "is_alpha c \<longleftrightarrow> 65 \<le> c \<and> c \<le> 90 \<or> 97 \<le> c \<and> c \<le> 122"

definition is_word_char :: "byte \<Rightarrow> bool" where
  "is_word_char c \<longleftrightarrow> is_alpha c \<or> is_digit c \<or> c = 95"

definition keyword_token :: "bytes \<Rightarrow> uc_token" where
  "keyword_token w =
     (if w = str ''PRUNE_BIND_MOUNTS'' then UCT_PRUNE_BIND_MOUNTS
      else if w = str ''PRUNEFS'' then UCT_PRUNEFS
      else if w = str ''PRUNENAMES'' then UCT_PRUNENAMES
      else if w = str ''PRUNEPATHS'' then UCT_PRUNEPATHS
      else if w = str ''METADATA_HASH'' then UCT_METADATA_HASH
      else if w = str ''HISTORY_DEPTH'' then UCT_HISTORY_DEPTH
      else if w = str ''COMPARE_ATIME'' then UCT_COMPARE_ATIME
      else if w = str ''HASH_MAX_SIZE'' then UCT_HASH_MAX_SIZE
      else UCT_IDENTIFIER)"

definition skips_space :: "byte \<Rightarrow> bool" where
  "skips_space c \<longleftrightarrow> c \<noteq> 10 \<and> is_space c"

definition uc_lex :: "uc_state \<Rightarrow> uc_error + uc_token \<times> uc_state" where
  "uc_lex s =
     (let s = s\<lparr>uc_lex_buf := [], uc_line := uc_current_line s\<rparr>;
          p = dropWhile skips_space (uc_file s)
      in if p = [] then Inr (UCT_EOF, s\<lparr>uc_file := []\<rparr>)
         else
           let c = hd p; p = tl p
           in if c = 35 \<or> c = 10 then
                let p = (if c = 35 then dropWhile (\<lambda>c. c \<noteq> 10) p else c # p)
                in if p = [] then Inr (UCT_EOF, s\<lparr>uc_file := []\<rparr>)
                   else Inr (UCT_EOL, s\<lparr>uc_file := tl p, uc_current_line := uc_current_line s + 1\<rparr>)
              else if c = 61 then Inr (UCT_EQUAL, s\<lparr>uc_file := p\<rparr>)
              else if c = 34 then
                let value = takeWhile (\<lambda>c. c \<noteq> 34 \<and> c \<noteq> 10) p;
                    p = dropWhile (\<lambda>c. c \<noteq> 34 \<and> c \<noteq> 10) p
                in if p = [] \<or> hd p = 10 then Inl (Missing_closing_quote (uc_line s))
                   else Inr (UCT_QUOTED, s\<lparr>uc_file := tl p, uc_lex_buf := value\<rparr>)
              else if \<not> is_alpha c \<and> c \<noteq> 95 then Inr (UCT_OTHER, s\<lparr>uc_file := p\<rparr>)
              else
                let w = c # takeWhile is_word_char p
                in Inr (keyword_token w, s\<lparr>uc_file := dropWhile is_word_char p, uc_lex_buf := w\<rparr>))"

section \<open>The parser of the file\<close>

text \<open>A variable gets its value; None when the value is invalid.\<close>

definition set_variable :: "uc_token \<Rightarrow> bytes \<Rightarrow> configuration \<Rightarrow> configuration option" where
  "set_variable var buf c =
     (if var = UCT_PRUNE_BIND_MOUNTS then
        map_option (\<lambda>v. c\<lparr>conf_prune_bind_mounts := v\<rparr>) (parse_bool (c_str buf))
      else if var = UCT_PRUNEFS then Some (c\<lparr>conf_prunefs := var_add_values (conf_prunefs c) (c_str buf)\<rparr>)
      else if var = UCT_PRUNENAMES then
        Some (c\<lparr>conf_prunenames := var_add_values (conf_prunenames c) (c_str buf)\<rparr>)
      else if var = UCT_PRUNEPATHS then
        Some (c\<lparr>conf_prunepaths := var_add_values (conf_prunepaths c) (c_str buf)\<rparr>)
      else if var = UCT_METADATA_HASH then
        map_option (\<lambda>v. c\<lparr>conf_metadata_hash_kind := v\<rparr>) (parse_metadata_hash_kind buf)
      else if var = UCT_HISTORY_DEPTH then
        map_option (\<lambda>v. c\<lparr>conf_history_depth := v\<rparr>) (parse_int (c_str buf))
      else if var = UCT_COMPARE_ATIME then
        map_option (\<lambda>v. c\<lparr>conf_compare_atime := v\<rparr>) (parse_bool (c_str buf))
      else map_option (\<lambda>v. c\<lparr>conf_hash_max_size := v\<rparr>) (parse_size (c_str buf)))"

definition variable_tokens :: "uc_token list" where
  "variable_tokens =
     [UCT_PRUNE_BIND_MOUNTS, UCT_PRUNEFS, UCT_PRUNENAMES, UCT_PRUNEPATHS, UCT_METADATA_HASH,
      UCT_HISTORY_DEPTH, UCT_COMPARE_ATIME, UCT_HASH_MAX_SIZE]"

text \<open>What follows the name of a variable, up to the end of the line; the last token is part of the result.\<close>

definition uc_assignment ::
    "uc_token \<Rightarrow> uc_state \<Rightarrow> configuration \<Rightarrow> uc_error + uc_token \<times> uc_state \<times> configuration" where
  "uc_assignment var s c =
     (case uc_lex s of
        Inl e \<Rightarrow> Inl e
      | Inr (token, s) \<Rightarrow>
          if token \<noteq> UCT_EQUAL then Inl (Equal_expected (uc_line s))
          else
            case uc_lex s of
              Inl e \<Rightarrow> Inl e
            | Inr (token, s) \<Rightarrow>
                if token \<noteq> UCT_QUOTED then Inl (Value_in_quotes_expected (uc_line s))
                else
                  case set_variable var (uc_lex_buf s) c of
                    None \<Rightarrow> Inl (Invalid_value (uc_line s) (uc_lex_buf s) var)
                  | Some c \<Rightarrow>
                      (case uc_lex s of
                         Inl e \<Rightarrow> Inl e
                       | Inr (token, s) \<Rightarrow>
                           if token \<noteq> UCT_EOL \<and> token \<noteq> UCT_EOF then Inl (Unexpected_data (uc_line s))
                           else Inr (token, s, c)))"

lemma length_dropWhile_tl: "p \<noteq> [] \<Longrightarrow> length (dropWhile P (tl p)) < length p"
  by (cases p) (simp_all add: length_dropWhile_le le_imp_less_Suc)

lemma uc_lex_shorter:
  assumes "uc_lex s = Inr (token, s')"
  shows "length (uc_file s') \<le> length (uc_file s)"
    and "token \<noteq> UCT_EOF \<Longrightarrow> length (uc_file s') < length (uc_file s)"
proof -
  let ?p = "dropWhile skips_space (uc_file s)"
  have p: "length ?p \<le> length (uc_file s)" by (rule length_dropWhile_le)
  have "length (uc_file s') = 0 \<or> length (uc_file s') < length ?p"
    using assms length_dropWhile_tl [of ?p is_word_char]
      length_dropWhile_tl [of ?p "\<lambda>c. c \<noteq> 34 \<and> c \<noteq> 10"] length_dropWhile_tl [of ?p "\<lambda>c. c \<noteq> 10"]
    by (auto simp add: uc_lex_def Let_def split: if_splits)
  then show "length (uc_file s') \<le> length (uc_file s)" using p by auto
  show "length (uc_file s') < length (uc_file s)" if "token \<noteq> UCT_EOF"
  proof -
    have "?p \<noteq> []" using that assms by (auto simp add: uc_lex_def Let_def simp del: dropWhile_eq_Nil_conv)
    with \<open>length (uc_file s') = 0 \<or> length (uc_file s') < length ?p\<close> p show ?thesis
      by (metis length_greater_0_conv less_le_trans)
  qed
qed

lemma uc_assignment_shorter:
  "uc_assignment var s c = Inr (token, s', c') \<Longrightarrow> length (uc_file s') \<le> length (uc_file s)"
  by (auto simp add: uc_assignment_def split: sum.splits if_splits option.splits dest!: uc_lex_shorter(1))

function uc_parse :: "uc_token list \<Rightarrow> uc_state \<Rightarrow> configuration \<Rightarrow> uc_error + configuration" where
  "uc_parse had s c =
     (case uc_lex s of
        Inl e \<Rightarrow> Inl e
      | Inr (token, s) \<Rightarrow>
          if token = UCT_EOF then Inr c
          else if token = UCT_EOL then uc_parse had s c
          else if token = UCT_IDENTIFIER then Inl (Unknown_variable (uc_line s) (uc_lex_buf s))
          else if token \<notin> set variable_tokens then Inl (Variable_name_expected (uc_line s))
          else if token \<in> set had then Inl (Variable_already_defined (uc_line s) (uc_lex_buf s))
          else
            case uc_assignment token s c of
              Inl e \<Rightarrow> Inl e
            | Inr (last_token, s, c) \<Rightarrow>
                if last_token = UCT_EOF then Inr c else uc_parse (token # had) s c)"
  by pat_completeness auto
termination
  by (relation "measure (\<lambda>(had, s, c). length (uc_file s))")
    (auto dest: uc_lex_shorter(2) uc_assignment_shorter intro: le_less_trans)

declare uc_parse.simps [simp del]

text \<open>None is a file that does not exist.\<close>

definition parse_updatedb_conf :: "bytes option \<Rightarrow> configuration \<Rightarrow> uc_error + configuration" where
  "parse_updatedb_conf text c =
     (case text of
        None \<Rightarrow> Inr c
      | Some bs \<Rightarrow> uc_parse [] \<lparr>uc_file = bs, uc_line = 0, uc_current_line = 1, uc_lex_buf = []\<rparr> c)"

section \<open>What a file means\<close>

text \<open>
  The lines of a file: blank lines and assignments, both with spaces where they may stand and a
  comment at the end; each has its text, and the file has the meaning of its assignments.
\<close>

datatype conf_line =
    Blank bytes bytes
  | Assign bytes uc_token bytes bytes bytes bytes bytes

fun variable_name :: "uc_token \<Rightarrow> bytes" where
  "variable_name UCT_PRUNE_BIND_MOUNTS = str ''PRUNE_BIND_MOUNTS''"
| "variable_name UCT_PRUNEFS = str ''PRUNEFS''"
| "variable_name UCT_PRUNENAMES = str ''PRUNENAMES''"
| "variable_name UCT_PRUNEPATHS = str ''PRUNEPATHS''"
| "variable_name UCT_METADATA_HASH = str ''METADATA_HASH''"
| "variable_name UCT_HISTORY_DEPTH = str ''HISTORY_DEPTH''"
| "variable_name UCT_COMPARE_ATIME = str ''COMPARE_ATIME''"
| "variable_name UCT_HASH_MAX_SIZE = str ''HASH_MAX_SIZE''"
| "variable_name _ = []"

fun line_text :: "conf_line \<Rightarrow> bytes" where
  "line_text (Blank sp comment) = sp @ comment @ [10]"
| "line_text (Assign sp1 var sp2 sp3 val sp4 comment) =
     sp1 @ variable_name var @ sp2 @ [61] @ sp3 @ [34] @ val @ [34] @ sp4 @ comment @ [10]"

definition spaces :: "bytes \<Rightarrow> bool" where "spaces sp = list_all skips_space sp"

definition comment :: "bytes \<Rightarrow> bool" where
  "comment c \<longleftrightarrow> c = [] \<or> hd c = 35 \<and> list_all (\<lambda>c. c \<noteq> 10) c"

fun wf_line :: "conf_line \<Rightarrow> bool" where
  "wf_line (Blank sp c) \<longleftrightarrow> spaces sp \<and> comment c"
| "wf_line (Assign sp1 var sp2 sp3 val sp4 c) \<longleftrightarrow>
     spaces sp1 \<and> var \<in> set variable_tokens \<and> spaces sp2 \<and> spaces sp3 \<and>
     list_all (\<lambda>c. c \<noteq> 34 \<and> c \<noteq> 10) val \<and> spaces sp4 \<and> comment c"

fun file_meaning :: "nat \<Rightarrow> uc_token list \<Rightarrow> conf_line list \<Rightarrow> configuration \<Rightarrow> uc_error + configuration" where
  "file_meaning n had [] c = Inr c"
| "file_meaning n had (Blank _ _ # ls) c = file_meaning (n + 1) had ls c"
| "file_meaning n had (Assign _ var _ _ val _ _ # ls) c =
     (if var \<in> set had then Inl (Variable_already_defined n (variable_name var))
      else
        case set_variable var val c of
          None \<Rightarrow> Inl (Invalid_value n val var)
        | Some c \<Rightarrow> file_meaning (n + 1) (var # had) ls c)"

abbreviation lexer_at :: "bytes \<Rightarrow> nat \<Rightarrow> nat \<Rightarrow> bytes \<Rightarrow> uc_state" where
  "lexer_at p l n buf \<equiv> \<lparr>uc_file = p, uc_line = l, uc_current_line = n, uc_lex_buf = buf\<rparr>"

lemma drop_spaces: "spaces sp \<Longrightarrow> dropWhile skips_space (sp @ p) = dropWhile skips_space p"
  by (simp add: spaces_def list_all_iff dropWhile_append2)

lemma lex_end_of_line:
  assumes "spaces sp" and "comment c"
  shows "uc_lex (lexer_at (sp @ c @ 10 # p) l n buf) = Inr (UCT_EOL, lexer_at p n (n + 1) [])"
proof -
  have "\<not> skips_space 35" "\<not> skips_space 10" by (simp_all add: skips_space_def is_space_def)
  with assms show ?thesis
    by (cases c) (auto simp add: uc_lex_def Let_def drop_spaces comment_def list_all_iff dropWhile_append2)
qed

lemma lex_equal:
  "spaces sp \<Longrightarrow> uc_lex (lexer_at (sp @ 61 # p) l n buf) = Inr (UCT_EQUAL, lexer_at p n n [])"
  by (simp add: uc_lex_def Let_def drop_spaces skips_space_def is_space_def word_le_nat_alt)

lemma lex_quoted:
  assumes "spaces sp" and "list_all (\<lambda>c. c \<noteq> 34 \<and> c \<noteq> 10) val"
  shows "uc_lex (lexer_at (sp @ 34 # val @ 34 # p) l n buf) = Inr (UCT_QUOTED, lexer_at p n n val)"
proof -
  have "takeWhile (\<lambda>c. c \<noteq> 34 \<and> c \<noteq> 10) (val @ 34 # p) = val"
    "dropWhile (\<lambda>c. c \<noteq> 34 \<and> c \<noteq> 10) (val @ 34 # p) = 34 # p"
    using assms(2) by (simp_all add: list_all_iff takeWhile_append2 dropWhile_append2)
  with assms(1) show ?thesis
    by (simp add: uc_lex_def Let_def drop_spaces skips_space_def is_space_def word_le_nat_alt)
qed

lemma word_char_facts:
  "is_word_char c \<Longrightarrow> \<not> skips_space c" "skips_space c \<Longrightarrow> \<not> is_word_char c"
  "is_word_char c \<Longrightarrow> c \<noteq> 35 \<and> c \<noteq> 10 \<and> c \<noteq> 61 \<and> c \<noteq> 34"
  by (auto simp add: is_word_char_def is_alpha_def is_digit_def skips_space_def is_space_def word_le_nat_alt
      simp flip: unsigned_word_eqI)

lemma lex_word:
  assumes "spaces sp" and "w = c # cs" and "is_alpha c" and "list_all is_word_char w"
    and "p = [] \<or> \<not> is_word_char (hd p)"
  shows "uc_lex (lexer_at (sp @ w @ p) l n buf) = Inr (keyword_token w, lexer_at p n n w)"
proof -
  have "takeWhile is_word_char p = []" "dropWhile is_word_char p = p" using assms(5) by (cases p; simp)+
  then have "takeWhile is_word_char (cs @ p) = cs" "dropWhile is_word_char (cs @ p) = p"
    using assms(2,4) by (simp_all add: list_all_iff takeWhile_append2 dropWhile_append2)
  moreover have "is_word_char c" using assms(3) by (simp add: is_word_char_def)
  note word_char_facts(1) [OF this] word_char_facts(3) [OF this]
  ultimately show ?thesis
    using assms(1-3) by (simp add: uc_lex_def Let_def drop_spaces)
qed

lemma variable_tokens_cases:
  assumes "var \<in> set variable_tokens"
  shows "keyword_token (variable_name var) = var"
    and "\<exists>c cs. variable_name var = c # cs \<and> is_alpha c" and "list_all is_word_char (variable_name var)"
    and "var \<noteq> UCT_EOF" and "var \<noteq> UCT_EOL" and "var \<noteq> UCT_IDENTIFIER"
  using assms
  by (auto simp add: variable_tokens_def keyword_token_def str_def is_alpha_def is_word_char_def is_digit_def
      word_le_nat_alt)

lemma assignment_text:
  assumes "wf_line (Assign sp1 var sp2 sp3 val sp4 c)"
  shows "uc_lex (lexer_at (line_text (Assign sp1 var sp2 sp3 val sp4 c) @ p) l n buf) =
      Inr (var, lexer_at (sp2 @ 61 # sp3 @ 34 # val @ 34 # sp4 @ c @ 10 # p) n n (variable_name var))"
    and "uc_assignment var (lexer_at (sp2 @ 61 # sp3 @ 34 # val @ 34 # sp4 @ c @ 10 # p) l n buf) conf =
      (case set_variable var val conf of
         None \<Rightarrow> Inl (Invalid_value n val var)
       | Some conf \<Rightarrow> Inr (UCT_EOL, lexer_at p n (n + 1) [], conf))"
proof -
  let ?p = "sp2 @ 61 # sp3 @ 34 # val @ 34 # sp4 @ c @ 10 # p"
  have var: "var \<in> set variable_tokens" using assms by simp
  then obtain x cs where name: "variable_name var = x # cs" "is_alpha x"
    using variable_tokens_cases(2) by blast
  have "\<not> is_word_char (hd ?p)"
    using assms word_char_facts(2) [of "hd sp2"]
    by (cases sp2) (auto simp add: spaces_def is_word_char_def is_alpha_def is_digit_def word_le_nat_alt)
  then show "uc_lex (lexer_at (line_text (Assign sp1 var sp2 sp3 val sp4 c) @ p) l n buf) =
      Inr (var, lexer_at ?p n n (variable_name var))"
    using lex_word [of sp1 "variable_name var" x cs ?p l n buf] assms name variable_tokens_cases(1,3) [OF var]
    by simp
  have s: "spaces sp2" "spaces sp3" "list_all (\<lambda>c. c \<noteq> 34 \<and> c \<noteq> 10) val" "spaces sp4" "comment c"
    using assms by simp_all
  show "uc_assignment var (lexer_at ?p l n buf) conf =
      (case set_variable var val conf of
         None \<Rightarrow> Inl (Invalid_value n val var)
       | Some conf \<Rightarrow> Inr (UCT_EOL, lexer_at p n (n + 1) [], conf))"
    by (simp add: uc_assignment_def lex_equal [OF s(1)] lex_quoted [OF s(2,3)] lex_end_of_line [OF s(4,5)]
        split: option.split)
qed

lemma parse_lines:
  "list_all wf_line ls \<Longrightarrow>
   uc_parse had (lexer_at (concat (map line_text ls)) l n buf) c = file_meaning n had ls c"
proof (induction n had ls c arbitrary: l buf rule: file_meaning.induct)
  case (1 n had c)
  then show ?case by (simp add: uc_parse.simps uc_lex_def)
next
  case (2 n had sp com ls c)
  then show ?case
    using lex_end_of_line [of sp com "concat (map line_text ls)" l n buf] by (simp add: uc_parse.simps [of had])
next
  case (3 n had sp1 var sp2 sp3 val sp4 com ls c)
  let ?l = "Assign sp1 var sp2 sp3 val sp4 com" and ?p = "concat (map line_text ls)"
  have wf: "wf_line ?l" and var: "var \<in> set variable_tokens" and ls: "list_all wf_line ls" using 3(2) by simp_all
  note v = variable_tokens_cases(4-6) [OF var]
  note a = assignment_text(1) [OF wf, of ?p l n buf] assignment_text(2) [OF wf, of ?p n n "variable_name var" c]
  have e: "concat (map line_text (?l # ls)) = line_text ?l @ ?p" by simp
  show ?case
    unfolding e by (subst uc_parse.simps) (use a v var 3(1) ls in \<open>simp split: option.split\<close>)
qed

section \<open>Property\<close>

text \<open>C28: A configuration file means what its lines say. For every text that consists of blank lines and
  assignments of the known variables, with spaces wherever they may stand and comments at the ends
  of lines, and quoted values without quotes and newlines, the parser returns the configuration in
  which the assignments took effect one after the other, or it stops with the right error at the
  right line: the first variable that is defined twice, or the first value that is invalid.\<close>
theorem conf_file_meaning:
  assumes "list_all wf_line ls"
  shows "parse_updatedb_conf (Some (concat (map line_text ls))) c = file_meaning 1 [] ls c"
  by (simp add: parse_updatedb_conf_def parse_lines [OF assms])

lemma conf_file_meaning_witness:
  "parse_updatedb_conf (Some (str ''# x'' @ [10] @ str ''PRUNEFS = '' @ [34] @ str ''nfs proc'' @ [34, 10] @
     str ''HISTORY_DEPTH='' @ [34] @ str ''many'' @ [34, 10])) default_configuration =
   Inl (Invalid_value 3 (str ''many'') UCT_HISTORY_DEPTH)"
proof -
  let ?ls = "[Blank [] (str ''# x''), Assign [] UCT_PRUNEFS [32] [32] (str ''nfs proc'') [] [],
    Assign [] UCT_HISTORY_DEPTH [] [] (str ''many'') [] []]"
  have "parse_updatedb_conf (Some (concat (map line_text ?ls))) default_configuration =
      file_meaning 1 [] ?ls default_configuration"
    by (rule conf_file_meaning)
      (simp add: spaces_def comment_def variable_tokens_def str_def skips_space_def is_space_def word_le_nat_alt)
  also have "\<dots> = Inl (Invalid_value 3 (str ''many'') UCT_HISTORY_DEPTH)"
    by (simp add: set_variable_def parse_int_def strtol_def str_def is_space_def is_digit_def c_str_def word_le_nat_alt)
  finally show ?thesis by (simp add: str_def)
qed

end
