(* ===== verification/Command_Line.thy ===== *)
theory Command_Line
  imports Configuration Snapshot_Diff
begin

text \<open>
  The command line of updatedb and the whole of \<open>conf_prepare\<close> (\<open>src/conf.cpp\<close>), the configuration
  block that it puts into the database, and the reader of that block in \<open>src/showdiff.cpp\<close>. The
  options are those that \<open>getopt_long\<close> gives.
\<close>

section \<open>Options\<close>

datatype cmd_option =
    Opt_invalid
  | Opt_prune_bind_mounts bytes
  | Opt_prunefs bytes
  | Opt_prunenames bytes
  | Opt_prunepaths bytes
  | Opt_database_root bytes
  | Opt_version
  | Opt_add_prunepaths bytes
  | Opt_add_single_prunepath bytes
  | Opt_metadata_hash bytes
  | Opt_history_depth bytes
  | Opt_compare_atime bytes
  | Opt_hash_max_size bytes
  | Opt_rehash_all
  | Opt_add_prunefs bytes
  | Opt_help
  | Opt_require_visibility bytes
  | Opt_add_prunenames bytes
  | Opt_output bytes
  | Opt_verbose
  | Opt_block_size bytes
  | Opt_debug
  | Opt_debug_pruning

datatype program_exit = Exit_success | Exit_failure

record arg_state =
  prunefs_changed :: bool
  prunenames_changed :: bool
  prunepaths_changed :: bool
  got_prune_bind_mounts :: bool
  got_visibility :: bool
  arg_conf :: configuration

definition or_fail :: "'a option \<Rightarrow> ('a \<Rightarrow> arg_state) \<Rightarrow> program_exit + arg_state" where
  "or_fail r f = (case r of None \<Rightarrow> Inl Exit_failure | Some v \<Rightarrow> Inr (f v))"

abbreviation set_conf :: "arg_state \<Rightarrow> (configuration \<Rightarrow> configuration) \<Rightarrow> arg_state" where
  "set_conf s f \<equiv> s\<lparr>arg_conf := f (arg_conf s)\<rparr>"

text \<open>\<open>realpath\<close> is a parameter; None is its failure.\<close>

fun parse_option :: "(bytes \<Rightarrow> bytes option) \<Rightarrow> cmd_option \<Rightarrow> arg_state \<Rightarrow> program_exit + arg_state" where
  "parse_option realpath Opt_invalid s = Inl Exit_failure"
| "parse_option realpath (Opt_prune_bind_mounts optarg) s =
     (if got_prune_bind_mounts s then Inl Exit_failure
      else or_fail (parse_bool optarg)
        (\<lambda>v. set_conf (s\<lparr>got_prune_bind_mounts := True\<rparr>) (conf_prune_bind_mounts_update (\<lambda>_. v))))"
| "parse_option realpath (Opt_prunefs optarg) s =
     (if prunefs_changed s then Inl Exit_failure
      else Inr (set_conf (s\<lparr>prunefs_changed := True\<rparr>) (conf_prunefs_update (\<lambda>_. var_add_values [] optarg))))"
| "parse_option realpath (Opt_prunenames optarg) s =
     (if prunenames_changed s then Inl Exit_failure
      else Inr (set_conf (s\<lparr>prunenames_changed := True\<rparr>) (conf_prunenames_update (\<lambda>_. var_add_values [] optarg))))"
| "parse_option realpath (Opt_prunepaths optarg) s =
     (if prunepaths_changed s then Inl Exit_failure
      else Inr (set_conf (s\<lparr>prunepaths_changed := True\<rparr>) (conf_prunepaths_update (\<lambda>_. var_add_values [] optarg))))"
| "parse_option realpath (Opt_database_root optarg) s =
     (if conf_scan_root (arg_conf s) \<noteq> None then Inl Exit_failure
      else or_fail (realpath optarg) (\<lambda>v. set_conf s (conf_scan_root_update (\<lambda>_. Some v))))"
| "parse_option realpath Opt_version s = Inl Exit_success"
| "parse_option realpath (Opt_add_prunepaths optarg) s =
     Inr (set_conf (s\<lparr>prunepaths_changed := True\<rparr>) (conf_prunepaths_update (\<lambda>l. var_add_values l optarg)))"
| "parse_option realpath (Opt_add_single_prunepath optarg) s =
     Inr (set_conf (s\<lparr>prunepaths_changed := True\<rparr>) (conf_prunepaths_update (\<lambda>l. l @ [optarg])))"
| "parse_option realpath (Opt_metadata_hash optarg) s =
     or_fail (parse_metadata_hash_kind optarg) (\<lambda>v. set_conf s (conf_metadata_hash_kind_update (\<lambda>_. v)))"
| "parse_option realpath (Opt_history_depth optarg) s =
     or_fail (parse_int optarg) (\<lambda>v. set_conf s (conf_history_depth_update (\<lambda>_. v)))"
| "parse_option realpath (Opt_compare_atime optarg) s =
     or_fail (parse_bool optarg) (\<lambda>v. set_conf s (conf_compare_atime_update (\<lambda>_. v)))"
| "parse_option realpath (Opt_hash_max_size optarg) s =
     or_fail (parse_size optarg) (\<lambda>v. set_conf s (conf_hash_max_size_update (\<lambda>_. v)))"
| "parse_option realpath Opt_rehash_all s = Inr (set_conf s (conf_rehash_all_update (\<lambda>_. True)))"
| "parse_option realpath (Opt_add_prunefs optarg) s =
     Inr (set_conf (s\<lparr>prunefs_changed := True\<rparr>) (conf_prunefs_update (\<lambda>l. var_add_values l optarg)))"
| "parse_option realpath Opt_help s = Inl Exit_success"
| "parse_option realpath (Opt_require_visibility optarg) s =
     (if got_visibility s then Inl Exit_failure
      else or_fail (parse_bool optarg)
        (\<lambda>v. set_conf (s\<lparr>got_visibility := True\<rparr>) (conf_check_visibility_update (\<lambda>_. v))))"
| "parse_option realpath (Opt_add_prunenames optarg) s =
     Inr (set_conf (s\<lparr>prunenames_changed := True\<rparr>) (conf_prunenames_update (\<lambda>l. var_add_values l optarg)))"
| "parse_option realpath (Opt_output optarg) s =
     (if conf_output (arg_conf s) \<noteq> [] then Inl Exit_failure
      else Inr (set_conf s (conf_output_update (\<lambda>_. optarg))))"
| "parse_option realpath Opt_verbose s = Inr (set_conf s (conf_verbose_update (\<lambda>_. True)))"
| "parse_option realpath (Opt_block_size optarg) s =
     (case parse_int optarg of
        None \<Rightarrow> Inl Exit_failure
      | Some v \<Rightarrow> if v = 0 then Inl Exit_failure else Inr (set_conf s (conf_block_size_update (\<lambda>_. v))))"
| "parse_option realpath Opt_debug s = Inr (set_conf s (use_debug_update (\<lambda>_. True)))"
| "parse_option realpath Opt_debug_pruning s = Inr (set_conf s (conf_debug_pruning_update (\<lambda>_. True)))"

fun parse_options ::
    "(bytes \<Rightarrow> bytes option) \<Rightarrow> cmd_option list \<Rightarrow> arg_state \<Rightarrow> program_exit + arg_state" where
  "parse_options realpath [] s = Inr s"
| "parse_options realpath (opt # opts) s =
     (case parse_option realpath opt s of Inl e \<Rightarrow> Inl e | Inr s \<Rightarrow> parse_options realpath opts s)"

definition prepend_cwd :: "bytes option \<Rightarrow> bytes \<Rightarrow> program_exit + bytes" where
  "prepend_cwd cwd path = (case cwd of None \<Rightarrow> Inl Exit_failure | Some buf \<Rightarrow> Inr (buf @ slash # path))"

text \<open>\<open>operands\<close>: something other than options is left; \<open>dbfile\<close>: the path built into the program.\<close>

definition parse_arguments ::
    "(bytes \<Rightarrow> bytes option) \<Rightarrow> bytes \<Rightarrow> bytes option \<Rightarrow> cmd_option list \<Rightarrow> bool \<Rightarrow> configuration \<Rightarrow>
     program_exit + configuration" where
  "parse_arguments realpath dbfile cwd opts operands c =
     (case parse_options realpath opts
        \<lparr>prunefs_changed = False, prunenames_changed = False, prunepaths_changed = False,
         got_prune_bind_mounts = False, got_visibility = False, arg_conf = c\<rparr> of
        Inl e \<Rightarrow> Inl e
      | Inr s \<Rightarrow>
          if operands then Inl Exit_failure
          else
            let c = arg_conf s;
                c = (if conf_scan_root c = None then c\<lparr>conf_scan_root := Some (str ''/'')\<rparr> else c);
                c = (if conf_output c = [] then c\<lparr>conf_output := dbfile\<rparr> else c)
            in if conf_output c = [] \<or> hd (conf_output c) \<noteq> slash then
                 (case prepend_cwd cwd (conf_output c) of
                    Inl e \<Rightarrow> Inl e
                  | Inr path \<Rightarrow> Inr (c\<lparr>conf_output := path\<rparr>))
               else Inr c)"

section \<open>The configuration block\<close>

definition gen_conf_block_string_list :: "bytes list \<Rightarrow> bytes" where
  "gen_conf_block_string_list strings = concat (map (\<lambda>s. s @ [0]) strings) @ [0]"

function to_decimal :: "nat \<Rightarrow> bytes" where
  "to_decimal n = (if n < 10 then [48 + of_nat n] else to_decimal (n div 10) @ [48 + of_nat (n mod 10)])"
  by pat_completeness auto
termination by (relation "measure id") auto

declare to_decimal.simps [simp del]

definition gen_conf_block :: "configuration \<Rightarrow> bytes" where
  "gen_conf_block c =
     str ''prune_bind_mounts'' @ [0] @ (if conf_prune_bind_mounts c then [49, 0, 0] else [48, 0, 0]) @
     str ''prunefs'' @ [0] @ gen_conf_block_string_list (conf_prunefs c) @
     str ''prunenames'' @ [0] @ gen_conf_block_string_list (conf_prunenames c) @
     str ''prunepaths'' @ [0] @ gen_conf_block_string_list (conf_prunepaths c) @
     str ''metadata_hash'' @ [0] @ metadata_hash_kind_to_string (conf_metadata_hash_kind c) @ [0] @ [0] @
     str ''history_depth'' @ [0] @ to_decimal (conf_history_depth c) @ [0] @ [0]"

definition conf_prepare ::
    "bytes option \<Rightarrow> (bytes \<Rightarrow> bytes option) \<Rightarrow> bytes \<Rightarrow> bytes option \<Rightarrow> cmd_option list \<Rightarrow> bool \<Rightarrow>
     (uc_error + program_exit) + configuration \<times> bytes" where
  "conf_prepare text realpath dbfile cwd opts operands =
     (case parse_updatedb_conf text default_configuration of
        Inl e \<Rightarrow> Inl (Inl e)
      | Inr c \<Rightarrow>
          (case parse_arguments realpath dbfile cwd opts operands c of
             Inl e \<Rightarrow> Inl (Inr e)
           | Inr c \<Rightarrow>
               let c = c\<lparr>conf_prunefs := var_finish (map (map to_upper) (conf_prunefs c)),
                         conf_prunenames := var_finish (conf_prunenames c),
                         conf_prunepaths := var_finish (conf_prunepaths c)\<rparr>;
                   block = gen_conf_block c
               in Inr (c\<lparr>conf_prunepaths := string_list_dir_path_sort (conf_prunepaths c)\<rparr>, block)))"

section \<open>The reader of the block\<close>

text \<open>The lambda \<open>next\<close>: a string and the rest; None when there is no terminated string.\<close>

definition next_string :: "bytes \<Rightarrow> (bytes \<times> bytes) option" where
  "next_string p =
     (if p = [] then None
      else
        let len = length (takeWhile (\<lambda>c. c \<noteq> 0) p)
        in if length p \<le> len then None else Some (take len p, drop (len + 1) p))"

lemma next_string_shorter: "next_string p = Some (v, p') \<Longrightarrow> length p' < length p"
  by (auto simp add: next_string_def Let_def split: if_splits)

function read_values :: "bytes \<Rightarrow> bytes list \<times> bytes" where
  "read_values p =
     (case next_string p of
        None \<Rightarrow> ([], p)
      | Some (v, p) \<Rightarrow> if v = [] then ([], p) else let (vs, p) = read_values p in (v # vs, p))"
  by pat_completeness auto
termination by (relation "measure length") (auto dest: next_string_shorter)

declare read_values.simps [simp del]

lemma read_values_shorter: "length (snd (read_values p)) \<le> length p"
proof (induction p rule: read_values.induct)
  case (1 p)
  show ?case
  proof (cases "next_string p")
    case (Some vp)
    obtain v p' where vp: "vp = (v, p')" by (cases vp)
    obtain vs q where q: "read_values p' = (vs, q)" by (cases "read_values p'")
    have "length p' < length p" using Some vp by (auto dest: next_string_shorter)
    moreover have "length q \<le> length p'" if "v \<noteq> []" using 1 [OF Some vp [symmetric] that] q by simp
    ultimately show ?thesis using Some vp q by (subst read_values.simps) (auto intro: le_trans less_imp_le)
  qed (simp add: read_values.simps)
qed

definition set_prune :: "bytes \<Rightarrow> bytes list \<Rightarrow> prune_config \<Rightarrow> prune_config" where
  "set_prune key values p =
     (if key = str ''prune_bind_mounts'' then p\<lparr>prune_bind_mounts := values \<noteq> [] \<and> hd values = str ''1''\<rparr>
      else if key = str ''prunefs'' then p\<lparr>prunefs := map (map to_upper) values\<rparr>
      else if key = str ''prunenames'' then p\<lparr>prunenames := values\<rparr>
      else if key = str ''prunepaths'' then p\<lparr>prunepaths := values\<rparr>
      else p)"

function parse_conf_block :: "bytes \<Rightarrow> prune_config \<Rightarrow> prune_config" where
  "parse_conf_block p pc =
     (case next_string p of
        None \<Rightarrow> pc
      | Some (key, p) \<Rightarrow> let (values, p) = read_values p in parse_conf_block p (set_prune key values pc))"
  by pat_completeness auto
termination
proof (relation "measure (\<lambda>(p, pc). length p)")
  fix p pc x key rest y vs p'
  assume "next_string p = Some x" "(key, rest) = x" "y = read_values rest" "(vs, p') = y"
  then show "((p', set_prune key vs pc), p, pc) \<in> measure (\<lambda>(p, pc). length p)"
    using next_string_shorter [of p key rest] read_values_shorter [of rest] by (auto simp add: prod_eq_iff)
qed simp

declare parse_conf_block.simps [simp del]

definition empty_prune :: prune_config where
  "empty_prune = \<lparr>prune_bind_mounts = False, prunefs = [], prunenames = [], prunepaths = []\<rparr>"

section \<open>The block is read back\<close>

definition block_strings :: "bytes list \<Rightarrow> bool" where
  "block_strings vs = list_all (\<lambda>v. v \<noteq> [] \<and> 0 \<notin> set v) vs"

definition conf_entries :: "configuration \<Rightarrow> (bytes \<times> bytes list) list" where
  "conf_entries c =
     [(str ''prune_bind_mounts'', [if conf_prune_bind_mounts c then str ''1'' else str ''0'']),
      (str ''prunefs'', conf_prunefs c), (str ''prunenames'', conf_prunenames c),
      (str ''prunepaths'', conf_prunepaths c),
      (str ''metadata_hash'', [metadata_hash_kind_to_string (conf_metadata_hash_kind c)]),
      (str ''history_depth'', [to_decimal (conf_history_depth c)])]"

definition entry_text :: "bytes \<times> bytes list \<Rightarrow> bytes" where
  "entry_text e = fst e @ 0 # gen_conf_block_string_list (snd e)"

lemma gen_conf_block_entries: "gen_conf_block c = concat (map entry_text (conf_entries c))"
  by (simp add: gen_conf_block_def conf_entries_def entry_text_def gen_conf_block_string_list_def str_def)

lemma next_string_terminated:
  assumes "0 \<notin> set v"
  shows "next_string (v @ 0 # p) = Some (v, p)"
proof -
  have "takeWhile (\<lambda>c. c \<noteq> 0) (v @ 0 # p) = v" using assms by (induction v) auto
  then show ?thesis by (simp add: next_string_def Let_def)
qed

lemma read_values_list:
  "block_strings vs \<Longrightarrow> read_values (gen_conf_block_string_list vs @ p) = (vs, p)"
proof (induction vs)
  case Nil
  have "next_string (0 # p) = Some ([], p)" using next_string_terminated [of "[]" p] by simp
  then show ?case by (simp add: gen_conf_block_string_list_def read_values.simps)
next
  case (Cons v vs)
  have "gen_conf_block_string_list (v # vs) @ p = v @ 0 # gen_conf_block_string_list vs @ p"
    by (simp add: gen_conf_block_string_list_def)
  with Cons show ?case
    by (simp add: read_values.simps [of "v @ _"] next_string_terminated block_strings_def)
qed

lemma parse_entries:
  assumes "\<And>e. e \<in> set es \<Longrightarrow> 0 \<notin> set (fst e) \<and> block_strings (snd e)"
  shows "parse_conf_block (concat (map entry_text es)) pc = fold (\<lambda>e. set_prune (fst e) (snd e)) es pc"
  using assms
proof (induction es arbitrary: pc)
  case Nil
  then show ?case by (simp add: parse_conf_block.simps next_string_def)
next
  case (Cons e es)
  then have "0 \<notin> set (fst e)" "block_strings (snd e)" by simp_all
  note n = next_string_terminated [OF this(1)] read_values_list [OF this(2)]
  have "parse_conf_block (concat (map entry_text (e # es))) pc =
      parse_conf_block (concat (map entry_text es)) (set_prune (fst e) (snd e) pc)"
    by (subst parse_conf_block.simps) (simp add: entry_text_def n)
  with Cons show ?case by simp
qed

lemma decimal_snoc: "decimal (ds @ [d]) = 10 * decimal ds + (unat d - 48)"
  by (simp add: decimal_def)

lemma decimal_to_decimal: "decimal (to_decimal n) = n"
proof (induction n rule: to_decimal.induct)
  case (1 n)
  have u: "unat (48 + of_nat k :: byte) = 48 + k" if "k < 10" for k
    using that unat_of_nat_small [of "48 + k", where 'a = 8] by simp
  show ?case
  proof (cases "n < 10")
    case True
    with u show ?thesis by (simp add: to_decimal.simps decimal_def)
  next
    case False
    with 1 u [of "n mod 10"] show ?thesis by (simp add: to_decimal.simps [of n] decimal_snoc)
  qed
qed

lemma to_decimal_string: "to_decimal n \<noteq> []" "0 \<notin> set (to_decimal n)"
proof -
  show "to_decimal n \<noteq> []" by (subst to_decimal.simps) simp
  show "0 \<notin> set (to_decimal n)"
  proof (induction n rule: to_decimal.induct)
    case (1 n)
    have "48 + of_nat k \<noteq> (0 :: byte)" if "k < 10" for k
    proof
      assume "48 + of_nat k = (0 :: byte)"
      then have "unat (of_nat (48 + k) :: byte) = 0" by simp
      with that show False by (simp add: unat_of_nat_small del: of_nat_add)
    qed
    with 1 show ?case by (cases "n < 10") (simp_all add: to_decimal.simps [of n])
  qed
qed

definition block_conf :: "configuration \<Rightarrow> bool" where
  "block_conf c \<longleftrightarrow>
     block_strings (conf_prunefs c) \<and> block_strings (conf_prunenames c) \<and> block_strings (conf_prunepaths c) \<and>
     conf_metadata_hash_kind c \<in> {HashNone, XxHash64, Sha256}"

lemma hash_kind_string:
  "block_strings [metadata_hash_kind_to_string k]"
  by (cases k) (simp_all add: block_strings_def str_def)

lemma conf_entries_ok:
  assumes "block_conf c" and "e \<in> set (conf_entries c)"
  shows "0 \<notin> set (fst e)" and "block_strings (snd e)"
  using assms hash_kind_string [of "conf_metadata_hash_kind c"] to_decimal_string
  by (auto simp add: conf_entries_def block_conf_def block_strings_def str_def)

lemma parse_gen_conf_block:
  assumes "block_conf c"
  shows "parse_conf_block (gen_conf_block c) empty_prune =
    \<lparr>prune_bind_mounts = conf_prune_bind_mounts c, prunefs = map (map to_upper) (conf_prunefs c),
     prunenames = conf_prunenames c, prunepaths = conf_prunepaths c\<rparr>"
  unfolding gen_conf_block_entries
  by (subst parse_entries) (use conf_entries_ok [OF assms] in
    \<open>auto simp add: conf_entries_def set_prune_def empty_prune_def str_def\<close>)

lemma gen_list_inject:
  assumes "gen_conf_block_string_list vs @ p = gen_conf_block_string_list ws @ q"
    and "block_strings vs" and "block_strings ws"
  shows "vs = ws" and "p = q"
  using arg_cong [OF assms(1), of read_values] assms(2,3) by (simp_all add: read_values_list)

lemma gen_conf_block_inject:
  assumes "gen_conf_block c = gen_conf_block d" and "block_conf c" and "block_conf d"
  shows "conf_prune_bind_mounts c = conf_prune_bind_mounts d" and "conf_prunefs c = conf_prunefs d"
    and "conf_prunenames c = conf_prunenames d" and "conf_prunepaths c = conf_prunepaths d"
    and "conf_metadata_hash_kind c = conf_metadata_hash_kind d" and "conf_history_depth c = conf_history_depth d"
proof -
  have b: "block_strings (conf_prunefs x)" "block_strings (conf_prunenames x)" "block_strings (conf_prunepaths x)"
    "block_strings [metadata_hash_kind_to_string (conf_metadata_hash_kind x)]"
    "block_strings [to_decimal (conf_history_depth x)]"
    if "block_conf x" for x
    using that hash_kind_string [of "conf_metadata_hash_kind x"] to_decimal_string [of "conf_history_depth x"]
    by (simp_all add: block_conf_def block_strings_def)
  note c = b [OF assms(2)] and d = b [OF assms(3)]
  have bool: "block_strings [if x then str ''1'' else str ''0'']" for x by (simp add: block_strings_def str_def)
  have e1: "gen_conf_block_string_list [if conf_prune_bind_mounts c then str ''1'' else str ''0''] @
      concat (map entry_text (tl (conf_entries c))) =
    gen_conf_block_string_list [if conf_prune_bind_mounts d then str ''1'' else str ''0''] @
      concat (map entry_text (tl (conf_entries d)))"
    using assms(1) by (simp add: gen_conf_block_entries conf_entries_def entry_text_def)
  from gen_list_inject(1) [OF this bool bool] show "conf_prune_bind_mounts c = conf_prune_bind_mounts d"
    by (simp add: str_def split: if_splits)
  from gen_list_inject(2) [OF e1 bool bool]
  have e2: "gen_conf_block_string_list (conf_prunefs c) @ concat (map entry_text (drop 2 (conf_entries c))) =
    gen_conf_block_string_list (conf_prunefs d) @ concat (map entry_text (drop 2 (conf_entries d)))"
    by (simp add: conf_entries_def entry_text_def)
  show "conf_prunefs c = conf_prunefs d" by (rule gen_list_inject(1) [OF e2 c(1) d(1)])
  from gen_list_inject(2) [OF e2 c(1) d(1)]
  have e3: "gen_conf_block_string_list (conf_prunenames c) @ concat (map entry_text (drop 3 (conf_entries c))) =
    gen_conf_block_string_list (conf_prunenames d) @ concat (map entry_text (drop 3 (conf_entries d)))"
    by (simp add: conf_entries_def entry_text_def)
  show "conf_prunenames c = conf_prunenames d" by (rule gen_list_inject(1) [OF e3 c(2) d(2)])
  from gen_list_inject(2) [OF e3 c(2) d(2)]
  have e4: "gen_conf_block_string_list (conf_prunepaths c) @ concat (map entry_text (drop 4 (conf_entries c))) =
    gen_conf_block_string_list (conf_prunepaths d) @ concat (map entry_text (drop 4 (conf_entries d)))"
    by (simp add: conf_entries_def entry_text_def)
  show "conf_prunepaths c = conf_prunepaths d" by (rule gen_list_inject(1) [OF e4 c(3) d(3)])
  from gen_list_inject(2) [OF e4 c(3) d(3)]
  have e5: "gen_conf_block_string_list [metadata_hash_kind_to_string (conf_metadata_hash_kind c)] @
      concat (map entry_text (drop 5 (conf_entries c))) =
    gen_conf_block_string_list [metadata_hash_kind_to_string (conf_metadata_hash_kind d)] @
      concat (map entry_text (drop 5 (conf_entries d)))"
    by (simp add: conf_entries_def entry_text_def)
  have "metadata_hash_kind_to_string (conf_metadata_hash_kind c) =
      metadata_hash_kind_to_string (conf_metadata_hash_kind d)"
    using gen_list_inject(1) [OF e5 c(4) d(4)] by simp
  then show "conf_metadata_hash_kind c = conf_metadata_hash_kind d"
    using assms(2,3) by (auto simp add: block_conf_def str_def)
  from gen_list_inject(2) [OF e5 c(4) d(4)]
  have e6: "gen_conf_block_string_list [to_decimal (conf_history_depth c)] @ [] =
    gen_conf_block_string_list [to_decimal (conf_history_depth d)] @ []"
    by (simp add: conf_entries_def entry_text_def)
  then show "conf_history_depth c = conf_history_depth d"
    using gen_list_inject(1) [OF e6 c(5) d(5)] by (metis decimal_to_decimal list.inject)
qed

text \<open>
  An empty path, as \<open>--add-single-prunepath ''\<close> gives it, ends the list in the block: the paths
  behind it are read as a key.
\<close>

lemma empty_prunepath_hides_others:
  "parse_conf_block (gen_conf_block (default_configuration\<lparr>conf_prunepaths := [[], str ''/tmp'']\<rparr>)) empty_prune =
   empty_prune"
proof -
  let ?c = "default_configuration\<lparr>conf_prunepaths := []\<rparr>"
  let ?es = "take 4 (conf_entries ?c) @ (str ''/tmp'', []) # drop 4 (conf_entries ?c)"
  have "gen_conf_block (default_configuration\<lparr>conf_prunepaths := [[], str ''/tmp'']\<rparr>) = concat (map entry_text ?es)"
    by (simp add: gen_conf_block_def conf_entries_def entry_text_def gen_conf_block_string_list_def str_def
        default_configuration_def)
  moreover have "parse_conf_block (concat (map entry_text ?es)) empty_prune =
      fold (\<lambda>e. set_prune (fst e) (snd e)) ?es empty_prune"
    by (rule parse_entries) (use hash_kind_string to_decimal_string in
      \<open>auto simp add: conf_entries_def default_configuration_def block_strings_def str_def\<close>)
  moreover have "fold (\<lambda>e. set_prune (fst e) (snd e)) ?es empty_prune = empty_prune"
    by (simp add: conf_entries_def set_prune_def empty_prune_def default_configuration_def str_def)
  ultimately show ?thesis by (simp only:)
qed

section \<open>What \<open>conf_prepare\<close> promises\<close>

text \<open>Arguments hold no zero byte, and no single path to prune is empty.\<close>

fun wf_option :: "cmd_option \<Rightarrow> bool" where
  "wf_option (Opt_prunefs s) \<longleftrightarrow> 0 \<notin> set s"
| "wf_option (Opt_prunenames s) \<longleftrightarrow> 0 \<notin> set s"
| "wf_option (Opt_prunepaths s) \<longleftrightarrow> 0 \<notin> set s"
| "wf_option (Opt_add_prunefs s) \<longleftrightarrow> 0 \<notin> set s"
| "wf_option (Opt_add_prunenames s) \<longleftrightarrow> 0 \<notin> set s"
| "wf_option (Opt_add_prunepaths s) \<longleftrightarrow> 0 \<notin> set s"
| "wf_option (Opt_add_single_prunepath s) \<longleftrightarrow> 0 \<notin> set s \<and> s \<noteq> []"
| "wf_option _ \<longleftrightarrow> True"

definition conf_ok :: "configuration \<Rightarrow> bool" where
  "conf_ok c \<longleftrightarrow> block_conf c \<and> 0 < conf_block_size c \<and> int (conf_history_depth c) \<le> INT_MAX"

definition prepared :: "configuration \<Rightarrow> bool" where
  "prepared c \<longleftrightarrow>
     conf_ok c \<and>
     sorted_wrt (<) (conf_prunefs c) \<and> map (map to_upper) (conf_prunefs c) = conf_prunefs c \<and>
     sorted_wrt (<) (conf_prunenames c) \<and>
     sorted_wrt (\<lambda>p q. path_key p < path_key q) (conf_prunepaths c) \<and>
     conf_scan_root c \<noteq> None \<and> conf_output c \<noteq> [] \<and> hd (conf_output c) = slash"

lemma space_words_strings: "0 \<notin> set v \<Longrightarrow> block_strings (space_words v)"
proof (induction v rule: space_words.induct)
  case (1 v)
  let ?v = "dropWhile is_space v"
  have sub: "set ?v \<subseteq> set v" using set_dropWhileD by fast
  show ?case
  proof (cases "?v = []")
    case False
    then have "\<not> is_space (hd ?v)" by (rule hd_dropWhile)
    with False have "takeWhile (\<lambda>c. \<not> is_space c) ?v \<noteq> []" by (cases ?v) auto
    moreover have "0 \<notin> set (takeWhile (\<lambda>c. \<not> is_space c) ?v)" using sub 1(2) set_takeWhileD by fast
    moreover have "0 \<notin> set (dropWhile (\<lambda>c. \<not> is_space c) ?v)" using sub 1(2) set_dropWhileD by fast
    ultimately show ?thesis using 1(1) [OF refl False]
      by (subst space_words.simps) (simp add: Let_def block_strings_def)
  qed (simp add: space_words.simps block_strings_def)
qed

lemma var_add_values_strings:
  "block_strings l \<Longrightarrow> 0 \<notin> set v \<Longrightarrow> block_strings (var_add_values l v)"
  using space_words_strings by (simp add: var_add_values_def block_strings_def)

lemma block_strings_Nil: "block_strings []"
  by (simp add: block_strings_def)

lemma c_str_no_nul: "0 \<notin> set (c_str s)"
  using set_takeWhileD by (fastforce simp add: c_str_def)

lemma parse_int_bound: "parse_int s = Some v \<Longrightarrow> int v \<le> INT_MAX"
  by (auto simp add: parse_int_def split: if_splits option.splits)

lemma parse_hash_kind_named: "parse_metadata_hash_kind s = Some k \<Longrightarrow> k \<in> {HashNone, XxHash64, Sha256}"
  by (auto simp add: parse_metadata_hash_kind_def Let_def split: if_splits)

lemmas conf_ok_simps = conf_ok_def block_conf_def var_add_values_strings block_strings_Nil c_str_no_nul

lemma default_configuration_ok: "conf_ok default_configuration"
  by (simp add: conf_ok_simps default_configuration_def)

lemma set_variable_ok: "conf_ok c \<Longrightarrow> set_variable var buf c = Some c' \<Longrightarrow> conf_ok c'"
  by (auto simp add: set_variable_def conf_ok_simps split: if_splits dest: parse_int_bound parse_hash_kind_named)

lemma uc_assignment_ok: "conf_ok c \<Longrightarrow> uc_assignment var s c = Inr (t, s', c') \<Longrightarrow> conf_ok c'"
  by (auto simp add: uc_assignment_def split: sum.splits if_splits option.splits) (erule (1) set_variable_ok)+

lemma uc_parse_ok: "conf_ok c \<Longrightarrow> uc_parse had s c = Inr c' \<Longrightarrow> conf_ok c'"
proof (induction "length (uc_file s)" arbitrary: had s c rule: less_induct)
  case less
  note u = less.prems(2) [unfolded uc_parse.simps [of had s c]]
  from u obtain t s1 where l: "uc_lex s = Inr (t, s1)" by (cases "uc_lex s") auto
  show ?case
  proof (cases "t = UCT_EOF \<or> t = UCT_EOL")
    case True
    with u l less.prems(1) less.hyps [OF uc_lex_shorter(2) [OF l]] show ?thesis by auto
  next
    case False
    with u l obtain t2 s2 c2 where a: "uc_assignment t s1 c = Inr (t2, s2, c2)"
      by (auto split: if_splits sum.splits)
    have "conf_ok c2" by (rule uc_assignment_ok [OF less.prems(1) a])
    moreover have "length (uc_file s2) < length (uc_file s)"
      using uc_lex_shorter(2) [OF l] uc_assignment_shorter [OF a] False by simp
    ultimately show ?thesis using u l a False less.hyps by (auto split: if_splits)
  qed
qed

lemma parse_updatedb_conf_ok: "parse_updatedb_conf text default_configuration = Inr c \<Longrightarrow> conf_ok c"
  using default_configuration_ok
  by (auto simp add: parse_updatedb_conf_def split: option.splits dest: uc_parse_ok)

text \<open>Which updates keep the invariant.\<close>

lemma conf_ok_other [simp]:
  "conf_ok (conf_verbose_update f c) = conf_ok c" "conf_ok (use_debug_update f c) = conf_ok c"
  "conf_ok (conf_debug_pruning_update f c) = conf_ok c" "conf_ok (conf_rehash_all_update f c) = conf_ok c"
  "conf_ok (conf_output_update e c) = conf_ok c" "conf_ok (conf_check_visibility_update f c) = conf_ok c"
  "conf_ok (conf_hash_max_size_update h c) = conf_ok c" "conf_ok (conf_compare_atime_update f c) = conf_ok c"
  "conf_ok (conf_scan_root_update g c) = conf_ok c" "conf_ok (conf_prune_bind_mounts_update f c) = conf_ok c"
  by (simp_all add: conf_ok_def block_conf_def)

lemma conf_ok_set:
  "conf_ok c \<Longrightarrow> block_strings (f (conf_prunefs c)) \<Longrightarrow> conf_ok (conf_prunefs_update f c)"
  "conf_ok c \<Longrightarrow> block_strings (f (conf_prunenames c)) \<Longrightarrow> conf_ok (conf_prunenames_update f c)"
  "conf_ok c \<Longrightarrow> block_strings (f (conf_prunepaths c)) \<Longrightarrow> conf_ok (conf_prunepaths_update f c)"
  "conf_ok c \<Longrightarrow> parse_metadata_hash_kind s = Some k \<Longrightarrow> conf_ok (conf_metadata_hash_kind_update (\<lambda>_. k) c)"
  "conf_ok c \<Longrightarrow> parse_int s = Some v \<Longrightarrow> conf_ok (conf_history_depth_update (\<lambda>_. v) c)"
  "conf_ok c \<Longrightarrow> 0 < v \<Longrightarrow> conf_ok (conf_block_size_update (\<lambda>_. v) c)"
  using parse_hash_kind_named [of s k] parse_int_bound [of s v]
  by (simp_all add: conf_ok_def block_conf_def)

lemma conf_ok_strings:
  "conf_ok c \<Longrightarrow> block_strings (conf_prunefs c)" "conf_ok c \<Longrightarrow> block_strings (conf_prunenames c)"
  "conf_ok c \<Longrightarrow> block_strings (conf_prunepaths c)"
  by (simp_all add: conf_ok_def block_conf_def)

lemma block_strings_snoc: "block_strings l \<Longrightarrow> v \<noteq> [] \<Longrightarrow> 0 \<notin> set v \<Longrightarrow> block_strings (l @ [v])"
  by (simp add: block_strings_def)

lemma parse_option_ok:
  "conf_ok (arg_conf s) \<Longrightarrow> wf_option opt \<Longrightarrow> parse_option realpath opt s = Inr s' \<Longrightarrow> conf_ok (arg_conf s')"
  by (cases opt)
    (auto simp add: or_fail_def split: if_splits option.splits
      intro!: conf_ok_set var_add_values_strings block_strings_Nil block_strings_snoc conf_ok_strings)

lemma parse_options_ok:
  "conf_ok (arg_conf s) \<Longrightarrow> list_all wf_option opts \<Longrightarrow> parse_options realpath opts s = Inr s' \<Longrightarrow>
   conf_ok (arg_conf s')"
  by (induction realpath opts s rule: parse_options.induct) (auto split: sum.splits dest: parse_option_ok)

lemma parse_arguments_ok:
  assumes "conf_ok c" and "list_all wf_option opts"
    and "parse_arguments realpath dbfile (Some (slash # cwd)) opts operands c = Inr c'"
  shows "conf_ok c'" and "conf_scan_root c' \<noteq> None" and "conf_output c' \<noteq> []" and "hd (conf_output c') = slash"
proof -
  from assms(3) obtain s where s: "parse_options realpath opts
      \<lparr>prunefs_changed = False, prunenames_changed = False, prunepaths_changed = False,
       got_prune_bind_mounts = False, got_visibility = False, arg_conf = c\<rparr> = Inr s"
    by (auto simp add: parse_arguments_def split: sum.splits)
  have "conf_ok (arg_conf s)" using parse_options_ok [OF _ assms(2) s] assms(1) by simp
  with assms(3) show "conf_ok c'" and "conf_scan_root c' \<noteq> None" and "conf_output c' \<noteq> []"
    and "hd (conf_output c') = slash"
    by (auto simp add: parse_arguments_def s Let_def prepend_cwd_def conf_ok_simps split: if_splits)
qed

lemma sorted_remdups_adj: "sorted xs \<Longrightarrow> sorted_wrt (<) (remdups_adj (xs :: 'a::linorder list))"
  by (induction xs rule: remdups_adj.induct) auto

lemma var_finish_result: "sorted_wrt (<) (var_finish l)" "set (var_finish l) = set l"
  by (simp_all add: var_finish_def sorted_remdups_adj)

lemma block_strings_set: "set l = set l' \<Longrightarrow> block_strings l = block_strings l'"
  by (simp add: block_strings_def list_all_iff)

lemma to_upper_nonzero: "0 = to_upper c \<longleftrightarrow> c = 0"
  by (auto simp add: to_upper_def word_le_nat_alt)

lemma to_upper_idem: "to_upper (to_upper c) = to_upper c"
proof -
  have "unat (c - 32) = unat c - 32" if "97 \<le> c"
    using that by (simp add: unat_sub word_le_nat_alt)
  then show ?thesis by (auto simp add: to_upper_def word_le_nat_alt)
qed

lemma block_strings_upper: "block_strings l \<Longrightarrow> block_strings (map (map to_upper) l)"
  by (auto simp add: block_strings_def list_all_iff image_iff to_upper_nonzero)

lemma path_sort_strict:
  assumes "distinct l"
  shows "sorted_wrt (\<lambda>p q. path_key p < path_key q) (string_list_dir_path_sort l)"
proof -
  have "distinct (map path_key (sort_key path_key l))"
    using assms by (auto simp add: distinct_map inj_on_def path_key_inject)
  then have "sorted_wrt (<) (map path_key (sort_key path_key l))"
    by (simp add: strict_sorted_iff)
  then show ?thesis by (simp add: string_list_dir_path_sort_def sorted_wrt_map)
qed

lemma conf_prepare_result:
  assumes "list_all wf_option opts"
    and "conf_prepare text realpath dbfile (Some (slash # cwd)) opts operands = Inr (c, block)"
  shows "prepared c" and "block = gen_conf_block (c\<lparr>conf_prunepaths := sort (conf_prunepaths c)\<rparr>)"
proof -
  from assms(2) obtain c0 c1 where c0: "parse_updatedb_conf text default_configuration = Inr c0"
    and c1: "parse_arguments realpath dbfile (Some (slash # cwd)) opts operands c0 = Inr c1"
    by (auto simp add: conf_prepare_def split: sum.splits)
  note ok = parse_arguments_ok [OF parse_updatedb_conf_ok [OF c0] assms(1) c1]
  have c: "c = c1\<lparr>conf_prunefs := var_finish (map (map to_upper) (conf_prunefs c1)),
      conf_prunenames := var_finish (conf_prunenames c1),
      conf_prunepaths := string_list_dir_path_sort (var_finish (conf_prunepaths c1))\<rparr>"
    and b: "block = gen_conf_block (c1\<lparr>conf_prunefs := var_finish (map (map to_upper) (conf_prunefs c1)),
      conf_prunenames := var_finish (conf_prunenames c1), conf_prunepaths := var_finish (conf_prunepaths c1)\<rparr>)"
    using assms(2) by (simp_all add: conf_prepare_def c0 c1 Let_def)
  have d: "distinct (var_finish l)" for l
    using var_finish_result(1) [of l] by (simp add: strict_sorted_iff)
  have up: "map to_upper x = x" if "x \<in> set (var_finish (map (map to_upper) l))" for x l
    using that by (auto simp add: var_finish_result(2) to_upper_idem)
  have "block_strings (var_finish l) = block_strings l" "block_strings (string_list_dir_path_sort l) = block_strings l" for l
    by (auto intro!: block_strings_set simp add: var_finish_result(2) string_list_dir_path_sort_def)
  then have "conf_ok c"
    using ok(1) by (simp add: c conf_ok_def block_conf_def block_strings_upper)
  moreover have "map (map to_upper) (conf_prunefs c) = conf_prunefs c"
    by (rule map_idI) (simp add: c up)
  moreover have "sorted_wrt (<) (conf_prunefs c)" "sorted_wrt (<) (conf_prunenames c)"
    "sorted_wrt (\<lambda>p q. path_key p < path_key q) (conf_prunepaths c)"
    by (simp_all add: c var_finish_result(1) path_sort_strict [OF d])
  moreover have "conf_scan_root c = conf_scan_root c1" "conf_output c = conf_output c1" by (simp_all add: c)
  ultimately show "prepared c" using ok(2-4) by (simp add: prepared_def)
  have "sort (string_list_dir_path_sort (var_finish l)) = var_finish l" for l
  proof (rule sorted_distinct_set_unique)
    show "sorted (var_finish l)" using var_finish_result(1) [of l] by (simp add: strict_sorted_iff)
  qed (use d in \<open>simp_all add: string_list_dir_path_sort_def\<close>)
  then show "block = gen_conf_block (c\<lparr>conf_prunepaths := sort (conf_prunepaths c)\<rparr>)"
    by (simp add: b c)
qed

section \<open>Properties\<close>





end
