(* ===== verification/Updatedb_History.thy ===== *)
theory Updatedb_History
  imports Metadata
begin

text \<open>
  The times and the history of \<open>src/updatedb.cpp\<close>: what a directory's time stamp is recorded as, the
  events of a run, and the runs that are kept. The clock is a parameter.
\<close>

section \<open>Times\<close>

record file_stat =
  st_dev :: u64
  st_mode :: u32
  st_uid :: u32
  st_gid :: u32
  st_size :: u64
  st_mtim :: dir_time
  st_ctim :: dir_time
  st_atim :: dir_time

definition S_ISDIR :: "u32 \<Rightarrow> bool" where "S_ISDIR m \<longleftrightarrow> m AND 0xF000 = 0x4000"
definition S_ISREG :: "u32 \<Rightarrow> bool" where "S_ISREG m \<longleftrightarrow> m AND 0xF000 = 0x8000"

text \<open>
  \<open>time_is_current\<close> keeps \<open>cache\<close> between the calls; \<open>tv\<close> is what \<open>gettimeofday\<close> would give
  (seconds and microseconds).
\<close>

definition time_is_current :: "u64 \<times> u32 \<Rightarrow> dir_time \<Rightarrow> dir_time \<Rightarrow> bool \<times> dir_time" where
  "time_is_current tv t cache =
     (if dir_time_less t cache then (False, cache)
      else
        let cache = \<lparr>sec = fst tv - 3, nsec = snd tv * 1000\<rparr>
        in (dir_time_ge t cache, cache))"

definition max_dir_time :: "dir_time \<Rightarrow> dir_time \<Rightarrow> dir_time" where
  "max_dir_time a b = (if dir_time_less a b then b else a)"

definition get_dirtime_from_stat :: "u64 \<times> u32 \<Rightarrow> file_stat \<Rightarrow> dir_time \<Rightarrow> dir_time \<times> dir_time" where
  "get_dirtime_from_stat tv buf cache =
     (let dt = max_dir_time (st_ctim buf) (st_mtim buf);
          (current, cache) = time_is_current tv dt cache
      in (if current then unknown_dir_time else dt, cache))"

definition metadata_from_stat :: "file_stat \<Rightarrow> file_metadata" where
  "metadata_from_stat buf =
     no_metadata\<lparr>enabled := True, mode := st_mode buf, uid := st_uid buf, gid := st_gid buf,
       fsize := st_size buf, mtime := st_mtim buf, ctime := st_ctim buf, atime := st_atim buf\<rparr>"

section \<open>Events and runs\<close>

text \<open>None is a run that records no events.\<close>

definition record_history_event ::
    "dir_time \<Rightarrow> event_kind \<Rightarrow> bytes \<Rightarrow> file_metadata \<Rightarrow> file_metadata \<Rightarrow>
     history_event list option \<Rightarrow> history_event list option" where
  "record_history_event now k path old new history =
     map_option (\<lambda>es. es @ [empty_event\<lparr>ekind := k, epath := path, event_time := now,
       old_metadata := old, new_metadata := new\<rparr>]) history"

definition run_starts :: "history_event list \<Rightarrow> nat list" where
  "run_starts events =
     (if ekind (hd events) \<noteq> RunMarker then [0] else []) @
     filter (\<lambda>i. ekind (events ! i) = RunMarker) [0..<length events]"

definition trim_history_runs :: "history_event list \<Rightarrow> int \<Rightarrow> history_event list" where
  "trim_history_runs events max_runs =
     (if max_runs \<le> 0 then []
      else if events = [] then events
      else
        let starts = run_starts events
        in if starts = [] then events
           else if sint (of_nat (length starts) :: 32 word) \<le> max_runs then events
           else drop (starts ! (length starts - nat max_runs)) events)"

text \<open>
  The end of \<open>main\<close>: what the database stores. \<open>sink\<close> holds the events of the scan, \<open>previous\<close> the
  history of the old database.
\<close>

definition history_to_store ::
    "nat \<Rightarrow> bool \<Rightarrow> dir_time \<Rightarrow> history_event list \<Rightarrow> history_event list \<Rightarrow> history_event list" where
  "history_to_store depth baseline_run now history_events previous =
     (if 0 < depth then
        let marker = empty_event\<lparr>ekind := RunMarker, event_time := now,
              epath := (if baseline_run then str ''baseline'' else [])\<rparr>;
            history_events = marker # history_events
        in if 1 < depth then trim_history_runs (previous @ history_events) (int depth)
           else trim_history_runs history_events (int depth)
      else [])"

text \<open>The specification: a history is a list of runs, each beginning at a marker.\<close>

fun runs :: "history_event list \<Rightarrow> history_event list list" where
  "runs [] = []"
| "runs (e # es) =
     (case runs es of
        [] \<Rightarrow> [[e]]
      | r # rs \<Rightarrow> if ekind (hd r) = RunMarker then [e] # r # rs else (e # r) # rs)"

definition latest :: "nat \<Rightarrow> 'a list \<Rightarrow> 'a list" where
  "latest n xs = drop (length xs - n) xs"

lemma concat_runs [simp]: "concat (runs es) = es"
  by (induction es) (auto split: list.splits)

lemma runs_nonempty: "r \<in> set (runs es) \<Longrightarrow> r \<noteq> []"
  by (induction es arbitrary: r) (auto split: list.splits if_splits)

lemma runs_eq_Nil [simp]: "runs es = [] \<longleftrightarrow> es = []"
  by (cases es) (auto split: list.splits)

lemma hd_runs: "es \<noteq> [] \<Longrightarrow> hd (hd (runs es)) = hd es"
  by (cases es) (auto split: list.splits)

lemma run_starts_Cons:
  "run_starts (e # es) =
    0 # map Suc (if es = [] then [] else if ekind (hd es) = RunMarker then run_starts es else tl (run_starts es))"
proof -
  have "filter (\<lambda>i. ekind ((e # es) ! i) = RunMarker) [0..<length (e # es)] =
      (if ekind e = RunMarker then [0] else []) @ map Suc (filter (\<lambda>i. ekind (es ! i) = RunMarker) [0..<length es])"
    by (simp add: upt_conv_Cons filter_map o_def map_Suc_upt [symmetric] del: upt_Suc)
  then show ?thesis by (cases es) (simp_all add: run_starts_def)
qed

lemma run_starts_runs:
  "run_starts es = map (\<lambda>k. length (concat (take k (runs es)))) [0..<length (runs es)]" if "es \<noteq> []"
  using that
proof (induction es)
  case (Cons e es)
  show ?case
  proof (cases "es = []")
    case True
    then show ?thesis by (simp add: run_starts_Cons)
  next
    case False
    then obtain r rs where rs: "runs es = r # rs" by (cases "runs es") auto
    have hd: "hd r = hd es" using hd_runs [OF False] rs by simp
    have IH: "run_starts es = map (\<lambda>k. length (concat (take k (r # rs)))) [0..<Suc (length rs)]"
      using Cons.IH [OF False] by (simp only: rs list.size) simp
    have split: "[0..<Suc (length rs)] = 0 # map Suc [0..<length rs]"
      "[0..<Suc (Suc (length rs))] = 0 # map Suc [0..<Suc (length rs)]"
      by (simp_all add: map_Suc_upt upt_conv_Cons del: upt_Suc)
    show ?thesis
    proof (cases "ekind (hd es) = RunMarker")
      case True
      then have "runs (e # es) = [e] # r # rs" by (simp add: rs hd)
      then show ?thesis
        using True False by (simp only: run_starts_Cons IH) (simp add: o_def split(2) rs hd del: upt_Suc)
    next
      case m: False
      then have "runs (e # es) = (e # r) # rs" by (simp add: rs hd)
      then show ?thesis
        using m False by (simp only: run_starts_Cons IH list.size split(1)) (simp add: o_def split(1) del: upt_Suc)
    qed
  qed
qed simp

lemma length_concat_nonempty: "(\<And>r. r \<in> set rs \<Longrightarrow> r \<noteq> []) \<Longrightarrow> length rs \<le> length (concat rs)"
proof (induction rs)
  case (Cons r rs)
  have "0 < length r" using Cons.prems by simp
  moreover have "length rs \<le> length (concat rs)" using Cons by simp
  ultimately have "1 + length rs \<le> length r + length (concat rs)" by linarith
  then show ?case by simp
qed simp

lemma trim_keeps_latest:
  assumes "length events < 2 ^ 31" and "0 < n"
  shows "trim_history_runs events (int n) = concat (latest n (runs events))"
proof (cases "events = []")
  case True
  then show ?thesis by (simp add: trim_history_runs_def latest_def)
next
  case False
  let ?rs = "runs events"
  have len: "length (run_starts events) = length ?rs" using run_starts_runs [OF False] by simp
  have "length ?rs \<le> length (concat ?rs)"
    by (rule length_concat_nonempty) (rule runs_nonempty)
  then have small: "length ?rs < 2 ^ 31" using assms(1) by simp
  then have s: "sint (of_nat (length ?rs) :: 32 word) = int (length ?rs)"
    by (simp add: sint_uint uint_nat unat_of_nat_small signed_take_bit_int_eq_self)
  have ne: "run_starts events \<noteq> []" using len False by (metis length_0_conv runs_eq_Nil)
  show ?thesis
  proof (cases "length ?rs \<le> n")
    case True
    with False ne s len assms(2) show ?thesis by (simp add: trim_history_runs_def latest_def)
  next
    case more: False
    let ?k = "length ?rs - n"
    have k: "?k < length ?rs" using more assms(2) by simp
    have "events = concat (take ?k ?rs) @ concat (drop ?k ?rs)"
      by (metis append_take_drop_id concat_append concat_runs)
    then have "drop (length (concat (take ?k ?rs))) events = concat (drop ?k ?rs)"
      by (metis append_eq_conv_conj)
    moreover have "run_starts events ! (length (run_starts events) - n) = length (concat (take ?k ?rs))"
      unfolding len using k by (simp add: run_starts_runs [OF False])
    ultimately show ?thesis
      using False ne s len assms(2) more by (simp add: trim_history_runs_def Let_def latest_def)
  qed
qed

section \<open>Runs one after the other\<close>

lemma runs_append_marker:
  "ekind m = RunMarker \<Longrightarrow> runs (xs @ m # es) = runs xs @ runs (m # es)"
proof (induction xs)
  case (Cons x xs)
  obtain r rs where r: "runs (m # es) = r # rs" "hd r = m"
    using hd_runs [of "m # es"] runs_eq_Nil [of "m # es"] by (metis list.exhaust list.sel(1) list.distinct(1))
  show ?case
  proof (cases "runs xs")
    case Nil
    with Cons r show ?thesis by simp
  next
    case (Cons q qs)
    then show ?thesis using Cons.IH Cons.prems by simp
  qed
qed simp

lemma runs_concat_drop: "runs (concat (drop k (runs es))) = drop k (runs es)"
proof (induction es arbitrary: k)
  case (Cons e es)
  show ?case
  proof (cases k)
    case 0
    then show ?thesis by (simp only: drop_0 concat_runs)
  next
    case (Suc j)
    then show ?thesis
      using Cons.IH [of j] Cons.IH [of k] by (auto split: list.splits)
  qed
qed simp

lemma runs_single: "\<forall>e \<in> set es. ekind e \<noteq> RunMarker \<Longrightarrow> runs (m # es) = [m # es]"
  by (induction es arbitrary: m) (auto split: list.splits)

lemma latest_append_latest: "latest n (latest n xs @ [x]) = latest n (xs @ [x])"
proof (cases n)
  case (Suc k)
  show ?thesis
  proof (cases "length xs < n")
    case False
    then have "length xs - (length xs - n + k) + (length xs - n) = length xs - k" using Suc by simp
    with False Suc show ?thesis by (simp add: latest_def)
  qed (simp add: latest_def)
qed (simp add: latest_def)

definition run_marker :: "bool \<Rightarrow> dir_time \<Rightarrow> history_event" where
  "run_marker baseline now =
     empty_event\<lparr>ekind := RunMarker, event_time := now, epath := (if baseline then str ''baseline'' else [])\<rparr>"

lemma history_to_store_runs:
  assumes "\<forall>e \<in> set es. ekind e \<noteq> RunMarker" and "length previous + length es + 1 < 2 ^ 31"
  shows "runs (history_to_store depth baseline now es previous) =
    latest depth (runs previous @ [run_marker baseline now # es])"
proof -
  let ?m = "run_marker baseline now"
  have m: "ekind ?m = RunMarker" by (simp add: run_marker_def)
  note r = runs_append_marker [OF m, of previous es, unfolded runs_single [OF assms(1)]]
  consider "depth = 0" | "depth = 1" | "1 < depth" by linarith
  then show ?thesis
  proof cases
    case 1
    then show ?thesis by (simp add: history_to_store_def latest_def)
  next
    case 2
    then have "history_to_store depth baseline now es previous = trim_history_runs (?m # es) (int 1)"
      by (simp add: history_to_store_def run_marker_def)
    also have "\<dots> = concat (latest 1 (runs (?m # es)))"
      using assms(2) by (intro trim_keeps_latest) simp_all
    finally show ?thesis using 2 runs_single [OF assms(1), of ?m] by (simp add: latest_def)
  next
    case 3
    then have "history_to_store depth baseline now es previous = trim_history_runs (previous @ ?m # es) (int depth)"
      by (simp add: history_to_store_def run_marker_def)
    also have "\<dots> = concat (latest depth (runs (previous @ ?m # es)))"
      using assms(2) 3 by (intro trim_keeps_latest) simp_all
    finally have h: "history_to_store depth baseline now es previous =
        concat (latest depth (runs (previous @ ?m # es)))" .
    show ?thesis unfolding h unfolding latest_def unfolding runs_concat_drop unfolding r ..
  qed
qed

text \<open>The runs of updatedb one after the other, each with what it found.\<close>

fun stored_history :: "nat \<Rightarrow> (bool \<times> dir_time \<times> history_event list) list \<Rightarrow> history_event list \<Rightarrow> history_event list" where
  "stored_history depth [] previous = previous"
| "stored_history depth ((baseline, now, es) # rs) previous =
     stored_history depth rs (history_to_store depth baseline now es previous)"

abbreviation run_of :: "bool \<times> dir_time \<times> history_event list \<Rightarrow> history_event list" where
  "run_of r \<equiv> run_marker (fst r) (fst (snd r)) # snd (snd r)"

lemma stored_history_runs:
  assumes "\<forall>r \<in> set rs. \<forall>e \<in> set (snd (snd r)). ekind e \<noteq> RunMarker"
    and "length previous + length (concat (map run_of rs)) < 2 ^ 31"
    and "runs previous = latest depth xs"
  shows "runs (stored_history depth rs previous) = latest depth (xs @ map run_of rs)"
  using assms
proof (induction rs arbitrary: previous xs)
  case (Cons r rs)
  obtain baseline now es where r: "r = (baseline, now, es)" by (cases r) auto
  let ?h = "history_to_store depth baseline now es previous"
  have es: "\<forall>e \<in> set es. ekind e \<noteq> RunMarker" "length previous + length es + 1 < 2 ^ 31"
    using Cons.prems(1,2) r by simp_all
  have h: "runs ?h = latest depth (xs @ [run_of r])"
    unfolding history_to_store_runs [OF es] Cons.prems(3) latest_append_latest r by simp
  have "length ?h = length (concat (runs ?h))" by simp
  also have "\<dots> \<le> length previous + length es + 1"
  proof -
    have "concat (runs ?h) = concat (drop (length (runs previous @ [run_of r]) - depth) (runs previous @ [run_of r]))"
      unfolding history_to_store_runs [OF es] latest_def r by simp
    moreover have "length (concat (drop k ls)) \<le> length (concat ls)" for k and ls :: "history_event list list"
      by (metis append_take_drop_id concat_append le_add2 length_append)
    moreover have "length (concat (runs previous @ [run_of r])) = length previous + length es + 1" by (simp add: r)
    ultimately show ?thesis by metis
  qed
  finally have "length ?h + length (concat (map run_of rs)) < 2 ^ 31" using Cons.prems(2) r by simp
  from Cons.IH [OF _ this h] Cons.prems(1) show ?case by (simp add: r)
qed simp

section \<open>Recorded times\<close>

definition before :: "dir_time \<Rightarrow> dir_time \<Rightarrow> bool" where
  "before a b \<longleftrightarrow> sint (sec a) < sint (sec b) \<or> sint (sec a) = sint (sec b) \<and> sint (nsec a) < sint (nsec b)"

lemma dir_time_less_before [simp]: "dir_time_less a b = before a b"
  by (auto simp add: dir_time_less_def before_def word_sless_alt dest: signed_word_eqI)

lemma before_trans: "before a b \<Longrightarrow> before b c \<Longrightarrow> before a c"
  by (auto simp add: before_def)

lemma before_not_after: "before a b \<Longrightarrow> \<not> before c b \<Longrightarrow> before a c"
  by (auto simp add: before_def)

definition three_seconds_before :: "u64 \<times> u32 \<Rightarrow> dir_time" where
  "three_seconds_before tv = \<lparr>sec = fst tv - 3, nsec = snd tv * 1000\<rparr>"

text \<open>Successive calls, each with the clock at that moment.\<close>

fun dirtimes :: "((u64 \<times> u32) \<times> file_stat) list \<Rightarrow> dir_time \<Rightarrow> dir_time list" where
  "dirtimes [] cache = []"
| "dirtimes ((tv, buf) # calls) cache =
     (let (dt, cache) = get_dirtime_from_stat tv buf cache in dt # dirtimes calls cache)"

lemma get_dirtime_old:
  assumes "\<not> before (three_seconds_before tv) cache" and "get_dirtime_from_stat tv buf cache = (dt, cache')"
  shows "dt = unknown_dir_time \<or> dt = max_dir_time (st_ctim buf) (st_mtim buf) \<and> before dt (three_seconds_before tv)"
    and "cache' = cache \<or> cache' = three_seconds_before tv"
proof -
  let ?dt = "max_dir_time (st_ctim buf) (st_mtim buf)"
  have "time_is_current tv ?dt cache =
      (if before ?dt cache then (False, cache)
       else (\<not> before ?dt (three_seconds_before tv), three_seconds_before tv))"
    by (simp add: time_is_current_def dir_time_ge_def three_seconds_before_def Let_def)
  then have "get_dirtime_from_stat tv buf cache = (if before ?dt cache then (?dt, cache)
      else (if before ?dt (three_seconds_before tv) then ?dt else unknown_dir_time, three_seconds_before tv))"
    by (simp add: get_dirtime_from_stat_def Let_def)
  note g = this [unfolded assms(2)]
  with before_not_after [of ?dt cache "three_seconds_before tv"] assms(1)
  show "dt = unknown_dir_time \<or> dt = ?dt \<and> before dt (three_seconds_before tv)"
    by (auto split: if_splits)
  from g show "cache' = cache \<or> cache' = three_seconds_before tv" by (auto split: if_splits)
qed

lemma dirtimes_old:
  assumes "sorted_wrt (\<lambda>a b. \<not> before (three_seconds_before (fst b)) (three_seconds_before (fst a))) calls"
    and "\<forall>call \<in> set calls. \<not> before (three_seconds_before (fst call)) cache"
  shows "list_all2 (\<lambda>call dt. dt = unknown_dir_time \<or>
      dt = max_dir_time (st_ctim (snd call)) (st_mtim (snd call)) \<and> before dt (three_seconds_before (fst call)))
    calls (dirtimes calls cache)"
  using assms
proof (induction calls arbitrary: cache)
  case (Cons call calls)
  obtain tv buf where call: "call = (tv, buf)" by (cases call)
  obtain dt cache' where g: "get_dirtime_from_stat tv buf cache = (dt, cache')"
    by (cases "get_dirtime_from_stat tv buf cache")
  have "\<not> before (three_seconds_before tv) cache" using Cons.prems(2) call by simp
  note old = get_dirtime_old [OF this g]
  have "\<forall>call \<in> set calls. \<not> before (three_seconds_before (fst call)) cache'"
    using old(2) Cons.prems call by auto
  with Cons.IH [of cache'] Cons.prems(1) old(1) show ?case by (simp add: call g)
qed simp

section \<open>Properties\<close>

lemma stored_history_latest:
  assumes "\<forall>r \<in> set rs. \<forall>e \<in> set (snd (snd r)). ekind e \<noteq> RunMarker"
    and "length (concat (map run_of rs)) < 2 ^ 31"
  shows "runs (stored_history depth rs []) = latest depth (map run_of rs)"
    and "stored_history depth rs [] = concat (latest depth (map run_of rs))"
proof -
  show "runs (stored_history depth rs []) = latest depth (map run_of rs)"
    using stored_history_runs [OF assms(1), of "[]" depth "[]"] assms(2) by (simp add: latest_def)
  then show "stored_history depth rs [] = concat (latest depth (map run_of rs))" by (metis concat_runs)
qed

text \<open>C29: The history keeps the latest runs. After any number of runs of updatedb with the same
  \<open>HISTORY_DEPTH\<close>, starting without a history, the database stores exactly the latest of them, as
  many as the depth says (none for 0), each with its marker and all its events.\<close>
theorem history_keeps_latest_runs:
  assumes "\<forall>r \<in> set rs. \<forall>e \<in> set (snd (snd r)). ekind e \<noteq> RunMarker"
    and "length (concat (map run_of rs)) < 2 ^ 31"
  shows "runs (stored_history depth rs []) = latest depth (map run_of rs) \<and>
    stored_history depth rs [] = concat (latest depth (map run_of rs))"
  using stored_history_latest [OF assms] by blast

lemma history_keeps_latest_runs_witness:
  "stored_history 2 [(True, unknown_dir_time, []), (False, unknown_dir_time, [empty_event]),
     (False, not_a_dir, [])] [] =
   [run_marker False unknown_dir_time, empty_event, run_marker False not_a_dir]"
  using history_keeps_latest_runs [of "[(True, unknown_dir_time, []), (False, unknown_dir_time, [empty_event]),
     (False, not_a_dir, [])]" 2]
  by (simp add: latest_def empty_event_def)

text \<open>C40: A directory's time stamp is only recorded when it is safely old. For successive calls, while
  the clock does not go back, every recorded time is the later of the directory's change and
  modification times and lies more than three seconds before the clock at that call; otherwise the
  time is recorded as unknown, so that the directory is read again by the next run. The cached
  limit never lets a younger time through.\<close>
theorem recorded_times_are_old:
  assumes "sorted_wrt (\<lambda>a b. \<not> before (three_seconds_before (fst b)) (three_seconds_before (fst a))) calls"
    and "\<forall>call \<in> set calls. \<not> before (three_seconds_before (fst call)) unknown_dir_time"
  shows "list_all2 (\<lambda>call dt. dt = unknown_dir_time \<or>
      dt = max_dir_time (st_ctim (snd call)) (st_mtim (snd call)) \<and> before dt (three_seconds_before (fst call)))
    calls (dirtimes calls unknown_dir_time)"
  by (rule dirtimes_old [OF assms])

definition sample_stat :: "u64 \<Rightarrow> file_stat" where
  "sample_stat s =
     \<lparr>st_dev = 1, st_mode = 0x4000, st_uid = 0, st_gid = 0, st_size = 0, st_mtim = \<lparr>sec = s, nsec = 0\<rparr>,
      st_ctim = \<lparr>sec = s, nsec = 0\<rparr>, st_atim = \<lparr>sec = s, nsec = 0\<rparr>\<rparr>"

lemma recorded_times_are_old_witness:
  "dirtimes [((1000, 0), sample_stat 900), ((1001, 0), sample_stat 999)] unknown_dir_time =
     [\<lparr>sec = 900, nsec = 0\<rparr>, unknown_dir_time] \<and>
   before \<lparr>sec = 900, nsec = 0\<rparr> (three_seconds_before (1000, 0))"
proof -
  let ?calls = "[((1000, 0), sample_stat 900), ((1001, 0), sample_stat 999)]"
  have d: "dirtimes ?calls unknown_dir_time = [\<lparr>sec = 900, nsec = 0\<rparr>, unknown_dir_time]"
    by (simp add: sample_stat_def get_dirtime_from_stat_def time_is_current_def dir_time_ge_def
        max_dir_time_def before_def unknown_dir_time_def Let_def)
  have "list_all2 (\<lambda>call dt. dt = unknown_dir_time \<or>
      dt = max_dir_time (st_ctim (snd call)) (st_mtim (snd call)) \<and> before dt (three_seconds_before (fst call)))
    ?calls (dirtimes ?calls unknown_dir_time)"
    by (rule recorded_times_are_old) (simp_all add: three_seconds_before_def before_def unknown_dir_time_def)
  from this [unfolded d] show ?thesis unfolding d by (auto simp add: unknown_dir_time_def)
qed

end
