(* ===== verification/Updatedb_Scan.thy ===== *)
theory Updatedb_Scan
  imports Updatedb_History Command_Line
begin

text \<open>
  The scan of updatedb (\<open>scan\<close> in \<open>src/updatedb.cpp\<close>): it walks the directory tree and the records of
  the old database side by side, takes over the listings of unchanged directories, records what
  changed, and gives every entry to the database builder. The file system is a tree of what the
  kernel answers; the old database is the sequence of records that are read from it, with the
  code's one-record push-back.
\<close>

section \<open>The old database\<close>

record existing_db =
  old_records :: "(bytes \<times> dir_time \<times> file_metadata) list"
  ends_in_error :: bool
  unread_record :: "bytes \<times> dir_time"
  unread_metadata_record :: file_metadata
  unread_metadata_valid :: bool
  last_metadata_record :: file_metadata
  db_eof :: bool
  db_error :: bool

definition open_existing_db :: "(bytes \<times> dir_time \<times> file_metadata) list \<Rightarrow> bool \<Rightarrow> existing_db" where
  "open_existing_db rs fails =
     \<lparr>old_records = rs, ends_in_error = fails, unread_record = ([], not_a_dir),
      unread_metadata_record = no_metadata, unread_metadata_valid = False,
      last_metadata_record = no_metadata, db_eof = False, db_error = False\<rparr>"

definition no_existing_db :: existing_db where
  "no_existing_db = (open_existing_db [] False)\<lparr>db_error := True\<rparr>"

definition unread :: "bytes \<times> dir_time \<Rightarrow> existing_db \<Rightarrow> existing_db" where
  "unread record db =
     db\<lparr>unread_record := record, unread_metadata_record := last_metadata_record db,
        unread_metadata_valid := True\<rparr>"

definition read_next :: "existing_db \<Rightarrow> (bytes \<times> dir_time) \<times> existing_db" where
  "read_next db =
     (if fst (unread_record db) \<noteq> [] then
        (unread_record db,
         if unread_metadata_valid db then
           db\<lparr>unread_record := ([], snd (unread_record db)),
              last_metadata_record := unread_metadata_record db, unread_metadata_valid := False\<rparr>
         else
           db\<lparr>unread_record := ([], snd (unread_record db)), last_metadata_record := no_metadata\<rparr>)
      else if db_eof db \<or> db_error db then (([], not_a_dir), db)
      else
        case old_records db of
          [] \<Rightarrow> (([], not_a_dir),
                if ends_in_error db then db\<lparr>db_error := True\<rparr> else db\<lparr>db_eof := True\<rparr>)
        | (path, dt, meta) # rs \<Rightarrow>
            ((path, dt),
             if path \<noteq> [] then db\<lparr>old_records := rs, last_metadata_record := meta\<rparr> else db\<lparr>old_records := rs\<rparr>))"

definition db_size :: "existing_db \<Rightarrow> nat" where
  "db_size db = 2 * length (old_records db) + (if fst (unread_record db) \<noteq> [] then 1 else 0)"

lemma read_next_smaller: "read_next db = ((path, dt), db') \<Longrightarrow> path \<noteq> [] \<Longrightarrow> db_size db' < db_size db"
  by (auto simp add: read_next_def db_size_def split: if_splits list.splits)

section \<open>The file system\<close>

datatype d_type = DT_DIR | DT_UNKNOWN | DT_other

text \<open>
  An entry: its name, the type that \<open>readdir\<close> gives, what \<open>fstatat\<close> and \<open>compute_file_hash_at\<close> give
  (None is a failure), and what opening it gives: a failure (out of file descriptors or not), or a
  directory with the result of \<open>fstat\<close>, of \<open>fs_allows_hashing\<close>, of \<open>fdopendir\<close>, and its entries.
\<close>

datatype fs_entry =
  Fs_entry (fs_name: bytes) (fs_type: d_type) (fs_stat: "file_stat option") (fs_digest: "metadata_hash option")
    (fs_open: fs_dir)
and fs_dir =
    Open_fails bool
  | Fs_dir (d_fstat: "file_stat option") (d_allows_hashing: bool) (d_fdopendir: bool) (d_entries: "fs_entry list")

text \<open>What stays the same during a scan; the mounts are those of \<open>/proc/mounts\<close>, with their types.\<close>

record scan_env =
  env_conf :: configuration
  env_is_bind_mount :: "bytes \<Rightarrow> bool"
  env_mounts :: "(bytes \<times> bytes) list option"
  env_gettimeofday :: "nat \<Rightarrow> u64 \<times> u32"
  env_realtime :: "nat \<Rightarrow> dir_time"

definition filesystem_is_excluded :: "scan_env \<Rightarrow> bytes \<Rightarrow> bool" where
  "filesystem_is_excluded env path =
     (case env_mounts env of
        None \<Rightarrow> False
      | Some mounts \<Rightarrow>
          (case find (\<lambda>me. fst me = path) mounts of
             None \<Rightarrow> False
           | Some me \<Rightarrow> map to_upper (snd me) \<in> set (conf_prunefs (env_conf env))))"

record entry =
  ename :: bytes
  is_directory :: bool
  efd :: "fs_dir option"
  edt :: dir_time
  db_modified :: dir_time
  edev :: u64
  emetadata :: file_metadata
  previous_metadata :: file_metadata
  existed_before :: bool
  matched_in_new_scan :: bool
  hash_allowed :: bool

definition new_entry :: entry where
  "new_entry =
     \<lparr>ename = [], is_directory = False, efd = None, edt = unknown_dir_time, db_modified = unknown_dir_time,
      edev = 0, emetadata = no_metadata, previous_metadata = no_metadata, existed_before = False,
      matched_in_new_scan = False, hash_allowed = True\<rparr>"

record scan_state =
  existing :: existing_db
  conf_prunepaths_index :: nat
  time_cache :: dir_time
  clock_calls :: nat
  realtime_calls :: nat
  added_files :: "file_record list"
  history_sink :: "history_event list option"

datatype scan_error = Out_of_descriptors | Stat_failed | Too_deep

section \<open>Reading the records of a directory\<close>

function skip_records :: "bytes \<Rightarrow> existing_db \<Rightarrow> existing_db" where
  "skip_records path db =
     (let (record, db') = read_next db
      in if fst record = [] then db'
         else if dir_path_cmp path (fst record) \<le> 0 then unread record db'
         else skip_records path db')"
  by pat_completeness auto
termination
proof (relation "measure (\<lambda>(path, db). db_size db)")
  fix path db x r db'
  assume "x = read_next db" "(r, db') = x" "fst r \<noteq> []"
  then show "((path, db'), path, db) \<in> measure (\<lambda>(path, db). db_size db)"
    by (cases r) (auto dest: read_next_smaller [OF sym])
qed simp

declare skip_records.simps [simp del]

definition path_plus_slash :: "bytes \<Rightarrow> bytes" where
  "path_plus_slash path = (if path \<noteq> [] \<and> last path = slash then path else path @ [slash])"

function read_directory :: "bytes \<Rightarrow> existing_db \<Rightarrow> entry list \<times> existing_db" where
  "read_directory pps db =
     (let (record, db') = read_next db
      in if fst record = [] then ([], db')
         else if take (length pps) (fst record) \<noteq> pps then ([], unread record db')
         else if slash \<in> set (drop (length pps) (fst record)) then ([], unread record db')
         else
           let e = new_entry\<lparr>ename := drop (length pps) (fst record), is_directory := 0 \<le>s sec (snd record),
                 db_modified := snd record, previous_metadata := last_metadata_record db', existed_before := True\<rparr>;
               (es, db'') = read_directory pps db'
           in (e # es, db''))"
  by pat_completeness auto
termination
proof (relation "measure (\<lambda>(path, db). db_size db)")
  fix pps db x r db' e
  assume "x = read_next db" "(r, db') = x" "fst r \<noteq> []"
  then show "((pps, db'), pps, db) \<in> measure (\<lambda>(path, db). db_size db)"
    by (cases r) (auto dest: read_next_smaller [OF sym])
qed simp

declare read_directory.simps [simp del]

section \<open>Reading a directory\<close>

definition listed_entry :: "fs_entry \<Rightarrow> entry" where
  "listed_entry x =
     new_entry\<lparr>ename := fs_name x,
       is_directory :=
         (if fs_type x = DT_UNKNOWN then (case fs_stat x of Some buf \<Rightarrow> S_ISDIR (st_mode buf) | None \<Rightarrow> False)
          else fs_type x = DT_DIR)\<rparr>"

definition skipped_name :: "bytes \<Rightarrow> bool" where
  "skipped_name name \<longleftrightarrow> name = str ''.'' \<or> name = str ''..'' \<or> name = []"

definition listed_entries :: "fs_entry list \<Rightarrow> entry list" where
  "listed_entries xs = sort_key ename (map listed_entry (filter (\<lambda>x. \<not> skipped_name (fs_name x)) xs))"

text \<open>
  The loop that loads the old entries: the new entries, the old ones that the iterator has passed,
  and those from the iterator on.
\<close>

fun seek_old :: "entry \<Rightarrow> entry list \<Rightarrow> entry \<times> entry list \<times> entry list" where
  "seek_old e [] = (e, [], [])"
| "seek_old e (d # ds) =
     (if ename e < ename d then (e, [], d # ds)
      else if ename e = ename d then
        (e\<lparr>db_modified := db_modified d, previous_metadata := previous_metadata d, existed_before := True\<rparr>,
         [], d\<lparr>matched_in_new_scan := True\<rparr> # ds)
      else let (e, passed, rest) = seek_old e ds in (e, d # passed, rest))"

fun load_old :: "entry list \<Rightarrow> entry list \<Rightarrow> entry list \<times> entry list" where
  "load_old [] ds = ([], ds)"
| "load_old (e # es) ds =
     (let (e, passed, rest) = seek_old e ds;
          (es, ds) = load_old es rest
      in (e # es, passed @ ds))"

section \<open>Status and digest of the entries\<close>

definition lookup_name :: "fs_entry list \<Rightarrow> bytes \<Rightarrow> fs_entry option" where
  "lookup_name xs name = find (\<lambda>x. fs_name x = name) xs"

definition get_dirtime :: "scan_env \<Rightarrow> file_stat \<Rightarrow> scan_state \<Rightarrow> dir_time \<times> scan_state" where
  "get_dirtime env buf s =
     (let (dt, cache) = get_dirtime_from_stat (env_gettimeofday env (clock_calls s)) buf (time_cache s)
      in (dt, s\<lparr>time_cache := cache, clock_calls := clock_calls s + 1\<rparr>))"

definition record_event ::
    "scan_env \<Rightarrow> event_kind \<Rightarrow> bytes \<Rightarrow> file_metadata \<Rightarrow> file_metadata \<Rightarrow> scan_state \<Rightarrow> scan_state" where
  "record_event env k path old new s =
     s\<lparr>history_sink := record_history_event (env_realtime env (realtime_calls s)) k path old new (history_sink s),
       realtime_calls := realtime_calls s + (if history_sink s = None then 0 else 1)\<rparr>"

definition reuse_previous_hash :: "configuration \<Rightarrow> file_metadata \<Rightarrow> file_metadata \<Rightarrow> bool" where
  "reuse_previous_hash c prev m \<longleftrightarrow>
     \<not> conf_rehash_all c \<and> enabled prev \<and> kind (hash prev) = conf_metadata_hash_kind c \<and>
     hlength (hash prev) \<noteq> 0 \<and> fsize prev = fsize m \<and> dir_time_equals (mtime prev) (mtime m) \<and>
     dir_time_equals (ctime prev) (ctime m)"

definition too_large :: "configuration \<Rightarrow> file_stat \<Rightarrow> bool" where
  "too_large c sb \<longleftrightarrow> conf_hash_max_size c \<noteq> 0 \<and> conf_hash_max_size c < st_size sb"

definition entry_metadata ::
    "configuration \<Rightarrow> bool \<Rightarrow> file_metadata \<Rightarrow> file_stat \<Rightarrow> metadata_hash option \<Rightarrow> file_metadata" where
  "entry_metadata c allowed prev sb digest =
     (let m = metadata_from_stat sb
      in if conf_metadata_hash_kind c \<noteq> HashNone \<and> S_ISREG (st_mode sb) then
           (if reuse_previous_hash c prev m then m\<lparr>hash := hash prev\<rparr>
            else if allowed \<and> \<not> too_large c sb then
              m\<lparr>hash := (case digest of Some h \<Rightarrow> h | None \<Rightarrow> no_hash)\<rparr>
            else m)
         else m)"

definition stat_entry ::
    "scan_env \<Rightarrow> bytes \<Rightarrow> bool \<Rightarrow> fs_entry list \<Rightarrow> entry \<Rightarrow> scan_state \<Rightarrow> entry \<times> scan_state" where
  "stat_entry env pps allowed xs e s =
     (case lookup_name xs (ename e) of
        None \<Rightarrow> (e, s)
      | Some x \<Rightarrow>
          (case fs_stat x of
             None \<Rightarrow> (e, s)
           | Some sb \<Rightarrow>
               let (dt, s) = (if S_ISDIR (st_mode sb) then get_dirtime env sb s else (not_a_dir, s));
                   m = entry_metadata (env_conf env) allowed (previous_metadata e) sb (fs_digest x);
                   e = e\<lparr>emetadata := m, edt := dt\<rparr>;
                   s = (if \<not> existed_before e then record_event env Added (pps @ ename e) no_metadata m s
                        else if \<not> metadata_equals m (previous_metadata e) (conf_compare_atime (env_conf env))
                        then record_event env Modified (pps @ ename e) (previous_metadata e) m s
                        else s)
               in (e, s)))"

fun stat_entries ::
    "scan_env \<Rightarrow> bytes \<Rightarrow> bool \<Rightarrow> fs_entry list \<Rightarrow> entry list \<Rightarrow> scan_state \<Rightarrow> entry list \<times> scan_state" where
  "stat_entries env pps allowed xs [] s = ([], s)"
| "stat_entries env pps allowed xs (e # es) s =
     (let (e, s) = stat_entry env pps allowed xs e s;
          (es, s) = stat_entries env pps allowed xs es s
      in (e # es, s))"

section \<open>Opening the subdirectories\<close>

definition open_entry ::
    "scan_env \<Rightarrow> bytes \<Rightarrow> u64 \<Rightarrow> bool \<Rightarrow> fs_entry list \<Rightarrow> entry \<Rightarrow> scan_state \<Rightarrow> scan_error + entry \<times> scan_state" where
  "open_entry env pps parent_dev allowed xs e s =
     (if \<not> is_directory e then Inr (e\<lparr>edt := not_a_dir\<rparr>, s)
      else if ename e \<in> set (conf_prunenames (env_conf env)) then Inr (e, s)
      else
        case map_option fs_open (lookup_name xs (ename e)) of
          None \<Rightarrow> Inr (e, s)
        | Some (Open_fails out_of_descriptors) \<Rightarrow> if out_of_descriptors then Inl Out_of_descriptors else Inr (e, s)
        | Some (Fs_dir fstat allows fdopendir ys) \<Rightarrow>
            let path = pps @ ename e
            in case fstat of
                 None \<Rightarrow> if filesystem_is_excluded env path then Inr (e, s) else Inl Stat_failed
               | Some buf \<Rightarrow>
                   if st_dev buf \<noteq> parent_dev \<and> filesystem_is_excluded env path then
                     Inr (e\<lparr>edev := st_dev buf, hash_allowed := allowed\<rparr>, s)
                   else
                     let below_allowed =
                           (if st_dev buf \<noteq> parent_dev \<and> allowed \<and> conf_metadata_hash_kind (env_conf env) \<noteq> HashNone
                            then allows else allowed);
                         (dt, s) = get_dirtime env buf s
                     in Inr (e\<lparr>efd := Some (Fs_dir fstat allows fdopendir ys), edev := st_dev buf,
                              hash_allowed := below_allowed, edt := dt\<rparr>, s))"

fun open_entries ::
    "scan_env \<Rightarrow> bytes \<Rightarrow> u64 \<Rightarrow> bool \<Rightarrow> fs_entry list \<Rightarrow> entry list \<Rightarrow> scan_state \<Rightarrow>
     scan_error + entry list \<times> scan_state" where
  "open_entries env pps parent_dev allowed xs [] s = Inr ([], s)"
| "open_entries env pps parent_dev allowed xs (e # es) s =
     (case open_entry env pps parent_dev allowed xs e s of
        Inl err \<Rightarrow> Inl err
      | Inr (e, s) \<Rightarrow>
          (case open_entries env pps parent_dev allowed xs es s of
             Inl err \<Rightarrow> Inl err
           | Inr (es, s) \<Rightarrow> Inr (e # es, s)))"

section \<open>The scan\<close>

fun record_removed :: "scan_env \<Rightarrow> bytes \<Rightarrow> entry list \<Rightarrow> scan_state \<Rightarrow> scan_state" where
  "record_removed env pps [] s = s"
| "record_removed env pps (d # ds) s =
     record_removed env pps ds
       (if \<not> matched_in_new_scan d
        then record_event env Removed (pps @ ename d) (previous_metadata d) no_metadata s else s)"

definition entry_record :: "bytes \<Rightarrow> entry \<Rightarrow> file_record" where
  "entry_record pps e = \<lparr>rpath = pps @ ename e, dir_timestamp = edt e, rmetadata = emetadata e\<rparr>"

text \<open>
  Whether the listing of the old database is taken over. The entries are then those of the old
  database, and none of them is left to be reported as removed.
\<close>

definition unchanged_directory :: "existing_db \<Rightarrow> dir_time \<Rightarrow> dir_time \<Rightarrow> bool" where
  "unchanged_directory db modified dbm \<longleftrightarrow>
     \<not> db_error db \<and> 0 <s sec dbm \<and> sec modified = sec dbm \<and> nsec modified = nsec dbm"

text \<open>\<open>depth\<close> bounds the depth of the tree below the directory.\<close>

fun scan ::
    "nat \<Rightarrow> scan_env \<Rightarrow> bytes \<Rightarrow> fs_dir \<Rightarrow> u64 \<Rightarrow> dir_time \<Rightarrow> dir_time \<Rightarrow> bool \<Rightarrow> scan_state \<Rightarrow>
     scan_error + scan_state"
and scan_subdirs :: "nat \<Rightarrow> scan_env \<Rightarrow> bytes \<Rightarrow> entry list \<Rightarrow> scan_state \<Rightarrow> scan_error + scan_state" where
  "scan 0 env path dir parent_dev modified dbm allowed s = Inl Too_deep"
| "scan (Suc depth) env path dir parent_dev modified dbm allowed s =
     (let (pruned, index) = string_list_contains_dir_path (conf_prunepaths (env_conf env)) (conf_prunepaths_index s) path;
          s = s\<lparr>conf_prunepaths_index := index\<rparr>
      in if pruned then Inr s
         else if conf_prune_bind_mounts (env_conf env) \<and> env_is_bind_mount env path then Inr s
         else
           let db = skip_records path (existing s);
               pps = path_plus_slash path;
               (db_entries, db) = read_directory pps db;
               s = s\<lparr>existing := db\<rparr>
           in if unchanged_directory db modified dbm then
                (case open_entries env pps parent_dev allowed (d_entries dir)
                        (fst (stat_entries env pps allowed (d_entries dir) db_entries s))
                        (snd (stat_entries env pps allowed (d_entries dir) db_entries s)) of
                   Inl err \<Rightarrow> Inl err
                 | Inr (es, s) \<Rightarrow>
                     scan_subdirs depth env pps es (s\<lparr>added_files := added_files s @ map (entry_record pps) es\<rparr>))
              else if \<not> d_fdopendir dir then Inr s
              else
                let (es, db_entries) = load_old (listed_entries (d_entries dir)) db_entries;
                    (es, s) = stat_entries env pps allowed (d_entries dir) es s
                in case open_entries env pps parent_dev allowed (d_entries dir) es s of
                     Inl err \<Rightarrow> Inl err
                   | Inr (es, s) \<Rightarrow>
                       let s = record_removed env pps db_entries s
                       in scan_subdirs depth env pps es
                            (s\<lparr>added_files := added_files s @ map (entry_record pps) es\<rparr>))"
| "scan_subdirs depth env pps [] s = Inr s"
| "scan_subdirs depth env pps (e # es) s =
     (case (is_directory e, efd e) of
        (True, Some dir) \<Rightarrow>
          (case scan depth env (pps @ ename e) dir (edev e) (edt e) (db_modified e) (hash_allowed e) s of
             Inl err \<Rightarrow> Inl err
           | Inr s \<Rightarrow> scan_subdirs depth env pps es s)
      | _ \<Rightarrow> scan_subdirs depth env pps es s)"

section \<open>A run\<close>

text \<open>
  \<open>main\<close> from the opened root directory on: the files that the database builder gets and the history
  that is stored. \<open>previous\<close> is the history of the old database.
\<close>

definition start_state :: "configuration \<Rightarrow> existing_db \<Rightarrow> scan_state" where
  "start_state c db =
     \<lparr>existing = db, conf_prunepaths_index = 0, time_cache = unknown_dir_time, clock_calls = 0,
      realtime_calls = 0, added_files = [],
      history_sink = (if conf_history_depth c = 0 \<or> db_error db then None else Some [])\<rparr>"

definition updatedb_run ::
    "scan_env \<Rightarrow> fs_dir \<Rightarrow> existing_db \<Rightarrow> history_event list \<Rightarrow> scan_error + file_record list \<times> history_event list" where
  "updatedb_run env root db previous =
     (case root of
        Open_fails _ \<Rightarrow> Inl Stat_failed
      | Fs_dir None allows fdopendir xs \<Rightarrow> Inl Stat_failed
      | Fs_dir (Some buf) allows fdopendir xs \<Rightarrow>
          let c = env_conf env;
              path = (case conf_scan_root c of None \<Rightarrow> str ''/'' | Some path \<Rightarrow> path);
              baseline_run = db_error db;
              root_hash_allowed = (conf_metadata_hash_kind c = HashNone \<or> allows);
              (dt, s) = get_dirtime env buf (start_state c db)
          in case scan (size root) env path root (st_dev buf) dt unknown_dir_time root_hash_allowed s of
               Inl err \<Rightarrow> Inl err
             | Inr s \<Rightarrow>
                 Inr (added_files s,
                   history_to_store (conf_history_depth c) baseline_run (env_realtime env (realtime_calls s))
                     (case history_sink s of None \<Rightarrow> [] | Some events \<Rightarrow> events) previous))"

end
