(* ===== verification/Old_Records.thy ===== *)
theory Old_Records
  imports Updatedb_Scan "HOL-Library.Sublist"
begin

text \<open>
  How \<open>scan\<close> finds its way through the records of the old database: the records come in groups, one
  for each directory, in the order of the directories; what \<open>skip_records\<close> and \<open>read_directory\<close> give
  is exactly the group of the directory that is scanned.
\<close>

section \<open>The order of records\<close>

text \<open>A directory is named by its path with a slash at the end.\<close>

abbreviation K :: "bytes \<Rightarrow> nat list" where "K \<equiv> path_key"

lemma key_cases:
  "K a < K b \<longleftrightarrow>
   (\<exists>c cs. b = a @ c # cs) \<or> (\<exists>p x y a' b'. a = p @ x # a' \<and> b = p @ y # b' \<and> byte_key x < byte_key y)"
proof (induction a arbitrary: b)
  case Nil
  then show ?case by (cases b) auto
next
  case (Cons x a)
  show ?case
  proof (cases b)
    case Nil
    then show ?thesis by auto
  next
    case b: (Cons y b')
    show ?thesis
    proof (cases "x = y")
      case True
      have "(\<exists>p u v a'' b''. x # a = p @ u # a'' \<and> b = p @ v # b'' \<and> byte_key u < byte_key v) \<longleftrightarrow>
          (\<exists>p u v a'' b''. a = p @ u # a'' \<and> b' = p @ v # b'' \<and> byte_key u < byte_key v)"
        (is "?l \<longleftrightarrow> ?r")
      proof
        assume ?l
        then obtain p u v a'' b'' where p: "x # a = p @ u # a''" "b = p @ v # b''" "byte_key u < byte_key v"
          by blast
        then obtain q where "p = x # q" using b True by (cases p) auto
        with p b True show ?r by auto
      next
        assume ?r
        then show ?l using b True by (metis append_Cons)
      qed
      with Cons.IH [of b'] b True show ?thesis by auto
    next
      case False
      have "K (x # a) < K b \<longleftrightarrow> byte_key x < byte_key y" using b False by auto
      also have "\<dots> \<longleftrightarrow> (\<exists>p u v a'' b''. x # a = p @ u # a'' \<and> b = p @ v # b'' \<and> byte_key u < byte_key v)"
        (is "?l \<longleftrightarrow> ?r")
      proof
        assume ?l
        then show ?r using b by (metis append_Nil)
      next
        assume ?r
        then obtain p u v a'' b'' where p: "x # a = p @ u # a''" "b = p @ v # b''" "byte_key u < byte_key v"
          by blast
        then have "p = []" using b False by (cases p) auto
        with p b show ?l by auto
      qed
      finally show ?thesis using b False by auto
    qed
  qed
qed

lemma prefix_key_le: "prefix a b \<Longrightarrow> K a \<le> K b"
proof -
  assume "prefix a b"
  then obtain c where "b = a @ c" by (auto simp add: prefix_def)
  then show "K a \<le> K b" using key_cases [of a b] by (cases c) (auto intro: less_imp_le)
qed

definition dir_name :: "bytes \<Rightarrow> bool" where
  "dir_name D \<longleftrightarrow> D \<noteq> [] \<and> last D = slash"

text \<open>The directory of a path as the code passes it: without the slash, except for the root.\<close>

definition path_of :: "bytes \<Rightarrow> bytes \<Rightarrow> bool" where
  "path_of path D \<longleftrightarrow> dir_name D \<and> path \<noteq> [] \<and> path_plus_slash path = D"

lemma path_of_cases:
  assumes "path_of path D"
  shows "path = D \<or> D = path @ [slash]"
  using assms by (auto simp add: path_of_def path_plus_slash_def split: if_splits)

lemma split_last_slash:
  assumes "a @ slash # n = b @ slash # m" and "slash \<notin> set n" and "slash \<notin> set m"
  shows "a = b" and "n = m"
proof -
  have "rev n @ slash # rev a = rev m @ slash # rev b"
    using arg_cong [OF assms(1), of rev] by simp
  moreover have "takeWhile (\<lambda>c. c \<noteq> slash) (rev k @ slash # r) = rev k" if "slash \<notin> set k" for k r
    using that by (subst takeWhile_append2) auto
  ultimately have "rev n = rev m" using assms(2,3) by metis
  then show "n = m" by simp
  with assms(1) show "a = b" by simp
qed

lemma dir_name_split: "dir_name D \<Longrightarrow> \<exists>d. D = d @ [slash]"
  by (auto simp add: dir_name_def) (metis append_butlast_last_id)

lemma record_before:
  assumes "path_of path D" and "K D' < K D" and "\<not> prefix D' D"
  shows "K (D' @ n) < K path"
proof -
  from assms(2,3) obtain p x y a b where d: "D' = p @ x # a" "D = p @ y # b" "byte_key x < byte_key y"
    by (auto simp add: key_cases prefix_def)
  have "y \<noteq> slash" using d(3) by auto
  obtain b' where "path = p @ y # b'"
  proof (cases "path = D")
    case False
    then have e: "p @ y # b = path @ [slash]" using path_of_cases [OF assms(1)] d(2) by simp
    then have "b \<noteq> []" using \<open>y \<noteq> slash\<close> by auto
    then have "path = p @ y # butlast b" using arg_cong [OF e, of butlast] by (simp add: butlast_append)
    then show ?thesis using that by blast
  qed (use d that in blast)
  then show ?thesis unfolding key_cases d(1) using d(3) by (metis append_Cons append_assoc)
qed

lemma record_not_before:
  assumes "path_of path D" and "K D \<le> K D'"
  shows "K path \<le> K (D' @ n)"
proof -
  have pD: "prefix path D" using path_of_cases [OF assms(1)] by auto
  show ?thesis
  proof (cases "prefix D D'")
    case True
    then have "prefix path (D' @ n)" using pD by (meson prefix_order.trans prefix_prefix)
    then show ?thesis by (rule prefix_key_le)
  next
    case False
    then have "K D < K D'" using assms(2) by (metis order_le_less path_key_inject prefix_order.refl)
    with False obtain p x y a b where d: "D = p @ x # a" "D' = p @ y # b" "byte_key x < byte_key y"
      by (auto simp add: key_cases prefix_def)
    from path_of_cases [OF assms(1)] show ?thesis
    proof
      assume "path = D"
      then have "K path < K (D' @ n)" unfolding key_cases using d by (metis append_Cons append_assoc)
      then show ?thesis by simp
    next
      assume D: "D = path @ [slash]"
      show ?thesis
      proof (cases "a = []")
        case True
        then have "path = p" using d(1) D by simp
        then have "prefix path (D' @ n)" using d(2) by simp
        then show ?thesis by (rule prefix_key_le)
      next
        case False
        have "p @ x # a = path @ [slash]" using d(1) D by simp
        then have "path = p @ x # butlast a" using False by (metis butlast_append butlast_snoc butlast.simps(2) list.distinct(1))
        then have "K path < K (D' @ n)" unfolding key_cases using d by (metis append_Cons append_assoc)
        then show ?thesis by simp
      qed
    qed
  qed
qed

lemma in_directory:
  assumes "dir_name D" and "dir_name D'" and "slash \<notin> set n"
  shows "take (length D) (D' @ n) = D \<and> slash \<notin> set (drop (length D) (D' @ n)) \<longleftrightarrow> D' = D"
proof
  assume l: "take (length D) (D' @ n) = D \<and> slash \<notin> set (drop (length D) (D' @ n))"
  obtain d d' where d: "D = d @ [slash]" "D' = d' @ [slash]" using assms(1,2) dir_name_split by blast
  let ?m = "drop (length D) (D' @ n)"
  have "D' @ n = D @ ?m" using l by (metis append_take_drop_id)
  then have "d' @ slash # n = d @ slash # ?m" unfolding d by simp
  from split_last_slash(1) [OF this assms(3)] l have "d' = d" by simp
  then show "D' = D" by (simp add: d)
qed (use assms(3) in simp)

section \<open>The reader\<close>

type_synonym old_record = "bytes \<times> dir_time \<times> file_metadata"

text \<open>The records that the database still gives, the pushed-back one included.\<close>

definition db_holds :: "existing_db \<Rightarrow> old_record list \<Rightarrow> bool" where
  "db_holds db rs \<longleftrightarrow>
     (\<forall>r \<in> set rs. fst r \<noteq> []) \<and> (rs \<noteq> [] \<longrightarrow> \<not> db_eof db \<and> \<not> db_error db) \<and>
     (db_eof db \<longrightarrow> \<not> ends_in_error db) \<and>
     (if fst (unread_record db) \<noteq> [] then
        unread_metadata_valid db \<and>
        rs = (fst (unread_record db), snd (unread_record db), unread_metadata_record db) # old_records db
      else rs = old_records db)"

abbreviation at_end :: "existing_db \<Rightarrow> bool" where
  "at_end db \<equiv> (if ends_in_error db then db_error db else db_eof db \<or> db_error db)"

lemma read_next_end:
  assumes "db_holds db []"
  shows "\<exists>dt db'. read_next db = (([], dt), db') \<and> db_holds db' [] \<and> at_end db' \<and>
    ends_in_error db' = ends_in_error db \<and> (db_error db \<longrightarrow> db_error db')"
  using assms by (auto simp add: db_holds_def read_next_def split: if_splits)

lemma read_next_record:
  assumes "db_holds db ((p, t, m) # rs)"
  shows "\<exists>db'. read_next db = ((p, t), db') \<and> db_holds db' rs \<and> db_holds (unread (p, t) db') ((p, t, m) # rs) \<and>
    last_metadata_record db' = m \<and> ends_in_error db' = ends_in_error db \<and> fst (unread_record db') = [] \<and>
    (db_error db' \<longrightarrow> db_error db)"
proof (cases "fst (unread_record db) = []")
  case True
  then have "old_records db = (p, t, m) # rs" "p \<noteq> []" using assms by (auto simp add: db_holds_def)
  with True assms show ?thesis
    by (intro exI [of _ "db\<lparr>old_records := rs, last_metadata_record := m\<rparr>"])
      (simp add: db_holds_def read_next_def unread_def)
next
  case False
  then have u: "unread_record db = (p, t)" "unread_metadata_record db = m" "old_records db = rs"
    "unread_metadata_valid db" "p \<noteq> []"
    using assms by (auto simp add: db_holds_def prod_eq_iff)
  with False assms show ?thesis
    by (intro exI [of _ "db\<lparr>unread_record := ([], t), last_metadata_record := m, unread_metadata_valid := False\<rparr>"])
      (simp add: db_holds_def read_next_def unread_def)
qed

lemma unread_same [simp]: "ends_in_error (unread r db) = ends_in_error db"
  by (simp add: unread_def)

definition group_records :: "bytes \<times> old_record list \<Rightarrow> old_record list" where
  "group_records g = map (\<lambda>(n, t, m). (fst g @ n, t, m)) (snd g)"

definition old_entry :: "old_record \<Rightarrow> entry" where
  "old_entry r =
     new_entry\<lparr>ename := fst r, is_directory := 0 \<le>s sec (fst (snd r)), db_modified := fst (snd r),
       previous_metadata := snd (snd r), existed_before := True\<rparr>"

lemma skip_records_holds:
  assumes "db_holds db (rs1 @ rs2)" and "\<forall>r \<in> set rs1. K (fst r) < K path"
    and "rs2 = [] \<or> K path \<le> K (fst (hd rs2))"
  shows "db_holds (skip_records path db) rs2" and "rs2 = [] \<Longrightarrow> at_end (skip_records path db)"
    and "ends_in_error (skip_records path db) = ends_in_error db"
proof -
  have "db_holds (skip_records path db) rs2 \<and> (rs2 = [] \<longrightarrow> at_end (skip_records path db)) \<and>
    ends_in_error (skip_records path db) = ends_in_error db"
    using assms(1,2)
  proof (induction rs1 arbitrary: db)
    case Nil
    show ?case
    proof (cases rs2)
      case e: Nil
      with Nil read_next_end [of db] obtain dt db' where r: "read_next db = (([], dt), db')" "db_holds db' []"
        "at_end db'" "ends_in_error db' = ends_in_error db" by auto
      then have "skip_records path db = db'" by (subst skip_records.simps) simp
      with e r show ?thesis by simp
    next
      case (Cons r rs)
      obtain p t m where r: "r = (p, t, m)" by (cases r)
      with Nil Cons read_next_record [of db p t m rs] obtain db' where n: "read_next db = ((p, t), db')"
        "db_holds (unread (p, t) db') (r # rs)" "ends_in_error db' = ends_in_error db" by auto
      have "p \<noteq> []" using Nil Cons r by (simp add: db_holds_def)
      moreover have "dir_path_cmp path p \<le> 0"
        using assms(3) Cons r dir_path_cmp_greater [of path p] by (simp add: not_less [symmetric])
      ultimately have "skip_records path db = unread (p, t) db'" by (subst skip_records.simps) (simp add: n)
      with n Cons show ?thesis by simp
    qed
  next
    case (Cons r rs1)
    obtain p t m where r: "r = (p, t, m)" by (cases r)
    with Cons.prems(1) read_next_record [of db p t m "rs1 @ rs2"] obtain db' where n: "read_next db = ((p, t), db')"
      "db_holds db' (rs1 @ rs2)" "ends_in_error db' = ends_in_error db" by auto
    have "p \<noteq> []" using Cons.prems(1) r by (simp add: db_holds_def)
    moreover have "\<not> dir_path_cmp path p \<le> 0"
      using Cons.prems(2) r dir_path_cmp_greater [of path p] by simp
    ultimately have "skip_records path db = skip_records path db'" by (subst skip_records.simps) (simp add: n)
    with Cons.IH [OF n(2)] Cons.prems(2) n(3) show ?case by simp
  qed
  then show "db_holds (skip_records path db) rs2" and "rs2 = [] \<Longrightarrow> at_end (skip_records path db)"
    and "ends_in_error (skip_records path db) = ends_in_error db" by auto
qed

lemma read_directory_holds:
  assumes "db_holds db (group_records (D, ns) @ rs2)" and "dir_name D" and "\<forall>r \<in> set ns. slash \<notin> set (fst r)"
    and "rs2 = [] \<or>
      \<not> (take (length D) (fst (hd rs2)) = D \<and> slash \<notin> set (drop (length D) (fst (hd rs2))))"
  shows "\<exists>db'. read_directory D db = (map old_entry ns, db') \<and> db_holds db' rs2 \<and> (rs2 = [] \<longrightarrow> at_end db') \<and>
    ends_in_error db' = ends_in_error db"
  using assms(1,3)
proof (induction ns arbitrary: db)
  case Nil
  show ?case
  proof (cases rs2)
    case e: Nil
    with Nil read_next_end [of db] obtain dt db' where r: "read_next db = (([], dt), db')" "db_holds db' []"
      "at_end db'" "ends_in_error db' = ends_in_error db" by (auto simp add: group_records_def)
    then show ?thesis by (subst read_directory.simps) (simp add: e)
  next
    case (Cons r rs)
    obtain p t m where r: "r = (p, t, m)" by (cases r)
    with Nil Cons read_next_record [of db p t m rs] obtain db' where n: "read_next db = ((p, t), db')"
      "db_holds (unread (p, t) db') (r # rs)" "ends_in_error db' = ends_in_error db"
      by (auto simp add: group_records_def)
    have "p \<noteq> []" using Nil Cons r by (simp add: db_holds_def group_records_def)
    moreover have "take (length D) p \<noteq> D \<or> slash \<in> set (drop (length D) p)" using assms(4) Cons r by auto
    ultimately have "read_directory D db = ([], unread (p, t) db')" by (subst read_directory.simps) (auto simp add: n)
    with n Cons show ?thesis by simp
  qed
next
  case (Cons r ns)
  obtain p t m where r: "r = (p, t, m)" by (cases r)
  with Cons.prems(1) read_next_record [of db "D @ p" t m "group_records (D, ns) @ rs2"] obtain db' where
    n: "read_next db = ((D @ p, t), db')" "db_holds db' (group_records (D, ns) @ rs2)" "last_metadata_record db' = m"
      "ends_in_error db' = ends_in_error db" by (auto simp add: group_records_def)
  from Cons.IH [OF n(2)] Cons.prems(2) obtain db'' where rec: "read_directory D db' = (map old_entry ns, db'')"
    "db_holds db'' rs2" "rs2 = [] \<longrightarrow> at_end db''" "ends_in_error db'' = ends_in_error db'" by auto
  have "D \<noteq> []" using assms(2) by (simp add: dir_name_def)
  then have "read_directory D db = (map old_entry (r # ns), db'')"
    using Cons.prems(2) r by (subst read_directory.simps) (simp add: n rec old_entry_def)
  with rec n(4) show ?case by simp
qed

section \<open>Groups\<close>

definition wf_groups :: "(bytes \<times> old_record list) list \<Rightarrow> bool" where
  "wf_groups gs \<longleftrightarrow>
     sorted_wrt (\<lambda>g h. K (fst g) < K (fst h)) gs \<and>
     (\<forall>g \<in> set gs. dir_name (fst g) \<and> snd g \<noteq> [] \<and> sorted_wrt (<) (map fst (snd g)) \<and>
       (\<forall>r \<in> set (snd g). fst r \<noteq> [] \<and> slash \<notin> set (fst r)))"

definition all_records :: "(bytes \<times> old_record list) list \<Rightarrow> old_record list" where
  "all_records gs = concat (map group_records gs)"

definition group_of :: "(bytes \<times> old_record list) list \<Rightarrow> bytes \<Rightarrow> old_record list" where
  "group_of gs D = (case map_of gs D of None \<Rightarrow> [] | Some ns \<Rightarrow> ns)"

abbreviation groups_after :: "bytes \<Rightarrow> (bytes \<times> old_record list) list \<Rightarrow> (bytes \<times> old_record list) list" where
  "groups_after D gs \<equiv> filter (\<lambda>g. K D < K (fst g)) gs"

lemma all_records_simps [simp]:
  "all_records [] = []" "all_records (g # gs) = group_records g @ all_records gs"
  "all_records (gs @ hs) = all_records gs @ all_records hs"
  by (simp_all add: all_records_def)

lemma wf_groups_append: "wf_groups (gs @ hs) \<Longrightarrow> wf_groups gs \<and> wf_groups hs"
  by (auto simp add: wf_groups_def sorted_wrt_append)

lemma wf_groups_filter: "wf_groups gs \<Longrightarrow> wf_groups (filter P gs)"
  using sorted_wrt_filter unfolding wf_groups_def set_filter by blast

lemma sorted_split:
  "sorted_wrt (\<lambda>g h. K (fst g) < K (fst h)) gs \<Longrightarrow>
   gs = filter (\<lambda>g. K (fst g) < K D) gs @ filter (\<lambda>g. fst g = D) gs @ groups_after D gs"
proof (induction gs)
  case (Cons g gs)
  have after: "K D < K (fst h)" if "K D \<le> K (fst g)" "h \<in> set gs" for h
    using that Cons.prems by (auto intro: le_less_trans)
  consider "K (fst g) < K D" | "fst g = D" | "K D < K (fst g)"
    using path_key_inject by (metis linorder_cases)
  then show ?case
  proof cases
    case 1
    with Cons show ?thesis by auto
  next
    case 2
    then have "K D < K (fst h)" if "h \<in> set gs" for h using after [OF _ that] by simp
    then have "filter (\<lambda>h. K (fst h) < K D) gs = []" "filter (\<lambda>h. fst h = D) gs = []" "groups_after D gs = gs"
      by (fastforce simp add: filter_empty_conv filter_id_conv)+
    with 2 show ?thesis by simp
  next
    case 3
    then have "K D < K (fst h)" if "h \<in> set gs" for h using after [OF _ that] by simp
    then have "filter (\<lambda>h. K (fst h) < K D) gs = []" "filter (\<lambda>h. fst h = D) gs = []" "groups_after D gs = gs"
      by (fastforce simp add: filter_empty_conv filter_id_conv)+
    with 3 show ?thesis by auto
  qed
qed simp

lemma group_of_filter:
  assumes "sorted_wrt (\<lambda>g h. K (fst g) < K (fst h)) gs"
  shows "filter (\<lambda>g. fst g = D) gs = (if group_of gs D = [] \<and> D \<notin> fst ` set gs then [] else [(D, group_of gs D)])"
  using assms
proof (induction gs)
  case (Cons g gs)
  show ?case
  proof (cases "fst g = D")
    case True
    then have "\<forall>h \<in> set gs. fst h \<noteq> D" using Cons.prems by auto
    with True show ?thesis by (cases g) (auto simp add: group_of_def filter_empty_conv)
  next
    case False
    with Cons show ?thesis by (cases g) (auto simp add: group_of_def)
  qed
qed (simp add: group_of_def)

lemma record_of_group:
  "r \<in> set (all_records gs) \<Longrightarrow> \<exists>g \<in> set gs. \<exists>x \<in> set (snd g). fst r = fst g @ fst x"
  by (force simp add: all_records_def group_records_def)

lemma all_records_eq_Nil: "wf_groups gs \<Longrightarrow> all_records gs = [] \<longleftrightarrow> gs = []"
  by (cases gs) (auto simp add: wf_groups_def group_records_def)

lemma hd_all_records: "wf_groups gs \<Longrightarrow> gs \<noteq> [] \<Longrightarrow>
    \<exists>g \<in> set gs. \<exists>x \<in> set (snd g). fst (hd (all_records gs)) = fst g @ fst x"
  using record_of_group [of "hd (all_records gs)" gs] all_records_eq_Nil [of gs] by (meson hd_in_set)

lemma group_of_wf:
  assumes "wf_groups gs"
  shows "sorted_wrt (<) (map fst (group_of gs D))"
    and "\<And>r. r \<in> set (group_of gs D) \<Longrightarrow> fst r \<noteq> [] \<and> slash \<notin> set (fst r)"
proof -
  have "sorted_wrt (<) (map fst (group_of gs D)) \<and>
    (\<forall>r \<in> set (group_of gs D). fst r \<noteq> [] \<and> slash \<notin> set (fst r))"
  proof (cases "map_of gs D")
    case (Some ns)
    then have "(D, ns) \<in> set gs" by (rule map_of_SomeD)
    then have "sorted_wrt (<) (map fst (snd (D, ns))) \<and> (\<forall>r \<in> set (snd (D, ns)). fst r \<noteq> [] \<and> slash \<notin> set (fst r))"
      using assms unfolding wf_groups_def by blast
    then show ?thesis by (simp add: group_of_def Some)
  qed (simp add: group_of_def)
  then show "sorted_wrt (<) (map fst (group_of gs D))"
    and "\<And>r. r \<in> set (group_of gs D) \<Longrightarrow> fst r \<noteq> [] \<and> slash \<notin> set (fst r)" by blast+
qed

text \<open>What the scan of a directory reads.\<close>

lemma scan_reads:
  assumes holds: "db_holds db (all_records gs)" and wf: "wf_groups gs" and path: "path_of path D"
    and up: "\<forall>g \<in> set gs. prefix (fst g) D \<longrightarrow> fst g = D"
  shows "\<exists>db'. read_directory D (skip_records path db) = (map old_entry (group_of gs D), db') \<and>
    db_holds db' (all_records (groups_after D gs)) \<and> (groups_after D gs = [] \<longrightarrow> at_end db') \<and>
    ends_in_error db' = ends_in_error db"
proof -
  let ?before = "filter (\<lambda>g. K (fst g) < K D) gs" and ?at = "filter (\<lambda>g. fst g = D) gs"
  let ?rest = "all_records ?at @ all_records (groups_after D gs)"
  have s: "sorted_wrt (\<lambda>g h. K (fst g) < K (fst h)) gs" using wf by (simp add: wf_groups_def)
  have D: "dir_name D" using path by (simp add: path_of_def)
  have split: "all_records gs = all_records ?before @ ?rest"
    by (subst sorted_split [OF s, of D]) simp
  have at: "all_records ?at = group_records (D, group_of gs D)"
    using group_of_filter [OF s, of D] by (auto simp add: group_records_def)
  have "\<forall>r \<in> set (all_records ?before). K (fst r) < K path"
  proof
    fix r assume "r \<in> set (all_records ?before)"
    then obtain g x where g: "g \<in> set ?before" "x \<in> set (snd g)" "fst r = fst g @ fst x"
      using record_of_group by meson
    then have "\<not> prefix (fst g) D" using up by auto
    with g record_before [OF path] show "K (fst r) < K path" by simp
  qed
  moreover have "?rest = [] \<or> K path \<le> K (fst (hd ?rest))"
  proof -
    have "wf_groups (?at @ groups_after D gs)"
      using wf_groups_append [of ?before "?at @ groups_after D gs"] wf sorted_split [OF s, of D] by simp
    note wfr = this
    show ?thesis
    proof (cases "?at @ groups_after D gs = []")
      case True
      then have "all_records (?at @ groups_after D gs) = []" by (simp only: all_records_simps(1))
      then show ?thesis by simp
    next
      case False
      from hd_all_records [OF wfr False] obtain g x where g: "g \<in> set (?at @ groups_after D gs)" "x \<in> set (snd g)"
        "fst (hd (all_records (?at @ groups_after D gs))) = fst g @ fst x" by blast
      have "K D \<le> K (fst g)" using g(1) by auto
      then have "K path \<le> K (fst (hd (all_records (?at @ groups_after D gs))))"
        unfolding g(3) by (rule record_not_before [OF path])
      then show ?thesis by simp
    qed
  qed
  ultimately have skip: "db_holds (skip_records path db) ?rest"
    "ends_in_error (skip_records path db) = ends_in_error db"
    using skip_records_holds [of db "all_records ?before" ?rest path] holds split by simp_all
  have names: "\<forall>r \<in> set (group_of gs D). slash \<notin> set (fst r)"
    using group_of_wf(2) [OF wf] by blast
  have wfa: "wf_groups (groups_after D gs)" by (rule wf_groups_filter [OF wf])
  have "all_records (groups_after D gs) = [] \<or>
    \<not> (take (length D) (fst (hd (all_records (groups_after D gs)))) = D \<and>
       slash \<notin> set (drop (length D) (fst (hd (all_records (groups_after D gs))))))"
  proof (cases "groups_after D gs = []")
    case False
    from hd_all_records [OF wfa False] obtain g x where g: "g \<in> set (groups_after D gs)" "x \<in> set (snd g)"
      "fst (hd (all_records (groups_after D gs))) = fst g @ fst x" by blast
    have "dir_name (fst g)" "slash \<notin> set (fst x)" "fst g \<noteq> D" using wf g(1,2) by (auto simp add: wf_groups_def)
    with in_directory [OF D] g(3) show ?thesis by simp
  qed simp
  from read_directory_holds [OF skip(1) [unfolded at] D names this] skip(2) all_records_eq_Nil [OF wfa]
  show ?thesis by auto
qed

end
