(* ===== verification/Scan_Entries.thy ===== *)
theory Scan_Entries
  imports Old_Records
begin

text \<open>
  What a full scan records of a tree, and how \<open>scan\<close> gets the entries of one directory: from the
  listing of the old database or from the directory itself, with the old entries merged in, their
  status, and the subdirectories opened.
\<close>

section \<open>The records of a tree\<close>

definition visible :: "fs_entry list \<Rightarrow> fs_entry list" where
  "visible xs = sort_key fs_name (filter (\<lambda>x. \<not> skipped_name (fs_name x)) xs)"

definition is_dir :: "fs_entry \<Rightarrow> bool" where
  "is_dir x = is_directory (listed_entry x)"

definition full_metadata :: "configuration \<Rightarrow> bool \<Rightarrow> fs_entry \<Rightarrow> file_metadata" where
  "full_metadata c allowed x =
     (case fs_stat x of
        None \<Rightarrow> no_metadata
      | Some sb \<Rightarrow> entry_metadata c allowed no_metadata sb (fs_digest x))"

text \<open>Whether the scan goes into an entry: the device, the permission to hash, the directory.\<close>

definition descends :: "scan_env \<Rightarrow> bytes \<Rightarrow> u64 \<Rightarrow> bool \<Rightarrow> fs_entry \<Rightarrow> (u64 \<times> bool \<times> fs_dir) option" where
  "descends env D dev allowed x =
     (if \<not> is_dir x \<or> fs_name x \<in> set (conf_prunenames (env_conf env)) then None
      else
        case fs_open x of
          Open_fails _ \<Rightarrow> None
        | Fs_dir None _ _ _ \<Rightarrow> None
        | Fs_dir (Some buf) allows _ _ \<Rightarrow>
            if st_dev buf \<noteq> dev \<and> filesystem_is_excluded env (D @ fs_name x) then None
            else
              Some (st_dev buf,
                if st_dev buf \<noteq> dev \<and> allowed \<and> conf_metadata_hash_kind (env_conf env) \<noteq> HashNone
                then allows else allowed, fs_open x))"

lemma descends_open: "descends env D dev allowed x = Some (dev', allowed', d) \<Longrightarrow> d = fs_open x"
  by (auto simp add: descends_def split: if_splits fs_dir.splits option.splits)

lemma descends_fstat:
  assumes "descends env D dev allowed x = Some (dev', allowed', d)"
  shows "\<exists>buf al fd ys. d = Fs_dir (Some buf) al fd ys \<and> dev' = st_dev buf"
proof (cases "fs_open x")
  case dir: (Fs_dir f al fd ys)
  show ?thesis
  proof (cases f)
    case (Some buf)
    have "dev' = st_dev buf" using assms dir Some by (simp add: descends_def split: if_splits)
    then show ?thesis using dir Some descends_open [OF assms] by simp
  qed (use assms dir in \<open>simp add: descends_def split: if_splits\<close>)
qed (use assms in \<open>simp add: descends_def split: if_splits\<close>)

lemma size_open: "x \<in> set xs \<Longrightarrow> size (fs_open x) < size (Fs_dir f al fd xs)"
proof -
  assume "x \<in> set xs"
  have "size (fs_open x) < size x" by (cases x) simp
  also have "size x \<le> size_list size xs" by (rule size_list_estimation' [OF \<open>x \<in> set xs\<close>]) simp
  finally show ?thesis by simp
qed

lemma set_visible: "x \<in> set (visible xs) \<Longrightarrow> x \<in> set xs"
  by (simp add: visible_def)

lemma size_descends:
  "x \<in> set (visible xs) \<Longrightarrow> descends env D dev allowed x = Some (dev', allowed', d) \<Longrightarrow>
   size d < Suc (size_list size xs)"
  using size_open [OF set_visible, of x xs f al fd] by (auto dest: descends_open)

text \<open>
  A full scan: the entries of the directory, sorted by name, then those of each subdirectory that
  is not pruned. A directory is given with a slash at the end.
\<close>

function tree_records :: "scan_env \<Rightarrow> bytes \<Rightarrow> bytes \<Rightarrow> u64 \<Rightarrow> bool \<Rightarrow> fs_dir \<Rightarrow> (bytes \<times> file_metadata) list" where
  "tree_records env path D dev allowed (Open_fails b) = []"
| "tree_records env path D dev allowed (Fs_dir f al fd xs) =
     (if path \<in> set (conf_prunepaths (env_conf env)) \<or>
         conf_prune_bind_mounts (env_conf env) \<and> env_is_bind_mount env path
      then []
      else
        map (\<lambda>x. (D @ fs_name x, full_metadata (env_conf env) allowed x)) (visible xs) @
        concat (map (\<lambda>x.
          case descends env D dev allowed x of
            None \<Rightarrow> []
          | Some (dev', allowed', d) \<Rightarrow>
              tree_records env (D @ fs_name x) (D @ fs_name x @ [slash]) dev' allowed' d) (visible xs)))"
  by pat_completeness auto
termination
  by (relation "measure (\<lambda>(env, path, D, dev, allowed, d). size d)")
    (auto dest: size_descends)

declare tree_records.simps [simp del]

section \<open>Sorting and merging\<close>

lemma sort_key_map: "sort_key f (map g xs) = map g (sort_key (f \<circ> g) xs)"
proof (induction xs)
  case (Cons x xs)
  have "insort_key f (g x) (map g ys) = map g (insort_key (f \<circ> g) x ys)" for ys
    by (induction ys) simp_all
  with Cons show ?case by (simp add: o_def)
qed simp

lemma listed_entries_visible: "listed_entries xs = map listed_entry (visible xs)"
proof -
  have "ename \<circ> listed_entry = fs_name" by (auto simp add: listed_entry_def)
  then show ?thesis by (simp add: listed_entries_def visible_def sort_key_map)
qed

abbreviation by_name :: "entry list \<Rightarrow> bool" where
  "by_name es \<equiv> sorted_wrt (<) (map ename es)"

definition old_data :: "entry list \<Rightarrow> entry \<Rightarrow> entry" where
  "old_data ds e =
     (case find (\<lambda>d. ename d = ename e) ds of
        None \<Rightarrow> e
      | Some d \<Rightarrow>
          e\<lparr>db_modified := db_modified d, previous_metadata := previous_metadata d, existed_before := True\<rparr>)"

definition mark_found :: "bytes set \<Rightarrow> entry \<Rightarrow> entry" where
  "mark_found ns d = (if ename d \<in> ns then d\<lparr>matched_in_new_scan := True\<rparr> else d)"

lemma mark_found_twice: "mark_found ns (mark_found ms d) = mark_found (ns \<union> ms) d"
  by (simp add: mark_found_def)

lemma mark_found_name [simp]: "ename (mark_found ns d) = ename d"
  by (simp add: mark_found_def)

lemma seek_old_result:
  assumes "by_name ds"
  shows "\<exists>passed rest. seek_old e ds = (old_data ds e, passed, rest) \<and>
    passed @ rest = map (mark_found {ename e}) ds \<and> (\<forall>d \<in> set passed. ename d < ename e)"
  using assms
proof (induction ds)
  case Nil
  then show ?case by (simp add: old_data_def)
next
  case (Cons d ds)
  have later: "\<forall>x \<in> set ds. ename d < ename x" using Cons.prems by simp
  consider "ename e < ename d" | "ename e = ename d" | "ename d < ename e" by (rule linorder_cases)
  then show ?case
  proof cases
    case 1
    then have ne: "\<forall>x \<in> set (d # ds). ename x \<noteq> ename e" using later by auto
    then have "find (\<lambda>x. ename x = ename e) (d # ds) = None" by (auto simp add: find_None_iff simp del: find.simps)
    moreover have "map (mark_found {ename e}) (d # ds) = d # ds"
      by (rule map_idI) (use ne in \<open>auto simp add: mark_found_def\<close>)
    ultimately show ?thesis using 1 by (simp add: old_data_def del: find.simps)
  next
    case 2
    then have "\<forall>x \<in> set ds. ename x \<noteq> ename e" using later by auto
    then have "map (mark_found {ename e}) ds = ds" by (intro map_idI) (simp add: mark_found_def)
    moreover have "mark_found {ename e} d = d\<lparr>matched_in_new_scan := True\<rparr>" using 2 by (simp add: mark_found_def)
    ultimately show ?thesis using 2 by (simp add: old_data_def)
  next
    case 3
    from Cons.IH Cons.prems obtain passed rest where s: "seek_old e ds = (old_data ds e, passed, rest)"
      "passed @ rest = map (mark_found {ename e}) ds" "\<forall>d \<in> set passed. ename d < ename e" by auto
    have "\<not> ename e < ename d" "ename e \<noteq> ename d" "ename d \<noteq> ename e" using 3 by auto
    moreover have "mark_found {ename e} d = d" using 3 by (simp add: mark_found_def)
    ultimately show ?thesis using s 3 by (simp add: old_data_def)
  qed
qed

lemma find_mark: "find (\<lambda>d. ename d = n) (map (mark_found ns) ds) = map_option (mark_found ns) (find (\<lambda>d. ename d = n) ds)"
  by (induction ds) simp_all

lemma old_data_mark: "old_data (map (mark_found ns) ds) e = old_data ds e"
  by (auto simp add: old_data_def find_mark mark_found_def split: option.splits)

lemma old_data_append:
  "\<forall>d \<in> set ds. ename d < ename e \<Longrightarrow> old_data (ds @ ds') e = old_data ds' e"
  by (induction ds) (auto simp add: old_data_def)

lemma load_old_result:
  assumes "by_name es" and "by_name ds"
  shows "load_old es ds = (map (old_data ds) es, map (mark_found (ename ` set es)) ds)"
  using assms
proof (induction es arbitrary: ds)
  case Nil
  then show ?case by (simp add: mark_found_def)
next
  case (Cons e es)
  from seek_old_result [OF Cons.prems(2), of e] obtain passed rest where s:
    "seek_old e ds = (old_data ds e, passed, rest)" "passed @ rest = map (mark_found {ename e}) ds"
    "\<forall>d \<in> set passed. ename d < ename e" by blast
  have "map ename (passed @ rest) = map ename ds" unfolding s(2) by (simp add: o_def)
  then have "by_name (passed @ rest)" using Cons.prems(2) by simp
  then have rest: "by_name rest" by (simp add: sorted_wrt_append)
  have later: "\<forall>d \<in> set passed. ename d < ename e'" if "e' \<in> set es" for e'
    using s(3) Cons.prems(1) that by (auto intro: less_trans)
  then have "old_data rest e' = old_data ds e'" if "e' \<in> set es" for e'
    using that old_data_append [of passed e' rest] by (simp add: s(2) old_data_mark)
  moreover have "map (mark_found (ename ` set es)) passed = passed"
    by (rule map_idI) (use later in \<open>fastforce simp add: mark_found_def\<close>)
  then have "passed @ map (mark_found (ename ` set es)) rest = map (mark_found (ename ` set es)) (passed @ rest)"
    by simp
  then have "passed @ map (mark_found (ename ` set es)) rest = map (mark_found (ename ` set (e # es))) ds"
    unfolding s(2) by (simp add: o_def mark_found_twice insert_is_Un [symmetric] Un_commute)
  ultimately show ?case using Cons.IH [OF _ rest] Cons.prems(1) s(1) by (simp add: Let_def)
qed

section \<open>The entries of one directory\<close>

text \<open>The parts of the state that the entries do not touch.\<close>

definition same_reader :: "scan_state \<Rightarrow> scan_state \<Rightarrow> bool" where
  "same_reader s s' \<longleftrightarrow>
     existing s' = existing s \<and> conf_prunepaths_index s' = conf_prunepaths_index s \<and>
     added_files s' = added_files s"

lemma same_reader_refl [simp]: "same_reader s s"
  by (simp add: same_reader_def)

lemma same_reader_trans: "same_reader a b \<Longrightarrow> same_reader b c \<Longrightarrow> same_reader a c"
  by (simp add: same_reader_def)

lemma get_dirtime_result:
  assumes "get_dirtime env buf s = (dt, s')"
  shows "same_reader s s'" and "history_sink s' = history_sink s"
    and "dt = unknown_dir_time \<or> dt = max_dir_time (st_ctim buf) (st_mtim buf)"
  using assms
  by (auto simp add: get_dirtime_def get_dirtime_from_stat_def same_reader_def Let_def split: prod.splits if_splits)

lemma record_event_reader [simp]: "same_reader s (record_event env k p old new s)"
  by (simp add: same_reader_def record_event_def)

definition stat_metadata :: "configuration \<Rightarrow> bool \<Rightarrow> fs_entry list \<Rightarrow> entry \<Rightarrow> file_metadata" where
  "stat_metadata c allowed xs e =
     (case lookup_name xs (ename e) of
        None \<Rightarrow> emetadata e
      | Some x \<Rightarrow>
          (case fs_stat x of
             None \<Rightarrow> emetadata e
           | Some sb \<Rightarrow> entry_metadata c allowed (previous_metadata e) sb (fs_digest x)))"

lemma stat_entry_result:
  assumes "stat_entry env D allowed xs e s = (e', s')"
  shows "\<exists>dt. e' = e\<lparr>emetadata := stat_metadata (env_conf env) allowed xs e, edt := dt\<rparr>" and "same_reader s s'"
proof -
  have "(\<exists>dt. e' = e\<lparr>emetadata := stat_metadata (env_conf env) allowed xs e, edt := dt\<rparr>) \<and> same_reader s s'"
  proof (cases "lookup_name xs (ename e)")
    case None
    then have "e' = e\<lparr>emetadata := stat_metadata (env_conf env) allowed xs e, edt := edt e\<rparr>" "s' = s"
      using assms by (simp_all add: stat_entry_def stat_metadata_def)
    then show ?thesis using same_reader_refl by blast
  next
    case (Some x)
    show ?thesis
    proof (cases "fs_stat x")
      case None
      then have "e' = e\<lparr>emetadata := stat_metadata (env_conf env) allowed xs e, edt := edt e\<rparr>" "s' = s"
        using assms Some by (simp_all add: stat_entry_def stat_metadata_def)
      then show ?thesis using same_reader_refl by blast
    next
      case sb: (Some sb)
      obtain dt s1 where dt: "(if S_ISDIR (st_mode sb) then get_dirtime env sb s else (not_a_dir, s)) = (dt, s1)"
        by (cases "if S_ISDIR (st_mode sb) then get_dirtime env sb s else (not_a_dir, s)")
      then have "same_reader s s1" using get_dirtime_result(1) by (auto split: if_splits)
      moreover have "same_reader s1 s'"
        using assms Some sb dt by (auto simp add: stat_entry_def Let_def)
      moreover have "e' = e\<lparr>emetadata := stat_metadata (env_conf env) allowed xs e, edt := dt\<rparr>"
        using assms Some sb dt by (simp add: stat_entry_def stat_metadata_def Let_def)
      ultimately show ?thesis using same_reader_trans by blast
    qed
  qed
  then show "\<exists>dt. e' = e\<lparr>emetadata := stat_metadata (env_conf env) allowed xs e, edt := dt\<rparr>"
    and "same_reader s s'" by blast+
qed

lemma stat_entries_result:
  "stat_entries env D allowed xs es s = (es', s') \<Longrightarrow>
   list_all2 (\<lambda>e e'. \<exists>dt. e' = e\<lparr>emetadata := stat_metadata (env_conf env) allowed xs e, edt := dt\<rparr>) es es' \<and>
   same_reader s s'"
proof (induction es arbitrary: s es')
  case (Cons e es)
  obtain e1 s1 where a: "stat_entry env D allowed xs e s = (e1, s1)" by (cases "stat_entry env D allowed xs e s")
  from Cons.prems a obtain es1 where b: "stat_entries env D allowed xs es s1 = (es1, s')" and c: "es' = e1 # es1"
    by (auto split: prod.splits)
  from Cons.IH [OF b] stat_entry_result [OF a] same_reader_trans show ?case unfolding c by auto
qed simp

text \<open>Trees that can be walked: no directory that needs more descriptors than there are.\<close>

function fs_ok :: "fs_dir \<Rightarrow> bool" where
  "fs_ok (Open_fails b) = (\<not> b)"
| "fs_ok (Fs_dir f al fd xs) =
     (f \<noteq> None \<and> fd \<and> distinct (map fs_name xs) \<and>
      (\<forall>x \<in> set xs. slash \<notin> set (fs_name x) \<and> fs_ok (fs_open x)))"
  by pat_completeness auto
termination
  by (relation "measure size") (auto dest: size_open)

lemma lookup_name_in: "distinct (map fs_name xs) \<Longrightarrow> x \<in> set xs \<Longrightarrow> lookup_name xs (fs_name x) = Some x"
proof (induction xs)
  case (Cons y xs)
  then show ?case by (cases "x = y") (auto simp add: lookup_name_def)
qed simp

text \<open>What the old database says of an entry: the time recorded for it and its metadata.\<close>

definition old_record_of :: "(bytes \<times> old_record list) list \<Rightarrow> bytes \<Rightarrow> fs_entry \<Rightarrow> dir_time \<times> file_metadata" where
  "old_record_of gs D x =
     (case map_of (group_of gs D) (fs_name x) of None \<Rightarrow> (unknown_dir_time, no_metadata) | Some r \<Rightarrow> r)"

definition scanned_entry ::
    "scan_env \<Rightarrow> (bytes \<times> old_record list) list \<Rightarrow> bytes \<Rightarrow> u64 \<Rightarrow> bool \<Rightarrow> fs_entry \<Rightarrow> entry \<Rightarrow> bool" where
  "scanned_entry env gs D dev allowed x e \<longleftrightarrow>
     ename e = fs_name x \<and> emetadata e = full_metadata (env_conf env) allowed x \<and>
     db_modified e = fst (old_record_of gs D x) \<and>
     (case descends env D dev allowed x of
        None \<Rightarrow> \<not> is_directory e \<or> efd e = None
      | Some (dev', allowed', d) \<Rightarrow>
          is_directory e \<and> efd e = Some d \<and> edev e = dev' \<and> hash_allowed e = allowed' \<and>
          (\<forall>buf al fd ys. d = Fs_dir (Some buf) al fd ys \<longrightarrow>
            edt e = unknown_dir_time \<or> edt e = max_dir_time (st_ctim buf) (st_mtim buf)))"

definition merged_entry ::
    "scan_env \<Rightarrow> (bytes \<times> old_record list) list \<Rightarrow> bytes \<Rightarrow> bool \<Rightarrow> fs_entry \<Rightarrow> entry \<Rightarrow> bool" where
  "merged_entry env gs D allowed x e \<longleftrightarrow>
     ename e = fs_name x \<and> is_directory e = is_dir x \<and> efd e = None \<and> emetadata e = no_metadata \<and>
     db_modified e = fst (old_record_of gs D x) \<and>
     (\<forall>sb. fs_stat x = Some sb \<longrightarrow>
       entry_metadata (env_conf env) allowed (previous_metadata e) sb (fs_digest x) =
         full_metadata (env_conf env) allowed x)"

lemma open_entry_result:
  assumes x: "lookup_name xs (ename e) = Some x" "fs_ok (fs_open x)"
    and e: "ename e = fs_name x" "is_directory e = is_dir x" "efd e = None"
      "emetadata e = full_metadata (env_conf env) allowed x"
      "db_modified e = fst (old_record_of gs D x)"
  shows "\<exists>e' s'. open_entry env D dev allowed xs e s = Inr (e', s') \<and>
    scanned_entry env gs D dev allowed x e' \<and> same_reader s s'"
proof (cases "is_dir x \<and> fs_name x \<notin> set (conf_prunenames (env_conf env))")
  case False
  then have "descends env D dev allowed x = None" by (auto simp add: descends_def)
  with False e show ?thesis by (auto simp add: open_entry_def scanned_entry_def)
next
  case True
  show ?thesis
  proof (cases "fs_open x")
    case (Open_fails b)
    with True x e show ?thesis by (simp add: open_entry_def scanned_entry_def descends_def)
  next
    case dir: (Fs_dir f al fd ys)
    with x(2) obtain buf where f: "f = Some buf" by auto
    show ?thesis
    proof (cases "st_dev buf \<noteq> dev \<and> filesystem_is_excluded env (D @ fs_name x)")
      case excluded: True
      then have "descends env D dev allowed x = None" using True dir f by (simp add: descends_def)
      with True x e dir f excluded show ?thesis by (simp add: open_entry_def scanned_entry_def Let_def)
    next
      case False
      obtain dt s1 where dt: "get_dirtime env buf s = (dt, s1)" by (cases "get_dirtime env buf s")
      have "descends env D dev allowed x = Some (st_dev buf,
          if st_dev buf \<noteq> dev \<and> allowed \<and> conf_metadata_hash_kind (env_conf env) \<noteq> HashNone then al else allowed,
          Fs_dir (Some buf) al fd ys)"
        using True dir f False by (simp add: descends_def)
      with get_dirtime_result [OF dt] True x e dir f False dt show ?thesis
        by (simp add: open_entry_def scanned_entry_def Let_def)
    qed
  qed
qed

lemma open_entries_result:
  assumes "list_all2 (\<lambda>x e. ename e = fs_name x \<and> is_directory e = is_dir x \<and> efd e = None \<and>
      emetadata e = full_metadata (env_conf env) allowed x \<and>
      db_modified e = fst (old_record_of gs D x)) ys es"
    and "\<forall>x \<in> set ys. lookup_name xs (fs_name x) = Some x \<and> fs_ok (fs_open x)"
  shows "\<exists>es' s'. open_entries env D dev allowed xs es s = Inr (es', s') \<and>
    list_all2 (scanned_entry env gs D dev allowed) ys es' \<and> same_reader s s'"
  using assms
proof (induction ys es arbitrary: s rule: list_all2_induct)
  case (Cons x ys e es)
  from open_entry_result [of xs e x env allowed gs D dev s] Cons obtain e' s1 where
    a: "open_entry env D dev allowed xs e s = Inr (e', s1)" "scanned_entry env gs D dev allowed x e'"
      "same_reader s s1" by auto
  from Cons.IH [of s1] Cons.prems obtain es' s2 where
    b: "open_entries env D dev allowed xs es s1 = Inr (es', s2)"
      "list_all2 (scanned_entry env gs D dev allowed) ys es'" "same_reader s1 s2" by auto
  from a b same_reader_trans [OF a(3) b(3)] show ?case by simp
qed simp

lemma entries_result:
  assumes "list_all2 (merged_entry env gs D allowed) (visible xs) es"
    and "distinct (map fs_name xs)" and "\<forall>x \<in> set xs. fs_ok (fs_open x)"
    and "stat_entries env D allowed xs es s = (es1, s1)"
  shows "\<exists>es' s'. open_entries env D dev allowed xs es1 s1 = Inr (es', s') \<and>
    list_all2 (scanned_entry env gs D dev allowed) (visible xs) es' \<and> same_reader s s'"
proof -
  have st: "list_all2 (\<lambda>e e'. \<exists>dt. e' = e\<lparr>emetadata := stat_metadata (env_conf env) allowed xs e, edt := dt\<rparr>) es es1"
    and r: "same_reader s s1"
    using stat_entries_result [OF assms(4)] by blast+
  have look: "\<forall>x \<in> set (visible xs). lookup_name xs (fs_name x) = Some x \<and> fs_ok (fs_open x)"
    using lookup_name_in [OF assms(2)] assms(3) set_visible by blast
  have "list_all2 (\<lambda>x e. ename e = fs_name x \<and> is_directory e = is_dir x \<and> efd e = None \<and>
      emetadata e = full_metadata (env_conf env) allowed x \<and>
      db_modified e = fst (old_record_of gs D x))
    (visible xs) es1"
  proof (rule list_all2_all_nthI)
    show len: "length (visible xs) = length es1"
      using assms(1) st by (simp add: list_all2_lengthD [OF assms(1)] list_all2_lengthD [OF st])
    fix i assume i: "i < length (visible xs)"
    let ?x = "visible xs ! i" and ?e = "es ! i"
    have m: "merged_entry env gs D allowed ?x ?e" using list_all2_nthD [OF assms(1) i] .
    from list_all2_nthD2 [OF st] i len obtain dt where
      e1: "es1 ! i = ?e\<lparr>emetadata := stat_metadata (env_conf env) allowed xs ?e, edt := dt\<rparr>" by auto
    have "lookup_name xs (fs_name ?x) = Some ?x" using look i by simp
    then have "stat_metadata (env_conf env) allowed xs ?e = full_metadata (env_conf env) allowed ?x"
      using m by (auto simp add: stat_metadata_def merged_entry_def full_metadata_def split: option.splits)
    then show "ename (es1 ! i) = fs_name ?x \<and> is_directory (es1 ! i) = is_dir ?x \<and> efd (es1 ! i) = None \<and>
        emetadata (es1 ! i) = full_metadata (env_conf env) allowed ?x \<and>
        db_modified (es1 ! i) =
          fst (old_record_of gs D ?x)"
      using m by (simp add: e1 merged_entry_def)
  qed
  from open_entries_result [OF this look, of dev s1] r same_reader_trans show ?thesis by blast
qed

end
