(* ===== verification/Scan_Correct.thy ===== *)
theory Scan_Correct
  imports Scan_Entries
begin

text \<open>
  The scan with an old database gives the same files, with the same metadata, as a scan without one:
  what is taken over from the old database are only listings of directories whose time stamp has not
  changed, and digests of files whose size and times have not changed.
\<close>

section \<open>The order of the directories\<close>

abbreviation below_dir :: "bytes \<Rightarrow> bytes \<Rightarrow> bytes" where
  "below_dir D n \<equiv> D @ n @ [slash]"

lemma path_of_child: "n \<noteq> [] \<Longrightarrow> slash \<notin> set n \<Longrightarrow> path_of (D @ n) (below_dir D n)"
  by (cases n rule: rev_cases) (auto simp add: path_of_def dir_name_def path_plus_slash_def)

lemma key_append: "K a \<le> K (a @ b)"
  by (rule prefix_key_le) simp

lemma key_append_less: "b \<noteq> [] \<Longrightarrow> K a < K (a @ b)"
  unfolding key_cases by (metis neq_Nil_conv)

lemma prefix_child:
  assumes "dir_name A" and "prefix A (below_dir D n)" and "slash \<notin> set n" and "A \<noteq> below_dir D n"
  shows "prefix A D"
proof (rule ccontr)
  assume no: "\<not> prefix A D"
  obtain a where a: "A = a @ [slash]" using dir_name_split [OF assms(1)] by blast
  from assms(2) no obtain c where c: "A = D @ c" "c \<noteq> []" "prefix c (n @ [slash])"
    by (auto simp add: prefix_append)
  then have "last c = slash" using a by (metis last_appendR last_snoc)
  with c assms(3) have "c = n @ [slash]"
    by (metis last_in_set prefix_snoc set_mono_prefix subsetD)
  with c(1) assms(4) show False by simp
qed

lemma sibling_order:
  assumes "n < (m :: bytes)" and "slash \<notin> set n" and "slash \<notin> set m"
  shows "K (below_dir D n @ r) < K (below_dir D m)" and "\<not> prefix (below_dir D n @ r) (below_dir D m)"
    and "K (below_dir D n @ r) < K (D @ m)"
proof -
  have "\<exists>p x y a b. n @ slash # r = p @ x # a \<and> m = p @ y # b \<and> byte_key x < byte_key y"
    using assms
  proof (induction n arbitrary: m)
    case Nil
    then obtain y b where "m = y # b" "y \<noteq> slash" by (cases m) auto
    then have "[] @ slash # r = [] @ slash # r \<and> m = [] @ y # b \<and> byte_key slash < byte_key y"
      by (simp add: byte_key_def)
    then show ?case by (metis append_Nil)
  next
    case (Cons x n)
    from Cons.prems obtain y b where m: "m = y # b" "x < y \<or> x = y \<and> n < b" by (cases m) auto
    show ?case
    proof (cases "x = y")
      case True
      with m Cons.prems have "n < b" "slash \<notin> set n" "slash \<notin> set b" by auto
      from Cons.IH [OF this] obtain p u v a' b' where
        "n @ slash # r = p @ u # a'" "b = p @ v # b'" "byte_key u < byte_key v" by blast
      then have "(x # n) @ slash # r = (x # p) @ u # a' \<and> m = (x # p) @ v # b' \<and> byte_key u < byte_key v"
        using True m by simp
      then show ?thesis by blast
    next
      case False
      then have "byte_key x < byte_key y" using m Cons.prems
        by (auto simp add: byte_key_def word_less_nat_alt)
      then have "(x # n) @ slash # r = [] @ x # (n @ slash # r) \<and> m = [] @ y # b \<and> byte_key x < byte_key y"
        using m by simp
      then show ?thesis by blast
    qed
  qed
  then obtain p x y a b where p: "n @ slash # r = p @ x # a" "m = p @ y # b" "byte_key x < byte_key y" by blast
  then have d: "below_dir D n @ r = (D @ p) @ x # a" "D @ m = (D @ p) @ y # b"
    "below_dir D m = (D @ p) @ y # (b @ [slash])" by simp_all
  show "K (below_dir D n @ r) < K (D @ m)" unfolding key_cases using d(1,2) p(3) by blast
  show "K (below_dir D n @ r) < K (below_dir D m)" unfolding key_cases using d(1,3) p(3) by blast
  have "x \<noteq> y" using p(3) by auto
  then show "\<not> prefix (below_dir D n @ r) (below_dir D m)" unfolding d by simp
qed

section \<open>An old database that fits\<close>

definition pruned :: "scan_env \<Rightarrow> bytes \<Rightarrow> bool" where
  "pruned env path \<longleftrightarrow>
     path \<in> set (conf_prunepaths (env_conf env)) \<or>
     conf_prune_bind_mounts (env_conf env) \<and> env_is_bind_mount env path"

text \<open>
  A directory that kept the time stamp it was recorded with (\<open>t\<close>) has the entries that are recorded for
  it, and a file that kept its size and times has the digest that is recorded for it. A database that
  ends in an error is not trusted for the last directory that it holds.
\<close>

definition same_listing :: "(bytes \<times> old_record list) list \<Rightarrow> bytes \<Rightarrow> fs_entry list \<Rightarrow> bool" where
  "same_listing gs D xs \<longleftrightarrow>
     map (\<lambda>r. (fst r, 0 \<le>s sec (fst (snd r)))) (group_of gs D) = map (\<lambda>x. (fs_name x, is_dir x)) (visible xs)"

definition same_digest :: "configuration \<Rightarrow> bool \<Rightarrow> file_metadata \<Rightarrow> fs_entry \<Rightarrow> bool" where
  "same_digest c allowed prev x \<longleftrightarrow>
     (case fs_stat x of
        None \<Rightarrow> True
      | Some sb \<Rightarrow> entry_metadata c allowed prev sb (fs_digest x) = entry_metadata c allowed no_metadata sb (fs_digest x))"

definition trusted :: "(bytes \<times> old_record list) list \<Rightarrow> bool \<Rightarrow> bytes \<Rightarrow> dir_time \<Rightarrow> file_stat option \<Rightarrow> bool" where
  "trusted gs err D t f \<longleftrightarrow>
     0 <s sec t \<and> (\<exists>buf. f = Some buf \<and> t = max_dir_time (st_ctim buf) (st_mtim buf)) \<and>
     (err \<longrightarrow> groups_after D gs \<noteq> [])"

function fits ::
    "scan_env \<Rightarrow> (bytes \<times> old_record list) list \<Rightarrow> bool \<Rightarrow> bytes \<Rightarrow> bytes \<Rightarrow> dir_time \<Rightarrow> u64 \<Rightarrow> bool \<Rightarrow> fs_dir \<Rightarrow> bool" where
  "fits env gs err path D t dev allowed (Open_fails b) = True"
| "fits env gs err path D t dev allowed (Fs_dir f al fd xs) =
     (pruned env path \<or>
      (trusted gs err D t f \<longrightarrow> same_listing gs D xs) \<and>
      (\<forall>x \<in> set (visible xs).
         same_digest (env_conf env) allowed (snd (old_record_of gs D x)) x \<and>
         (case descends env D dev allowed x of
            None \<Rightarrow> True
          | Some (dev', allowed', d) \<Rightarrow>
              fits env gs err (D @ fs_name x) (below_dir D (fs_name x)) (fst (old_record_of gs D x)) dev' allowed' d)))"
  by pat_completeness auto
termination
  by (relation "measure (\<lambda>(env, gs, err, path, D, t, dev, allowed, d). size d)")
    (auto dest: size_descends)

declare fits.simps [simp del]

section \<open>The entries of a directory\<close>

lemma merged_taken_over:
  assumes "same_listing gs D xs" and "\<forall>x \<in> set (visible xs). same_digest (env_conf env) allowed (snd (old_record_of gs D x)) x"
    and "wf_groups gs"
  shows "list_all2 (merged_entry env gs D allowed) (visible xs) (map old_entry (group_of gs D))"
proof (rule list_all2_all_nthI)
  have len: "length (group_of gs D) = length (visible xs)"
    using arg_cong [OF assms(1) [unfolded same_listing_def], of length] by simp
  then show "length (visible xs) = length (map old_entry (group_of gs D))" by simp
  fix i assume i: "i < length (visible xs)"
  obtain n t m where r: "group_of gs D ! i = (n, t, m)" by (cases "group_of gs D ! i")
  have "(fst (group_of gs D ! i), 0 \<le>s sec (fst (snd (group_of gs D ! i)))) =
      (fs_name (visible xs ! i), is_dir (visible xs ! i))"
    using arg_cong [OF assms(1) [unfolded same_listing_def], of "\<lambda>l. l ! i"] i len by simp
  then have n: "n = fs_name (visible xs ! i)" "0 \<le>s sec t = is_dir (visible xs ! i)" by (simp_all add: r)
  have "distinct (map fst (group_of gs D))" using group_of_wf(1) [OF assms(3)] by (simp add: strict_sorted_iff)
  then have look: "map_of (group_of gs D) (fs_name (visible xs ! i)) = Some (t, m)"
    using i len r n(1) nth_mem [of i "group_of gs D"] by (simp add: map_of_is_SomeI)
  have "same_digest (env_conf env) allowed m (visible xs ! i)"
    using bspec [OF assms(2) nth_mem [OF i]] look by (simp add: old_record_of_def)
  then show "merged_entry env gs D allowed (visible xs ! i) (map old_entry (group_of gs D) ! i)"
    using i len look n
    by (auto simp add: merged_entry_def r old_entry_def new_entry_def same_digest_def full_metadata_def
        old_record_of_def split: option.splits)
qed

lemma visible_names:
  assumes "distinct (map fs_name xs)"
  shows "sorted_wrt (<) (map fs_name (visible xs))"
proof -
  have "sorted (map fs_name (visible xs))" by (simp add: visible_def)
  moreover have "distinct (map fs_name (visible xs))"
  proof -
    have "mset (map fs_name (visible xs)) = mset (map fs_name (filter (\<lambda>x. \<not> skipped_name (fs_name x)) xs))"
      by (simp add: visible_def)
    moreover have "distinct (map fs_name (filter (\<lambda>x. \<not> skipped_name (fs_name x)) xs))"
      using assms by (rule distinct_map_filter)
    ultimately show ?thesis by (metis mset_eq_imp_distinct_iff)
  qed
  ultimately show ?thesis by (simp add: strict_sorted_iff)
qed

lemma find_old_entry:
  "map_option (\<lambda>d. (db_modified d, previous_metadata d)) (find (\<lambda>d. ename d = n) (map old_entry rs)) = map_of rs n"
  by (induction rs) (auto simp add: old_entry_def)

lemma merged_read:
  assumes "distinct (map fs_name xs)"
    and "\<forall>x \<in> set (visible xs). same_digest (env_conf env) allowed (snd (old_record_of gs D x)) x"
    and "wf_groups gs"
  shows "\<exists>ds. load_old (listed_entries xs) (map old_entry (group_of gs D)) =
      (map (old_data (map old_entry (group_of gs D))) (listed_entries xs), ds) \<and>
    list_all2 (merged_entry env gs D allowed) (visible xs)
      (map (old_data (map old_entry (group_of gs D))) (listed_entries xs))"
proof -
  let ?ds = "map old_entry (group_of gs D)"
  have names: "map ename (listed_entries xs) = map fs_name (visible xs)" "map ename ?ds = map fst (group_of gs D)"
    by (simp_all add: listed_entries_visible listed_entry_def old_entry_def)
  have "load_old (listed_entries xs) ?ds = (map (old_data ?ds) (listed_entries xs),
      map (mark_found (ename ` set (listed_entries xs))) ?ds)"
    by (rule load_old_result) (use visible_names [OF assms(1)] group_of_wf(1) [OF assms(3)] in \<open>simp_all only: names\<close>)
  moreover have "merged_entry env gs D allowed x (old_data ?ds (listed_entry x))" if x: "x \<in> set (visible xs)" for x
  proof -
    have "old_record_of gs D x = (case find (\<lambda>d. ename d = fs_name x) ?ds of
        None \<Rightarrow> (unknown_dir_time, no_metadata) | Some d \<Rightarrow> (db_modified d, previous_metadata d))"
      by (simp add: old_record_of_def find_old_entry [symmetric] split: option.splits)
    then show ?thesis
      using assms(2) x
      by (auto simp add: merged_entry_def old_data_def listed_entry_def new_entry_def is_dir_def same_digest_def
          full_metadata_def split: option.splits)
  qed
  then have "list_all2 (merged_entry env gs D allowed) (visible xs) (map (old_data ?ds) (listed_entries xs))"
    by (simp add: listed_entries_visible list_all2_conv_all_nth)
  ultimately show ?thesis by blast
qed

section \<open>The scan\<close>

text \<open>
  Where a scan is: the old records up to the directory \<open>R\<close> are read, no path after \<open>B\<close> is passed in
  the pruned paths.
\<close>

definition scan_at :: "scan_env \<Rightarrow> (bytes \<times> old_record list) list \<Rightarrow> bool \<Rightarrow> bytes \<Rightarrow> bytes \<Rightarrow> scan_state \<Rightarrow> bool" where
  "scan_at env gs err R B s \<longleftrightarrow>
     db_holds (existing s) (all_records (groups_after R gs)) \<and> ends_in_error (existing s) = err \<and>
     (\<forall>i < conf_prunepaths_index s. i < length (conf_prunepaths (env_conf env)) \<longrightarrow>
       K (conf_prunepaths (env_conf env) ! i) \<le> K B)"

abbreviation files_of :: "scan_state \<Rightarrow> (bytes \<times> file_metadata) list" where
  "files_of s \<equiv> map (\<lambda>r. (rpath r, rmetadata r)) (added_files s)"

text \<open>What the scan of a directory \<open>D\<close> does: it adds the records of its tree and stays inside it.\<close>

definition scanned :: "scan_env \<Rightarrow> (bytes \<times> old_record list) list \<Rightarrow> bool \<Rightarrow> bytes \<Rightarrow> bytes \<Rightarrow> bytes \<Rightarrow>
    (bytes \<times> file_metadata) list \<Rightarrow> scan_state \<Rightarrow> scan_error + scan_state \<Rightarrow> bool" where
  "scanned env gs err R B D rs s result \<longleftrightarrow>
     (\<exists>s' R' B'. result = Inr s' \<and> scan_at env gs err R' B' s' \<and> (R' = R \<or> prefix D R') \<and>
       (B' = B \<or> prefix D B') \<and> files_of s' = files_of s @ rs)"

lemma scan_at_reader:
  "scan_at env gs err R B s \<Longrightarrow> same_reader s s' \<Longrightarrow> scan_at env gs err R B s'"
  by (simp add: scan_at_def same_reader_def)

lemma scan_at_files [simp]: "scan_at env gs err R B (s\<lparr>added_files := fs\<rparr>) = scan_at env gs err R B s"
  by (simp add: scan_at_def)

lemma record_removed_reader [simp]: "same_reader s (record_removed env D ds s)"
proof (induction ds arbitrary: s)
  case (Cons d ds)
  show ?case
    using Cons.IH [of s] same_reader_trans [OF record_event_reader Cons.IH] by simp
qed simp

definition subtree_records :: "scan_env \<Rightarrow> bytes \<Rightarrow> u64 \<Rightarrow> bool \<Rightarrow> fs_entry \<Rightarrow> (bytes \<times> file_metadata) list" where
  "subtree_records env D dev allowed x =
     (case descends env D dev allowed x of
        None \<Rightarrow> []
      | Some (dev', allowed', d) \<Rightarrow>
          tree_records env (D @ fs_name x) (below_dir D (fs_name x)) dev' allowed' d)"

definition subtree_fits ::
    "scan_env \<Rightarrow> (bytes \<times> old_record list) list \<Rightarrow> bool \<Rightarrow> bytes \<Rightarrow> u64 \<Rightarrow> bool \<Rightarrow> fs_entry \<Rightarrow> bool" where
  "subtree_fits env gs err D dev allowed x \<longleftrightarrow>
     (case descends env D dev allowed x of
        None \<Rightarrow> True
      | Some (dev', allowed', d) \<Rightarrow>
          fits env gs err (D @ fs_name x) (below_dir D (fs_name x)) (fst (old_record_of gs D x)) dev' allowed' d)"

text \<open>The statement for directories of bounded depth.\<close>

definition scans_well :: "nat \<Rightarrow> scan_env \<Rightarrow> (bytes \<times> old_record list) list \<Rightarrow> bool \<Rightarrow> bool" where
  "scans_well depth env gs err \<longleftrightarrow>
     (\<forall>path D R B s dev allowed modified t buf al fd xs.
        path_of path D \<longrightarrow> K R < K D \<longrightarrow> K B < K path \<longrightarrow>
        (\<forall>A. dir_name A \<longrightarrow> prefix A D \<longrightarrow> A \<noteq> D \<longrightarrow> K A \<le> K R) \<longrightarrow> scan_at env gs err R B s \<longrightarrow>
        fs_ok (Fs_dir (Some buf) al fd xs) \<longrightarrow> size (Fs_dir (Some buf) al fd xs) \<le> depth \<longrightarrow>
        modified = unknown_dir_time \<or> modified = max_dir_time (st_ctim buf) (st_mtim buf) \<longrightarrow>
        fits env gs err path D t dev allowed (Fs_dir (Some buf) al fd xs) \<longrightarrow>
        scanned env gs err R B D (tree_records env path D dev allowed (Fs_dir (Some buf) al fd xs)) s
          (scan depth env path (Fs_dir (Some buf) al fd xs) dev modified t allowed s))"

lemma scans_wellD:
  assumes "scans_well depth env gs err" and "d = Fs_dir (Some buf) al fd xs"
    and "path_of path D" and "K R < K D" and "K B < K path"
    and "\<forall>A. dir_name A \<longrightarrow> prefix A D \<longrightarrow> A \<noteq> D \<longrightarrow> K A \<le> K R" and "scan_at env gs err R B s"
    and "fs_ok d" and "size d \<le> depth"
    and "modified = unknown_dir_time \<or> modified = max_dir_time (st_ctim buf) (st_mtim buf)"
    and "fits env gs err path D t dev allowed d"
  shows "scanned env gs err R B D (tree_records env path D dev allowed d) s
    (scan depth env path d dev modified t allowed s)"
  using assms(1,3-11) unfolding scans_well_def assms(2) by blast

lemma scan_subdirs_result:
  assumes IH: "scans_well depth env gs err" and D: "dir_name D"
    and "list_all2 (scanned_entry env gs D dev allowed) ys es" and "sorted_wrt (<) (map fs_name ys)"
    and "\<forall>y \<in> set ys. fs_name y \<noteq> [] \<and> slash \<notin> set (fs_name y) \<and> fs_ok (fs_open y) \<and>
      size (fs_open y) \<le> depth \<and> subtree_fits env gs err D dev allowed y"
    and "scan_at env gs err R B s" and "prefix D R" and "prefix D B"
    and "\<forall>y \<in> set ys. K R < K (below_dir D (fs_name y)) \<and> K B < K (D @ fs_name y)"
  shows "scanned env gs err R B D (concat (map (subtree_records env D dev allowed) ys)) s
    (scan_subdirs depth env D es s)"
  using assms(3-)
proof (induction ys es arbitrary: R B s rule: list_all2_induct)
  case Nil
  then show ?case by (auto simp add: scanned_def)
next
  case (Cons y ys e es)
  let ?n = "fs_name y"
  have later: "?n < fs_name z" if "z \<in> set ys" for z using Cons.prems(1) that by simp
  have names: "?n \<noteq> []" "slash \<notin> set ?n" using Cons.prems(2) by simp_all
  show ?case
  proof (cases "descends env D dev allowed y")
    case None
    then have "scan_subdirs depth env D (e # es) s = scan_subdirs depth env D es s"
      using Cons.hyps(1) by (auto simp add: scanned_entry_def split: bool.splits)
    moreover have "scanned env gs err R B D (concat (map (subtree_records env D dev allowed) ys)) s
        (scan_subdirs depth env D es s)"
      using Cons.prems by (intro Cons.IH) auto
    moreover have "subtree_records env D dev allowed y = []" by (simp add: subtree_records_def None)
    ultimately show ?thesis by simp
  next
    case (Some r)
    obtain dev' allowed' d where r: "r = (dev', allowed', d)" by (cases r)
    note desc = Some [unfolded r]
    from descends_fstat [OF desc] obtain buf al fd xs where d: "d = Fs_dir (Some buf) al fd xs" by blast
    have e: "ename e = ?n" "is_directory e" "efd e = Some d" "edev e = dev'" "hash_allowed e = allowed'"
      "edt e = unknown_dir_time \<or> edt e = max_dir_time (st_ctim buf) (st_mtim buf)"
      "db_modified e = fst (old_record_of gs D y)"
      using Cons.hyps(1) desc d by (simp_all add: scanned_entry_def)
    have up: "\<forall>A. dir_name A \<longrightarrow> prefix A (below_dir D ?n) \<longrightarrow> A \<noteq> below_dir D ?n \<longrightarrow> K A \<le> K R"
      using prefix_child names(2) prefix_key_le Cons.prems(4) by (meson prefix_order.trans)
    have "scanned env gs err R B (below_dir D ?n) (subtree_records env D dev allowed y) s
        (scan depth env (D @ ?n) d dev' (edt e) (db_modified e) allowed' s)"
      using Cons.prems descends_open [OF desc] unfolding subtree_records_def desc option.case prod.case e(7)
      by (intro scans_wellD [OF IH d path_of_child [OF names] _ _ up _ _ _ e(6)]) (simp_all add: subtree_fits_def desc)
    then obtain s1 R1 B1 where s1: "scan depth env (D @ ?n) d dev' (edt e) (db_modified e) allowed' s = Inr s1"
      "scan_at env gs err R1 B1 s1" "R1 = R \<or> prefix (below_dir D ?n) R1" "B1 = B \<or> prefix (below_dir D ?n) B1"
      "files_of s1 = files_of s @ subtree_records env D dev allowed y" unfolding scanned_def by blast
    have inside: "prefix D R1" "prefix D B1"
      using s1(3,4) Cons.prems(4,5) by (auto intro: append_prefixD)
    have "\<forall>z \<in> set ys. K R1 < K (below_dir D (fs_name z)) \<and> K B1 < K (D @ fs_name z)"
    proof
      fix z assume z: "z \<in> set ys"
      have sl: "slash \<notin> set (fs_name z)" using Cons.prems(2) z by simp
      have "K R1 < K (below_dir D (fs_name z))"
        using s1(3) Cons.prems(6) z sibling_order(1) [OF later [OF z] names(2) sl, of D]
        by (auto simp add: prefix_def)
      moreover have "K B1 < K (D @ fs_name z)"
        using s1(4) Cons.prems(6) z sibling_order(3) [OF later [OF z] names(2) sl, of D]
        by (auto simp add: prefix_def)
      ultimately show "K R1 < K (below_dir D (fs_name z)) \<and> K B1 < K (D @ fs_name z)" ..
    qed
    then have "scanned env gs err R1 B1 D (concat (map (subtree_records env D dev allowed) ys)) s1
        (scan_subdirs depth env D es s1)"
      using Cons.prems inside s1(2) by (intro Cons.IH) auto
    moreover have "scan_subdirs depth env D (e # es) s = scan_subdirs depth env D es s1" using e s1(1) by simp
    ultimately show ?thesis using s1(5) inside unfolding scanned_def by fastforce
  qed
qed

lemma entry_files:
  "list_all2 (scanned_entry env gs D dev allowed) ys es \<Longrightarrow>
   map (\<lambda>e. (D @ ename e, emetadata e)) es = map (\<lambda>x. (D @ fs_name x, full_metadata (env_conf env) allowed x)) ys"
  by (induction ys es rule: list_all2_induct) (simp_all add: scanned_entry_def)

lemma files_of_added:
  "files_of (s\<lparr>added_files := added_files s @ map (entry_record D) es\<rparr>) =
   files_of s @ map (\<lambda>e. (D @ ename e, emetadata e)) es"
  by (simp add: entry_record_def)

lemma group_of_after: "K R < K D \<Longrightarrow> group_of (groups_after R gs) D = group_of gs D"
proof (induction gs)
  case (Cons g gs)
  then show ?case by (cases g) (auto simp add: group_of_def)
qed simp

lemma after_after: "K R \<le> K D \<Longrightarrow> groups_after D (groups_after R gs) = groups_after D gs"
  by (induction gs) auto

lemma scanned_inside:
  assumes "scanned env gs err D D D rs s0 result" and "files_of s0 = files_of s @ rs0"
  shows "scanned env gs err R B D (rs0 @ rs) s result"
proof -
  from assms(1) obtain s' R' B' where "result = Inr s'" "scan_at env gs err R' B' s'" "R' = D \<or> prefix D R'"
    "B' = D \<or> prefix D B'" "files_of s' = files_of s0 @ rs"
    unfolding scanned_def by blast
  moreover from this have "prefix D R'" "prefix D B'" by auto
  ultimately show ?thesis using assms(2) unfolding scanned_def by force
qed

text \<open>Once the entries of a directory are known, the rest of its scan.\<close>

lemma scan_tail:
  assumes IH: "scans_well depth env gs err" and D: "dir_name D"
    and es: "list_all2 (scanned_entry env gs D dev allowed) (visible xs) es"
    and ok: "fs_ok (Fs_dir f al fd xs)" "size (Fs_dir f al fd xs) \<le> Suc depth"
    and sub: "\<forall>x \<in> set (visible xs). subtree_fits env gs err D dev allowed x"
    and s: "scan_at env gs err D D s"
  shows "scanned env gs err R B D
    (map (\<lambda>x. (D @ fs_name x, full_metadata (env_conf env) allowed x)) (visible xs) @
     concat (map (subtree_records env D dev allowed) (visible xs))) s
    (scan_subdirs depth env D es (s\<lparr>added_files := added_files s @ map (entry_record D) es\<rparr>))"
proof -
  have "sorted_wrt (<) (map fs_name (visible xs))" using visible_names ok(1) by simp
  moreover have "\<forall>y \<in> set (visible xs). fs_name y \<noteq> [] \<and> slash \<notin> set (fs_name y) \<and> fs_ok (fs_open y) \<and>
      size (fs_open y) \<le> depth \<and> subtree_fits env gs err D dev allowed y"
  proof
    fix y assume y: "y \<in> set (visible xs)"
    then have "fs_name y \<noteq> []" by (auto simp add: visible_def skipped_name_def)
    moreover have "size (fs_open y) \<le> depth" using size_open [OF set_visible [OF y], of f al fd] ok(2) by simp
    ultimately show "fs_name y \<noteq> [] \<and> slash \<notin> set (fs_name y) \<and> fs_ok (fs_open y) \<and>
        size (fs_open y) \<le> depth \<and> subtree_fits env gs err D dev allowed y"
      using ok(1) set_visible [OF y] sub y by auto
  qed
  moreover have "\<forall>y \<in> set (visible xs). K D < K (below_dir D (fs_name y)) \<and> K D < K (D @ fs_name y)"
    using calculation(2) key_append_less [of "fs_name _" D] key_append_less [of "fs_name _ @ [slash]" D] by simp
  ultimately have "scanned env gs err D D D (concat (map (subtree_records env D dev allowed) (visible xs)))
      (s\<lparr>added_files := added_files s @ map (entry_record D) es\<rparr>)
      (scan_subdirs depth env D es (s\<lparr>added_files := added_files s @ map (entry_record D) es\<rparr>))"
    using s by (intro scan_subdirs_result [OF IH D es]) simp_all
  then show ?thesis by (rule scanned_inside) (simp only: files_of_added entry_files [OF es])
qed

lemma scans_well_Suc:
  assumes wf: "wf_groups gs" and sorted_paths: "sorted (map path_key (conf_prunepaths (env_conf env)))"
    and IH: "scans_well depth env gs err"
  shows "scans_well (Suc depth) env gs err"
  unfolding scans_well_def
proof (intro allI impI)
  fix path D R B s dev allowed modified t buf al fd xs
  assume path: "path_of path D" and R: "K R < K D" and B: "K B < K path"
    and up: "\<forall>A. dir_name A \<longrightarrow> prefix A D \<longrightarrow> A \<noteq> D \<longrightarrow> K A \<le> K R"
    and s: "scan_at env gs err R B s"
    and ok: "fs_ok (Fs_dir (Some buf) al fd xs)" "size (Fs_dir (Some buf) al fd xs) \<le> Suc depth"
    and modified: "modified = unknown_dir_time \<or> modified = max_dir_time (st_ctim buf) (st_mtim buf)"
    and fits: "fits env gs err path D t dev allowed (Fs_dir (Some buf) al fd xs)"
  let ?dir = "Fs_dir (Some buf) al fd xs"
  have D: "dir_name D" "path_plus_slash path = D" using path by (simp_all add: path_of_def)
  have pathD: "K path \<le> K D" using path_of_cases [OF path] by (auto intro: prefix_key_le)
  have "\<forall>i < conf_prunepaths_index s. i < length (conf_prunepaths (env_conf env)) \<longrightarrow>
      K (conf_prunepaths (env_conf env) ! i) < K path"
    using s B unfolding scan_at_def by (auto intro: le_less_trans)
  from contains_step [OF sorted_paths this] obtain index where index:
    "string_list_contains_dir_path (conf_prunepaths (env_conf env)) (conf_prunepaths_index s) path =
      (path \<in> set (conf_prunepaths (env_conf env)), index)"
    "\<forall>i < index. i < length (conf_prunepaths (env_conf env)) \<longrightarrow> K (conf_prunepaths (env_conf env) ! i) \<le> K D"
    using pathD by (auto intro: order_trans)
  let ?s1 = "s\<lparr>conf_prunepaths_index := index\<rparr>"
  have s1: "scan_at env gs err R D ?s1" using s index(2) by (simp add: scan_at_def)
  show "scanned env gs err R B D (tree_records env path D dev allowed ?dir) s
      (scan (Suc depth) env path ?dir dev modified t allowed s)"
  proof (cases "pruned env path")
    case True
    then have "scan (Suc depth) env path ?dir dev modified t allowed s = Inr ?s1"
      by (auto simp add: index(1) pruned_def Let_def)
    moreover have "tree_records env path D dev allowed ?dir = []"
      using True by (auto simp add: tree_records.simps pruned_def)
    ultimately show ?thesis using s1 unfolding scanned_def by auto
  next
    case False
    have np: "path \<notin> set (conf_prunepaths (env_conf env))"
      "(conf_prune_bind_mounts (env_conf env) \<and> env_is_bind_mount env path) = False"
      using False by (auto simp add: pruned_def)
    have sub: "\<forall>x \<in> set (visible xs). subtree_fits env gs err D dev allowed x"
      and digests: "\<forall>x \<in> set (visible xs). same_digest (env_conf env) allowed (snd (old_record_of gs D x)) x"
      and listing: "trusted gs err D t (Some buf) \<longrightarrow> same_listing gs D xs"
      using fits False by (simp_all add: fits.simps subtree_fits_def)
    have up': "\<forall>g \<in> set (groups_after R gs). prefix (fst g) D \<longrightarrow> fst g = D"
    proof (intro ballI impI)
      fix g assume g: "g \<in> set (groups_after R gs)" "prefix (fst g) D"
      then have "dir_name (fst g)" "\<not> K (fst g) \<le> K R" using wf by (auto simp add: wf_groups_def)
      then show "fst g = D" using up g(2) by blast
    qed
    have holds: "db_holds (existing s) (all_records (groups_after R gs))" "ends_in_error (existing s) = err"
      using s by (simp_all add: scan_at_def)
    from scan_reads [OF holds(1) wf_groups_filter [OF wf] path up'] obtain db where db:
      "read_directory D (skip_records path (existing s)) = (map old_entry (group_of gs D), db)"
      "db_holds db (all_records (groups_after D gs))" "groups_after D gs = [] \<longrightarrow> at_end db" "ends_in_error db = err"
      using group_of_after [OF R] after_after [OF less_imp_le [OF R]] holds(2) by auto
    let ?s2 = "?s1\<lparr>existing := db\<rparr>"
    have s2: "scan_at env gs err D D ?s2" using s1 db by (simp add: scan_at_def)
    have tree: "tree_records env path D dev allowed ?dir =
        map (\<lambda>x. (D @ fs_name x, full_metadata (env_conf env) allowed x)) (visible xs) @
        concat (map (subtree_records env D dev allowed) (visible xs))"
      using False by (auto simp add: tree_records.simps pruned_def subtree_records_def [abs_def])
    have goal: "scanned env gs err R B D (tree_records env path D dev allowed ?dir) s
        (scan_subdirs depth env D es (s'\<lparr>added_files := added_files s' @ map (entry_record D) es\<rparr>))"
      if "list_all2 (scanned_entry env gs D dev allowed) (visible xs) es" "same_reader ?s2 s'" for es s'
    proof -
      have "files_of s' = files_of s" using that(2) by (simp add: same_reader_def)
      with scan_tail [OF IH D(1) that(1) ok sub scan_at_reader [OF s2 that(2)], of R B] show ?thesis
        unfolding tree scanned_def by simp
    qed
    have parts: "distinct (map fs_name xs)" "\<forall>x \<in> set xs. fs_ok (fs_open x)" "fd" using ok(1) by auto
    show ?thesis
    proof (cases "unchanged_directory db modified t")
      case True
      then have "trusted gs err D t (Some buf)"
        using modified db(3,4) by (auto simp add: unchanged_directory_def trusted_def unknown_dir_time_def)
      with listing have "same_listing gs D xs" by simp
      from merged_taken_over [OF this digests wf] have m: "list_all2 (merged_entry env gs D allowed) (visible xs)
        (map old_entry (group_of gs D))" .
      obtain es1 s3 where st: "stat_entries env D allowed xs (map old_entry (group_of gs D)) ?s2 = (es1, s3)"
        by (cases "stat_entries env D allowed xs (map old_entry (group_of gs D)) ?s2")
      from entries_result [OF m parts(1,2) st] obtain es s' where es:
        "open_entries env D dev allowed xs es1 s3 = Inr (es, s')"
        "list_all2 (scanned_entry env gs D dev allowed) (visible xs) es" "same_reader ?s2 s'" by blast
      have "scan (Suc depth) env path ?dir dev modified t allowed s =
          scan_subdirs depth env D es (s'\<lparr>added_files := added_files s' @ map (entry_record D) es\<rparr>)"
        using np True
        by (auto simp add: index(1) db(1) D(2) Let_def st es(1) del: scan_subdirs.simps)
      with goal [OF es(2,3)] show ?thesis by simp
    next
      case unchanged: False
      from merged_read [OF parts(1) digests wf] obtain es0 ds where m:
        "load_old (listed_entries xs) (map old_entry (group_of gs D)) = (es0, ds)"
        "list_all2 (merged_entry env gs D allowed) (visible xs) es0" by blast
      obtain es1 s3 where st: "stat_entries env D allowed xs es0 ?s2 = (es1, s3)"
        by (cases "stat_entries env D allowed xs es0 ?s2")
      from entries_result [OF m(2) parts(1,2) st] obtain es s' where es:
        "open_entries env D dev allowed xs es1 s3 = Inr (es, s')"
        "list_all2 (scanned_entry env gs D dev allowed) (visible xs) es" "same_reader ?s2 s'" by blast
      have "scan (Suc depth) env path ?dir dev modified t allowed s =
          scan_subdirs depth env D es ((record_removed env D ds s')
            \<lparr>added_files := added_files (record_removed env D ds s') @ map (entry_record D) es\<rparr>)"
        using np unchanged parts(3)
        by (auto simp add: index(1) db(1) D(2) Let_def m(1) st es(1) del: scan_subdirs.simps)
      moreover have "same_reader ?s2 (record_removed env D ds s')"
        using es(3) record_removed_reader by (rule same_reader_trans)
      ultimately show ?thesis using goal [OF es(2)] by simp
    qed
  qed
qed

lemma scans_well: 
  assumes "wf_groups gs" and "sorted (map path_key (conf_prunepaths (env_conf env)))"
  shows "scans_well depth env gs err"
proof (induction depth)
  case 0
  then show ?case by (simp add: scans_well_def)
next
  case (Suc depth)
  then show ?case by (rule scans_well_Suc [OF assms])
qed

section \<open>A run of updatedb\<close>

definition scan_root_path :: "configuration \<Rightarrow> bytes" where
  "scan_root_path c = (case conf_scan_root c of None \<Rightarrow> str ''/'' | Some path \<Rightarrow> path)"

definition root_allowed :: "configuration \<Rightarrow> fs_dir \<Rightarrow> bool" where
  "root_allowed c root \<longleftrightarrow> conf_metadata_hash_kind c = HashNone \<or> d_allows_hashing root"

text \<open>What a scan without an old database gives, in terms of the tree.\<close>

definition full_scan :: "scan_env \<Rightarrow> fs_dir \<Rightarrow> (bytes \<times> file_metadata) list" where
  "full_scan env root =
     (case d_fstat root of
        None \<Rightarrow> []
      | Some buf \<Rightarrow>
          tree_records env (scan_root_path (env_conf env)) (path_plus_slash (scan_root_path (env_conf env)))
            (st_dev buf) (root_allowed (env_conf env) root) root)"

definition old_db_fits :: "scan_env \<Rightarrow> (bytes \<times> old_record list) list \<Rightarrow> bool \<Rightarrow> fs_dir \<Rightarrow> bool" where
  "old_db_fits env gs err root \<longleftrightarrow>
     (\<forall>buf. d_fstat root = Some buf \<longrightarrow>
       fits env gs err (scan_root_path (env_conf env)) (path_plus_slash (scan_root_path (env_conf env)))
         unknown_dir_time (st_dev buf) (root_allowed (env_conf env) root) root)"

lemma groups_after_root:
  "\<forall>g \<in> set gs. prefix D (fst g) \<Longrightarrow> K R < K D \<Longrightarrow> groups_after R gs = gs"
  by (rule filter_True) (auto dest!: bspec intro: less_le_trans prefix_key_le)

lemma updatedb_run_files:
  assumes wf: "wf_groups gs" and prunepaths: "sorted (map path_key (conf_prunepaths (env_conf env)))"
    and path: "scan_root_path (env_conf env) \<noteq> []"
    and inside: "\<forall>g \<in> set gs. prefix (path_plus_slash (scan_root_path (env_conf env))) (fst g)"
    and r: "root = Fs_dir (Some buf) al fd xs" and root: "fs_ok root"
    and db: "db_holds db (all_records gs)" "ends_in_error db = err"
    and fits: "old_db_fits env gs err root"
  shows "\<exists>files history. updatedb_run env root db previous = Inr (files, history) \<and>
    map (\<lambda>r. (rpath r, rmetadata r)) files = full_scan env root"
proof -
  let ?path = "scan_root_path (env_conf env)" and ?D = "path_plus_slash (scan_root_path (env_conf env))"
  obtain dt s where dt: "get_dirtime env buf (start_state (env_conf env) db) = (dt, s)"
    by (cases "get_dirtime env buf (start_state (env_conf env) db)")
  note t = get_dirtime_result [OF dt]
  have D: "path_of ?path ?D" using path by (auto simp add: path_of_def dir_name_def path_plus_slash_def)
  then obtain R where R: "?D = R @ [slash]" using dir_name_split by (auto simp add: path_of_def)
  have less: "K R < K ?D" "K [] < K ?path"
    using key_append_less [of "[slash]" R] key_append_less [of ?path "[]"] path by (simp_all add: R)
  have "scan_at env gs err R [] (start_state (env_conf env) db)"
    using db by (simp add: scan_at_def start_state_def groups_after_root [OF inside less(1), simplified])
  then have at: "scan_at env gs err R [] s" using t(1) by (rule scan_at_reader)
  have up: "\<forall>A. dir_name A \<longrightarrow> prefix A ?D \<longrightarrow> A \<noteq> ?D \<longrightarrow> K A \<le> K R"
    using prefix_key_le by (auto simp only: R prefix_snoc)
  have fits': "fits env gs err ?path ?D unknown_dir_time (st_dev buf) (root_allowed (env_conf env) root) root"
    using fits r by (simp add: old_db_fits_def)
  have full: "full_scan env root =
      tree_records env ?path ?D (st_dev buf) (root_allowed (env_conf env) root) root"
    by (simp add: full_scan_def r)
  have "scanned env gs err R [] ?D (full_scan env root) s
      (scan (size root) env ?path root (st_dev buf) dt unknown_dir_time (root_allowed (env_conf env) root) s)"
    unfolding full
    by (rule scans_wellD [OF scans_well [OF wf prunepaths] r D less up at root le_refl t(3) fits'])
  then obtain s' where s': "scan (size root) env ?path root (st_dev buf) dt unknown_dir_time
      (root_allowed (env_conf env) root) s = Inr s'" "files_of s' = files_of s @ full_scan env root"
    unfolding scanned_def by blast
  have "files_of s = []" using t(1) by (simp add: same_reader_def start_state_def)
  then show ?thesis
    using s' dt by (simp add: updatedb_run_def r scan_root_path_def root_allowed_def Let_def)
qed

lemma entry_metadata_unrecorded: "same_digest c allowed no_metadata x"
  by (simp add: same_digest_def split: option.splits)

lemma no_old_db_fits: "fits env [] err path D unknown_dir_time dev allowed d"
proof (induction "[] :: (bytes \<times> old_record list) list" err path D unknown_dir_time dev allowed d rule: fits.induct)
  case (2 env err path D dev allowed f al fd xs)
  have "old_record_of [] D x = (unknown_dir_time, no_metadata)" for x
    by (simp add: old_record_of_def group_of_def)
  with 2 show ?case
    by (auto simp add: fits.simps trusted_def unknown_dir_time_def entry_metadata_unrecorded split: option.splits)
qed (simp add: fits.simps)

section \<open>Properties\<close>

text \<open>C5: An incremental run of updatedb gives the same database as a run from scratch. Let the old database
  hold the groups of entries \<open>gs\<close> (complete, or broken off by an error), recorded for directories inside
  the scanned one, and let it fit the tree: a directory that still has the time stamp it was recorded
  with has the recorded entries, and a file that still has its size and times has the recorded digest.
  Then the run succeeds, with the same entries and the same metadata, in the same order, as the full
  scan of the tree, although the directories with unchanged time stamps are never read; and so does a
  run that has no usable old database. The entries of a directory stand together, sorted by name,
  before those of its subdirectories; pruned paths, bind mounts and excluded file systems are left out.\<close>
theorem incremental_run_is_full_scan:
  assumes "wf_groups gs" and "conf_prunepaths (env_conf env) = string_list_dir_path_sort ps"
    and "scan_root_path (env_conf env) \<noteq> []"
    and "\<forall>g \<in> set gs. prefix (path_plus_slash (scan_root_path (env_conf env))) (fst g)"
    and "root = Fs_dir (Some buf) al fd xs" and "fs_ok root"
    and "old_db_fits env gs err root"
  shows "(\<exists>files history.
      updatedb_run env root (open_existing_db (all_records gs) err) previous = Inr (files, history) \<and>
      map (\<lambda>r. (rpath r, rmetadata r)) files = full_scan env root) \<and>
    (\<exists>files history.
      updatedb_run env root no_existing_db previous = Inr (files, history) \<and>
      map (\<lambda>r. (rpath r, rmetadata r)) files = full_scan env root)"
proof
  have prunepaths: "sorted (map path_key (conf_prunepaths (env_conf env)))"
    by (simp add: assms(2) string_list_dir_path_sort_def)
  have "\<forall>r \<in> set (all_records gs). fst r \<noteq> []"
    using assms(1) record_of_group by (fastforce simp add: wf_groups_def)
  then have "db_holds (open_existing_db (all_records gs) err) (all_records gs)"
    by (simp add: db_holds_def open_existing_db_def)
  from updatedb_run_files [OF assms(1) prunepaths assms(3-6) this _ assms(7)]
  show "\<exists>files history.
      updatedb_run env root (open_existing_db (all_records gs) err) previous = Inr (files, history) \<and>
      map (\<lambda>r. (rpath r, rmetadata r)) files = full_scan env root"
    by (simp add: open_existing_db_def)
  have "db_holds no_existing_db (all_records [])"
    by (simp add: db_holds_def no_existing_db_def open_existing_db_def)
  moreover have "old_db_fits env [] False root" by (simp add: old_db_fits_def no_old_db_fits)
  ultimately show "\<exists>files history.
      updatedb_run env root no_existing_db previous = Inr (files, history) \<and>
      map (\<lambda>r. (rpath r, rmetadata r)) files = full_scan env root"
    using updatedb_run_files [of "[]" env root buf al fd xs no_existing_db False previous] prunepaths assms(3,5,6)
    by (simp add: wf_groups_def no_existing_db_def open_existing_db_def)
qed

text \<open>A directory that is taken over from the old database: its name is \<open>/a\<close>, its entry \<open>f\<close>.\<close>

definition sample_env :: scan_env where
  "sample_env =
     \<lparr>env_conf = default_configuration, env_is_bind_mount = (\<lambda>path. False), env_mounts = None,
      env_gettimeofday = (\<lambda>n. (1000, 0)), env_realtime = (\<lambda>n. \<lparr>sec = 1000, nsec = 0\<rparr>)\<rparr>"

definition sample_file :: fs_entry where
  "sample_file = Fs_entry (str ''f'') DT_other None None (Open_fails False)"

definition sample_directory :: fs_entry where
  "sample_directory =
     Fs_entry (str ''a'') DT_DIR (Some (sample_stat 400)) None
       (Fs_dir (Some (sample_stat 400)) True True [sample_file])"

definition sample_tree :: fs_dir where
  "sample_tree = Fs_dir (Some (sample_stat 500)) True True [sample_directory]"

definition sample_records :: "(bytes \<times> old_record list) list" where
  "sample_records =
     [(str ''/'', [(str ''a'', \<lparr>sec = 400, nsec = 0\<rparr>, no_metadata)]),
      (str ''/a/'', [(str ''f'', not_a_dir, no_metadata)])]"

lemma sample_fits: "old_db_fits sample_env sample_records False sample_tree"
proof -
  have vis: "visible [sample_file] = [sample_file]" "visible [sample_directory] = [sample_directory]"
    by (simp_all add: visible_def sample_file_def sample_directory_def skipped_name_def str_def)
  have unpruned: "\<not> pruned sample_env path" for path
    by (simp add: pruned_def sample_env_def default_configuration_def)
  have old: "group_of sample_records (str ''/a/'') = [(str ''f'', not_a_dir, no_metadata)]"
    "old_record_of sample_records (str ''/'') sample_directory = (\<lparr>sec = 400, nsec = 0\<rparr>, no_metadata)"
    "old_record_of sample_records (str ''/a/'') sample_file = (not_a_dir, no_metadata)"
    by (simp_all add: old_record_of_def group_of_def sample_records_def str_def sample_directory_def sample_file_def)
  have "is_dir sample_file \<longleftrightarrow> 0 \<le>s sec not_a_dir"
    by (simp add: is_dir_def listed_entry_def new_entry_def sample_file_def not_a_dir_def word_sle_eq)
  then have listing: "same_listing sample_records (str ''/a/'') [sample_file]"
    unfolding same_listing_def old vis by (simp add: sample_file_def)
  have untrusted: "\<not> trusted sample_records False D unknown_dir_time f" for D f
    by (simp add: trusted_def unknown_dir_time_def)
  have down: "descends sample_env (str ''/'') 1 True sample_directory =
      Some (1, True, Fs_dir (Some (sample_stat 400)) True True [sample_file])"
    "descends sample_env (str ''/a/'') 1 True sample_file = None"
    by (simp_all add: descends_def is_dir_def listed_entry_def new_entry_def sample_directory_def sample_file_def
        sample_env_def default_configuration_def sample_stat_def)
  have names: "str ''/'' @ fs_name sample_directory = str ''/a''" "below_dir (str ''/'') (fs_name sample_directory) = str ''/a/''"
    by (simp_all add: str_def sample_directory_def)
  have root: "scan_root_path (env_conf sample_env) = str ''/''" "path_plus_slash (str ''/'') = str ''/''"
    "root_allowed (env_conf sample_env) sample_tree" "st_dev (sample_stat 500) = 1"
    by (simp_all add: scan_root_path_def root_allowed_def sample_env_def default_configuration_def path_plus_slash_def
        str_def sample_stat_def)
  have "fits sample_env sample_records False (str ''/a'') (str ''/a/'') \<lparr>sec = 400, nsec = 0\<rparr> 1 True
      (Fs_dir (Some (sample_stat 400)) True True [sample_file])"
    by (simp add: fits.simps vis unpruned old listing down entry_metadata_unrecorded)
  then have "fits sample_env sample_records False (str ''/'') (str ''/'') unknown_dir_time 1 True sample_tree"
    by (simp add: sample_tree_def fits.simps vis unpruned old untrusted down entry_metadata_unrecorded
        names [simplified])
  then show ?thesis by (simp add: old_db_fits_def root sample_tree_def [symmetric])
      (simp add: sample_tree_def root)
qed

lemma incremental_run_is_full_scan_witness:
  "trusted sample_records False (str ''/a/'') \<lparr>sec = 400, nsec = 0\<rparr> (Some (sample_stat 400)) \<and>
   (\<exists>files history.
      updatedb_run sample_env sample_tree (open_existing_db (all_records sample_records) False) [] = Inr (files, history) \<and>
      map (\<lambda>r. (rpath r, rmetadata r)) files = full_scan sample_env sample_tree)"
proof
  show "trusted sample_records False (str ''/a/'') \<lparr>sec = 400, nsec = 0\<rparr> (Some (sample_stat 400))"
    by (simp add: trusted_def sample_stat_def max_dir_time_def word_sless_alt)
  have "wf_groups sample_records"
    by (simp add: wf_groups_def sample_records_def dir_name_def str_def byte_key_def)
  moreover have "conf_prunepaths (env_conf sample_env) = string_list_dir_path_sort []"
    by (simp add: sample_env_def default_configuration_def string_list_dir_path_sort_def)
  moreover have "scan_root_path (env_conf sample_env) \<noteq> []"
    by (simp add: sample_env_def default_configuration_def scan_root_path_def str_def)
  moreover have "\<forall>g \<in> set sample_records. prefix (path_plus_slash (scan_root_path (env_conf sample_env))) (fst g)"
    by (simp add: sample_env_def default_configuration_def scan_root_path_def str_def path_plus_slash_def sample_records_def)
  moreover have "fs_ok sample_tree"
    by (simp add: sample_tree_def sample_directory_def sample_file_def str_def)
  moreover note sample_fits
  ultimately show "\<exists>files history.
      updatedb_run sample_env sample_tree (open_existing_db (all_records sample_records) False) [] = Inr (files, history) \<and>
      map (\<lambda>r. (rpath r, rmetadata r)) files = full_scan sample_env sample_tree"
    using incremental_run_is_full_scan [of sample_records sample_env "[]" sample_tree "sample_stat 500" True True
        _ False "[]"] by (auto simp add: sample_tree_def)
qed

end
