(* ===== verification/Inflate.thy ===== *)
theory Inflate
  imports Prelude "HOL-Library.Sublist"
begin

text \<open>
  Reading a compressed stream: the loops around \<open>ZSTD_decompressStream\<close> in \<open>src/showdiff.cpp\<close>
  (\<open>decompress_stream\<close>) and \<open>src/updatedb.cpp\<close> (\<open>decompress_history_blob\<close>). The decompressor is a
  parameter: \<open>step state input room\<close> is one call with that input and room for so many bytes, None an
  error, otherwise the new state, the bytes produced and the number of input bytes consumed.
\<close>

type_synonym 's inflater = "'s \<Rightarrow> bytes \<Rightarrow> nat \<Rightarrow> ('s \<times> bytes \<times> nat) option"

text \<open>
  What the documentation of zstd promises: \<open>left state input content\<close> says that in \<open>state\<close> the rest
  \<open>input\<close> of the stream still gives \<open>content\<close>. A call produces a part of it and goes on; with input
  and room it does something unless the input breaks off; the last byte of a frame is only consumed
  when all content is flushed.
\<close>

definition inflates :: "'s inflater \<Rightarrow> ('s \<Rightarrow> bytes \<Rightarrow> bytes \<Rightarrow> bool) \<Rightarrow> bool" where
  "inflates step left \<longleftrightarrow>
     (\<forall>s input more content room. left s (input @ more) content \<longrightarrow> 0 < room \<longrightarrow>
       (\<exists>s' produced n. step s input room = Some (s', produced, n) \<and> n \<le> length input \<and>
          length produced \<le> room \<and> prefix produced content \<and>
          left s' (drop n input @ more) (drop (length produced) content) \<and>
          (n = 0 \<and> produced = [] \<longrightarrow> input = [] \<or> more \<noteq> []))) \<and>
     (\<forall>s content. left s [] content \<longrightarrow> content = [])"

lemma inflates_step:
  assumes "inflates step left" and "left s (input @ more) content" and "0 < room"
  obtains s' produced n content' where "step s input room = Some (s', produced, n)" and "n \<le> length input"
    and "length produced \<le> room" and "content = produced @ content'" and "left s' (drop n input @ more) content'"
    and "n = 0 \<and> produced = [] \<longrightarrow> input = [] \<or> more \<noteq> []"
proof -
  from assms obtain s' produced n where *: "step s input room = Some (s', produced, n)" "n \<le> length input"
    "length produced \<le> room" "prefix produced content" "left s' (drop n input @ more) (drop (length produced) content)"
    "n = 0 \<and> produced = [] \<longrightarrow> input = [] \<or> more \<noteq> []"
    unfolding inflates_def by blast
  from *(4) obtain content' where "content = produced @ content'" by (auto simp add: prefix_def)
  with * that show ?thesis by simp
qed

lemma inflates_step_complete:
  assumes "inflates step left" and "left s input content" and "0 < room" and "input \<noteq> []"
  shows "\<exists>s' produced n content'. step s input room = Some (s', produced, n) \<and> n \<le> length input \<and>
    content = produced @ content' \<and> left s' (drop n input) content' \<and> (n \<noteq> 0 \<or> produced \<noteq> [])"
proof -
  from assms(2) have "left s (input @ []) content" by simp
  from inflates_step [OF assms(1) this assms(3)] obtain s' produced n content' where
    "step s input room = Some (s', produced, n)" "n \<le> length input" "length produced \<le> room"
    "content = produced @ content'" "left s' (drop n input @ []) content'" "n = 0 \<and> produced = [] \<longrightarrow> input = [] \<or> [] \<noteq> ([] :: bytes)" by blast
  then show ?thesis using assms(4) by (intro exI [of _ s'] exI [of _ produced] exI [of _ n] exI [of _ content']) auto
qed

lemma inflates_end: "inflates step left \<Longrightarrow> left s [] content \<Longrightarrow> content = []"
  unfolding inflates_def by blast

text \<open>A decompressor that stores: its streams are the content itself.\<close>

definition storing_inflater :: "unit inflater" where
  "storing_inflater s input room = Some ((), take room input, length (take room input))"

lemma storing_inflates: "inflates storing_inflater (\<lambda>s input content. input = content)"
proof -
  have "prefix (take room input) (input @ more)" for room and input more :: bytes
    by (meson prefixI prefix_order.trans take_is_prefix)
  then show ?thesis unfolding inflates_def storing_inflater_def by auto
qed

section \<open>The loop\<close>

text \<open>
  \<open>pos\<close> is how much of the input is consumed. Some None is a failure, None a loop that does not end.
\<close>

partial_function (option) decompress_loop ::
    "'s inflater \<Rightarrow> nat \<Rightarrow> 's \<Rightarrow> bytes \<Rightarrow> bytes \<Rightarrow> bytes option option" where
  "decompress_loop step room s rest content =
     (if rest \<noteq> [] then
        case step s rest room of
          None \<Rightarrow> Some None
        | Some (s', produced, n) \<Rightarrow> decompress_loop step room s' (drop n rest) (content @ produced)
      else Some (Some content))"

definition decompress_stream :: "'s inflater \<Rightarrow> 's \<Rightarrow> bytes \<Rightarrow> bytes option option" where
  "decompress_stream step ctx compressed = decompress_loop step 8192 ctx compressed []"

text \<open>In updatedb a failure gives an empty history.\<close>

definition decompress_history_blob :: "'s inflater \<Rightarrow> 's \<Rightarrow> bytes \<Rightarrow> bytes option" where
  "decompress_history_blob step ctx compressed =
     map_option (\<lambda>r. case r of None \<Rightarrow> [] | Some content \<Rightarrow> content) (decompress_loop step 4096 ctx compressed [])"

lemma decompress_loop_all:
  assumes "inflates step left" and "0 < room" and "left s rest content"
  shows "decompress_loop step room s rest done_part = Some (Some (done_part @ content))"
  using assms(3)
proof (induction "length rest + length content" arbitrary: s rest content done_part rule: less_induct)
  case less
  show ?case
  proof (cases "rest = []")
    case True
    then show ?thesis
      using less.prems inflates_end [OF assms(1)] by (subst decompress_loop.simps) simp
  next
    case False
    from inflates_step_complete [OF assms(1) less.prems assms(2) this] obtain s' produced n content' where
      st: "step s rest room = Some (s', produced, n)" "n \<le> length rest" "content = produced @ content'"
      "left s' (drop n rest) content'" "n \<noteq> 0 \<or> produced \<noteq> []" by blast
    then have "length (drop n rest) + length content' < length rest + length content"
      by (cases "n = 0") auto
    from less.hyps [OF this st(4), of "done_part @ produced"] show ?thesis
      using False by (subst decompress_loop.simps) (simp add: st(1,3))
  qed
qed

lemma decompress_stream_all:
  "inflates step left \<Longrightarrow> left s compressed content \<Longrightarrow>
   decompress_stream step s compressed = Some (Some content) \<and>
   decompress_history_blob step s compressed = Some content"
  using decompress_loop_all [of step left _ s compressed content "[]"]
  by (simp add: decompress_stream_def decompress_history_blob_def)

end
