(* ===== verification/Database_Sections.thy ===== *)
theory Database_Sections
  imports Database_Roundtrip Inflate
begin

text \<open>
  Where \<open>finish_corpus\<close> puts the sections that the search does not read (directory times, metadata,
  history, the next dictionary, the configuration block) and the dictionary: a read of a section's
  length at its offset, both from the header, gives its bytes.
\<close>

definition section_at :: "bytes \<Rightarrow> u64 \<Rightarrow> u64 \<Rightarrow> bytes \<Rightarrow> bool" where
  "section_at file off len bs \<longleftrightarrow>
     len = of_nat (length bs) \<and>
     (bs \<noteq> [] \<longrightarrow> unat off + length bs \<le> length file \<and> take (length bs) (drop (unat off) file) = bs)"

lemma section_at_length: "section_at file off len bs \<Longrightarrow> length file < 2 ^ 36 \<Longrightarrow> unat len = length bs"
  by (cases "bs = []") (auto simp add: section_at_def intro!: unat_of_nat_small)

lemma section_at_pread: "section_at file off len bs \<Longrightarrow> length file < 2 ^ 36 \<Longrightarrow>
    pread file (unat len) (unat off) = Some bs"
  by (auto simp add: section_at_length) (auto simp add: section_at_def pread_def)

lemma section_part:
  assumes "file = head @ drop (length head) (pre @ bs @ post)" and "length head \<le> length pre" and "length file < 2 ^ 36"
    and "bs \<noteq> [] \<Longrightarrow> off = of_nat (length pre)" and "len = of_nat (length bs)"
  shows "section_at file off len bs"
proof -
  have f: "file = (head @ drop (length head) pre) @ bs @ post" using assms(1,2) by simp
  have l: "length (head @ drop (length head) pre) = length pre" using assms(2) by simp
  have "unat (of_nat (length pre) :: u64) = length pre"
    by (rule unat_of_nat_small) (use assms(3) f l in simp)
  then show ?thesis using assms(4,5) l unfolding section_at_def f by (cases "bs = []") simp_all
qed

text \<open>The sections of a finished file.\<close>

record sections =
  s_dictionary :: bytes
  s_dir_times :: bytes
  s_metadata :: bytes
  s_history :: bytes
  s_next_dictionary :: bytes
  s_conf_block :: bytes

definition sections_at :: "bytes \<Rightarrow> header \<Rightarrow> sections \<Rightarrow> bool" where
  "sections_at file h s \<longleftrightarrow>
     section_at file (zstd_dictionary_offset_bytes h) (ucast (zstd_dictionary_length_bytes h)) (s_dictionary s) \<and>
     section_at file (directory_data_offset_bytes h) (directory_data_length_bytes h) (s_dir_times s) \<and>
     section_at file (metadata_offset_bytes h) (metadata_length_bytes h) (s_metadata s) \<and>
     section_at file (history_offset_bytes h) (history_length_bytes h) (s_history s) \<and>
     section_at file (next_zstd_dictionary_offset_bytes h) (next_zstd_dictionary_length_bytes h) (s_next_dictionary s) \<and>
     section_at file (conf_block_offset_bytes h) (conf_block_length_bytes h) (s_conf_block s)"

definition optional_part :: "header \<Rightarrow> u64 list" where
  "optional_part h =
     [directory_data_offset_bytes h, directory_data_length_bytes h, metadata_offset_bytes h, metadata_length_bytes h,
      history_offset_bytes h, history_length_bytes h, next_zstd_dictionary_offset_bytes h,
      next_zstd_dictionary_length_bytes h, conf_block_offset_bytes h, conf_block_length_bytes h]"

definition dictionary_part :: "header \<Rightarrow> u64 \<times> u32" where
  "dictionary_part h = (zstd_dictionary_offset_bytes h, zstd_dictionary_length_bytes h)"

lemma finish_corpus_layout:
  assumes "finish_corpus z compress_all fuel buf db = Some file"
    and "optional_part (hdr db) = replicate 10 0" and "metadata_flags (hdr db) = 0"
  shows "\<exists>c file0 h0 dts ms history h. finish_blocks z buf (corpus db) = Some c \<and>
    write_search_index fuel buf (contents db) c (hdr db) = Some (file0, h0) \<and>
    get_compressed_dir_times z c = Some dts \<and> get_compressed_metadata z c = Some ms \<and>
    (if history_events db = [] then history = []
     else compress_all (encode_history_stream (history_events db)) = Some history) \<and>
    file = header_bytes h @
      drop header_size (file0 @ dts @ ms @ history @ next_dictionary db @ conf_block db) \<and>
    search_part h = search_part h0 \<and> dictionary_part h = dictionary_part (hdr db) \<and> version h = 2 \<and>
    metadata_flags h = (if ms = [] then 0 else METADATA_FLAG_POSIX_V2) \<and>
    directory_data_length_bytes h = of_nat (length dts) \<and>
    (dts \<noteq> [] \<longrightarrow> directory_data_offset_bytes h = of_nat (length file0)) \<and>
    metadata_length_bytes h = of_nat (length ms) \<and>
    (ms \<noteq> [] \<longrightarrow> metadata_offset_bytes h = of_nat (length (file0 @ dts))) \<and>
    history_length_bytes h = of_nat (length history) \<and>
    (history \<noteq> [] \<longrightarrow> history_offset_bytes h = of_nat (length (file0 @ dts @ ms))) \<and>
    next_zstd_dictionary_length_bytes h = of_nat (length (next_dictionary db)) \<and>
    (next_dictionary db \<noteq> [] \<longrightarrow>
      next_zstd_dictionary_offset_bytes h = of_nat (length (file0 @ dts @ ms @ history))) \<and>
    conf_block_length_bytes h = of_nat (length (conf_block db)) \<and>
    (conf_block db \<noteq> [] \<longrightarrow>
      conf_block_offset_bytes h = of_nat (length (file0 @ dts @ ms @ history @ next_dictionary db)))"
proof -
  from assms(1) obtain c fh dts ms hist where
    c: "finish_blocks z buf (corpus db) = Some c"
    and fh: "write_search_index fuel buf (contents db) c (hdr db) = Some fh"
    and parts: "get_compressed_dir_times z c = Some dts" "get_compressed_metadata z c = Some ms"
      "(if history_events db = [] then Some []
        else compress_all (encode_history_stream (history_events db))) = Some hist"
    unfolding finish_corpus_def Let_def by (elim bind_eq_SomeE) blast
  obtain file0 h0 where f0: "fh = (file0, h0)" by (cases fh)
  have h0: "optional_part h0 = replicate 10 0" "metadata_flags h0 = 0" "dictionary_part h0 = dictionary_part (hdr db)"
    using search_index_parts [OF fh [unfolded f0]] assms(2,3) by (auto simp add: optional_part_def dictionary_part_def)
  have z: "directory_data_length_bytes h0 = 0" "metadata_length_bytes h0 = 0" "history_length_bytes h0 = 0"
    "next_zstd_dictionary_length_bytes h0 = 0" "conf_block_length_bytes h0 = 0"
    using h0(1) by (simp_all add: optional_part_def numeral_eq_Suc)
  define fh1 where "fh1 = add_section dts
    (\<lambda>off len h. h\<lparr>directory_data_offset_bytes := off, directory_data_length_bytes := len\<rparr>) fh"
  define fh2 where "fh2 = add_section ms
    (\<lambda>off len h. h\<lparr>metadata_offset_bytes := off, metadata_length_bytes := len,
                   metadata_flags := METADATA_FLAG_POSIX_V2\<rparr>) fh1"
  define fh3 where "fh3 = (if history_events db = [] then fh2
    else (fst fh2 @ hist, (snd fh2)\<lparr>history_offset_bytes := of_nat (length (fst fh2)),
            history_length_bytes := of_nat (length hist)\<rparr>))"
  define fh4 where "fh4 = add_section (next_dictionary db)
    (\<lambda>off len h. h\<lparr>next_zstd_dictionary_offset_bytes := off, next_zstd_dictionary_length_bytes := len\<rparr>) fh3"
  define fh5 where "fh5 = add_section (conf_block db)
    (\<lambda>off len h. h\<lparr>conf_block_offset_bytes := off, conf_block_length_bytes := len\<rparr>) fh4"
  have layout: "file = header_bytes ((snd fh5)\<lparr>version := 2\<rparr>) @ drop header_size (fst fh5)"
    using assms(1) by (simp add: finish_corpus_def c fh parts fh1_def fh2_def fh3_def fh4_def fh5_def Let_def
        cong: if_cong)
  have hist: "history_events db = [] \<Longrightarrow> hist = []" using parts(3) by simp
  have 1: "fst fh1 = file0 @ dts" by (simp add: fh1_def add_section_def f0)
  then have 2: "fst fh2 = file0 @ dts @ ms" by (simp add: fh2_def add_section_def)
  then have 3: "fst fh3 = file0 @ dts @ ms @ hist" using hist by (simp add: fh3_def)
  then have 4: "fst fh4 = file0 @ dts @ ms @ hist @ next_dictionary db" by (simp add: fh4_def add_section_def)
  then have 5: "fst fh5 = file0 @ dts @ ms @ hist @ next_dictionary db @ conf_block db"
    by (simp add: fh5_def add_section_def)
  let ?h = "(snd fh5)\<lparr>version := 2\<rparr>"
  let ?pos = "\<lambda>bs n old. if bs = [] then old else of_nat n :: u64"
  have s1: "snd fh1 = h0\<lparr>directory_data_offset_bytes := ?pos dts (length file0) (directory_data_offset_bytes h0),
      directory_data_length_bytes := of_nat (length dts)\<rparr>"
    using z(1) by (simp add: fh1_def add_section_def f0)
  have s2: "snd fh2 = (snd fh1)\<lparr>metadata_offset_bytes := ?pos ms (length (file0 @ dts)) (metadata_offset_bytes h0),
      metadata_length_bytes := of_nat (length ms),
      metadata_flags := (if ms = [] then 0 else METADATA_FLAG_POSIX_V2)\<rparr>"
    using z(2) h0(2) 1 by (simp add: fh2_def add_section_def s1)
  define off where "off = (if history_events db = [] then history_offset_bytes h0 else of_nat (length (file0 @ dts @ ms)))"
  have s3: "snd fh3 = (snd fh2)\<lparr>history_offset_bytes := off, history_length_bytes := of_nat (length hist)\<rparr>"
    "hist \<noteq> [] \<longrightarrow> off = of_nat (length (file0 @ dts @ ms))"
  proof (cases "history_events db = []")
    case True
    then show "snd fh3 = (snd fh2)\<lparr>history_offset_bytes := off, history_length_bytes := of_nat (length hist)\<rparr>"
      using z(3) hist by (simp add: fh3_def s2 s1 off_def)
  qed (use 2 hist in \<open>auto simp add: fh3_def off_def\<close>)
  have s4: "snd fh4 = (snd fh3)\<lparr>next_zstd_dictionary_offset_bytes :=
        ?pos (next_dictionary db) (length (file0 @ dts @ ms @ hist)) (next_zstd_dictionary_offset_bytes h0),
      next_zstd_dictionary_length_bytes := of_nat (length (next_dictionary db))\<rparr>"
    using z(4) 3 by (simp add: fh4_def add_section_def s3(1) s2 s1)
  have s5: "snd fh5 = (snd fh4)\<lparr>conf_block_offset_bytes :=
        ?pos (conf_block db) (length (file0 @ dts @ ms @ hist @ next_dictionary db)) (conf_block_offset_bytes h0),
      conf_block_length_bytes := of_nat (length (conf_block db))\<rparr>"
    using z(5) 4 by (simp add: fh5_def add_section_def s4 s3(1) s2 s1)
  have same: "search_part ?h = search_part h0" "dictionary_part ?h = dictionary_part (hdr db)"
    using h0(3) by (simp_all add: s5 s4 s3(1) s2 s1 search_part_def dictionary_part_def)
  have fields: "version ?h = 2" "metadata_flags ?h = (if ms = [] then 0 else METADATA_FLAG_POSIX_V2)"
    "directory_data_length_bytes ?h = of_nat (length dts)"
    "dts \<noteq> [] \<longrightarrow> directory_data_offset_bytes ?h = of_nat (length file0)"
    "metadata_length_bytes ?h = of_nat (length ms)"
    "ms \<noteq> [] \<longrightarrow> metadata_offset_bytes ?h = of_nat (length (file0 @ dts))"
    "history_length_bytes ?h = of_nat (length hist)"
    "hist \<noteq> [] \<longrightarrow> history_offset_bytes ?h = of_nat (length (file0 @ dts @ ms))"
    "next_zstd_dictionary_length_bytes ?h = of_nat (length (next_dictionary db))"
    "next_dictionary db \<noteq> [] \<longrightarrow>
      next_zstd_dictionary_offset_bytes ?h = of_nat (length (file0 @ dts @ ms @ hist))"
    "conf_block_length_bytes ?h = of_nat (length (conf_block db))"
    "conf_block db \<noteq> [] \<longrightarrow>
      conf_block_offset_bytes ?h = of_nat (length (file0 @ dts @ ms @ hist @ next_dictionary db))"
    using s3(2) by (simp_all add: s5 s4 s3(1) s2 s1)
  have hist': "if history_events db = [] then hist = []
     else compress_all (encode_history_stream (history_events db)) = Some hist"
    using parts(3) by (cases "history_events db = []") simp_all
  show ?thesis
    using c fh [unfolded f0] parts(1,2) hist' layout [unfolded 5] same fields by blast
qed

section \<open>Reading compressed parts\<close>

text \<open>
  The decompression functions of zstd: streaming, the size recorded in a frame, and a frame at once,
  with a dictionary and room for so many bytes.
\<close>

record 'd zstd_reader =
  inflate_step :: "'d inflater"
  inflate_start :: 'd
  frame_content_size :: "bytes \<Rightarrow> u64 option"
  decompress_frame :: "bytes \<Rightarrow> bytes \<Rightarrow> nat \<Rightarrow> bytes option"

text \<open>What was compressed is decompressed: finished streams, whole buffers, and blocks.\<close>

definition reader_laws ::
    "'d zstd_reader \<Rightarrow> ('d \<Rightarrow> bytes \<Rightarrow> bytes \<Rightarrow> bool) \<Rightarrow> ('c \<Rightarrow> bytes) \<Rightarrow> ('c \<Rightarrow> bytes) \<Rightarrow> 'c zstd \<Rightarrow>
     (bytes \<Rightarrow> bytes option) \<Rightarrow> bytes \<Rightarrow> bool" where
  "reader_laws r yields given emitted z compress_all dictionary \<longleftrightarrow>
     inflates (inflate_step r) yields \<and>
     (\<forall>x n x' out. end_stream z x n = Some (x', out, True) \<longrightarrow> yields (inflate_start r) (emitted x @ out) (given x)) \<and>
     (\<forall>bs c. compress_all bs = Some c \<longrightarrow> yields (inflate_start r) c bs) \<and>
     (\<forall>b. b \<noteq> [] \<longrightarrow> frame_content_size r (compress_block z b) = Some (of_nat (length b)) \<and>
       (\<forall>room. length b \<le> room \<longrightarrow> decompress_frame r dictionary (compress_block z b) room = Some b))"

lemma reader_laws_inflates: "reader_laws r yields given emitted z compress_all dictionary \<Longrightarrow> inflates (inflate_step r) yields"
  by (simp add: reader_laws_def)

lemma end_compressed_read:
  assumes "zstd_laws given emitted pending decompress z" and "reader_laws r yields given emitted z compress_all dictionary"
  shows "\<exists>ctx' out. end_compressed z ctx compressed = Some (ctx', compressed @ out) \<and>
    yields (inflate_start r) (emitted ctx @ out) (given ctx)"
proof (induction "pending ctx" arbitrary: ctx compressed rule: less_induct)
  case less
  obtain ctx' out fin where s: "end_stream z ctx 4096 = Some (ctx', out, fin)"
    "given ctx' = given ctx" "emitted ctx' = emitted ctx @ out" "\<not> fin \<longrightarrow> pending ctx' < pending ctx"
    using zstd_laws_end [OF assms(1), of 4096 ctx] by (auto simp add: end_step_def)
  show ?case
  proof (cases fin)
    case True
    with s assms(2) show ?thesis by (subst end_compressed.simps) (auto simp add: reader_laws_def)
  next
    case False
    with s less.hyps [of ctx' "compressed @ out"] obtain ctx'' out' where
      "end_compressed z ctx' (compressed @ out) = Some (ctx'', (compressed @ out) @ out')"
      "yields (inflate_start r) (emitted ctx' @ out') (given ctx')" by auto
    with s False show ?thesis
      by (subst end_compressed.simps) (auto intro!: exI [of _ "out @ out'"])
  qed
qed

lemma compressed_stream_read:
  assumes "zstd_laws given emitted pending decompress z" and "reader_laws r yields given emitted z compress_all dictionary"
    and "emitted ctx = compressed"
  shows "\<exists>x y out out'. compress_buffered z 0 ctx buffer compressed = Some (x, [], compressed @ out) \<and>
    end_compressed z x (compressed @ out) = Some (y, (compressed @ out) @ out') \<and>
    yields (inflate_start r) ((compressed @ out) @ out') (given ctx @ buffer)"
proof -
  obtain x out where x: "compress_buffered z 0 ctx buffer compressed = Some (x, [], compressed @ out)"
    "given x = given ctx @ buffer" "emitted x = emitted ctx @ out"
    using compress_buffered_total [OF assms(1), of 0 ctx buffer] by fastforce
  obtain y out' where "end_compressed z x (compressed @ out) = Some (y, (compressed @ out) @ out')"
    "yields (inflate_start r) (emitted x @ out') (given x)"
    using end_compressed_read [OF assms(1,2), of x] by blast
  with x assms(3) show ?thesis by auto
qed

lemma compressed_dir_times_read:
  assumes "zstd_laws given emitted pending decompress z" and "reader_laws r yields given emitted z compress_all dictionary"
    and "streams_hold given emitted c rs" and "store_dir_times c"
  shows "\<exists>ts. get_compressed_dir_times z c = Some ts \<and> yields (inflate_start r) ts (dir_time_bytes (map dir_timestamp rs))"
proof -
  have e: "emitted (dir_time_ctx c) = dir_times_compressed c"
    and g: "given (dir_time_ctx c) @ dir_times c = dir_time_bytes (map dir_timestamp rs)"
    using assms(3,4) by (simp_all add: streams_hold_def)
  from compressed_stream_read [OF assms(1,2) e, of "dir_times c"] g assms(4) show ?thesis
    by (auto simp add: get_compressed_dir_times_def compress_dir_times_def)
qed

lemma compressed_metadata_read:
  assumes "zstd_laws given emitted pending decompress z" and "reader_laws r yields given emitted z compress_all dictionary"
    and "streams_hold given emitted c rs" and "store_metadata c"
  shows "\<exists>ms. get_compressed_metadata z c = Some ms \<and> yields (inflate_start r) ms (metadata_bytes (map rmetadata rs))"
proof -
  have e: "emitted (metadata_ctx c) = metadata_compressed c"
    and g: "given (metadata_ctx c) @ metadata_stream c = metadata_bytes (map rmetadata rs)"
    using assms(3,4) by (simp_all add: streams_hold_def)
  from compressed_stream_read [OF assms(1,2) e, of "metadata_stream c"] g assms(4) show ?thesis
    by (auto simp add: get_compressed_metadata_def compress_metadata_def)
qed

text \<open>The instance that stores.\<close>

definition storing_reader :: "unit zstd_reader" where
  "storing_reader =
     \<lparr>inflate_step = storing_inflater, inflate_start = (), frame_content_size = (\<lambda>bs. Some (of_nat (length bs))),
      decompress_frame = (\<lambda>dict bs room. Some bs)\<rparr>"

lemma storing_reader_laws:
  "reader_laws storing_reader (\<lambda>s input content. input = content) (\<lambda>ctx. ctx) (\<lambda>ctx. ctx) storing_zstd Some dictionary"
  using storing_inflates by (simp add: reader_laws_def storing_reader_def storing_zstd_def)

section \<open>A built file\<close>

text \<open>What the readers of updatedb and flocate-showdiff rely on: the header, the blocks, the sections.\<close>

definition file_holds :: "'c zstd \<Rightarrow> bytes \<Rightarrow> header \<Rightarrow> bytes list list \<Rightarrow> sections \<Rightarrow> bool" where
  "file_holds z file h bs s \<longleftrightarrow>
     take header_size file = header_bytes h \<and> version h = 2 \<and> max_version h = 3 \<and>
     metadata_flags h = (if s_metadata s = [] then 0 else METADATA_FLAG_POSIX_V2) \<and>
     length file < 2 ^ 36 \<and> unat (hdr_num_docids h) = length bs \<and> sections_at file h s \<and>
     unat (filename_index_offset_bytes h) + 8 * (length bs + 1) \<le> length file \<and>
     (\<forall>i < length bs. get_compressed_filename_block file h (of_nat i) = Some (compressed_names z (bs ! i)))"

lemma header_length: "write_search_index fuel buf start c h = Some (file0, h') \<Longrightarrow> length start \<le> length file0"
  using search_index_parts [of fuel buf start c h file0 h'] by auto

lemma written_blocks:
  assumes blocks: "blocks_hold z buf (of_nat (length start)) c bs []" "length bs \<le> 2 ^ 24"
    and w: "write_search_index fuel buf start c h0 = Some (file0, h1)"
    and fl: "file = pre @ drop (length start) file0 @ post" "length pre = length start" "length file < 2 ^ 36"
    and h: "search_part h = search_part h1"
  shows "\<forall>i < length bs. get_compressed_filename_block file h (of_nat i) = Some (compressed_names z (bs ! i))"
    and "unat (hdr_num_docids h) = length bs"
    and "unat (filename_index_offset_bytes h) + 8 * (length bs + 1) \<le> length file"
proof -
  from search_index_parts [OF w] obtain idx ht_size ht F table where
    F: "F = start @ written c @ index_part (start @ written c) c"
    and file0: "file0 = F @ concat (map trigram_bytes table) @ posting_lists (list_bytes idx) ht"
    and h1: "h1 = h0\<lparr>hdr_num_docids := of_nat (length (filename_blocks c)),
           filename_index_offset_bytes := of_nat (length (start @ written c)),
           hash_table_offset_bytes := of_nat (length F), hashtable_size := of_nat ht_size\<rparr>" by blast
  let ?rest = "concat (map trigram_bytes table) @ posting_lists (list_bytes idx) ht @ post"
  have fl2: "file = pre @ written c @ index_part (start @ written c) c @ ?rest"
    by (simp add: fl(1) file0 F)
  have bits: "hdr_num_docids h = of_nat (length bs)" "filename_index_offset_bytes h = of_nat (length (pre @ written c))"
    using h blocks(1) unfolding h1 by (simp_all add: search_part_def blocks_hold_def block_offsets_def fl(2))
  have "length (pre @ written c) < 2 ^ 64" using fl(3) by (simp add: fl2)
  then have u: "unat (filename_index_offset_bytes h) = length (pre @ written c)"
    unfolding bits by (simp add: unat_of_nat_small del: length_append)
  show "\<forall>i < length bs. get_compressed_filename_block file h (of_nat i) = Some (compressed_names z (bs ! i))"
  proof (intro allI impI)
    fix i assume "i < length bs"
    show "get_compressed_filename_block file h (of_nat i) = Some (compressed_names z (bs ! i))"
    proof (rule block_written [OF _ _ _ u \<open>i < length bs\<close>])
      show "file = pre @ written c @ concat (map (put_le 8) (filename_blocks c @ [of_nat (length (start @ written c))])) @ ?rest"
        by (simp add: fl2 index_part_def)
    qed (use blocks fl in \<open>simp_all add: blocks_hold_def\<close>)
  qed
  show "unat (hdr_num_docids h) = length bs" using blocks(2) by (simp add: bits unat_of_nat_small)
  have "length (filename_blocks c) = length bs" using blocks(1) by (simp add: blocks_hold_def block_offsets_def)
  then show "unat (filename_index_offset_bytes h) + 8 * (length bs + 1) \<le> length file"
    by (simp add: u fl2 index_part_def length_concat_fixed [of "put_le 8" 8])
qed

lemma start_corpus_optional:
  assumes "db = start_corpus visibility dictionary n with_times with_meta ctx ctx'"
  shows "optional_part (hdr db) = replicate 10 0" and "metadata_flags (hdr db) = 0"
    and "contents db = take header_size (contents db) @ dictionary" and "header_size \<le> length (contents db)"
    and "dictionary \<noteq> [] \<Longrightarrow> dictionary_part (hdr db) = (of_nat header_size, of_nat (length dictionary))"
    and "dictionary = [] \<Longrightarrow> dictionary_part (hdr db) = (0, 0)"
proof -
  have ten: "replicate 10 (0 :: u64) = [0, 0, 0, 0, 0, 0, 0, 0, 0, 0]" by (simp add: numeral_eq_Suc)
  show "optional_part (hdr db) = replicate 10 0"
    unfolding ten by (simp add: assms start_corpus_def open_database_def new_header_def Let_def optional_part_def)
  show "metadata_flags (hdr db) = 0"
    by (simp add: assms start_corpus_def open_database_def new_header_def Let_def)
  show "contents db = take header_size (contents db) @ dictionary" and "header_size \<le> length (contents db)"
    by (simp_all add: assms start_corpus_def open_database_def Let_def)
  show "dictionary_part (hdr db) = (of_nat header_size, of_nat (length dictionary))" if "dictionary \<noteq> []"
    using that by (simp add: assms start_corpus_def open_database_def Let_def dictionary_part_def)
  show "dictionary_part (hdr db) = (0, 0)" if "dictionary = []"
    using that by (simp add: assms start_corpus_def open_database_def Let_def dictionary_part_def)
qed

lemma built_file:
  assumes laws: "zstd_laws given emitted pending decompress z"
    and fresh: "given ctx = []" "emitted ctx = []" "given ctx' = []" "emitted ctx' = []"
    and names: "file_names (map rpath rs)" "length (chunks n (map rpath rs)) \<le> 2 ^ 24"
    and table: "names_table fuel (chunks n (map rpath rs)) \<noteq> None"
    and hist: "events \<noteq> [] \<Longrightarrow> compress_all (encode_history_stream events) \<noteq> None"
    and db: "db = start_corpus visibility dictionary n True True ctx ctx'"
    and reader: "reader_laws r yields given emitted z compress_all dictionary"
    and dict: "length dictionary < 2 ^ 32"
  shows "\<exists>c file. add_files z buf rs (corpus db) = Some c \<and>
    finish_corpus z compress_all fuel buf
      (db\<lparr>corpus := c, next_dictionary := next_dict, conf_block := conf, history_events := events\<rparr>) = Some file \<and>
    (length file < 2 ^ 36 \<longrightarrow>
      (\<exists>h s. file_holds z file h (chunks n (map rpath rs)) s \<and> s_dictionary s = dictionary \<and>
        s_next_dictionary s = next_dict \<and> s_conf_block s = conf \<and>
        yields (inflate_start r) (s_dir_times s) (dir_time_bytes (map dir_timestamp rs)) \<and>
        yields (inflate_start r) (s_metadata s) (metadata_bytes (map rmetadata rs)) \<and>
        (if events = [] then s_history s = []
         else yields (inflate_start r) (s_history s) (encode_history_stream events))))"
proof -
  let ?bs = "chunks n (map rpath rs)"
  obtain c where c: "build_corpus z buf rs (corpus db) = Some c"
    "blocks_hold z buf (of_nat (length (contents db))) c ?bs []" "streams_hold given emitted c rs"
    "store_dir_times c" "store_metadata c"
    unfolding start_corpus_parts(1) [OF db]
    by (rule build_corpus_holds [OF laws fresh names, of buf "of_nat (length (contents db))" True True]) blast
  from c(1) obtain c1 where c1: "add_files z buf rs (corpus db) = Some c1" "finish_blocks z buf c1 = Some c"
    unfolding build_corpus_def by (elim bind_eq_SomeE)
  let ?db = "db\<lparr>corpus := c1, next_dictionary := next_dict, conf_block := conf, history_events := events\<rparr>"
  from build_and_read [where compress_all = compress_all and events = events and buf = buf and conf = conf and
      next_dict = next_dict, OF laws fresh names table hist db] c1(1) obtain db_file where
    fin: "finish_corpus z compress_all fuel buf ?db = Some db_file" by fastforce
  note opt = start_corpus_optional [OF db]
  have "optional_part (hdr ?db) = replicate 10 0" "metadata_flags (hdr ?db) = 0" using opt(1,2) by simp_all
  note lay = finish_corpus_layout [OF fin this]
  have "corpus ?db = c1" "next_dictionary ?db = next_dict" "conf_block ?db = conf" "history_events ?db = events"
    "contents ?db = contents db" "hdr ?db = hdr db" by simp_all
  note lay = lay [unfolded this c1(2) option.inject]
  from lay obtain file0 h0 dts ms history h where
    w: "write_search_index fuel buf (contents db) c (hdr db) = Some (file0, h0)"
    and streams: "get_compressed_dir_times z c = Some dts" "get_compressed_metadata z c = Some ms"
      "if events = [] then history = [] else compress_all (encode_history_stream events) = Some history"
    and layout: "db_file = header_bytes h @ drop header_size (file0 @ dts @ ms @ history @ next_dict @ conf)"
    and parts: "search_part h = search_part h0" "dictionary_part h = dictionary_part (hdr db)" "version h = 2"
      "metadata_flags h = (if ms = [] then 0 else METADATA_FLAG_POSIX_V2)"
    and lens: "directory_data_length_bytes h = of_nat (length dts)" "metadata_length_bytes h = of_nat (length ms)"
      "history_length_bytes h = of_nat (length history)" "next_zstd_dictionary_length_bytes h = of_nat (length next_dict)"
      "conf_block_length_bytes h = of_nat (length conf)"
    and offs: "dts \<noteq> [] \<longrightarrow> directory_data_offset_bytes h = of_nat (length file0)"
      "ms \<noteq> [] \<longrightarrow> metadata_offset_bytes h = of_nat (length (file0 @ dts))"
      "history \<noteq> [] \<longrightarrow> history_offset_bytes h = of_nat (length (file0 @ dts @ ms))"
      "next_dict \<noteq> [] \<longrightarrow> next_zstd_dictionary_offset_bytes h = of_nat (length (file0 @ dts @ ms @ history))"
      "conf \<noteq> [] \<longrightarrow> conf_block_offset_bytes h = of_nat (length (file0 @ dts @ ms @ history @ next_dict))"
    by (elim exE conjE) (hypsubst, rule that)
  let ?s = "\<lparr>s_dictionary = dictionary, s_dir_times = dts, s_metadata = ms, s_history = history,
      s_next_dictionary = next_dict, s_conf_block = conf\<rparr>"
  from search_index_parts [OF w] obtain rest where f0: "file0 = contents db @ rest" "max_version h0 = max_version (hdr db)"
    by auto
  have long: "header_size \<le> length file0" using opt(4) by (simp add: f0)
  have holds: "file_holds z db_file h ?bs ?s" if small: "length db_file < 2 ^ 36"
  proof -
    have fl: "db_file = (header_bytes h @ dictionary) @ drop (length (contents db)) file0 @ dts @ ms @ history @ next_dict @ conf"
      using opt(3,4) long unfolding layout f0 by (metis (no_types, lifting) append.assoc append_eq_conv_conj append_take_drop_id
          diff_is_0_eq drop_0 drop_append length_header_bytes length_take min.absorb2)
    have "length (header_bytes h @ dictionary) = length (contents db)"
      using arg_cong [OF opt(3), of length] opt(4) by simp
    note blocks = written_blocks [OF c(2) names(2) w fl this small parts(1)]
    have sec: "section_at db_file off (of_nat (length bs)) bs"
      if "drop header_size (file0 @ dts @ ms @ history @ next_dict @ conf) = drop header_size (pre @ bs @ post)"
        "header_size \<le> length pre" "bs \<noteq> [] \<longrightarrow> off = of_nat (length pre)" for pre bs post off
      using section_part [of db_file "header_bytes h" pre bs post off "of_nat (length bs)"] that small layout by simp
    have d: "drop header_size (contents db) = dictionary"
      using arg_cong [OF opt(3), of "drop header_size"] opt(4) by simp
    have "section_at db_file (zstd_dictionary_offset_bytes h) (of_nat (length dictionary)) dictionary"
      using sec [of "take header_size (contents db)" dictionary "rest @ dts @ ms @ history @ next_dict @ conf"]
        opt(4,5) d parts(2) f0(1) by (auto simp add: dictionary_part_def)
    moreover have "ucast (zstd_dictionary_length_bytes h) = (of_nat (length dictionary) :: u64)"
    proof (cases "dictionary = []")
      case False
      then have "zstd_dictionary_length_bytes h = of_nat (length dictionary)"
        using opt(5) parts(2) by (simp add: dictionary_part_def)
      then show ?thesis using dict by (simp add: unsigned_of_nat take_bit_nat_eq_self)
    qed (use opt(6) parts(2) in \<open>simp add: dictionary_part_def\<close>)
    moreover have "section_at db_file (directory_data_offset_bytes h) (of_nat (length dts)) dts"
      by (rule sec [of file0 _ "ms @ history @ next_dict @ conf"]) (use long offs in simp_all)
    moreover have "section_at db_file (metadata_offset_bytes h) (of_nat (length ms)) ms"
      by (rule sec [of "file0 @ dts" _ "history @ next_dict @ conf"]) (use long offs in simp_all)
    moreover have "section_at db_file (history_offset_bytes h) (of_nat (length history)) history"
      by (rule sec [of "file0 @ dts @ ms" _ "next_dict @ conf"]) (use long offs in simp_all)
    moreover have "section_at db_file (next_zstd_dictionary_offset_bytes h) (of_nat (length next_dict)) next_dict"
      by (rule sec [of "file0 @ dts @ ms @ history" _ conf]) (use long offs in simp_all)
    moreover have "section_at db_file (conf_block_offset_bytes h) (of_nat (length conf)) conf"
      by (rule sec [of "file0 @ dts @ ms @ history @ next_dict" _ "[]"]) (use long offs in simp_all)
    ultimately have "sections_at db_file h ?s" by (simp add: sections_at_def lens)
    moreover have "take header_size db_file = header_bytes h" by (simp add: layout)
    moreover have "max_version h = 3"
      using parts(1) start_corpus_parts(3) [OF db] f0(2) by (simp add: search_part_def)
    ultimately show ?thesis using blocks parts(3,4) small by (simp add: file_holds_def)
  qed
  from compressed_dir_times_read [OF laws reader c(3,4)] compressed_metadata_read [OF laws reader c(3,5)] streams(1,2)
  have "yields (inflate_start r) dts (dir_time_bytes (map dir_timestamp rs))"
    "yields (inflate_start r) ms (metadata_bytes (map rmetadata rs))" by auto
  moreover have "if events = [] then history = [] else yields (inflate_start r) history (encode_history_stream events)"
    using streams(3) reader by (auto simp add: reader_laws_def)
  ultimately show ?thesis using c1(1) fin holds
    by (intro exI [of _ c1] exI [of _ db_file] conjI impI exI [of _ h] exI [of _ ?s]) simp_all
qed

end
