(* ===== verification/Snapshot_Load.thy ===== *)
theory Snapshot_Load
  imports Database_Sections Command_Line
begin

text \<open>
  How \<open>flocate-showdiff\<close> reads a database (\<open>src/showdiff.cpp\<close>): the checked header, the metadata, the
  configuration block, the blocks of names, the sorted snapshot, and the history. A file is its
  bytes; \<open>pread_fully\<close> is the loop of \<open>Pread\<close>. None is the message and the result false.
\<close>

section \<open>Sections\<close>

definition section_fits :: "u64 \<Rightarrow> u64 \<Rightarrow> u64 \<Rightarrow> bool" where
  "section_fits offset len file_size \<longleftrightarrow> len = 0 \<or> offset \<le> file_size \<and> len \<le> file_size - offset"

definition read_header :: "bytes \<Rightarrow> header option" where
  "read_header file =
     (let file_size = of_nat (length file) :: u64
      in if file_size < of_nat header_size then None
         else
           case pread file header_size 0 of
             None \<Rightarrow> None
           | Some bs \<Rightarrow>
               let h = decode_header bs;
                   index_bytes = (ucast (hdr_num_docids h) + 1) * 8
               in if take 8 bs \<noteq> magic then None
                  else if version h \<noteq> 1 \<and> version h \<noteq> 2 then None
                  else if max_version h < 3 then None
                  else if \<not> section_fits (filename_index_offset_bytes h) index_bytes file_size \<or>
                    \<not> section_fits (zstd_dictionary_offset_bytes h) (ucast (zstd_dictionary_length_bytes h)) file_size \<or>
                    \<not> section_fits (conf_block_offset_bytes h) (conf_block_length_bytes h) file_size \<or>
                    \<not> section_fits (metadata_offset_bytes h) (metadata_length_bytes h) file_size \<or>
                    \<not> section_fits (history_offset_bytes h) (history_length_bytes h) file_size then None
                  else if (metadata_length_bytes h \<noteq> 0 \<or> history_length_bytes h \<noteq> 0) \<and>
                    metadata_flags h AND METADATA_FLAG_POSIX_V2 = 0 then None
                  else Some h)"

definition read_blob :: "bytes \<Rightarrow> u64 \<Rightarrow> u64 \<Rightarrow> bytes option" where
  "read_blob file offset len = (if 0 < len then pread file (unat len) (unat offset) else Some [])"

text \<open>A stream whose loop does not end has no result either; for complete streams see \<open>decompress_stream_all\<close>.\<close>

definition read_stream :: "'d zstd_reader \<Rightarrow> bytes \<Rightarrow> bytes option" where
  "read_stream r compressed =
     (case decompress_stream (inflate_step r) (inflate_start r) compressed of None \<Rightarrow> None | Some result \<Rightarrow> result)"

definition decompress_block :: "'d zstd_reader \<Rightarrow> bytes \<Rightarrow> bytes \<Rightarrow> bytes option" where
  "decompress_block r dictionary compressed =
     (case frame_content_size r compressed of
        None \<Rightarrow> None
      | Some content_size \<Rightarrow>
          if 2 ^ 30 < content_size then None
          else decompress_frame r dictionary compressed (unat content_size))"

section \<open>Names and the scan root\<close>

function extract_paths_from_block :: "bytes \<Rightarrow> bytes list" where
  "extract_paths_from_block block =
     (if block = [] then []
      else
        let path = takeWhile (\<lambda>c. c \<noteq> 0) block; rest = drop (length path + 1) block
        in (if path \<noteq> [] then [path] else []) @ extract_paths_from_block rest)"
  by pat_completeness auto
termination
  by (relation "measure length") auto

declare extract_paths_from_block.simps [simp del]

fun common_length :: "bytes \<Rightarrow> bytes \<Rightarrow> nat" where
  "common_length (x # a) (y # b) = (if x = y then Suc (common_length a b) else 0)"
| "common_length a b = 0"

text \<open>\<open>rfind\<close> of a slash at or before a position; None is npos.\<close>

fun rfind_slash :: "bytes \<Rightarrow> nat \<Rightarrow> nat option" where
  "rfind_slash a 0 = (if a \<noteq> [] \<and> a ! 0 = slash then Some 0 else None)"
| "rfind_slash a (Suc pos) =
     (if Suc pos < length a \<and> a ! Suc pos = slash then Some (Suc pos) else rfind_slash a pos)"

definition scan_root_from_paths :: "bytes list \<Rightarrow> bytes" where
  "scan_root_from_paths sorted_paths =
     (if sorted_paths = [] then str ''/''
      else
        let a = hd sorted_paths; n = common_length a (last sorted_paths)
        in case rfind_slash a (if n = 0 then 0 else n - 1) of
             None \<Rightarrow> str ''/''
           | Some p \<Rightarrow> if p = 0 then str ''/'' else take p a)"

section \<open>Loading\<close>

fun decode_offsets :: "nat \<Rightarrow> bytes \<Rightarrow> u64 list" where
  "decode_offsets 0 bs = []"
| "decode_offsets (Suc n) bs = get_le 8 bs # decode_offsets n (drop 8 bs)"

fun load_blocks :: "'d zstd_reader \<Rightarrow> bytes \<Rightarrow> bytes \<Rightarrow> u64 list \<Rightarrow> bytes list option" where
  "load_blocks r file dictionary (start # finish # offsets) =
     (if finish < start \<or> \<not> section_fits start (finish - start) (of_nat (length file)) then None
      else
        case read_blob file start (finish - start) of
          None \<Rightarrow> None
        | Some blob \<Rightarrow>
            (case decompress_block r dictionary blob of
               None \<Rightarrow> None
             | Some block \<Rightarrow>
                 map_option ((@) (extract_paths_from_block block)) (load_blocks r file dictionary (finish # offsets))))"
| "load_blocks r file dictionary offsets = Some []"

definition first_hash_kind :: "file_metadata list \<Rightarrow> hash_kind" where
  "first_hash_kind ms =
     (case find (\<lambda>m. kind (hash m) \<noteq> HashNone) ms of None \<Rightarrow> HashNone | Some m \<Rightarrow> kind (hash m))"

text \<open>\<open>metadata.resize\<close>.\<close>

definition resize :: "nat \<Rightarrow> file_metadata list \<Rightarrow> file_metadata list" where
  "resize n ms = take n ms @ replicate (n - length ms) no_metadata"

definition load_snapshot :: "'d zstd_reader \<Rightarrow> bytes \<Rightarrow> snapshot option" where
  "load_snapshot r file =
     do {
       h \<leftarrow> read_header file;
       blob \<leftarrow> (if metadata_length_bytes h = 0 then None
               else read_blob file (metadata_offset_bytes h) (metadata_length_bytes h));
       stream \<leftarrow> read_stream r blob;
       let ms = decode_records stream in do {
       conf \<leftarrow> read_blob file (conf_block_offset_bytes h) (conf_block_length_bytes h);
       index \<leftarrow> pread file (8 * (unat (hdr_num_docids h) + 1)) (unat (filename_index_offset_bytes h));
       dictionary \<leftarrow> read_blob file (zstd_dictionary_offset_bytes h) (ucast (zstd_dictionary_length_bytes h));
       ps \<leftarrow> load_blocks r file dictionary (decode_offsets (unat (hdr_num_docids h) + 1) index);
       let entries = sort_key fst (zip ps (resize (length ps) ms)) in
       Some \<lparr>paths = map fst entries, metadata = map snd entries, hash_kind_of = first_hash_kind ms,
             prune = parse_conf_block conf empty_prune, scan_root = scan_root_from_paths (map fst entries)\<rparr> } }"

definition load_history_events :: "'d zstd_reader \<Rightarrow> bytes \<Rightarrow> history_event list option" where
  "load_history_events r file =
     do {
       h \<leftarrow> read_header file;
       blob \<leftarrow> (if history_length_bytes h = 0 then None
               else read_blob file (history_offset_bytes h) (history_length_bytes h));
       stream \<leftarrow> read_stream r blob;
       Some (decode_history_stream stream) }"

section \<open>A built database is read\<close>

lemma section_fits_at:
  assumes "section_at file off len bs" and "length file < 2 ^ 36"
  shows "section_fits off len (of_nat (length file))"
proof (cases "bs = []")
  case True
  then show ?thesis using assms(1) by (simp add: section_at_def section_fits_def)
next
  case False
  have u: "unat len = length bs" using section_at_length [OF assms] .
  have o: "unat off + length bs \<le> length file" using assms(1) False by (simp add: section_at_def)
  have f: "unat (of_nat (length file) :: u64) = length file" using assms(2) by (intro unat_of_nat_small) simp
  have "off \<le> of_nat (length file)" using o f by (simp add: word_le_nat_alt)
  moreover from this have "unat (of_nat (length file) - off) = length file - unat off" using f by (simp add: unat_sub)
  moreover have "length bs \<le> length file - unat off" using o by linarith
  ultimately show ?thesis using u by (simp add: section_fits_def word_le_nat_alt)
qed

lemma read_blob_pread: "read_blob file off len = pread file (unat len) (unat off)"
  by (cases "len = 0") (simp_all add: read_blob_def pread_def word_gt_0)

lemma read_blob_section:
  "section_at file off len bs \<Longrightarrow> length file < 2 ^ 36 \<Longrightarrow> read_blob file off len = Some bs"
  by (simp add: read_blob_pread section_at_pread)

lemma read_stream_all:
  "inflates (inflate_step r) yields \<Longrightarrow> yields (inflate_start r) compressed content \<Longrightarrow>
   read_stream r compressed = Some content"
  using decompress_stream_all [of "inflate_step r" yields "inflate_start r" compressed content]
  by (simp add: read_stream_def)

lemma index_fits:
  assumes "unat (hdr_num_docids h) = n" and "unat (filename_index_offset_bytes h) + 8 * (n + 1) \<le> length file"
    and "length file < 2 ^ 36"
  shows "section_fits (filename_index_offset_bytes h) ((ucast (hdr_num_docids h) + 1) * 8) (of_nat (length file))"
proof -
  let ?off = "filename_index_offset_bytes h" and ?len = "(ucast (hdr_num_docids h) + 1) * 8 :: u64"
  have "hdr_num_docids h = of_nat n" using assms(1) by auto
  moreover have "n < 2 ^ 32" using unat_u32_less [of "hdr_num_docids h"] assms(1) by simp
  ultimately have "ucast (hdr_num_docids h) = (of_nat n :: u64)" by (simp add: unsigned_of_nat take_bit_nat_eq_self)
  then have "?len = of_nat (8 * (n + 1))" by (simp only: of_nat_mult of_nat_add of_nat_1 of_nat_numeral mult.commute)
  moreover have "8 * (n + 1) < 2 ^ 64" using assms(2,3) by simp
  then have "unat (of_nat (8 * (n + 1)) :: u64) = 8 * (n + 1)" by (intro unat_of_nat_small) simp
  ultimately have u: "unat ?len = 8 * (n + 1)" by (simp only:)
  have f: "unat (of_nat (length file) :: u64) = length file" using assms(3) by (intro unat_of_nat_small) simp
  have "unat ?off \<le> length file" and le: "8 * (n + 1) \<le> length file - unat ?off" using assms(2) by linarith+
  then have "?off \<le> of_nat (length file)" using f by (simp add: word_le_nat_alt)
  moreover from this have "unat (of_nat (length file) - ?off) = length file - unat ?off" using f by (simp add: unat_sub)
  then have "?len \<le> of_nat (length file) - ?off" unfolding word_le_nat_alt u using le by (simp only:)
  ultimately show ?thesis unfolding section_fits_def by blast
qed

lemma read_header_holds:
  assumes "file_holds z file h bs s" and "s_metadata s \<noteq> []"
  shows "read_header file = Some h"
proof -
  have small: "length file < 2 ^ 36" and hd: "take header_size file = header_bytes h"
    using assms(1) by (simp_all add: file_holds_def)
  have long: "header_size \<le> length file" using arg_cong [OF hd, of length] by (simp add: min_def split: if_splits)
  then have "pread file header_size 0 = Some (header_bytes h)" using hd by (simp add: pread_def header_size_def)
  moreover have "decode_header (header_bytes h) = h" using decode_header_bytes [of h "[]"] by simp
  moreover have "take 8 (header_bytes h) = magic" by (simp add: header_bytes_def magic_def str_def)
  moreover have "\<not> (of_nat (length file) :: u64) < of_nat header_size"
    using long small by (simp add: word_less_nat_alt unat_of_nat_small header_size_def)
  moreover have "metadata_flags h AND METADATA_FLAG_POSIX_V2 \<noteq> 0"
    using assms by (simp add: file_holds_def METADATA_FLAG_POSIX_V2_def)
  moreover have "version h = 2" "max_version h = 3" using assms(1) by (simp_all add: file_holds_def)
  moreover have "section_fits (filename_index_offset_bytes h) ((ucast (hdr_num_docids h) + 1) * 8) (of_nat (length file))"
    by (rule index_fits [of _ "length bs"]) (use assms(1) in \<open>simp_all add: file_holds_def\<close>)
  moreover have "section_fits (zstd_dictionary_offset_bytes h) (ucast (zstd_dictionary_length_bytes h)) (of_nat (length file))"
    "section_fits (conf_block_offset_bytes h) (conf_block_length_bytes h) (of_nat (length file))"
    "section_fits (metadata_offset_bytes h) (metadata_length_bytes h) (of_nat (length file))"
    "section_fits (history_offset_bytes h) (history_length_bytes h) (of_nat (length file))"
    using assms(1) section_fits_at [OF _ small] by (auto simp add: file_holds_def sections_at_def)
  ultimately show ?thesis by (simp add: read_header_def Let_def)
qed

lemma take_to_nul: "0 \<notin> set p \<Longrightarrow> takeWhile (\<lambda>c. c \<noteq> 0) (p @ 0 # rest) = (p :: bytes)"
  by (induction p) auto

lemma take_all_names: "0 \<notin> set p \<Longrightarrow> takeWhile (\<lambda>c. c \<noteq> 0) p = (p :: bytes)"
  by (induction p) auto

lemma extract_paths_nil: "extract_paths_from_block [] = []"
  by (subst extract_paths_from_block.simps) simp

lemma extract_paths_step: "p \<noteq> [] \<Longrightarrow> 0 \<notin> set p \<Longrightarrow>
    extract_paths_from_block (p @ 0 # rest) = p # extract_paths_from_block rest"
  using take_to_nul [of p rest] by (subst extract_paths_from_block.simps) (simp del: takeWhile_append2)

lemma extract_paths_last: "p \<noteq> [] \<Longrightarrow> 0 \<notin> set p \<Longrightarrow> extract_paths_from_block p = [p]"
  using take_all_names [of p] by (subst extract_paths_from_block.simps) (simp add: extract_paths_nil del: takeWhile_eq_all_conv)

lemma extract_paths_join: "file_names fs \<Longrightarrow> extract_paths_from_block (join_names fs) = fs"
proof (induction fs rule: join_names.induct)
  case (2 f)
  then show ?case by (simp add: file_names_def extract_paths_last)
next
  case (3 f g gs)
  then show ?case by (simp add: file_names_def extract_paths_step)
qed (simp add: extract_paths_nil)

lemma decode_offsets_nth: "i < n \<Longrightarrow> decode_offsets n bs ! i = get_le 8 (drop (8 * i) bs)"
proof (induction n arbitrary: bs i)
  case (Suc n)
  then show ?case by (cases i) (simp_all add: add.commute)
qed simp

lemma length_decode_offsets [simp]: "length (decode_offsets n bs) = n"
  by (induction n arbitrary: bs) simp_all

lemma get_le_take: "n \<le> k \<Longrightarrow> n \<le> length bs \<Longrightarrow> get_le n (take k bs) = get_le n bs"
  by (rule get_le_cong) simp

text \<open>The offsets of the index delimit the blocks.\<close>

lemma index_blocks:
  assumes holds: "file_holds z file h bs s"
    and index: "pread file (8 * (length bs + 1)) (unat (filename_index_offset_bytes h)) = Some index"
    and i: "i < length bs"
  shows "read_blob file (decode_offsets (length bs + 1) index ! i)
      (decode_offsets (length bs + 1) index ! Suc i - decode_offsets (length bs + 1) index ! i) =
      Some (compressed_names z (bs ! i))"
    and "decode_offsets (length bs + 1) index ! i \<le> decode_offsets (length bs + 1) index ! Suc i"
    and "section_fits (decode_offsets (length bs + 1) index ! i)
      (decode_offsets (length bs + 1) index ! Suc i - decode_offsets (length bs + 1) index ! i) (of_nat (length file))"
proof -
  let ?off = "unat (filename_index_offset_bytes h)" and ?b = "compressed_names z (bs ! i)"
  have small: "length file < 2 ^ 36" and num: "unat (hdr_num_docids h) = length bs"
    and fits: "?off + 8 * (length bs + 1) \<le> length file"
    and block: "get_compressed_filename_block file h (of_nat i) = Some ?b"
    using holds i by (simp_all add: file_holds_def)
  have ui: "unat (of_nat i :: u32) = i"
    using i num unat_u32_less [of "hdr_num_docids h"] by (intro unat_of_nat_small) simp
  have idx: "index = take (8 * (length bs + 1)) (drop ?off file)" using index fits by (simp add: pread_def)
  have at: "get_le 8 (drop (8 * j) index) = (get_le 8 (drop (?off + 8 * j) file) :: u64)" if "j \<le> length bs" for j
  proof -
    have "drop (8 * j) index = take (8 * (length bs + 1) - 8 * j) (drop (?off + 8 * j) file)"
      by (simp add: idx drop_take add.commute)
    then show ?thesis using that fits by (simp add: get_le_take)
  qed
  define start where "start = (get_le 8 (drop (?off + 8 * i) file) :: u64)"
  define finish where "finish = (get_le 8 (drop (?off + 8 * Suc i) file) :: u64)"
  have o: "decode_offsets (length bs + 1) index ! i = start" "decode_offsets (length bs + 1) index ! Suc i = finish"
    using i at [of i] at [of "Suc i"] by (simp_all add: decode_offsets_nth start_def finish_def del: decode_offsets.simps)
  have "pread file 16 (?off + i * 8) = Some (take 16 (drop (?off + 8 * i) file))"
    using i fits by (simp add: pread_def mult.commute)
  moreover have "get_le 8 (take 16 (drop (?off + 8 * i) file)) = start"
    using i fits by (simp add: start_def get_le_take)
  moreover have "get_le 8 (drop 8 (take 16 (drop (?off + 8 * i) file))) = finish"
    using i fits by (simp add: finish_def get_le_take drop_take add.commute add.left_commute)
  ultimately have b: "pread file (unat (finish - start)) (unat start) = Some ?b"
    using block by (simp add: get_compressed_filename_block_def offset_for_block_def ui Let_def)
  have f: "unat (of_nat (length file) :: u64) = length file" using small by (intro unat_of_nat_small) simp
  show "read_blob file (decode_offsets (length bs + 1) index ! i)
      (decode_offsets (length bs + 1) index ! Suc i - decode_offsets (length bs + 1) index ! i) = Some ?b"
    unfolding o read_blob_pread by (rule b)
  have "start \<le> finish \<and> section_fits start (finish - start) (of_nat (length file))"
  proof (cases "finish = start")
    case False
    then have "unat (finish - start) \<noteq> 0" by (simp add: unat_eq_0)
    then have in_file: "unat start + unat (finish - start) \<le> length file"
      using b by (simp add: pread_def split: if_splits)
    then have "unat (start + (finish - start)) = unat start + unat (finish - start)"
      using small by (intro unat_add_lem [THEN iffD1]) simp
    then have "start \<le> finish" by (simp add: word_le_nat_alt)
    moreover have le: "start \<le> of_nat (length file)" using in_file f by (simp add: word_le_nat_alt)
    then have "unat (of_nat (length file) - start) = length file - unat start" using f by (simp add: unat_sub)
    moreover have "unat (finish - start) \<le> length file - unat start" using in_file by linarith
    ultimately show ?thesis unfolding section_fits_def using le by (simp add: word_le_nat_alt)
  qed (simp add: section_fits_def)
  then show "decode_offsets (length bs + 1) index ! i \<le> decode_offsets (length bs + 1) index ! Suc i"
    and "section_fits (decode_offsets (length bs + 1) index ! i)
      (decode_offsets (length bs + 1) index ! Suc i - decode_offsets (length bs + 1) index ! i) (of_nat (length file))"
    unfolding o by simp_all
qed

lemma load_blocks_drop:
  assumes "file_holds z file h bs s"
    and "pread file (8 * (length bs + 1)) (unat (filename_index_offset_bytes h)) = Some index"
    and blocks: "\<And>i. i < length bs \<Longrightarrow> file_names (bs ! i) \<and>
      decompress_block r dictionary (compressed_names z (bs ! i)) = Some (join_names (bs ! i))"
    and "i \<le> length bs"
  shows "load_blocks r file dictionary (drop i (decode_offsets (length bs + 1) index)) = Some (concat (drop i bs))"
  using assms(4)
proof (induction "length bs - i" arbitrary: i)
  case 0
  then have "drop i (decode_offsets (length bs + 1) index) = [decode_offsets (length bs + 1) index ! length bs]"
    by (simp add: Cons_nth_drop_Suc [symmetric] del: decode_offsets.simps)
  with 0 show ?case by simp
next
  case (Suc k)
  let ?o = "decode_offsets (length bs + 1) index"
  have i: "i < length bs" using Suc.hyps(2) by simp
  have IH: "load_blocks r file dictionary (drop (Suc i) ?o) = Some (concat (drop (Suc i) bs))"
    using Suc i by (intro Suc.hyps(1)) simp_all
  have "drop i ?o = ?o ! i # ?o ! Suc i # drop (Suc (Suc i)) ?o"
    using i by (simp add: Cons_nth_drop_Suc del: decode_offsets.simps)
  moreover have "drop (Suc i) ?o = ?o ! Suc i # drop (Suc (Suc i)) ?o"
    using i by (simp add: Cons_nth_drop_Suc del: decode_offsets.simps)
  ultimately have "load_blocks r file dictionary (drop i ?o) = Some (bs ! i @ concat (drop (Suc i) bs))"
    using index_blocks [OF assms(1,2) i] blocks [OF i] IH
    by (simp add: not_less [symmetric] extract_paths_join del: decode_offsets.simps)
  moreover have "concat (drop i bs) = bs ! i @ concat (drop (Suc i) bs)"
    using i by (simp add: Cons_nth_drop_Suc [symmetric])
  ultimately show ?case by simp
qed

lemma decode_metadata_bytes: "list_all wf_metadata ms \<Longrightarrow> decode_records (metadata_bytes ms) = ms"
  using records.dec_all_concat [of ms "[]"] records.dec_Nil by (auto simp add: metadata_bytes_def list_all_iff)

lemma decompress_block_names:
  assumes "reader_laws r yields given emitted z compress_all dictionary" and "b \<noteq> []" and "length b \<le> 2 ^ 30"
  shows "decompress_block r dictionary (compress_block z b) = Some b"
proof -
  have u: "unat (of_nat (length b) :: u64) = length b" using assms(3) by (intro unat_of_nat_small) simp
  then have "\<not> (2 ^ 30 :: u64) < of_nat (length b)" using assms(3) by (simp add: word_less_nat_alt)
  with assms u show ?thesis by (simp add: decompress_block_def reader_laws_def)
qed

lemma snapshot_of_file:
  assumes holds: "file_holds z file h bs s" and reader: "reader_laws r yields given emitted z compress_all (s_dictionary s)"
    and names: "\<forall>b \<in> set bs. b \<noteq> [] \<and> file_names b \<and> length (join_names b) \<le> 2 ^ 30"
    and meta: "yields (inflate_start r) (s_metadata s) (metadata_bytes ms)" "ms \<noteq> []" "list_all wf_metadata ms"
    and len: "length (concat bs) = length ms"
  shows "load_snapshot r file =
      (let entries = sort_key fst (zip (concat bs) ms)
       in Some \<lparr>paths = map fst entries, metadata = map snd entries, hash_kind_of = first_hash_kind ms,
                prune = parse_conf_block (s_conf_block s) empty_prune, scan_root = scan_root_from_paths (map fst entries)\<rparr>)"
    and "s_history s = [] \<Longrightarrow> load_history_events r file = None"
    and "yields (inflate_start r) (s_history s) stream \<Longrightarrow> stream \<noteq> [] \<Longrightarrow>
      load_history_events r file = Some (decode_history_stream stream)"
proof -
  let ?off = "unat (filename_index_offset_bytes h)"
  have small: "length file < 2 ^ 36" and num: "unat (hdr_num_docids h) = length bs"
    and fits: "?off + 8 * (length bs + 1) \<le> length file"
    and at: "section_at file (zstd_dictionary_offset_bytes h) (ucast (zstd_dictionary_length_bytes h)) (s_dictionary s)"
      "section_at file (conf_block_offset_bytes h) (conf_block_length_bytes h) (s_conf_block s)"
      "section_at file (metadata_offset_bytes h) (metadata_length_bytes h) (s_metadata s)"
      "section_at file (history_offset_bytes h) (history_length_bytes h) (s_history s)"
    using holds by (simp_all add: file_holds_def sections_at_def)
  have inf: "inflates (inflate_step r) yields" using reader by (rule reader_laws_inflates)
  have decoded: "decode_records (metadata_bytes ms) = ms" using meta(3) by (rule decode_metadata_bytes)
  with meta(2) have "metadata_bytes ms \<noteq> []" by (auto simp add: decode_records.simps)
  with inflates_end [OF inf] meta(1) have ne: "s_metadata s \<noteq> []" by metis
  have hd: "read_header file = Some h" by (rule read_header_holds [OF holds ne])
  have nz: "s_history s \<noteq> [] \<Longrightarrow> history_length_bytes h \<noteq> 0" "metadata_length_bytes h \<noteq> 0"
    using section_at_length [OF at(4) small] section_at_length [OF at(3) small] ne by auto
  define index where "index = take (8 * (length bs + 1)) (drop ?off file)"
  have index: "pread file (8 * (length bs + 1)) ?off = Some index" using fits by (simp add: pread_ok index_def)
  have "load_blocks r file (s_dictionary s) (drop 0 (decode_offsets (length bs + 1) index)) = Some (concat (drop 0 bs))"
  proof (rule load_blocks_drop [OF holds index])
    fix i assume "i < length bs"
    then have b: "bs ! i \<noteq> []" "file_names (bs ! i)" "length (join_names (bs ! i)) \<le> 2 ^ 30" using names by simp_all
    then have "join_names (bs ! i) \<noteq> []" by (cases "bs ! i" rule: join_names.cases) (auto simp add: file_names_def)
    with b reader show "file_names (bs ! i) \<and>
        decompress_block r (s_dictionary s) (compressed_names z (bs ! i)) = Some (join_names (bs ! i))"
      by (auto intro!: decompress_block_names simp add: compressed_names_def)
  qed simp
  then have blocks: "load_blocks r file (s_dictionary s) (decode_offsets (length bs + 1) index) = Some (concat bs)" by simp
  have "resize (length (concat bs)) ms = ms" using len by (simp add: resize_def)
  with hd nz(2) read_blob_section [OF at(1) small] read_blob_section [OF at(2) small] read_blob_section [OF at(3) small]
    read_stream_all [OF inf meta(1)] decoded num index blocks
  show "load_snapshot r file =
      (let entries = sort_key fst (zip (concat bs) ms)
       in Some \<lparr>paths = map fst entries, metadata = map snd entries, hash_kind_of = first_hash_kind ms,
                prune = parse_conf_block (s_conf_block s) empty_prune, scan_root = scan_root_from_paths (map fst entries)\<rparr>)"
    by (simp add: load_snapshot_def Let_def del: length_concat decode_offsets.simps)
  show "load_history_events r file = None" if "s_history s = []"
    using that hd section_at_length [OF at(4) small] by (simp add: load_history_events_def unat_eq_0)
  show "load_history_events r file = Some (decode_history_stream stream)"
    if "yields (inflate_start r) (s_history s) stream" "stream \<noteq> []"
  proof -
    have "s_history s \<noteq> []" using inflates_end [OF inf] that by metis
    with hd nz(1) read_blob_section [OF at(4) small] read_stream_all [OF inf that(1)] show ?thesis
      by (simp add: load_history_events_def)
  qed
qed

text \<open>The scan root is above every path: the paths lie between the first and the last.\<close>

lemma common_length_take: "take (common_length a b) a = take (common_length a b) b"
  by (induction a b rule: common_length.induct) simp_all

lemma common_length_le: "common_length a b \<le> length a"
  by (induction a b rule: common_length.induct) simp_all

lemma between_common: "a \<le> p \<Longrightarrow> p \<le> b \<Longrightarrow> take (common_length a b) p = take (common_length a b) (a :: bytes)"
proof (induction a b arbitrary: p rule: common_length.induct)
  case (1 x a y b)
  then show ?case by (cases p) (auto split: if_splits)
qed simp_all

lemma rfind_slash_Some: "rfind_slash a n = Some p \<Longrightarrow> p \<le> n \<and> p < length a \<and> a ! p = slash"
  by (induction n) (auto split: if_splits)

lemma path_hd_le: "sorted ps \<Longrightarrow> p \<in> set ps \<Longrightarrow> hd ps \<le> (p :: bytes)"
  by (cases ps) auto

lemma path_le_last: "sorted ps \<Longrightarrow> p \<in> set ps \<Longrightarrow> (p :: bytes) \<le> last ps"
  by (induction ps) auto

lemma scan_root_above:
  assumes "sorted ps" and "p \<in> set ps" and "scan_root_from_paths ps \<noteq> str ''/''"
  shows "\<exists>rest. p = scan_root_from_paths ps @ slash # rest"
proof -
  let ?a = "hd ps" and ?n = "common_length (hd ps) (last ps)"
  from assms(2) have ne: "ps \<noteq> []" by auto
  with assms(3) obtain i where i: "rfind_slash ?a (if ?n = 0 then 0 else ?n - 1) = Some i" "0 < i"
    and root: "scan_root_from_paths ps = take i ?a"
    by (auto simp add: scan_root_from_paths_def Let_def split: option.splits if_splits)
  have "i < ?n" and at: "?a ! i = slash" "i < length ?a"
    using rfind_slash_Some [OF i(1)] i(2) by (auto split: if_splits)
  have "?a \<le> p" "p \<le> last ps"
    using assms(1,2) ne path_hd_le [of ps] path_le_last [of ps] by blast+
  then have t: "take ?n p = take ?n ?a" by (rule between_common)
  have "take i p = take i ?a" using arg_cong [OF t, of "take i"] \<open>i < ?n\<close> by (simp add: min_def)
  moreover have "i < length p" using arg_cong [OF t, of length] \<open>i < ?n\<close> common_length_le [of ?a "last ps"] by simp
  moreover have "p ! i = slash" using arg_cong [OF t, of "\<lambda>l. l ! i"] \<open>i < ?n\<close> at by simp
  ultimately have "p = take i ?a @ slash # drop (Suc i) p" by (metis id_take_nth_drop)
  then show ?thesis unfolding root by blast
qed

lemma snapshot_read_back:
  assumes laws: "zstd_laws given emitted pending decompress z"
    and fresh: "given ctx = []" "emitted ctx = []" "given ctx' = []" "emitted ctx' = []"
    and names: "file_names (map rpath rs)" "length (chunks n (map rpath rs)) \<le> 2 ^ 24"
    and table: "names_table fuel (chunks n (map rpath rs)) \<noteq> None"
    and hist: "events \<noteq> [] \<Longrightarrow> compress_all (encode_history_stream events) \<noteq> None"
    and db: "db = start_corpus visibility dictionary n True True ctx ctx'"
    and reader: "reader_laws r yields given emitted z compress_all dictionary"
    and dict: "length dictionary < 2 ^ 32"
    and some: "rs \<noteq> []" and wf: "list_all wf_metadata (map rmetadata rs)" "\<forall>e \<in> set events. wf_event e"
    and blocks: "\<forall>b \<in> set (chunks n (map rpath rs)). length (join_names b) \<le> 2 ^ 30"
  shows "\<exists>c file. add_files z buf rs (corpus db) = Some c \<and>
    finish_corpus z compress_all fuel buf
      (db\<lparr>corpus := c, next_dictionary := next_dict, conf_block := conf, history_events := events\<rparr>) = Some file \<and>
    (length file < 2 ^ 36 \<longrightarrow>
      load_snapshot r file =
        (let entries = sort_key fst (map (\<lambda>f. (rpath f, rmetadata f)) rs)
         in Some \<lparr>paths = map fst entries, metadata = map snd entries,
                  hash_kind_of = first_hash_kind (map rmetadata rs), prune = parse_conf_block conf empty_prune,
                  scan_root = scan_root_from_paths (map fst entries)\<rparr>) \<and>
      load_history_events r file =
        (if events = [] then None
         else if ekind (hd events) = RunMarker then Some events else Some (run_marker_for (hd events) # events)))"
proof -
  let ?bs = "chunks n (map rpath rs)"
  from built_file [where compress_all = compress_all and events = events and buf = buf and conf = conf and
      next_dict = next_dict, OF laws fresh names table hist db reader dict]
  obtain c db_file where
    built: "add_files z buf rs (corpus db) = Some c"
      "finish_corpus z compress_all fuel buf
        (db\<lparr>corpus := c, next_dictionary := next_dict, conf_block := conf, history_events := events\<rparr>) = Some db_file"
    and small: "length db_file < 2 ^ 36 \<longrightarrow>
      (\<exists>h s. file_holds z db_file h ?bs s \<and> s_dictionary s = dictionary \<and>
        s_next_dictionary s = next_dict \<and> s_conf_block s = conf \<and>
        yields (inflate_start r) (s_dir_times s) (dir_time_bytes (map dir_timestamp rs)) \<and>
        yields (inflate_start r) (s_metadata s) (metadata_bytes (map rmetadata rs)) \<and>
        (if events = [] then s_history s = []
         else yields (inflate_start r) (s_history s) (encode_history_stream events)))"
    by blast
  have chunk: "b \<noteq> [] \<and> file_names b \<and> length (join_names b) \<le> 2 ^ 30" if b: "b \<in> set ?bs" for b
  proof -
    have "set b \<subseteq> set (map rpath rs)" using b concat_chunks [of n "map rpath rs"] by (metis UN_upper set_concat)
    with names(1) have "file_names b" unfolding file_names_def list_all_iff by blast
    with b blocks chunks_nonempty show ?thesis by (metis in_set_conv_nth)
  qed
  have pairs: "zip (map rpath rs) (map rmetadata rs) = map (\<lambda>f. (rpath f, rmetadata f)) rs"
    by (simp add: zip_map_map zip_same_conv_map)
  have "load_snapshot r db_file =
        (let entries = sort_key fst (map (\<lambda>f. (rpath f, rmetadata f)) rs)
         in Some \<lparr>paths = map fst entries, metadata = map snd entries,
                  hash_kind_of = first_hash_kind (map rmetadata rs), prune = parse_conf_block conf empty_prune,
                  scan_root = scan_root_from_paths (map fst entries)\<rparr>) \<and>
      load_history_events r db_file =
        (if events = [] then None
         else if ekind (hd events) = RunMarker then Some events else Some (run_marker_for (hd events) # events))"
    if "length db_file < 2 ^ 36"
  proof -
    from small that obtain h s where holds: "file_holds z db_file h ?bs s"
      and s: "s_dictionary s = dictionary" "s_conf_block s = conf"
        "yields (inflate_start r) (s_metadata s) (metadata_bytes (map rmetadata rs))"
      and hs: "if events = [] then s_history s = [] else yields (inflate_start r) (s_history s) (encode_history_stream events)"
      by blast
    have "\<forall>b \<in> set ?bs. b \<noteq> [] \<and> file_names b \<and> length (join_names b) \<le> 2 ^ 30" using chunk by blast
    note loaded = snapshot_of_file [OF holds reader [folded s(1)] this s(3) _ wf(1)]
    have "encode_history_stream events \<noteq> []" if "events \<noteq> []"
      using decode_encode_history [OF wf(2)] that events.dec_all_eq [of "[]"] events.dec_Nil
      by (auto simp add: decode_history_stream_alt split: if_splits)
    with loaded hs some decode_encode_history [OF wf(2)] show ?thesis
      by (cases "events = []") (simp_all add: s(2) pairs)
  qed
  with built show ?thesis by blast
qed

text \<open>The sample database with times, metadata and the default configuration, stored.\<close>

lemma sample_snapshot_length:
  assumes "db = start_corpus True [] 2 True True [] []"
    and "add_files storing_zstd buf sample_files (corpus db) = Some c1"
    and "finish_corpus storing_zstd Some (Suc 0) buf
      (db\<lparr>corpus := c1, next_dictionary := [], conf_block := conf, history_events := []\<rparr>) = Some file1"
  shows "length file1 = 455 + length (dir_time_bytes (map dir_timestamp sample_files)) +
    length (metadata_bytes (map rmetadata sample_files)) + length conf"
proof -
  obtain c where c: "build_corpus storing_zstd buf sample_files (corpus db) = Some c"
    "blocks_hold storing_zstd buf (of_nat (length (contents db))) c sample_names []"
    "streams_hold (\<lambda>ctx. ctx) (\<lambda>ctx. ctx) c sample_files" "store_dir_times c" "store_metadata c"
    unfolding start_corpus_parts(1) [OF assms(1)] sample_chunks [symmetric]
    by (rule build_corpus_holds [OF storing_zstd_laws, of "[]" "[]" sample_files 2 buf
          "of_nat (length (contents db))" True True])
      (simp_all add: sample_files_names file_names_def str_def)
  with assms(2) have fin: "finish_blocks storing_zstd buf c1 = Some c" by (simp add: build_corpus_def)
  let ?db = "db\<lparr>corpus := c1, next_dictionary := [], conf_block := conf, history_events := []\<rparr>"
  have "optional_part (hdr ?db) = replicate 10 0" "metadata_flags (hdr ?db) = 0"
    using start_corpus_optional [OF assms(1)] by simp_all
  note lay = finish_corpus_layout [OF assms(3) this]
  have "corpus ?db = c1" "next_dictionary ?db = []" "conf_block ?db = conf" "history_events ?db = []"
    "contents ?db = contents db" "hdr ?db = hdr db" by simp_all
  from lay [unfolded this fin option.inject] obtain file0 h0 dts ms history h where
    w: "write_search_index (Suc 0) buf (contents db) c (hdr db) = Some (file0, h0)"
    and streams: "get_compressed_dir_times storing_zstd c = Some dts" "get_compressed_metadata storing_zstd c = Some ms"
    and none: "if ([] :: history_event list) = [] then history = []
      else encode_history_stream [] = history"
    and layout: "file1 = header_bytes h @ drop header_size (file0 @ dts @ ms @ history @ [] @ conf)"
    by (elim exE conjE) (hypsubst, rule that)
  have start: "length (contents db) = 144"
    by (simp add: assms(1) start_corpus_def open_database_def Let_def header_size_def)
  have "length file0 = 455" using sample_length [OF c(2) w] start by simp
  moreover have "dts = dir_time_bytes (map dir_timestamp sample_files)" "ms = metadata_bytes (map rmetadata sample_files)"
    using compressed_dir_times_read [OF storing_zstd_laws storing_reader_laws c(3,4)]
      compressed_metadata_read [OF storing_zstd_laws storing_reader_laws c(3,5)] streams by auto
  ultimately show ?thesis unfolding layout using none by (simp add: header_size_def)
qed

section \<open>Properties\<close>

text \<open>C4: What updatedb writes, flocate-showdiff loads. Under the laws of zstd, for at least one file with
  well-formed metadata, well-formed events and a configuration that fits a configuration block: the
  database is written, and when it is below 64 GB, loading it gives the snapshot with exactly the
  files' paths and metadata, sorted by path, the kind of digest in use, the pruning settings of the
  configuration and the scan root, and loading its history gives exactly the events, behind a run
  marker.\<close>
theorem snapshot_of_database:
  assumes "zstd_laws given emitted pending decompress z"
    and "given ctx = []" and "emitted ctx = []" and "given ctx' = []" and "emitted ctx' = []"
    and "file_names (map rpath rs)" and "length (chunks n (map rpath rs)) \<le> 2 ^ 24"
    and "names_table fuel (chunks n (map rpath rs)) \<noteq> None"
    and "events \<noteq> [] \<Longrightarrow> compress_all (encode_history_stream events) \<noteq> None"
    and "db = start_corpus visibility dictionary n True True ctx ctx'"
    and "reader_laws r yields given emitted z compress_all dictionary" and "length dictionary < 2 ^ 32"
    and "rs \<noteq> []" and "list_all wf_metadata (map rmetadata rs)" and "\<forall>e \<in> set events. wf_event e"
    and "\<forall>b \<in> set (chunks n (map rpath rs)). length (join_names b) \<le> 2 ^ 30"
    and "block_conf cf"
  shows "\<exists>c file. add_files z buf rs (corpus db) = Some c \<and>
    finish_corpus z compress_all fuel buf
      (db\<lparr>corpus := c, next_dictionary := next_dict, conf_block := gen_conf_block cf, history_events := events\<rparr>) =
      Some file \<and>
    (length file < 2 ^ 36 \<longrightarrow>
      load_snapshot r file =
        (let entries = sort_key fst (map (\<lambda>f. (rpath f, rmetadata f)) rs)
         in Some \<lparr>paths = map fst entries, metadata = map snd entries,
                  hash_kind_of = first_hash_kind (map rmetadata rs),
                  prune = \<lparr>prune_bind_mounts = conf_prune_bind_mounts cf, prunefs = map (map to_upper) (conf_prunefs cf),
                     prunenames = conf_prunenames cf, prunepaths = conf_prunepaths cf\<rparr>,
                  scan_root = scan_root_from_paths (map fst entries)\<rparr>) \<and>
      load_history_events r file =
        (if events = [] then None
         else if ekind (hd events) = RunMarker then Some events else Some (run_marker_for (hd events) # events)))"
  using snapshot_read_back [where buf = buf and next_dict = next_dict and conf = "gen_conf_block cf" and events = events
      and compress_all = compress_all, OF assms(1-16)]
  unfolding parse_gen_conf_block [OF assms(17)] .

lemma snapshot_of_database_witness:
  "\<exists>file. load_snapshot storing_reader file =
      Some \<lparr>paths = [str ''/ab'', str ''/c''], metadata = [no_metadata, no_metadata], hash_kind_of = HashNone,
            prune = \<lparr>prune_bind_mounts = False, prunefs = [], prunenames = [], prunepaths = []\<rparr>, scan_root = str ''/''\<rparr> \<and>
    load_history_events storing_reader file = None"
proof -
  let ?db = "start_corpus True [] 2 True True [] [] :: bytes database_builder"
  have table: "names_table (Suc 0) (chunks 2 (map rpath sample_files)) \<noteq> None"
    by (simp add: sample_chunks names_table_def sample_trigrams next_prime_1 sample_table Let_def del: size_table.simps)
  have conf: "block_conf default_configuration"
    by (simp add: block_conf_def block_strings_def default_configuration_def)
  have wf: "list_all wf_metadata (map rmetadata sample_files)" using wf_sample by (simp add: sample_files_def)
  have small: "file_names (map rpath sample_files)" "length (chunks 2 (map rpath sample_files)) \<le> 2 ^ 24" "sample_files \<noteq> []"
    "\<forall>b \<in> set (chunks 2 (map rpath sample_files)). length (join_names b) \<le> 2 ^ 30"
    unfolding sample_chunks by (simp_all add: sample_files_def sample_record_def sample_names_def file_names_def str_def)
  from snapshot_of_database [where events = "[]" and next_dict = "[]" and buf = "\<lambda>_. 0" and dictionary = "[]"
      and visibility = True, OF storing_zstd_laws refl refl refl refl small(1,2) table _ refl storing_reader_laws _ small(3) wf _ small(4) conf]
  obtain c file1 where
    f: "add_files storing_zstd (\<lambda>_. 0) sample_files (corpus ?db) = Some c"
      "finish_corpus storing_zstd Some (Suc 0) (\<lambda>_. 0) (?db\<lparr>corpus := c, next_dictionary := [],
         conf_block := gen_conf_block default_configuration, history_events := []\<rparr>) = Some file1"
    and loaded: "length file1 < 2 ^ 36 \<longrightarrow> load_snapshot storing_reader file1 =
        (let entries = sort_key fst (map (\<lambda>f. (rpath f, rmetadata f)) sample_files)
         in Some \<lparr>paths = map fst entries, metadata = map snd entries,
                  hash_kind_of = first_hash_kind (map rmetadata sample_files),
                  prune = \<lparr>prune_bind_mounts = conf_prune_bind_mounts default_configuration,
                     prunefs = map (map to_upper) (conf_prunefs default_configuration),
                     prunenames = conf_prunenames default_configuration, prunepaths = conf_prunepaths default_configuration\<rparr>,
                  scan_root = scan_root_from_paths (map fst entries)\<rparr>) \<and>
      load_history_events storing_reader file1 = None" by auto
  have "sort_key fst (map (\<lambda>f. (rpath f, rmetadata f)) sample_files) = [(str ''/ab'', no_metadata), (str ''/c'', no_metadata)]"
    by (simp add: sample_files_def sample_record_def str_def)
  moreover have "length file1 < 2 ^ 36"
    unfolding sample_snapshot_length [OF refl f]
    by (simp add: dir_time_bytes_def metadata_bytes_def sample_files_def sample_record_def encode_dir_time_def
        encode_metadata_record_def gen_conf_block_def gen_conf_block_string_list_def default_configuration_def
        to_decimal.simps str_def no_metadata_def put_u8_def)
  moreover have "scan_root_from_paths [str ''/ab'', str ''/c''] = str ''/''"
    by (simp add: scan_root_from_paths_def str_def)
  moreover have "first_hash_kind (map rmetadata sample_files) = HashNone"
    by (simp add: first_hash_kind_def sample_files_def sample_record_def no_metadata_def no_hash_def)
  ultimately show ?thesis using loaded by (intro exI [of _ file1]) (simp add: default_configuration_def)
qed

end
