(* ===== verification/Bind_Mount.thy ===== *)
theory Bind_Mount
  imports Path_Order Command_Line
begin

text \<open>
  Detection of bind mounts (\<open>src/bind-mount.cpp\<close>): reading \<open>/proc/self/mountinfo\<close>, dropping the mounts
  at or below pruned ones, finding the mounts that show a part of a device that another mount shows,
  and the state behind \<open>is_bind_mount\<close>. The text of the file is a parameter (None: it cannot be opened);
  debugging output is left out.
\<close>

record mount =
  mount_id :: int
  parent_id :: int
  dev_major :: u32
  dev_minor :: u32
  mount_root :: bytes
  mount_point :: bytes
  fs_type :: bytes
  mount_source :: bytes
  pruned_due_to_fs_type :: bool
  pruned_due_to_path :: bool

section \<open>Lines\<close>

definition LINE_MAX :: nat where
  "LINE_MAX = 2048"

text \<open>\<open>fgets\<close>: at most \<open>n - 1\<close> bytes, up to and with a newline; None at the end of the file.\<close>

definition fgets :: "nat \<Rightarrow> bytes \<Rightarrow> (bytes \<times> bytes) option" where
  "fgets n text =
     (if text = [] then None
      else let k = min (n - 1) (length (takeWhile (\<lambda>c. c \<noteq> 10) text) + 1) in Some (take k text, drop k text))"

lemma fgets_shorter: "fgets (Suc (Suc n)) text = Some (buf, rest) \<Longrightarrow> length rest < length text"
  by (auto simp add: fgets_def Let_def split: if_splits)

function read_mount_line :: "bytes \<Rightarrow> bytes \<times> bytes" where
  "read_mount_line f =
     (case fgets LINE_MAX f of
        None \<Rightarrow> ([], f)
      | Some (buf, f) \<Rightarrow>
          let chunk = c_str buf
          in if chunk \<noteq> [] \<and> last chunk = 10 then (butlast chunk, f)
             else let (line, f) = read_mount_line f in (chunk @ line, f))"
  by pat_completeness auto
termination
  by (relation "measure length")
    (auto simp add: LINE_MAX_def numeral_2_eq_2 dest: fgets_shorter [of 2046, simplified])

declare read_mount_line.simps [simp del]

section \<open>Entries\<close>

definition is_octal :: "byte \<Rightarrow> bool" where
  "is_octal c \<longleftrightarrow> 48 \<le> c \<and> c \<le> 55"

definition is_blank :: "byte \<Rightarrow> bool" where
  "is_blank c \<longleftrightarrow> c = 32 \<or> c = 9"

definition octal_value :: "bytes \<Rightarrow> nat" where
  "octal_value src = (unat (src ! 0) - 48) * 64 + (unat (src ! 1) - 48) * 8 + (unat (src ! 2) - 48)"

definition octal_escape :: "bytes \<Rightarrow> bool" where
  "octal_escape src \<longleftrightarrow>
     3 \<le> length src \<and> is_octal (src ! 0) \<and> is_octal (src ! 1) \<and> is_octal (src ! 2) \<and> octal_value src \<le> 255"

text \<open>The loop from the first character that is no blank; the string ends at a zero byte or with the list.\<close>

function mount_string :: "bytes \<Rightarrow> bytes \<times> bytes" where
  "mount_string [] = ([], [])"
| "mount_string (c # src) =
     (if c = 0 \<or> is_blank c then ([], c # src)
      else if c = 92 \<and> octal_escape src
      then let (s, rest) = mount_string (drop 3 src) in (of_nat (octal_value src) # s, rest)
      else let (s, rest) = mount_string src in (c # s, rest))"
  by pat_completeness auto
termination
  by (relation "measure length") auto

definition parse_mount_string :: "bytes \<Rightarrow> (bytes \<times> bytes) option" where
  "parse_mount_string s =
     (let src = dropWhile is_blank s
      in if src = [] \<or> hd src = 0 then None else Some (mount_string src))"

text \<open>
  The conversions of \<open>sscanf\<close> with \<open>%d\<close> and \<open>%u\<close>: white space, a sign, digits. The value is cut to the
  32 bits of the variable.
\<close>

definition scan_number :: "bytes \<Rightarrow> (int \<times> bytes) option" where
  "scan_number s =
     (let s = dropWhile is_space s;
          neg = (s \<noteq> [] \<and> hd s = 45);
          s = (if s \<noteq> [] \<and> (hd s = 45 \<or> hd s = 43) then tl s else s);
          ds = takeWhile is_digit s
      in if ds = [] then None
         else Some (if neg then - int (decimal ds) else int (decimal ds), dropWhile is_digit s))"

definition scan_ids :: "bytes \<Rightarrow> (int \<times> int \<times> u32 \<times> u32 \<times> bytes) option" where
  "scan_ids line =
     do {
       (i, p) \<leftarrow> scan_number line;
       (parent, p) \<leftarrow> scan_number p;
       (major, p) \<leftarrow> scan_number p;
       p \<leftarrow> (if p \<noteq> [] \<and> hd p = 58 then Some (tl p) else None);
       (minor, p) \<leftarrow> scan_number p;
       Some (signed_take_bit 31 i, signed_take_bit 31 parent, of_int major, of_int minor, p) }"

lemma mount_string_shorter: "length (snd (mount_string src)) \<le> length src"
  by (induction src rule: mount_string.induct) (auto simp add: Let_def case_prod_beta)

lemma parse_mount_string_shorter:
  assumes "parse_mount_string s = Some (v, rest)"
  shows "length rest < length s"
proof -
  obtain c src where src: "dropWhile is_blank s = c # src"
    using assms by (cases "dropWhile is_blank s") (auto simp add: parse_mount_string_def)
  then have c: "c \<noteq> 0" "\<not> is_blank c" and v: "mount_string (c # src) = (v, rest)"
    using assms dropWhile_eq_Cons_conv [of is_blank s c src] by (auto simp add: parse_mount_string_def Let_def split: if_splits)
  have "length rest \<le> length src"
    using v c mount_string_shorter [of "drop 3 src"] mount_string_shorter [of src]
    by (auto simp add: case_prod_beta Let_def split: if_splits)
  moreover have "length (c # src) \<le> length s" unfolding src [symmetric] by (rule length_dropWhile_le)
  ultimately show ?thesis by simp
qed

text \<open>The optional fields, up to the separator.\<close>

function skip_options :: "bytes \<Rightarrow> bytes option" where
  "skip_options ptr =
     (case parse_mount_string ptr of
        None \<Rightarrow> None
      | Some (opt, ptr) \<Rightarrow> if opt = str ''-'' then Some ptr else skip_options ptr)"
  by pat_completeness auto
termination
  by (relation "measure length") (auto dest: parse_mount_string_shorter)

declare skip_options.simps [simp del]

definition parse_mount_entry :: "bytes \<Rightarrow> mount option" where
  "parse_mount_entry line =
     do {
       (i, parent, major, minor, ptr) \<leftarrow> scan_ids line;
       (root, ptr) \<leftarrow> parse_mount_string ptr;
       (point, ptr) \<leftarrow> parse_mount_string ptr;
       (_, ptr) \<leftarrow> parse_mount_string ptr;
       ptr \<leftarrow> skip_options ptr;
       (fs, ptr) \<leftarrow> parse_mount_string ptr;
       (src, ptr) \<leftarrow> parse_mount_string ptr;
       (_, ptr) \<leftarrow> parse_mount_string ptr;
       Some \<lparr>mount_id = i, parent_id = parent, dev_major = major, dev_minor = minor, mount_root = root,
             mount_point = point, fs_type = fs, mount_source = src,
             pruned_due_to_fs_type = False, pruned_due_to_path = False\<rparr> }"

definition read_mount_entry :: "bytes \<Rightarrow> (mount \<times> bytes) option" where
  "read_mount_entry f =
     (let (line, f) = read_mount_line f
      in if line = [] then None else map_option (\<lambda>me. (me, f)) (parse_mount_entry line))"

lemma read_mount_line_shorter: "f \<noteq> [] \<Longrightarrow> length (snd (read_mount_line f)) < length f"
proof (induction f rule: read_mount_line.induct)
  case (1 f)
  from 1(2) obtain buf rest where b: "fgets LINE_MAX f = Some (buf, rest)" by (auto simp add: fgets_def Let_def)
  then have "length rest < length f" using fgets_shorter [of 2046 f buf rest] by (simp add: LINE_MAX_def)
  moreover have "read_mount_line [] = ([], [])" by (subst read_mount_line.simps) (simp add: fgets_def)
  ultimately show ?case
    using 1(1) [OF b refl refl] b by (subst read_mount_line.simps) (cases "rest = []", auto simp add: Let_def case_prod_beta)
qed

lemma read_mount_entry_shorter: "read_mount_entry f = Some (me, rest) \<Longrightarrow> length rest < length f"
proof -
  assume a: "read_mount_entry f = Some (me, rest)"
  have "read_mount_line [] = ([], [])" by (subst read_mount_line.simps) (simp add: fgets_def)
  with a have "f \<noteq> []" by (auto simp add: read_mount_entry_def)
  from read_mount_line_shorter [OF this] a show ?thesis
    by (auto simp add: read_mount_entry_def case_prod_beta Let_def split: if_splits)
qed

section \<open>Mounts\<close>

definition classify_mount :: "configuration \<Rightarrow> mount \<Rightarrow> mount" where
  "classify_mount conf me =
     me\<lparr>pruned_due_to_fs_type := map to_upper (fs_type me) \<in> set (conf_prunefs conf),
        pruned_due_to_path := fst (string_list_contains_dir_path (conf_prunepaths conf) 0 (mount_point me))\<rparr>"

text \<open>A multimap is the list of its elements in order: \<open>emplace\<close> puts an element behind all that are not greater.\<close>

definition dev_key :: "mount \<Rightarrow> int \<times> int" where
  "dev_key me = (sint (dev_major me), sint (dev_minor me))"

definition key_less :: "int \<times> int \<Rightarrow> int \<times> int \<Rightarrow> bool" where
  "key_less a b \<longleftrightarrow> fst a < fst b \<or> fst a = fst b \<and> snd a < snd b"

fun emplace :: "mount \<Rightarrow> mount list \<Rightarrow> mount list" where
  "emplace me [] = [me]"
| "emplace me (e # es) = (if key_less (dev_key me) (dev_key e) then me # e # es else e # emplace me es)"

function read_entries :: "configuration \<Rightarrow> bytes \<Rightarrow> mount list \<Rightarrow> mount list" where
  "read_entries conf f es =
     (case read_mount_entry f of
        None \<Rightarrow> es
      | Some (me, f) \<Rightarrow> read_entries conf f (emplace (classify_mount conf me) es))"
  by pat_completeness auto
termination
  by (relation "measure (\<lambda>(conf, f, es). length f)") (auto dest: read_mount_entry_shorter)

declare read_entries.simps [simp del]

text \<open>\<open>id_to_mount\<close>: a later element replaces an earlier one.\<close>

definition id_to_mount :: "mount list \<Rightarrow> int \<rightharpoonup> mount" where
  "id_to_mount es = map_of (rev (map (\<lambda>me. (mount_id me, me)) es))"

text \<open>The result and the cache; None: the recursion does not end.\<close>

partial_function (option) find_whether_under_pruned ::
    "(int \<rightharpoonup> mount) \<Rightarrow> int \<Rightarrow> (int \<rightharpoonup> bool) \<Rightarrow> (bool \<times> (int \<rightharpoonup> bool)) option" where
  "find_whether_under_pruned mounts i cache =
     (case cache i of
        Some result \<Rightarrow> Some (result, cache)
      | None \<Rightarrow>
          (case mounts i of
             None \<Rightarrow> Some (False, cache)
           | Some me \<Rightarrow>
               if pruned_due_to_fs_type me \<or> pruned_due_to_path me then Some (True, cache(i \<mapsto> True))
               else if parent_id me = 0 then Some (False, cache(i \<mapsto> False))
               else
                 Option.bind (find_whether_under_pruned mounts (parent_id me) cache)
                   (\<lambda>(result, cache). Some (result, cache(i \<mapsto> result)))))"

text \<open>The two loops over the entries: \<open>to_remove\<close>, and the ones that stay.\<close>

fun keep_visible :: "(int \<rightharpoonup> mount) \<Rightarrow> mount list \<Rightarrow> (int \<rightharpoonup> bool) \<Rightarrow> mount list option" where
  "keep_visible mounts [] cache = Some []"
| "keep_visible mounts (me # es) cache =
     do {
       (to_remove, cache) \<leftarrow> find_whether_under_pruned mounts (mount_id me) cache;
       es \<leftarrow> keep_visible mounts es cache;
       Some (if to_remove then es else me # es) }"

definition read_mount_entries :: "configuration \<Rightarrow> bytes \<Rightarrow> mount list option" where
  "read_mount_entries conf text =
     (let es = read_entries conf text [] in keep_visible (id_to_mount es) es Map.empty)"

definition shown_elsewhere :: "mount \<Rightarrow> mount \<Rightarrow> bool" where
  "shown_elsewhere me other \<longleftrightarrow>
     length (mount_root other) < length (mount_root me) \<and>
       take (length (mount_root other)) (mount_root me) = mount_root other \<or>
     mount_root me = mount_root other \<and> mount_id other < mount_id me"

definition is_duplicate :: "mount list \<Rightarrow> mount \<Rightarrow> bool" where
  "is_duplicate es me \<longleftrightarrow>
     (\<exists>other \<in> set (filter (\<lambda>e. dev_key e = dev_key me) es). mount_id other \<noteq> mount_id me \<and> shown_elsewhere me other)"

definition bind_paths :: "mount list \<Rightarrow> bytes list" where
  "bind_paths es = string_list_dir_path_sort (map mount_point (filter (is_duplicate es) es))"

section \<open>The state\<close>

record bind_state =
  mountinfo_updated :: bool
  bind_mount_paths :: "bytes list"
  bind_mount_paths_index :: nat

definition rebuild_bind_mount_paths :: "configuration \<Rightarrow> bytes option \<Rightarrow> bind_state \<Rightarrow> bind_state option" where
  "rebuild_bind_mount_paths conf mountinfo s =
     (case mountinfo of
        None \<Rightarrow> Some s
      | Some text \<Rightarrow> map_option (\<lambda>es. s\<lparr>bind_mount_paths := bind_paths es\<rparr>) (read_mount_entries conf text))"

definition is_bind_mount :: "configuration \<Rightarrow> bytes option \<Rightarrow> bytes \<Rightarrow> bind_state \<Rightarrow> (bool \<times> bind_state) option" where
  "is_bind_mount conf mountinfo path s =
     do {
       s \<leftarrow> (if mountinfo_updated s
             then map_option (\<lambda>s. s\<lparr>bind_mount_paths_index := 0\<rparr>)
               (rebuild_bind_mount_paths conf mountinfo (s\<lparr>mountinfo_updated := False\<rparr>))
             else Some s);
       let (found, index) = string_list_contains_dir_path (bind_mount_paths s) (bind_mount_paths_index s) path in
       Some (found, s\<lparr>bind_mount_paths_index := index\<rparr>) }"

definition initial_bind_state :: bind_state where
  "initial_bind_state = \<lparr>mountinfo_updated = False, bind_mount_paths = [], bind_mount_paths_index = 0\<rparr>"

definition bind_mount_init :: "configuration \<Rightarrow> bytes option \<Rightarrow> bind_state option" where
  "bind_mount_init conf mountinfo =
     (case mountinfo of
        None \<Rightarrow> Some initial_bind_state
      | Some text \<Rightarrow> rebuild_bind_mount_paths conf mountinfo initial_bind_state)"

text \<open>The thread that polls the file.\<close>

definition poll_event :: "bind_state \<Rightarrow> bind_state" where
  "poll_event s = s\<lparr>mountinfo_updated := True\<rparr>"

section \<open>Mounts at or below a pruned one\<close>

inductive under_pruned :: "(int \<rightharpoonup> mount) \<Rightarrow> int \<Rightarrow> bool" for mounts where
  at: "mounts i = Some me \<Longrightarrow> pruned_due_to_fs_type me \<or> pruned_due_to_path me \<Longrightarrow> under_pruned mounts i"
| below: "mounts i = Some me \<Longrightarrow> parent_id me \<noteq> 0 \<Longrightarrow> under_pruned mounts (parent_id me) \<Longrightarrow> under_pruned mounts i"

inductive_simps under_pruned_iff: "under_pruned mounts i"

text \<open>The links to the parents go down in some rank, so that they have no cycle.\<close>

definition links_down :: "(int \<rightharpoonup> mount) \<Rightarrow> (int \<Rightarrow> nat) \<Rightarrow> bool" where
  "links_down mounts rank \<longleftrightarrow>
     (\<forall>i me. mounts i = Some me \<longrightarrow> parent_id me \<noteq> 0 \<longrightarrow> mounts (parent_id me) \<noteq> None \<longrightarrow> rank (parent_id me) < rank i)"

definition cache_ok :: "(int \<rightharpoonup> mount) \<Rightarrow> (int \<rightharpoonup> bool) \<Rightarrow> bool" where
  "cache_ok mounts cache \<longleftrightarrow> (\<forall>i result. cache i = Some result \<longrightarrow> result = under_pruned mounts i)"

lemma under_pruned_missing: "mounts i = None \<Longrightarrow> \<not> under_pruned mounts i"
  by (subst under_pruned_iff) simp

lemma cache_ok_upd: "cache_ok mounts cache \<Longrightarrow> result = under_pruned mounts i \<Longrightarrow> cache_ok mounts (cache(i \<mapsto> result))"
  by (simp add: cache_ok_def)

lemma find_under_pruned:
  assumes "links_down mounts rank" and "cache_ok mounts cache"
  shows "\<exists>cache'. find_whether_under_pruned mounts i cache = Some (under_pruned mounts i, cache') \<and> cache_ok mounts cache'"
  using assms(2)
proof (induction "rank i" arbitrary: i cache rule: less_induct)
  case less
  show ?case
  proof (cases "cache i = None \<and> mounts i \<noteq> None")
    case False
    with less.prems show ?thesis
      by (subst find_whether_under_pruned.simps)
        (auto simp add: cache_ok_def under_pruned_missing split: option.split)
  next
    case True
    then obtain me where me: "mounts i = Some me" and c: "cache i = None" by blast
    have step: "under_pruned mounts i \<longleftrightarrow> pruned_due_to_fs_type me \<or> pruned_due_to_path me \<or>
        parent_id me \<noteq> 0 \<and> under_pruned mounts (parent_id me)"
      by (subst under_pruned_iff) (simp add: me)
    have parent: "\<exists>cache'. find_whether_under_pruned mounts (parent_id me) cache =
        Some (under_pruned mounts (parent_id me), cache') \<and> cache_ok mounts cache'" if "parent_id me \<noteq> 0"
    proof (cases "mounts (parent_id me)")
      case None
      then have "\<not> under_pruned mounts (parent_id me)" by (rule under_pruned_missing)
      with None less.prems show ?thesis
        by (subst find_whether_under_pruned.simps) (auto simp add: cache_ok_def split: option.split)
    next
      case (Some p)
      with assms(1) me that have "rank (parent_id me) < rank i" by (auto simp add: links_down_def)
      from less.hyps [OF this less.prems] show ?thesis .
    qed
    show ?thesis
      using parent step less.prems
      by (subst find_whether_under_pruned.simps) (auto simp add: me c intro!: cache_ok_upd)
  qed
qed

lemma keep_visible_filter:
  assumes "links_down mounts rank" and "cache_ok mounts cache"
  shows "keep_visible mounts es cache = Some (filter (\<lambda>me. \<not> under_pruned mounts (mount_id me)) es)"
  using assms(2)
proof (induction es arbitrary: cache)
  case (Cons me es)
  from find_under_pruned [OF assms(1) Cons.prems, of "mount_id me"] Cons.IH show ?case by auto
qed simp

text \<open>A mount that is its own parent, as the root of the initial file system is: the recursion does not end.\<close>

lemma own_parent_never_returns:
  assumes "mounts i = Some me" and "parent_id me = i" and "i \<noteq> 0"
    and "\<not> pruned_due_to_fs_type me" and "\<not> pruned_due_to_path me"
  shows "find_whether_under_pruned mounts i Map.empty = None"
proof -
  have "\<not> (mounts i = Some me \<and> parent_id me = i \<and> i \<noteq> 0 \<and> \<not> pruned_due_to_fs_type me \<and>
      \<not> pruned_due_to_path me \<and> cache i = None)"
    if "find_whether_under_pruned mounts i cache = Some r" for mounts i cache r
    by (rule find_whether_under_pruned.raw_induct [where P = "\<lambda>mounts i cache r. \<not> (mounts i = Some me \<and>
        parent_id me = i \<and> i \<noteq> 0 \<and> \<not> pruned_due_to_fs_type me \<and> \<not> pruned_due_to_path me \<and> cache i = None)",
        OF _ that])
      (fastforce split: option.splits if_splits bind_splits)
  then show ?thesis using assms by (metis not_Some_eq)
qed

section \<open>The format of the file\<close>

text \<open>
  A line as proc(5) describes it: the numbers, then fields with blanks, newlines and backslashes
  escaped; any number of optional fields is ended by a hyphen.
\<close>

definition mangle_byte :: "byte \<Rightarrow> bytes" where
  "mangle_byte c =
     (if c = 9 then [92, 48, 49, 49]
      else if c = 10 then [92, 48, 49, 50]
      else if c = 32 then [92, 48, 52, 48]
      else if c = 92 then [92, 49, 51, 52]
      else [c])"

definition mount_field :: "bytes \<Rightarrow> bytes" where
  "mount_field s = 32 # concat (map mangle_byte s)"

record mount_line = mount +
  mount_options :: bytes
  optional_fields :: "bytes list"
  super_options :: bytes

definition mountinfo_line :: "mount_line \<Rightarrow> bytes" where
  "mountinfo_line e =
     to_decimal (nat (mount_id e)) @ [32] @ to_decimal (nat (parent_id e)) @ [32] @
     to_decimal (unat (dev_major e)) @ [58] @ to_decimal (unat (dev_minor e)) @
     concat (map mount_field ([mount_root e, mount_point e, mount_options e] @ optional_fields e @
       [str ''-'', fs_type e, mount_source e, super_options e]))"

definition mountinfo_text :: "mount_line list \<Rightarrow> bytes" where
  "mountinfo_text es = concat (map (\<lambda>e. mountinfo_line e @ [10]) es)"

definition wf_field :: "bytes \<Rightarrow> bool" where
  "wf_field s \<longleftrightarrow> s \<noteq> [] \<and> 0 \<notin> set s"

definition wf_line :: "mount_line \<Rightarrow> bool" where
  "wf_line e \<longleftrightarrow>
     0 \<le> mount_id e \<and> mount_id e < 2 ^ 31 \<and> 0 \<le> parent_id e \<and> parent_id e < 2 ^ 31 \<and>
     list_all wf_field [mount_root e, mount_point e, mount_options e, fs_type e, mount_source e, super_options e] \<and>
     list_all (\<lambda>s. wf_field s \<and> s \<noteq> str ''-'') (optional_fields e) \<and>
     \<not> pruned_due_to_fs_type e \<and> \<not> pruned_due_to_path e"

lemma mount_string_mangled:
  assumes "0 \<notin> set s" and "rest = [] \<or> is_blank (hd rest)"
  shows "mount_string (concat (map mangle_byte s) @ rest) = (s, rest)"
  using assms(1)
proof (induction s)
  case Nil
  then show ?case using assms(2) by (cases rest) auto
next
  case (Cons c s)
  then show ?case
    by (auto simp add: mangle_byte_def octal_escape_def octal_value_def is_octal_def is_blank_def)
qed

lemma parse_mount_field:
  assumes "wf_field s" and "rest = [] \<or> is_blank (hd rest)"
  shows "parse_mount_string (mount_field s @ rest) = Some (s, rest)"
proof -
  obtain c s' where s: "s = c # s'" "c \<noteq> 0" using assms(1) by (cases s) (auto simp add: wf_field_def)
  have "concat (map mangle_byte s) @ rest \<noteq> []" "\<not> is_blank (hd (concat (map mangle_byte s) @ rest))"
    "hd (concat (map mangle_byte s) @ rest) \<noteq> 0"
    using s(2) by (auto simp add: s(1) mangle_byte_def is_blank_def)
  moreover from this have "dropWhile is_blank (concat (map mangle_byte s) @ rest) = concat (map mangle_byte s) @ rest"
    by (cases "concat (map mangle_byte s) @ rest") auto
  ultimately show ?thesis
    using mount_string_mangled [OF _ assms(2)] assms(1)
    by (simp add: parse_mount_string_def mount_field_def wf_field_def is_blank_def [of 32] Let_def)
qed

lemma blank_fields: "concat (map mount_field fs) = [] \<or> is_blank (hd (concat (map mount_field fs)))"
  by (cases fs) (auto simp add: mount_field_def is_blank_def)

lemma parse_mount_fields:
  "wf_field f \<Longrightarrow> parse_mount_string (concat (map mount_field (f # fs))) = Some (f, concat (map mount_field fs))"
  using parse_mount_field [OF _ blank_fields] by simp

lemma skip_option_fields:
  "list_all (\<lambda>s. wf_field s \<and> s \<noteq> str ''-'') os \<Longrightarrow>
   skip_options (concat (map mount_field (os @ str ''-'' # fs))) = Some (concat (map mount_field fs))"
proof (induction os)
  case Nil
  have "wf_field (str ''-'')" by (simp add: wf_field_def str_def)
  then show ?case using parse_mount_fields [of "str ''-''" fs] by (subst skip_options.simps) simp
next
  case (Cons f os)
  then show ?case using parse_mount_fields [of f "os @ str ''-'' # fs"] by (subst skip_options.simps) simp
qed

lemma to_decimal_digits: "list_all is_digit (to_decimal n)"
proof (induction n rule: to_decimal.induct)
  case (1 n)
  have d: "is_digit (48 + of_nat k)" if "k < 10" for k :: nat
  proof -
    have "k \<in> {0, 1, 2, 3, 4, 5, 6, 7, 8, 9}" using that by auto
    then show ?thesis by (auto simp add: is_digit_def)
  qed
  show ?case using 1 d [of n] d [of "n mod 10"] by (subst to_decimal.simps) simp
qed

lemma scan_decimal:
  assumes "rest = [] \<or> \<not> is_digit (hd rest)"
  shows "scan_number (to_decimal n @ rest) = Some (int n, rest)"
proof -
  obtain c cs where ds: "to_decimal n = c # cs" using to_decimal_string(1) [of n] by (cases "to_decimal n") auto
  have all: "list_all is_digit (c # cs)" using to_decimal_digits [of n] ds by simp
  have e: "takeWhile is_digit rest = []" "dropWhile is_digit rest = rest" using assms by (cases rest; simp)+
  have t: "takeWhile is_digit ((c # cs) @ rest) = c # cs" "dropWhile is_digit ((c # cs) @ rest) = rest"
    using all e by (simp_all add: takeWhile_append2 dropWhile_append2 list_all_iff)
  have "dropWhile is_space ((c # cs) @ rest) = (c # cs) @ rest" "c \<noteq> 45" "c \<noteq> 43"
    using digit_facts [of c] all by simp_all
  then show ?thesis
    unfolding ds scan_number_def using t decimal_to_decimal [of n] ds by (simp add: Let_def)
qed

lemma scan_blank: "scan_number (32 # s) = scan_number s"
  by (simp add: scan_number_def is_space_def)

lemma scan_ids_line:
  assumes "0 \<le> i" "i < 2 ^ 31" "0 \<le> parent" "parent < 2 ^ 31" and "rest = [] \<or> is_blank (hd rest)"
  shows "scan_ids (to_decimal (nat i) @ [32] @ to_decimal (nat parent) @ [32] @
     to_decimal (unat major) @ [58] @ to_decimal (unat minor) @ rest) = Some (i, parent, major, minor, rest)"
proof -
  have "\<not> is_digit 32" "\<not> is_digit 58" by (simp_all add: is_digit_def)
  moreover have "rest = [] \<or> \<not> is_digit (hd rest)" using assms(5) by (auto simp add: is_digit_def is_blank_def)
  moreover have "signed_take_bit 31 i = i" "signed_take_bit 31 parent = parent"
    using assms(1-4) by (simp_all add: signed_take_bit_int_eq_self)
  ultimately show ?thesis
    using assms(1,3) scan_decimal by (simp add: scan_ids_def scan_blank)
qed

lemma parse_mountinfo_line:
  assumes "wf_line e"
  shows "parse_mount_entry (mountinfo_line e) = Some (mount.truncate e)"
proof -
  let ?fs = "[mount_root e, mount_point e, mount_options e] @ optional_fields e @
       [str ''-'', fs_type e, mount_source e, super_options e]"
  have ids: "scan_ids (mountinfo_line e) =
      Some (mount_id e, parent_id e, dev_major e, dev_minor e, concat (map mount_field ?fs))"
    unfolding mountinfo_line_def
    using assms scan_ids_line [OF _ _ _ _ blank_fields, of "mount_id e" "parent_id e"] unfolding wf_line_def by blast
  have fields: "wf_field (mount_root e)" "wf_field (mount_point e)" "wf_field (mount_options e)" "wf_field (fs_type e)"
    "wf_field (mount_source e)" "wf_field (super_options e)"
    and opts: "list_all (\<lambda>s. wf_field s \<and> s \<noteq> str ''-'') (optional_fields e)"
    using assms by (simp_all add: wf_line_def)
  show ?thesis
    unfolding parse_mount_entry_def ids append_Cons append_Nil
    using parse_mount_fields [OF fields(1)] parse_mount_fields [OF fields(2)] parse_mount_fields [OF fields(3)]
      skip_option_fields [OF opts] parse_mount_fields [OF fields(4)] parse_mount_fields [OF fields(5)]
      parse_mount_fields [OF fields(6), of "[]"] assms
    by (simp add: mount.defs wf_line_def del: concat.simps list.map map_append)
qed

lemma read_line:
  "0 \<notin> set line \<Longrightarrow> 10 \<notin> set line \<Longrightarrow> read_mount_line (line @ 10 # rest) = (line, rest)"
proof (induction "length line" arbitrary: line rule: less_induct)
  case less
  have nl: "takeWhile (\<lambda>c. c \<noteq> 10) (line @ 10 # rest) = line" using less.prems(2) by (induction line) auto
  have no_nul: "takeWhile (\<lambda>c. c \<noteq> 0) p = p" if "0 \<notin> set p" for p :: bytes using that by (induction p) auto
  show ?case
  proof (cases "length line + 1 \<le> 2047")
    case True
    then have "fgets LINE_MAX (line @ 10 # rest) = Some (line @ [10], rest)"
      by (simp add: fgets_def nl LINE_MAX_def min_def)
    moreover have "c_str (line @ [10]) = line @ [10]" using less.prems(1) no_nul [of "line @ [10]"] by (simp add: c_str_def)
    ultimately show ?thesis by (subst read_mount_line.simps) simp
  next
    case False
    let ?p = "take 2047 line" and ?l = "drop 2047 line"
    have "fgets LINE_MAX (line @ 10 # rest) = Some (?p, ?l @ 10 # rest)"
      using False by (simp add: fgets_def nl LINE_MAX_def min_def)
    moreover have "0 \<notin> set ?p" "10 \<notin> set ?p" using less.prems by (auto dest: in_set_takeD)
    moreover from this have "c_str ?p = ?p" using no_nul by (simp add: c_str_def)
    moreover have "?p \<noteq> []" using False by auto
    moreover from this \<open>10 \<notin> set ?p\<close> have "last ?p \<noteq> 10" using last_in_set by metis
    moreover have "read_mount_line (?l @ 10 # rest) = (?l, rest)"
      by (rule less.hyps) (use False less.prems in \<open>auto dest: in_set_dropD\<close>)
    ultimately show ?thesis by (subst read_mount_line.simps) simp
  qed
qed

lemma mangle_no_newline: "0 \<notin> set s \<Longrightarrow> 10 \<notin> set (mount_field s) \<and> 0 \<notin> set (mount_field s)"
  by (auto simp add: mount_field_def mangle_byte_def split: if_splits)

lemma mountinfo_line_bytes:
  assumes "wf_line e"
  shows "0 \<notin> set (mountinfo_line e)" and "10 \<notin> set (mountinfo_line e)" and "mountinfo_line e \<noteq> []"
proof -
  have d: "10 \<notin> set (to_decimal n)" for n using to_decimal_digits [of n] by (auto simp add: list_all_iff is_digit_def)
  have f: "0 \<notin> set (mount_field s) \<and> 10 \<notin> set (mount_field s)"
    if "s \<in> set ([mount_root e, mount_point e, mount_options e] @ optional_fields e @
       [str ''-'', fs_type e, mount_source e, super_options e])" for s
  proof -
    have "0 \<notin> set s" using assms that by (auto simp add: wf_line_def wf_field_def list_all_iff str_def)
    then show ?thesis using mangle_no_newline by blast
  qed
  show "0 \<notin> set (mountinfo_line e)" "10 \<notin> set (mountinfo_line e)"
    using d f to_decimal_string(2) by (simp_all add: mountinfo_line_def)
  show "mountinfo_line e \<noteq> []" by (simp add: mountinfo_line_def)
qed

lemma read_mountinfo:
  "list_all wf_line es \<Longrightarrow>
   read_entries conf (mountinfo_text es) ms = fold (\<lambda>e. emplace (classify_mount conf (mount.truncate e))) es ms"
proof (induction es arbitrary: ms)
  case Nil
  have "read_mount_entry [] = None"
    by (simp add: read_mount_entry_def) (subst read_mount_line.simps, simp add: fgets_def)
  then show ?case by (subst read_entries.simps) (simp add: mountinfo_text_def)
next
  case (Cons e es)
  then have e: "wf_line e" and "list_all wf_line es" by simp_all
  have "read_mount_entry (mountinfo_text (e # es)) = Some (mount.truncate e, mountinfo_text es)"
    using read_line [OF mountinfo_line_bytes(1,2) [OF e]] mountinfo_line_bytes(3) [OF e] parse_mountinfo_line [OF e]
    by (simp add: read_mount_entry_def mountinfo_text_def)
  with Cons show ?case by (subst read_entries.simps) simp
qed

section \<open>Answers\<close>

text \<open>The answers to a sequence of questions, and what they are meant to be.\<close>

fun bind_mount_answers :: "configuration \<Rightarrow> bytes option \<Rightarrow> bytes list \<Rightarrow> bind_state \<Rightarrow> bool list option" where
  "bind_mount_answers conf mountinfo [] s = Some []"
| "bind_mount_answers conf mountinfo (path # qs) s =
     do {
       (found, s) \<leftarrow> is_bind_mount conf mountinfo path s;
       map_option ((#) found) (bind_mount_answers conf mountinfo qs s) }"

definition visible_mounts :: "mount list \<Rightarrow> mount set" where
  "visible_mounts ms = {me \<in> set ms. \<not> under_pruned (id_to_mount ms) (mount_id me)}"

definition bind_mount_at :: "mount list \<Rightarrow> bytes \<Rightarrow> bool" where
  "bind_mount_at ms path \<longleftrightarrow>
     (\<exists>me \<in> visible_mounts ms. \<exists>other \<in> visible_mounts ms. mount_point me = path \<and>
        dev_major other = dev_major me \<and> dev_minor other = dev_minor me \<and>
        (mount_root me = mount_root other \<and> mount_id other < mount_id me \<or>
         (\<exists>rest. rest \<noteq> [] \<and> mount_root me = mount_root other @ rest)))"

lemma mset_emplace: "mset (emplace me es) = add_mset me (mset es)"
  by (induction es) auto

lemma mset_fold_emplace: "mset (fold (\<lambda>e. emplace (f e)) es ms) = mset (map f es) + mset ms"
  by (induction es arbitrary: ms) (simp_all add: mset_emplace)

lemma id_to_mount_iff:
  assumes "distinct (map mount_id es)"
  shows "id_to_mount es i = Some me \<longleftrightarrow> me \<in> set es \<and> mount_id me = i"
proof -
  have "distinct (map fst (rev (map (\<lambda>me. (mount_id me, me)) es)))" using assms by (simp add: comp_def rev_map [symmetric])
  then show ?thesis unfolding id_to_mount_def by (subst map_of_eq_Some_iff) auto
qed

lemma id_to_mount_perm:
  assumes "distinct (map mount_id es)" and "mset es' = mset es"
  shows "id_to_mount es' = id_to_mount es"
proof (rule ext)
  fix i
  have "mset (map mount_id es') = mset (map mount_id es)" using assms(2) by simp
  then have "distinct (map mount_id es')" using assms(1) mset_eq_imp_distinct_iff by blast
  with id_to_mount_iff [OF this, of i] id_to_mount_iff [OF assms(1), of i] mset_eq_setD [OF assms(2)]
  show "id_to_mount es' i = id_to_mount es i" by (metis not_Some_eq)
qed

lemma read_mountinfo_entries:
  assumes "list_all wf_line es" and "distinct (map mount_id es)"
    and "ms = map (\<lambda>e. classify_mount conf (mount.truncate e)) es" and "links_down (id_to_mount ms) rank"
  shows "\<exists>vs. read_mount_entries conf (mountinfo_text es) = Some vs \<and> set vs = visible_mounts ms \<and> inj_on mount_id (set vs)"
proof -
  define rs where "rs = read_entries conf (mountinfo_text es) []"
  have p: "mset rs = mset ms"
    unfolding rs_def read_mountinfo [OF assms(1)] mset_fold_emplace assms(3) by simp
  have "map mount_id ms = map mount_id es"
    by (simp add: assms(3) classify_mount_def mount.defs)
  then have ids: "distinct (map mount_id ms)" using assms(2) by simp
  then have "id_to_mount rs = id_to_mount ms" using p by (rule id_to_mount_perm)
  moreover have "cache_ok (id_to_mount ms) Map.empty" by (simp add: cache_ok_def)
  ultimately have "read_mount_entries conf (mountinfo_text es) =
      Some (filter (\<lambda>me. \<not> under_pruned (id_to_mount ms) (mount_id me)) rs)"
    using keep_visible_filter [OF assms(4)] by (simp add: read_mount_entries_def rs_def [symmetric] Let_def)
  moreover have "set rs = set ms" using p by (rule mset_eq_setD)
  moreover have "inj_on mount_id (set ms)" using ids by (simp add: distinct_map)
  ultimately show ?thesis by (auto simp add: visible_mounts_def intro: inj_on_subset)
qed

lemma shown_elsewhere_iff:
  "shown_elsewhere me other \<longleftrightarrow>
     mount_root me = mount_root other \<and> mount_id other < mount_id me \<or>
     (\<exists>rest. rest \<noteq> [] \<and> mount_root me = mount_root other @ rest)"
proof -
  have "length p < length q \<and> take (length p) q = p \<longleftrightarrow> (\<exists>rest. rest \<noteq> [] \<and> q = p @ rest)" for p q :: bytes
    by (metis append_eq_conv_conj append_self_conv length_append length_greater_0_conv less_add_same_cancel1
        append_take_drop_id)
  then show ?thesis by (auto simp add: shown_elsewhere_def)
qed

lemma bind_paths_at:
  assumes "set vs = visible_mounts ms" and "inj_on mount_id (set vs)"
  shows "p \<in> set (bind_paths vs) \<longleftrightarrow> bind_mount_at ms p"
proof -
  have d: "dev_key other = dev_key me \<longleftrightarrow> dev_major other = dev_major me \<and> dev_minor other = dev_minor me" for other me
    by (auto simp add: dev_key_def dest: signed_word_eqI)
  have "is_duplicate vs me \<longleftrightarrow> (\<exists>other \<in> set vs. dev_major other = dev_major me \<and> dev_minor other = dev_minor me \<and>
      shown_elsewhere me other)" if "me \<in> set vs" for me
  proof -
    have "mount_id other \<noteq> mount_id me" if "other \<in> set vs" "shown_elsewhere me other" for other
      using inj_onD [OF assms(2), of other me] that \<open>me \<in> set vs\<close> by (auto simp add: shown_elsewhere_def)
    then show ?thesis by (auto simp add: is_duplicate_def d)
  qed
  then have "p \<in> set (bind_paths vs) \<longleftrightarrow> (\<exists>me \<in> set vs. \<exists>other \<in> set vs. mount_point me = p \<and>
      dev_major other = dev_major me \<and> dev_minor other = dev_minor me \<and> shown_elsewhere me other)"
    by (auto simp add: bind_paths_def string_list_dir_path_sort_def)
  then show ?thesis by (simp add: bind_mount_at_def shown_elsewhere_iff assms(1))
qed

lemma bind_mount_answers_list:
  "\<not> mountinfo_updated s \<Longrightarrow>
   bind_mount_answers conf mountinfo qs s =
     Some (contains_dir_paths (bind_mount_paths s) (bind_mount_paths_index s) qs)"
proof (induction qs arbitrary: s)
  case (Cons q qs)
  then show ?case by (simp add: is_bind_mount_def case_prod_beta Let_def)
qed simp

lemma bind_mount_answers_sorted:
  assumes "\<not> mountinfo_updated s" and "bind_mount_paths s = bind_paths vs" and "bind_mount_paths_index s = 0"
    and "set vs = visible_mounts ms" and "inj_on mount_id (set vs)" and "sorted_wrt (\<lambda>p q. dir_path_cmp p q < 0) qs"
  shows "bind_mount_answers conf mountinfo qs s = Some (map (bind_mount_at ms) qs)"
proof -
  have "contains_dir_paths (bind_paths vs) 0 qs = map (\<lambda>p. p \<in> set (bind_paths vs)) qs"
    by (rule contains_all) (use assms(6) in \<open>simp_all add: bind_paths_def string_list_dir_path_sort_def dir_path_cmp_less\<close>)
  then show ?thesis
    using bind_mount_answers_list [OF assms(1)] assms(2,3) bind_paths_at [OF assms(4,5)] by simp
qed

lemma bind_mount_answers_updated:
  assumes "mountinfo_updated s" and "rebuild_bind_mount_paths conf mountinfo (s\<lparr>mountinfo_updated := False\<rparr>) = Some s'"
    and "\<not> mountinfo_updated s'" and "qs \<noteq> []"
  shows "bind_mount_answers conf mountinfo qs s = bind_mount_answers conf mountinfo qs (s'\<lparr>bind_mount_paths_index := 0\<rparr>)"
  using assms by (cases qs) (simp_all add: is_bind_mount_def)

lemma none_pruned:
  assumes "under_pruned mounts i" and "\<And>j me. mounts j = Some me \<Longrightarrow> \<not> pruned_due_to_fs_type me \<and> \<not> pruned_due_to_path me"
  shows False
  using assms by induction auto

section \<open>Properties\<close>


text \<open>
  Two subvolumes of one device, mounted on \<open>/\<close> and \<open>/home\<close>: the root \<open>/@home\<close> of the second extends the
  root \<open>/@\<close> of the first as a string, though it is not below it, so that \<open>/home\<close> counts as a bind mount.
\<close>

definition sample_line :: "int \<Rightarrow> string \<Rightarrow> string \<Rightarrow> mount_line" where
  "sample_line i root point =
     \<lparr>mount_id = i, parent_id = i - 1, dev_major = 0, dev_minor = 30, mount_root = str root, mount_point = str point,
      fs_type = str ''btrfs'', mount_source = str ''/dev/sda2'', pruned_due_to_fs_type = False,
      pruned_due_to_path = False, mount_options = str ''rw'', optional_fields = [str ''shared:1''], super_options = str ''rw''\<rparr>"


end
