(* ===== verification/Event_Output.thy ===== *)
theory Event_Output
  imports Snapshot_Diff Command_Line
begin

text \<open>
  The output of \<open>flocate-showdiff\<close> (\<open>src/showdiff.cpp\<close>): events as text and as JSON, one object per
  line. A function that prints gives the bytes written; \<open>snprintf\<close> cuts what does not fit its buffer.
  The formatted local time of a run is a parameter, None where \<open>localtime_r\<close> fails.
\<close>

section \<open>Numbers\<close>

definition snprintf :: "nat \<Rightarrow> bytes \<Rightarrow> bytes" where
  "snprintf buffer_size s = take (buffer_size - 1) s"

definition signed_decimal :: "int \<Rightarrow> bytes" where
  "signed_decimal i = (if i < 0 then 45 # to_decimal (nat (- i)) else to_decimal (nat i))"

text \<open>\<open>%09d\<close>: zeros between the sign and the digits.\<close>

definition padded_decimal :: "nat \<Rightarrow> int \<Rightarrow> bytes" where
  "padded_decimal width i =
     (let ds = to_decimal (nat \<bar>i\<bar>); sign = (if i < 0 then [45] else [])
      in sign @ replicate (width - length sign - length ds) 48 @ ds)"

function to_octal :: "nat \<Rightarrow> bytes" where
  "to_octal n = (if n < 8 then [48 + of_nat n] else to_octal (n div 8) @ [48 + of_nat (n mod 8)])"
  by pat_completeness auto
termination by (relation "measure id") auto

declare to_octal.simps [simp del]

definition hex_digit :: "nat \<Rightarrow> byte" where
  "hex_digit n = str ''0123456789abcdef'' ! n"

section \<open>Parts of an event\<close>

fun hash_kind_name :: "hash_kind \<Rightarrow> bytes" where
  "hash_kind_name HashNone = str ''none''"
| "hash_kind_name Sha256 = str ''sha256''"
| "hash_kind_name XxHash64 = str ''xxh64''"
| "hash_kind_name (UnnamedHashKind b) = str ''unknown''"

definition hash_hex :: "metadata_hash \<Rightarrow> bytes" where
  "hash_hex h =
     concat (map (\<lambda>v. [hex_digit (unat v div 16 mod 16), hex_digit (unat v mod 16)]) (take (hlength h) (hvalue h)))"

definition format_time :: "dir_time \<Rightarrow> bytes" where
  "format_time t = snprintf 64 (signed_decimal (sint (sec t)) @ [46] @ padded_decimal 9 (sint (nsec t)))"

definition has_hash :: "file_metadata \<Rightarrow> bool" where
  "has_hash m \<longleftrightarrow> kind (hash m) \<noteq> HashNone \<and> hlength (hash m) \<noteq> 0"

definition format_metadata :: "file_metadata \<Rightarrow> bytes" where
  "format_metadata m =
     (if \<not> enabled m then str ''(none)''
      else
        snprintf 256 (str ''mode='' @ to_octal (unat (mode m)) @ str '' uid='' @ to_decimal (unat (uid m)) @
          str '' gid='' @ to_decimal (unat (gid m)) @ str '' size='' @ to_decimal (unat (fsize m)) @
          str '' mtime='' @ format_time (mtime m) @ str '' ctime='' @ format_time (ctime m) @
          str '' atime='' @ format_time (atime m)) @
        (if has_hash m then str '' hash='' @ hash_kind_name (kind (hash m)) @ [58] @ hash_hex (hash m) else []))"

definition json_char :: "byte \<Rightarrow> bytes" where
  "json_char c =
     (if c = 34 then [92, 34]
      else if c = 92 then [92, 92]
      else if c = 10 then [92, 110]
      else if c = 13 then [92, 114]
      else if c = 9 then [92, 116]
      else if c < 0x20 then snprintf 8 ([92, 117, 48, 48] @ [hex_digit (unat c div 16), hex_digit (unat c mod 16)])
      else [c])"

definition json_string :: "bytes \<Rightarrow> bytes" where
  "json_string s = [34] @ concat (map json_char s) @ [34]"

definition json_metadata :: "file_metadata \<Rightarrow> bytes" where
  "json_metadata m =
     (if \<not> enabled m then str ''null''
      else
        snprintf 128 (str ''{\"mode\":\"'' @ to_octal (unat (mode m)) @ str ''\",\"uid\":'' @ to_decimal (unat (uid m)) @
          str '',\"gid\":'' @ to_decimal (unat (gid m)) @ str '',\"size\":'' @ to_decimal (unat (fsize m)) @ str '','') @
        str ''\"mtime\":\"'' @ format_time (mtime m) @ str ''\",'' @
        str ''\"ctime\":\"'' @ format_time (ctime m) @ str ''\",'' @
        str ''\"atime\":\"'' @ format_time (atime m) @ str ''\",'' @
        (if has_hash m then
           str ''\"hash\":{\"kind\":\"'' @ hash_kind_name (kind (hash m)) @ str ''\",\"hex\":\"'' @ hash_hex (hash m) @ str ''\"}''
         else str ''\"hash\":null'') @ str ''}'')"

text \<open>The loop over the names, from the position after the last comma; \<open>out\<close> is the output so far.\<close>

function changed_fields :: "bytes \<Rightarrow> bytes \<Rightarrow> bytes" where
  "changed_fields names out =
     (let field = takeWhile (\<lambda>c. c \<noteq> 44) names;
          out = out @ (if 1 < length out then [44] else []) @ json_string field
      in if length field = length names then out else changed_fields (drop (length field + 1) names) out)"
  by pat_completeness auto
termination
  by (relation "measure (\<lambda>(names, out). length names)")
    (auto intro!: diff_less)

declare changed_fields.simps [simp del]

definition json_changed_fields :: "file_metadata \<Rightarrow> file_metadata \<Rightarrow> bytes" where
  "json_changed_fields old new =
     (let names = metadata_diff_fields old new
      in (if names = [] then [91] else changed_fields names [91]) @ [93])"

fun kind_name :: "event_kind \<Rightarrow> bytes" where
  "kind_name Added = str ''ADDED''"
| "kind_name Removed = str ''REMOVED''"
| "kind_name Modified = str ''MODIFIED''"
| "kind_name RunMarker = str ''RUN''"
| "kind_name (UnnamedEventKind b) = str ''UNKNOWN''"

section \<open>Events\<close>

definition print_run_marker :: "bool \<Rightarrow> (u64 \<Rightarrow> bytes option) \<Rightarrow> history_event \<Rightarrow> bytes" where
  "print_run_marker json_output local_time e =
     (let baseline = (epath e = str ''baseline'')
      in if json_output then
           str ''{\"kind\":\"RUN\",\"time\":\"'' @ format_time (event_time e) @ str ''\",\"baseline\":'' @
           (if baseline then str ''true'' else str ''false'') @ str ''}'' @ [10]
         else
           let sec = sec (event_time e);
               when = (if sec = 0 then str ''unknown time''
                       else case local_time sec of None \<Rightarrow> str ''unknown time'' | Some t \<Rightarrow> t)
           in str ''=== run '' @ when @ (if baseline then str '' (baseline: full scan, no per-file events)'' else []) @
              str '' ==='' @ [10])"

definition print_event :: "bool \<Rightarrow> (u64 \<Rightarrow> bytes option) \<Rightarrow> history_event \<Rightarrow> bytes" where
  "print_event json_output local_time e =
     (if ekind e = RunMarker then print_run_marker json_output local_time e
      else if json_output then
        str ''{\"kind\":\"'' @ kind_name (ekind e) @ str ''\",\"path\":'' @ json_string (epath e) @
        str '',\"time\":\"'' @ format_time (event_time e) @ str ''\",\"old\":'' @ json_metadata (old_metadata e) @
        str '',\"new\":'' @ json_metadata (new_metadata e) @ str '',\"changed\":'' @
        (if ekind e = Modified then json_changed_fields (old_metadata e) (new_metadata e) else str ''[]'') @ str ''}'' @ [10]
      else
        [91] @ kind_name (ekind e) @ str ''] '' @ c_str (epath e) @ [10] @
        (case ekind e of
           Added \<Rightarrow> str ''  new: '' @ format_metadata (new_metadata e) @ [10]
         | Removed \<Rightarrow> str ''  old: '' @ format_metadata (old_metadata e) @ [10]
         | _ \<Rightarrow> str ''  old: '' @ format_metadata (old_metadata e) @ [10] @
               str ''  new: '' @ format_metadata (new_metadata e) @ [10] @
               str ''  changed: '' @ metadata_diff_fields (old_metadata e) (new_metadata e) @ [10]))"

definition print_all_events ::
    "bool \<Rightarrow> (u64 \<Rightarrow> bytes option) \<Rightarrow> event_filter \<Rightarrow> history_event list \<Rightarrow> bytes \<times> nat" where
  "print_all_events json_output local_time f events =
     (let (shown, printed) = print_events f events in (concat (map (print_event json_output local_time) shown), printed))"

section \<open>Nothing is cut\<close>

lemma length_to_decimal: "n < 10 ^ Suc k \<Longrightarrow> length (to_decimal n) \<le> Suc k"
proof (induction k arbitrary: n)
  case (Suc k)
  have "n div 10 < 10 ^ Suc k" using Suc.prems by (simp add: div_less_iff_less_mult mult.commute)
  from Suc.IH [OF this] show ?case by (subst to_decimal.simps) simp
qed (simp add: to_decimal.simps)

lemma length_to_octal: "n < 8 ^ Suc k \<Longrightarrow> length (to_octal n) \<le> Suc k"
proof (induction k arbitrary: n)
  case (Suc k)
  have "n div 8 < 8 ^ Suc k" using Suc.prems by (simp add: div_less_iff_less_mult mult.commute)
  from Suc.IH [OF this] show ?case by (subst to_octal.simps) simp
qed (simp add: to_octal.simps)

lemma length_u32_decimal: "length (to_decimal (unat (w :: u32))) \<le> 10"
  using length_to_decimal [of "unat w" 9] unat_u32_less [of w] by simp

lemma length_u64_decimal: "length (to_decimal (unat (w :: u64))) \<le> 20"
  using length_to_decimal [of "unat w" 19] unat_u64_less [of w] by simp

lemma length_u32_octal: "length (to_octal (unat (w :: u32))) \<le> 11"
  using length_to_octal [of "unat w" 10] unat_u32_less [of w] by simp

lemma sint_bounds: "\<bar>sint (w :: 'a::len word)\<bar> \<le> 2 ^ (LENGTH('a) - 1)"
  using sint_greater_eq [of w] sint_less [of w] by (simp add: abs_le_iff)

lemma length_format_time: "length (signed_decimal (sint (sec t)) @ [46] @ padded_decimal 9 (sint (nsec t))) \<le> 32"
proof -
  have "nat \<bar>sint (sec t)\<bar> < 10 ^ Suc 18" "nat \<bar>sint (nsec t)\<bar> < 10 ^ Suc 9"
    using sint_bounds [of "sec t"] sint_bounds [of "nsec t"] by simp_all
  note d = this [THEN length_to_decimal]
  have "length (signed_decimal (sint (sec t))) \<le> 20" using d(1) by (cases "sint (sec t) < 0") (simp_all add: signed_decimal_def)
  moreover have "length (padded_decimal 9 (sint (nsec t))) \<le> 11" using d(2) by (cases "sint (nsec t) < 0") (simp_all add: padded_decimal_def Let_def)
  ultimately show ?thesis by simp
qed

lemma format_time_full: "format_time t = signed_decimal (sint (sec t)) @ [46] @ padded_decimal 9 (sint (nsec t))"
  and length_time: "length (format_time t) \<le> 32"
  using length_format_time [of t] by (simp_all add: format_time_def snprintf_def)

lemma format_metadata_full:
  "length (str ''mode='' @ to_octal (unat (mode m)) @ str '' uid='' @ to_decimal (unat (uid m)) @
     str '' gid='' @ to_decimal (unat (gid m)) @ str '' size='' @ to_decimal (unat (fsize m)) @
     str '' mtime='' @ format_time (mtime m) @ str '' ctime='' @ format_time (ctime m) @
     str '' atime='' @ format_time (atime m)) < 256"
  using length_u32_octal [of "mode m"] length_u32_decimal [of "uid m"] length_u32_decimal [of "gid m"]
    length_u64_decimal [of "fsize m"] length_time [of "mtime m"] length_time [of "ctime m"] length_time [of "atime m"]
  by (simp add: str_def)

lemma json_metadata_full:
  "length (str ''{\"mode\":\"'' @ to_octal (unat (mode m)) @ str ''\",\"uid\":'' @ to_decimal (unat (uid m)) @
     str '',\"gid\":'' @ to_decimal (unat (gid m)) @ str '',\"size\":'' @ to_decimal (unat (fsize m)) @ str '','') < 128"
  using length_u32_octal [of "mode m"] length_u32_decimal [of "uid m"] length_u32_decimal [of "gid m"]
    length_u64_decimal [of "fsize m"]
  by (simp add: str_def)

section \<open>JSON\<close>

text \<open>
  A string of RFC 8259: after the opening quote, characters other than controls, escapes, and the
  closing quote. Of the escapes with four hexadecimal digits those below 128 are one byte.
\<close>

definition hex_value :: "byte \<Rightarrow> nat option" where
  "hex_value c = map_option fst (find (\<lambda>(n, d). d = c) (enumerate 0 (str ''0123456789abcdef'')))"

fun read_json_chars :: "bytes \<Rightarrow> (bytes \<times> bytes) option" where
  "read_json_chars [] = None"
| "read_json_chars (c # p) =
     (let found = \<lambda>v r. map_option (\<lambda>(s, rest). (v # s, rest)) r
      in if c = 34 then Some ([], p)
         else if c = 92 then
           case p of
             [] \<Rightarrow> None
           | d # q \<Rightarrow>
               if d = 34 \<or> d = 92 \<or> d = 47 then found d (read_json_chars q)
               else if d = 98 then found 8 (read_json_chars q)
               else if d = 102 then found 12 (read_json_chars q)
               else if d = 110 then found 10 (read_json_chars q)
               else if d = 114 then found 13 (read_json_chars q)
               else if d = 116 then found 9 (read_json_chars q)
               else if d = 117 then
                 case q of
                   z # z' # x # y # r \<Rightarrow>
                     (case (hex_value x, hex_value y) of
                        (Some a, Some b) \<Rightarrow>
                          if z = 48 \<and> z' = 48 \<and> a < 8 then found (of_nat (16 * a + b)) (read_json_chars r) else None
                      | _ \<Rightarrow> None)
                 | _ \<Rightarrow> None
               else None
         else if c < 0x20 then None
         else found c (read_json_chars p))"

definition read_json_string :: "bytes \<Rightarrow> (bytes \<times> bytes) option" where
  "read_json_string p = (case p of c # p \<Rightarrow> if c = 34 then read_json_chars p else None | [] \<Rightarrow> None)"

lemma hex_value_digit: "n < 16 \<Longrightarrow> hex_value (hex_digit n) = Some n"
proof -
  assume "n < 16"
  then have "n \<in> set [0..<16]" by simp
  moreover have "list_all (\<lambda>n. hex_value (hex_digit n) = Some n) [0..<16]"
    by (simp add: upt_rec hex_value_def hex_digit_def str_def enumerate_eq_zip)
  ultimately show ?thesis by (simp only: list_all_iff)
qed

lemma hex_digit_printable: "n < 16 \<Longrightarrow> 0x20 \<le> hex_digit n"
proof -
  assume "n < 16"
  then have "n \<in> set [0..<16]" by simp
  moreover have "list_all (\<lambda>n. 0x20 \<le> hex_digit n) [0..<16]" by (simp add: upt_rec hex_digit_def str_def)
  ultimately show ?thesis by (simp only: list_all_iff)
qed

lemma read_json_char: "read_json_chars (json_char c @ p) = map_option (\<lambda>(s, rest). (c # s, rest)) (read_json_chars p)"
proof (cases "c < 0x20 \<and> c \<noteq> 10 \<and> c \<noteq> 13 \<and> c \<noteq> 9")
  case True
  then have "unat c < 32" by (simp add: word_less_nat_alt)
  then have d: "unat c div 16 < 8" "unat c mod 16 < 16" by auto
  have "json_char c = [92, 117, 48, 48, hex_digit (unat c div 16), hex_digit (unat c mod 16)]"
    using True by (auto simp add: json_char_def snprintf_def)
  moreover have "hex_value (hex_digit (unat c div 16)) = Some (unat c div 16)"
    "hex_value (hex_digit (unat c mod 16)) = Some (unat c mod 16)"
    using d by (simp_all add: hex_value_digit)
  ultimately show ?thesis using d by (simp add: Let_def)
next
  case False
  then show ?thesis by (auto simp add: json_char_def Let_def)
qed

lemma read_json_string_string: "read_json_string (json_string s @ rest) = Some (s, rest)"
proof -
  have "read_json_chars (concat (map json_char s) @ [34] @ rest) = Some (s, rest)"
    by (induction s) (simp_all add: read_json_char del: read_json_chars.simps, simp)
  then show ?thesis by (simp add: read_json_string_def json_string_def)
qed

definition printable :: "bytes \<Rightarrow> bool" where
  "printable s \<longleftrightarrow> list_all (\<lambda>c. 0x20 \<le> c) s"

lemma printable_append [simp]: "printable (a @ b) \<longleftrightarrow> printable a \<and> printable b"
  and printable_Cons [simp]: "printable (c # s) \<longleftrightarrow> 0x20 \<le> c \<and> printable s"
  and printable_Nil [simp]: "printable []"
  by (simp_all add: printable_def)

lemma printable_take: "printable s \<Longrightarrow> printable (take n s)"
  by (auto simp add: printable_def list_all_iff dest: in_set_takeD)

lemma printable_concat: "(\<And>c. c \<in> set s \<Longrightarrow> printable (f c)) \<Longrightarrow> printable (concat (map f s))"
  by (induction s) simp_all

lemma printable_json_string [simp]: "printable (json_string s)"
proof -
  have "printable (json_char c)" for c
  proof -
    have "unat c div 16 < 16" "unat c mod 16 < 16" using unat_u8_less [of c] by auto
    then show ?thesis using hex_digit_printable by (simp add: json_char_def snprintf_def not_less)
  qed
  then show ?thesis by (simp add: json_string_def printable_concat)
qed

lemma printable_digit: "k < 10 \<Longrightarrow> (0x20 :: byte) \<le> 48 + of_nat k"
proof -
  assume "k < 10"
  then have "k \<in> {0, 1, 2, 3, 4, 5, 6, 7, 8, 9}" by auto
  then show ?thesis by auto
qed

lemma printable_decimal [simp]: "printable (to_decimal n)"
proof (induction n rule: to_decimal.induct)
  case (1 n)
  then show ?case using printable_digit [of n] printable_digit [of "n mod 10"] by (subst to_decimal.simps) simp
qed

lemma printable_octal [simp]: "printable (to_octal n)"
proof (induction n rule: to_octal.induct)
  case (1 n)
  then show ?case using printable_digit [of n] printable_digit [of "n mod 8"] by (subst to_octal.simps) simp
qed

lemma printable_time [simp]: "printable (format_time t)"
proof -
  have "printable (replicate n 48)" for n by (induction n) simp_all
  then show ?thesis by (simp add: format_time_full signed_decimal_def padded_decimal_def Let_def)
qed

lemma printable_names [simp]: "printable (kind_name k)" "printable (hash_kind_name h)"
  by (cases k; simp add: str_def) (cases h; simp add: str_def)

lemma printable_hash_hex [simp]: "printable (hash_hex h)"
  by (auto simp add: hash_hex_def hex_digit_printable intro: printable_concat)

lemma printable_json_metadata [simp]: "printable (json_metadata m)"
  by (simp add: json_metadata_def snprintf_def printable_take str_def)

lemma printable_changed_fields: "printable out \<Longrightarrow> printable (changed_fields names out)"
proof (induction names out rule: changed_fields.induct)
  case (1 names out)
  then show ?case by (subst changed_fields.simps) (simp add: Let_def)
qed

lemma printable_json_changed_fields [simp]: "printable (json_changed_fields old new)"
  by (simp add: json_changed_fields_def printable_changed_fields Let_def)

section \<open>Properties\<close>

text \<open>C24: With \<open>--json\<close> every event is one line without control characters, whatever bytes its path has:
  the line starts with the kind and the path as a JSON string, which reads back as exactly the path.
  None of the fixed-size buffers cuts anything: the times and the numbers are complete.\<close>
theorem json_event_line:
  "\<exists>line. print_event True local_time e = line @ [10] \<and> printable line \<and>
    (ekind e \<noteq> RunMarker \<longrightarrow>
      (\<exists>path rest. line = str ''{\"kind\":\"'' @ kind_name (ekind e) @ str ''\",\"path\":'' @ path \<and>
        read_json_string path = Some (epath e, rest))) \<and>
    format_time (event_time e) = signed_decimal (sint (sec (event_time e))) @ str ''.'' @
      padded_decimal 9 (sint (nsec (event_time e))) \<and>
    (enabled (new_metadata e) \<longrightarrow> (\<exists>rest. json_metadata (new_metadata e) =
      str ''{\"mode\":\"'' @ to_octal (unat (mode (new_metadata e))) @ str ''\",\"uid\":'' @
      to_decimal (unat (uid (new_metadata e))) @ str '',\"gid\":'' @ to_decimal (unat (gid (new_metadata e))) @
      str '',\"size\":'' @ to_decimal (unat (fsize (new_metadata e))) @ str '',\"mtime\":\"'' @
      format_time (mtime (new_metadata e)) @ rest))"
proof -
  have t: "format_time (event_time e) = signed_decimal (sint (sec (event_time e))) @ str ''.'' @
      padded_decimal 9 (sint (nsec (event_time e)))"
    by (simp add: format_time_full str_def)
  let ?m = "new_metadata e"
  have m: "\<exists>rest. json_metadata ?m =
      str ''{\"mode\":\"'' @ to_octal (unat (mode ?m)) @ str ''\",\"uid\":'' @
      to_decimal (unat (uid ?m)) @ str '',\"gid\":'' @ to_decimal (unat (gid ?m)) @
      str '',\"size\":'' @ to_decimal (unat (fsize ?m)) @ str '',\"mtime\":\"'' @ format_time (mtime ?m) @ rest"
    if "enabled ?m"
    using that json_metadata_full [of ?m] by (simp add: json_metadata_def snprintf_def str_def)
  show ?thesis
  proof (cases "ekind e = RunMarker")
    case True
    let ?line = "str ''{\"kind\":\"RUN\",\"time\":\"'' @ format_time (event_time e) @ str ''\",\"baseline\":'' @
      (if epath e = str ''baseline'' then str ''true'' else str ''false'') @ str ''}''"
    have "print_event True local_time e = ?line @ [10]"
      using True by (simp add: print_event_def print_run_marker_def Let_def)
    moreover have "printable ?line" by (simp add: str_def)
    ultimately show ?thesis using True t m by blast
  next
    case False
    let ?rest = "str '',\"time\":\"'' @ format_time (event_time e) @ str ''\",\"old\":'' @
      json_metadata (old_metadata e) @ str '',\"new\":'' @ json_metadata (new_metadata e) @ str '',\"changed\":'' @
      (if ekind e = Modified then json_changed_fields (old_metadata e) (new_metadata e) else str ''[]'') @ str ''}''"
    let ?line = "str ''{\"kind\":\"'' @ kind_name (ekind e) @ str ''\",\"path\":'' @ json_string (epath e) @ ?rest"
    have "print_event True local_time e = ?line @ [10]" using False by (simp add: print_event_def)
    moreover have "printable ?line" by (simp add: str_def)
    moreover have "read_json_string (json_string (epath e) @ ?rest) = Some (epath e, ?rest)"
      by (rule read_json_string_string)
    ultimately show ?thesis using t m by blast
  qed
qed

lemma json_event_line_witness:
  "\<exists>path rest. print_event True (\<lambda>_. None) (empty_event\<lparr>epath := [47, 10, 34]\<rparr>) =
      str ''{\"kind\":\"'' @ str ''ADDED'' @ str ''\",\"path\":'' @ path @ [10] \<and> read_json_string path = Some ([47, 10, 34], rest)"
  using json_event_line [of "\<lambda>_. None" "empty_event\<lparr>epath := [47, 10, 34]\<rparr>"] by (auto simp add: empty_event_def)

end
