(* ===== verification/Live_Diff.thy ===== *)
theory Live_Diff
  imports Snapshot_Diff Updatedb_Scan
begin

text \<open>
  The comparison of a snapshot with the live file system (\<open>diff_with_live\<close> of \<open>src/showdiff.cpp\<close>). The
  file system is the tree of \<open>Updatedb_Scan\<close>; an entry carries what \<open>fstatat\<close> and \<open>compute_file_hash_at\<close>
  give for it, and what opening it as a directory gives. The stack of directories has its top first.
\<close>

definition live_metadata_from_stat :: "file_stat \<Rightarrow> file_metadata" where
  "live_metadata_from_stat sb =
     no_metadata\<lparr>enabled := True, mode := st_mode sb, uid := st_uid sb, gid := st_gid sb, fsize := st_size sb,
       mtime := st_mtim sb, ctime := st_ctim sb, atime := st_atim sb\<rparr>"

function strip_slashes :: "bytes \<Rightarrow> bytes" where
  "strip_slashes root = (if 1 < length root \<and> last root = slash then strip_slashes (butlast root) else root)"
  by pat_completeness auto
termination by (relation "measure length") auto

declare strip_slashes.simps [simp del]

definition normalize_root :: "bytes \<Rightarrow> bytes" where
  "normalize_root root = (let root = strip_slashes root in if root = str ''/'' then [] else root)"

definition join_path :: "bytes \<Rightarrow> bytes \<Rightarrow> bytes" where
  "join_path dir name = (if dir = str ''/'' then dir @ name else dir @ [slash] @ name)"

definition mounted_fs_type :: "(bytes \<times> bytes) list option \<Rightarrow> bytes \<Rightarrow> bytes" where
  "mounted_fs_type mounts real_path =
     (case mounts of
        None \<Rightarrow> []
      | Some ms \<Rightarrow> fold (\<lambda>me t. if real_path = fst me then map to_upper (snd me) else t) ms [])"

record walk_dir =
  real :: bytes
  db :: bytes
  dev :: u64
  dir_hash_allowed :: bool
  check_fs :: bool
  node :: fs_dir

record live_env =
  snapshot_of :: snapshot
  compare_atime :: bool
  hash_max_size :: u64
  live_mounts :: "(bytes \<times> bytes) list option"

record walk_state =
  events :: "history_event list"
  seen :: "bool list"
  stack :: "walk_dir list"

fun opendir :: "fs_dir \<Rightarrow> fs_entry list option" where
  "opendir (Fs_dir st allows opens es) = (if opens then Some es else None)"
| "opendir (Open_fails b) = None"

definition lower_bound :: "bytes list \<Rightarrow> bytes \<Rightarrow> nat" where
  "lower_bound ps p = length (takeWhile (\<lambda>q. q < p) ps)"

definition known_index :: "bytes list \<Rightarrow> bytes \<Rightarrow> nat option" where
  "known_index ps p = (let i = lower_bound ps p in if i < length ps \<and> ps ! i = p then Some i else None)"

definition want_hash :: "live_env \<Rightarrow> walk_dir \<Rightarrow> file_stat \<Rightarrow> nat option \<Rightarrow> bool" where
  "want_hash env d sb known \<longleftrightarrow>
     hash_kind_of (snapshot_of env) \<noteq> HashNone \<and> dir_hash_allowed d \<and> S_ISREG (st_mode sb) \<and>
     (case known of
        Some i \<Rightarrow>
          let stored = hash (metadata (snapshot_of env) ! i) in kind stored \<noteq> HashNone \<and> hlength stored \<noteq> 0
      | None \<Rightarrow> hash_max_size env = 0 \<or> st_size sb \<le> hash_max_size env)"

definition live_metadata :: "live_env \<Rightarrow> walk_dir \<Rightarrow> fs_entry \<Rightarrow> file_stat \<Rightarrow> nat option \<Rightarrow> file_metadata" where
  "live_metadata env d e sb known =
     (let live = live_metadata_from_stat sb
      in if want_hash env d sb known
         then live\<lparr>hash := (case fs_digest e of Some h \<Rightarrow> h | None \<Rightarrow> no_hash)\<rparr> else live)"

definition goes_down :: "live_env \<Rightarrow> walk_dir \<Rightarrow> fs_entry \<Rightarrow> file_stat \<Rightarrow> bool" where
  "goes_down env d e sb \<longleftrightarrow>
     (let pc = prune (snapshot_of env); db_path = join_path (db d) (fs_name e)
      in S_ISDIR (st_mode sb) \<and> fs_name e \<notin> set (prunenames pc) \<and> db_path \<notin> set (prunepaths pc) \<and>
         \<not> (st_dev sb \<noteq> dev d \<and> prunefs pc \<noteq> [] \<and>
            (let t = mounted_fs_type (live_mounts env) (join_path (real d) (fs_name e))
             in t \<noteq> [] \<and> t \<in> set (prunefs pc))))"

definition visit_entry :: "live_env \<Rightarrow> walk_dir \<Rightarrow> fs_entry \<Rightarrow> walk_state \<Rightarrow> walk_state" where
  "visit_entry env d e w =
     (if fs_name e = str ''.'' \<or> fs_name e = str ''..'' \<or> fs_name e = [] then w
      else
        case fs_stat e of
          None \<Rightarrow> w
        | Some sb \<Rightarrow>
            let db_path = join_path (db d) (fs_name e);
                real_path = join_path (real d) (fs_name e);
                snap = snapshot_of env;
                known = known_index (paths snap) db_path;
                live = live_metadata env d e sb known;
                w = (case known of
                       Some i \<Rightarrow>
                         w\<lparr>seen := (seen w)[i := True],
                           events := events w @
                             (if \<not> metadata_equals (metadata snap ! i) live (compare_atime env)
                              then [make_event Modified db_path (metadata snap ! i) live] else [])\<rparr>
                     | None \<Rightarrow> w\<lparr>events := events w @ [make_event Added db_path no_metadata live]\<rparr>)
            in if goes_down env d e sb
               then w\<lparr>stack := \<lparr>real = real_path, db = db_path, dev = st_dev sb, dir_hash_allowed = dir_hash_allowed d,
                               check_fs = st_dev sb \<noteq> dev d, node = fs_open e\<rparr> # stack w\<rparr>
               else w)"

definition enter_dir :: "live_env \<Rightarrow> walk_dir \<Rightarrow> walk_dir" where
  "enter_dir env d =
     (if check_fs d \<and> hash_kind_of (snapshot_of env) \<noteq> HashNone \<and> dir_hash_allowed d
      then d\<lparr>dir_hash_allowed := d_allows_hashing (node d)\<rparr> else d)"

definition stack_size :: "walk_state \<Rightarrow> nat" where
  "stack_size w = sum_list (map (\<lambda>d. Suc (size (node d))) (stack w))"

lemma visit_entry_size: "stack_size (visit_entry env d e w) \<le> Suc (size (fs_open e)) + stack_size w"
  by (auto simp add: visit_entry_def stack_size_def Let_def split: option.split)

lemma visit_entries_size: "stack_size (fold (visit_entry env d) es w) \<le> sum_list (map (\<lambda>e. Suc (size (fs_open e))) es) + stack_size w"
proof (induction es arbitrary: w)
  case (Cons e es)
  from Cons.IH [of "visit_entry env d e w"] visit_entry_size [of env d e w] show ?case by simp
qed simp

lemma opendir_size: "opendir n = Some es \<Longrightarrow> sum_list (map (\<lambda>e. Suc (size (fs_open e))) es) < size n"
proof -
  have "sum_list (map (\<lambda>e. Suc (size (fs_open e))) es) \<le> size_list size es" for es
  proof (induction es)
    case (Cons e es)
    then show ?case by (cases e) simp
  qed simp
  then show "opendir n = Some es \<Longrightarrow> ?thesis" by (cases n) (auto simp add: less_Suc_eq_le split: if_splits)
qed

function walk :: "live_env \<Rightarrow> walk_state \<Rightarrow> walk_state" where
  "walk env w =
     (case stack w of
        [] \<Rightarrow> w
      | d # rest \<Rightarrow>
          (case opendir (node d) of
             None \<Rightarrow> walk env (w\<lparr>stack := rest\<rparr>)
           | Some es \<Rightarrow> walk env (fold (visit_entry env (enter_dir env d)) es (w\<lparr>stack := rest\<rparr>))))"
  by pat_completeness auto
termination
proof (relation "measure (\<lambda>(env, w). stack_size w)", simp, goal_cases)
  case (1 env w d rest)
  then show ?case by (cases "node d") (auto simp add: stack_size_def)
next
  case (2 env w d rest es)
  then show ?case
    using visit_entries_size [of env "enter_dir env d" es "w\<lparr>stack := rest\<rparr>"] opendir_size [of "node d" es]
    by (simp add: stack_size_def)
qed

declare walk.simps [simp del]

text \<open>The root directory is given with what \<open>lstat\<close> says; None: it is missing or not a directory.\<close>

definition diff_with_live ::
    "live_env \<Rightarrow> bytes \<Rightarrow> (bytes \<Rightarrow> file_stat option) \<Rightarrow> (bytes \<Rightarrow> fs_dir) \<Rightarrow> history_event list option" where
  "diff_with_live env root lstat open_root =
     (let snap = snapshot_of env; real_root = normalize_root root @ scan_root snap
      in case lstat real_root of
           None \<Rightarrow> None
         | Some root_sb \<Rightarrow>
             if \<not> S_ISDIR (st_mode root_sb) then None
             else
               let w = walk env \<lparr>events = [], seen = replicate (length (paths snap)) False,
                   stack = [\<lparr>real = real_root, db = scan_root snap, dev = st_dev root_sb, dir_hash_allowed = True,
                             check_fs = True, node = open_root real_root\<rparr>]\<rparr>;
                   removed = map (\<lambda>i. make_event Removed (paths snap ! i) (metadata snap ! i) no_metadata)
                     (filter (\<lambda>i. \<not> seen w ! i) [0..<length (paths snap)])
               in Some (sort_key epath (events w @ removed)))"

section \<open>What is visited\<close>

text \<open>The entry itself, the directory below it if the walk goes there, and all entries below a directory.\<close>

definition listed :: "fs_entry \<Rightarrow> bool" where
  "listed e \<longleftrightarrow> fs_name e \<noteq> str ''.'' \<and> fs_name e \<noteq> str ''..'' \<and> fs_name e \<noteq> [] \<and> fs_stat e \<noteq> None"

definition live_here :: "live_env \<Rightarrow> walk_dir \<Rightarrow> fs_entry \<Rightarrow> (bytes \<times> file_metadata) list" where
  "live_here env d e =
     (if listed e
      then let p = join_path (db d) (fs_name e)
           in [(p, live_metadata env d e (the (fs_stat e)) (known_index (paths (snapshot_of env)) p))]
      else [])"

definition dir_below :: "live_env \<Rightarrow> walk_dir \<Rightarrow> fs_entry \<Rightarrow> walk_dir list" where
  "dir_below env d e =
     (if listed e \<and> goes_down env d e (the (fs_stat e))
      then [\<lparr>real = join_path (real d) (fs_name e), db = join_path (db d) (fs_name e), dev = st_dev (the (fs_stat e)),
             dir_hash_allowed = dir_hash_allowed d, check_fs = st_dev (the (fs_stat e)) \<noteq> dev d, node = fs_open e\<rparr>]
      else [])"

definition dir_entries :: "walk_dir \<Rightarrow> fs_entry list" where
  "dir_entries d = (case opendir (node d) of None \<Rightarrow> [] | Some es \<Rightarrow> es)"

lemma dir_below_size: "e \<in> set (dir_entries d) \<Longrightarrow> d' \<in> set (dir_below env (enter_dir env d) e) \<Longrightarrow> size (node d') < size (node d)"
proof -
  assume e: "e \<in> set (dir_entries d)" and "d' \<in> set (dir_below env (enter_dir env d) e)"
  then have n: "node d' = fs_open e" by (auto simp add: dir_below_def split: if_splits)
  from e have o: "opendir (node d) = Some (dir_entries d)" by (cases "opendir (node d)") (auto simp add: dir_entries_def)
  have "Suc (size (fs_open e)) \<le> sum_list (map (\<lambda>e. Suc (size (fs_open e))) (dir_entries d))"
    using e by (simp add: member_le_sum_list)
  with opendir_size [OF o] n show ?thesis by simp
qed

function live_entries :: "live_env \<Rightarrow> walk_dir \<Rightarrow> (bytes \<times> file_metadata) list" where
  "live_entries env d =
     concat (map (\<lambda>e. live_here env (enter_dir env d) e @
       concat (map (live_entries env) (dir_below env (enter_dir env d) e))) (dir_entries d))"
  by pat_completeness auto
termination
  by (relation "measure (\<lambda>(env, d). size (node d))") (simp_all add: dir_below_size)

declare live_entries.simps [simp del]

text \<open>The event of an entry that was visited.\<close>

definition visit_event :: "live_env \<Rightarrow> bytes \<times> file_metadata \<Rightarrow> history_event list" where
  "visit_event env pm =
     (case known_index (paths (snapshot_of env)) (fst pm) of
        Some i \<Rightarrow>
          if \<not> metadata_equals (metadata (snapshot_of env) ! i) (snd pm) (compare_atime env)
          then [make_event Modified (fst pm) (metadata (snapshot_of env) ! i) (snd pm)] else []
      | None \<Rightarrow> [make_event Added (fst pm) no_metadata (snd pm)])"

definition mark :: "live_env \<Rightarrow> bytes \<times> file_metadata \<Rightarrow> bool list \<Rightarrow> bool list" where
  "mark env pm flags = (case known_index (paths (snapshot_of env)) (fst pm) of Some i \<Rightarrow> flags[i := True] | None \<Rightarrow> flags)"

definition visited :: "live_env \<Rightarrow> (bytes \<times> file_metadata) list \<Rightarrow> walk_state \<Rightarrow> walk_state" where
  "visited env vs w = w\<lparr>events := events w @ concat (map (visit_event env) vs), seen := fold (mark env) vs (seen w)\<rparr>"

lemma visited_Nil [simp]: "visited env [] w = w"
  by (simp add: visited_def)

lemma visited_append: "visited env (vs @ us) w = visited env us (visited env vs w)"
  by (simp add: visited_def)

lemma visit_entry_visited:
  "visit_entry env d e w = (visited env (live_here env d e) w)\<lparr>stack := dir_below env d e @ stack w\<rparr>"
  by (auto simp add: visit_entry_def visited_def live_here_def dir_below_def listed_def visit_event_def mark_def Let_def
      split: option.split)

lemma visit_entries_visited:
  "fold (visit_entry env d) es w =
     (visited env (concat (map (live_here env d) es)) w)\<lparr>stack := concat (map (dir_below env d) (rev es)) @ stack w\<rparr>"
proof (induction es arbitrary: w)
  case (Cons e es)
  then show ?case by (simp add: visit_entry_visited visited_append) (simp add: visited_def)
qed (simp add: visited_def)

lemma walk_visited:
  "\<exists>vs. walk env w = (visited env vs w)\<lparr>stack := []\<rparr> \<and> mset vs = mset (concat (map (live_entries env) (stack w)))"
proof (induction env w rule: walk.induct)
  case (1 env w)
  show ?case
  proof (cases "stack w")
    case Nil
    then show ?thesis by (subst walk.simps) (auto simp add: visited_def intro!: exI [of _ "[]"])
  next
    case (Cons d rest)
    let ?d = "enter_dir env d" and ?w = "w\<lparr>stack := rest\<rparr>"
    show ?thesis
    proof (cases "opendir (node d)")
      case None
      from 1(1) [OF Cons None] obtain vs where
        vs: "walk env ?w = (visited env vs ?w)\<lparr>stack := []\<rparr>" "mset vs = mset (concat (map (live_entries env) rest))" by auto
      have "live_entries env d = []" using None by (subst live_entries.simps) (simp add: dir_entries_def)
      with vs show ?thesis
        using Cons None by (subst walk.simps) (auto simp add: visited_def intro!: exI [of _ vs])
    next
      case (Some es)
      let ?us = "concat (map (live_here env ?d) es)"
      let ?w2 = "fold (visit_entry env ?d) es ?w"
      have w2: "?w2 = (visited env ?us ?w)\<lparr>stack := concat (map (dir_below env ?d) (rev es)) @ rest\<rparr>"
        by (simp add: visit_entries_visited)
      from 1(2) [OF Cons Some] obtain vs where
        vs: "walk env ?w2 = (visited env vs ?w2)\<lparr>stack := []\<rparr>" "mset vs = mset (concat (map (live_entries env) (stack ?w2)))"
        by blast
      have e: "dir_entries d = es" using Some by (simp add: dir_entries_def)
      have "mset (live_entries env d) = mset ?us + mset (concat (map (live_entries env) (concat (map (dir_below env ?d) (rev es)))))"
        by (subst live_entries.simps, unfold e) (induction es; simp)
      then have "mset (?us @ vs) = mset (concat (map (live_entries env) (stack w)))"
        using vs(2) by (simp add: w2 Cons)
      moreover have "walk env w = (visited env (?us @ vs) w)\<lparr>stack := []\<rparr>"
        using Cons Some vs(1) by (subst walk.simps) (simp add: w2 visited_def)
      ultimately show ?thesis by blast
    qed
  qed
qed

section \<open>The events\<close>

lemma sort_key_unique:
  assumes "mset xs = mset ys" and "sorted (map f ys)" and "distinct (map f ys)"
  shows "sort_key f xs = ys"
proof -
  have m: "mset (sort_key f xs) = mset ys" using assms(1) by simp
  then have "mset (map f (sort_key f xs)) = mset (map f ys)" by simp
  then have "map f (sort_key f xs) = map f ys"
    using assms(2,3) by (metis mset_eq_imp_distinct_iff mset_eq_setD sorted_distinct_set_unique sorted_sort_key)
  moreover have "inj_on f (set (sort_key f xs) \<union> set ys)" using assms(3) mset_eq_setD [OF m] by (simp add: distinct_map)
  ultimately show ?thesis using map_inj_on by blast
qed

lemma known_index_iff:
  assumes "sorted_wrt (<) ps"
  shows "known_index ps p = Some i \<longleftrightarrow> i < length ps \<and> ps ! i = p"
proof -
  have first: "length (takeWhile (\<lambda>q. q < p) ps) = i" if "i < length ps" "ps ! i = p" for i
  proof -
    have "takeWhile (\<lambda>q. q < p) ps = take i ps"
      by (rule takeWhile_eq_take_P_nth) (use that assms in \<open>auto simp add: sorted_wrt_iff_nth_less\<close>)
    then show ?thesis using that by simp
  qed
  show ?thesis
  proof
    assume "known_index ps p = Some i"
    then show "i < length ps \<and> ps ! i = p" by (auto simp add: known_index_def Let_def split: if_splits)
  next
    assume "i < length ps \<and> ps ! i = p"
    with first [of i] show "known_index ps p = Some i" by (simp add: known_index_def lower_bound_def)
  qed
qed

lemma map_of_known:
  assumes "sorted_wrt (<) ps" and "length ms = length ps"
  shows "map_of (zip ps ms) p = map_option ((!) ms) (known_index ps p)"
proof -
  have d: "distinct ps" using assms(1) strict_sorted_iff by blast
  show ?thesis
  proof (cases "known_index ps p")
    case (Some i)
    with known_index_iff [OF assms(1)] have "i < length ps" "ps ! i = p" by simp_all
    with Some assms(2) d map_of_zip_nth [of ps ms i] show ?thesis by simp
  next
    case None
    then have "p \<notin> set ps" using known_index_iff [OF assms(1), of p] by (auto simp add: in_set_conv_nth)
    then have "map_of (zip ps ms) p = None" using map_of_zip_is_None [OF assms(2) [symmetric]] by blast
    then show ?thesis by (simp only: None option.map)
  qed
qed

lemma marked:
  assumes "sorted_wrt (<) (paths (snapshot_of env))" and "length flags = length (paths (snapshot_of env))"
    and "i < length flags"
  shows "fold (mark env) vs flags ! i \<longleftrightarrow> flags ! i \<or> paths (snapshot_of env) ! i \<in> fst ` set vs"
  using assms(2,3)
proof (induction vs arbitrary: flags)
  case (Cons v vs)
  have "mark env v flags ! i \<longleftrightarrow> flags ! i \<or> paths (snapshot_of env) ! i = fst v"
  proof -
    have at: "known_index (paths (snapshot_of env)) (fst v) = Some i \<longleftrightarrow> paths (snapshot_of env) ! i = fst v"
      using Cons.prems known_index_iff [OF assms(1), of "fst v" i] by simp
    show ?thesis
    proof (cases "known_index (paths (snapshot_of env)) (fst v)")
      case None
      with at show ?thesis by (simp add: mark_def)
    next
      case (Some j)
      with at Cons.prems show ?thesis by (cases "j = i") (simp_all add: mark_def)
    qed
  qed
  moreover have "length (mark env v flags) = length flags" by (simp add: mark_def split: option.split)
  ultimately show ?case using Cons.IH [of "mark env v flags"] Cons.prems by auto
qed simp

lemma mset_concat_map: "mset xs = mset ys \<Longrightarrow> mset (concat (map f xs)) = mset (concat (map f ys))"
proof -
  have "mset (concat (map f xs)) = sum_mset (image_mset (\<lambda>x. mset (f x)) (mset xs))" for xs by (induction xs) simp_all
  then show "mset xs = mset ys \<Longrightarrow> ?thesis" by simp
qed

lemma map_of_mset:
  assumes "mset xs = mset ys" and "distinct (map fst xs)"
  shows "map_of xs = map_of ys"
proof (rule ext)
  fix k
  have "mset (map fst xs) = mset (map fst ys)" using assms(1) by simp
  then have "distinct (map fst ys)" using assms(2) mset_eq_imp_distinct_iff by blast
  with assms(2) have "map_of xs k = Some v \<longleftrightarrow> map_of ys k = Some v" for v
    using mset_eq_setD [OF assms(1)] by (simp add: map_of_eq_Some_iff)
  then show "map_of xs k = map_of ys k" by (metis not_Some_eq)
qed

lemma path_event_cases: "path_event c old new p = [] \<or> (\<exists>e. path_event c old new p = [e] \<and> epath e = p)"
  by (auto simp add: path_event_def make_event_def split: option.split)

lemma path_events_paths:
  "map epath (concat (map (path_event c old new) ps)) = filter (\<lambda>p. path_event c old new p \<noteq> []) ps"
proof (induction ps)
  case (Cons p ps)
  then show ?case using path_event_cases [of c old new p] by auto
qed simp

lemma sorted_events:
  assumes "mset evs = mset (concat (map (path_event c old new) (all_paths old new)))"
  shows "sort_key epath evs = concat (map (path_event c old new) (all_paths old new))"
proof (rule sort_key_unique [OF assms])
  have "sorted (all_paths old new)" "distinct (all_paths old new)" by (simp_all add: all_paths_def)
  then show "sorted (map epath (concat (map (path_event c old new) (all_paths old new))))"
    "distinct (map epath (concat (map (path_event c old new) (all_paths old new))))"
    unfolding path_events_paths by (simp_all add: sorted_wrt_filter)
qed

lemma removed_events:
  assumes "sorted_wrt (<) ps" and "length ms = length ps" and "\<And>p. p \<in> set ps \<Longrightarrow> gone p \<Longrightarrow> map_of new p = None"
  shows "map (\<lambda>i. make_event Removed (ps ! i) (ms ! i) no_metadata) (filter (\<lambda>i. gone (ps ! i)) [0..<length ps]) =
    concat (map (path_event c (zip ps ms) new) (filter gone ps))"
proof -
  have f: "filter gone ps = map ((!) ps) (filter (\<lambda>i. gone (ps ! i)) [0..<length ps])"
    using filter_map [of gone "(!) ps" "[0..<length ps]"] by (simp add: map_nth comp_def)
  have "path_event c (zip ps ms) new (ps ! i) = [make_event Removed (ps ! i) (ms ! i) no_metadata]"
    if "i < length ps" "gone (ps ! i)" for i
  proof -
    have "distinct ps" using assms(1) strict_sorted_iff by blast
    then have "map_of (zip ps ms) (ps ! i) = Some (ms ! i)" using that(1) assms(2) by (simp add: map_of_zip_nth)
    then show ?thesis using assms(3) that by (simp add: path_event_def)
  qed
  then have "concat (map (\<lambda>i. path_event c (zip ps ms) new (ps ! i)) (filter (\<lambda>i. gone (ps ! i)) [0..<length ps])) =
      concat (map (\<lambda>i. [make_event Removed (ps ! i) (ms ! i) no_metadata]) (filter (\<lambda>i. gone (ps ! i)) [0..<length ps]))"
    by (intro arg_cong [of _ _ concat] map_cong) auto
  then show ?thesis unfolding f map_map comp_def by (simp add: concat_map_singleton)
qed

lemma visit_events:
  assumes "sorted_wrt (<) (paths (snapshot_of env))" and "length (metadata (snapshot_of env)) = length (paths (snapshot_of env))"
    and "distinct (map fst vs)"
  shows "v \<in> set vs \<Longrightarrow> visit_event env v =
    path_event (compare_atime env) (zip (paths (snapshot_of env)) (metadata (snapshot_of env))) vs (fst v)"
proof -
  assume "v \<in> set vs"
  then have "map_of vs (fst v) = Some (snd v)" using assms(3) by (simp add: map_of_eq_Some_iff)
  with map_of_known [OF assms(1,2), of "fst v"] show ?thesis
    by (cases "known_index (paths (snapshot_of env)) (fst v)") (simp_all add: visit_event_def path_event_def)
qed

lemma live_events:
  assumes sorted: "sorted_wrt (<) (paths snap)" and len: "length (metadata snap) = length (paths snap)"
    and env: "snapshot_of env = snap" and vs: "distinct (map fst vs)"
  shows "sort_key epath (concat (map (visit_event env) vs) @
      map (\<lambda>i. make_event Removed (paths snap ! i) (metadata snap ! i) no_metadata)
        (filter (\<lambda>i. paths snap ! i \<notin> fst ` set vs) [0..<length (paths snap)])) =
    diff_from (compare_atime env) (zip (paths snap) (metadata snap)) (sort_key fst vs)"
proof -
  let ?c = "compare_atime env" and ?old = "zip (paths snap) (metadata snap)"
  let ?gone = "filter (\<lambda>p. p \<notin> fst ` set vs) (paths snap)"
  have d: "distinct (paths snap)" using sorted strict_sorted_iff by blast
  have "map (visit_event env) vs = map (\<lambda>v. path_event ?c ?old vs (fst v)) vs"
    using visit_events [of env vs] sorted len env vs by (intro map_cong) auto
  then have seen: "concat (map (visit_event env) vs) = concat (map (path_event ?c ?old vs) (map fst vs))"
    by (simp only: map_map comp_def)
  have gone: "map (\<lambda>i. make_event Removed (paths snap ! i) (metadata snap ! i) no_metadata)
        (filter (\<lambda>i. paths snap ! i \<notin> fst ` set vs) [0..<length (paths snap)]) = concat (map (path_event ?c ?old vs) ?gone)"
    by (rule removed_events [OF sorted len]) (simp add: map_of_eq_None_iff)
  have "set (map fst vs @ ?gone) = set (all_paths ?old vs)"
  proof -
    have "fst ` set ?old = set (paths snap)" using len by (metis list.set_map map_fst_zip)
    then show ?thesis by auto
  qed
  moreover have "distinct (map fst vs @ ?gone)" using vs d by auto
  moreover have "distinct (all_paths ?old vs)" by (simp add: all_paths_def)
  ultimately have "mset (map fst vs @ ?gone) = mset (all_paths ?old vs)" by (simp only: set_eq_iff_mset_eq_distinct)
  from mset_concat_map [OF this, of "path_event ?c ?old vs"]
  have m: "mset (concat (map (visit_event env) vs) @ concat (map (path_event ?c ?old vs) ?gone)) =
      mset (concat (map (path_event ?c ?old vs) (all_paths ?old vs)))"
    by (simp add: seen)
  have p: "mset (sort_key fst vs) = mset vs" by simp
  have "map_of (sort_key fst vs) = map_of vs"
    using map_of_mset [OF p [symmetric] vs] by simp
  then have same: "path_event ?c ?old (sort_key fst vs) = path_event ?c ?old vs"
    by (intro ext) (simp add: path_event_def)
  have "all_paths ?old (sort_key fst vs) = all_paths ?old vs" by (simp add: all_paths_def)
  moreover have "sorted_entries (sort_key fst vs)"
  proof -
    have "mset (map fst (sort_key fst vs)) = mset (map fst vs)" by simp
    then have "distinct (map fst (sort_key fst vs))" using vs mset_eq_imp_distinct_iff by blast
    then show ?thesis using sorted_sort_key [of fst vs] strict_sorted_iff by blast
  qed
  moreover have "sorted_entries ?old" using sorted len by simp
  ultimately have "diff_from ?c ?old (sort_key fst vs) = concat (map (path_event ?c ?old vs) (all_paths ?old vs))"
    using diff_from_spec [of ?old "sort_key fst vs" ?c] same by simp
  then show ?thesis unfolding gone using sorted_events [OF m] by simp
qed

lemma walk_is_diff:
  assumes sorted: "sorted_wrt (<) (paths snap)" and len: "length (metadata snap) = length (paths snap)"
    and env: "snapshot_of env = snap" and live: "distinct (map fst (live_entries env d))"
    and w: "w = walk env \<lparr>events = [], seen = replicate (length (paths snap)) False, stack = [d]\<rparr>"
  shows "sort_key epath (events w @
      map (\<lambda>i. make_event Removed (paths snap ! i) (metadata snap ! i) no_metadata)
        (filter (\<lambda>i. \<not> seen w ! i) [0..<length (paths snap)])) =
    diff_from (compare_atime env) (zip (paths snap) (metadata snap)) (sort_key fst (live_entries env d))"
proof -
  let ?w0 = "\<lparr>events = [], seen = replicate (length (paths snap)) False, stack = [d]\<rparr>"
  obtain vs where vs: "w = (visited env vs ?w0)\<lparr>stack := []\<rparr>" "mset vs = mset (live_entries env d)"
    using walk_visited [of env ?w0] w by auto
  have "mset (map fst vs) = mset (map fst (live_entries env d))" using vs(2) by simp
  then have dv: "distinct (map fst vs)" using live mset_eq_imp_distinct_iff by blast
  have "seen w ! i \<longleftrightarrow> paths snap ! i \<in> fst ` set vs" if "i < length (paths snap)" for i
    using marked [of env "replicate (length (paths snap)) False" i vs] sorted env that vs(1) by (simp add: visited_def)
  then have "filter (\<lambda>i. \<not> seen w ! i) [0..<length (paths snap)] =
      filter (\<lambda>i. paths snap ! i \<notin> fst ` set vs) [0..<length (paths snap)]"
    by (intro filter_cong) auto
  moreover have "events w = concat (map (visit_event env) vs)" by (simp add: vs(1) visited_def)
  moreover have "sort_key fst vs = sort_key fst (live_entries env d)"
  proof (rule sort_key_unique)
    show "mset vs = mset (sort_key fst (live_entries env d))" using vs(2) by simp
    have "mset (map fst (sort_key fst (live_entries env d))) = mset (map fst (live_entries env d))" by simp
    then show "distinct (map fst (sort_key fst (live_entries env d)))" using live mset_eq_imp_distinct_iff by blast
  qed simp
  ultimately show ?thesis using live_events [OF sorted len env dv] by simp
qed

section \<open>Paths of a tree\<close>

text \<open>Names in a directory are distinct and hold no slash; then so are the paths.\<close>

function tree_names :: "fs_dir \<Rightarrow> bool" where
  "tree_names (Open_fails b) = True"
| "tree_names (Fs_dir st allows opens es) =
     (distinct (map fs_name es) \<and> (\<forall>e \<in> set es. slash \<notin> set (fs_name e) \<and> tree_names (fs_open e)))"
  by pat_completeness auto
termination
proof (relation "measure size", simp, goal_cases)
  case (1 st allows opens es e)
  have "Suc (size (fs_open e)) \<le> sum_list (map (\<lambda>e. Suc (size (fs_open e))) es)" using 1 by (simp add: member_le_sum_list)
  with opendir_size [of "Fs_dir st allows True es" es] show ?case by simp
qed

definition dir_prefix :: "bytes \<Rightarrow> bytes" where
  "dir_prefix d = (if d = str ''/'' then d else d @ [slash])"

lemma join_path_prefix: "join_path d n = dir_prefix d @ n"
  by (simp add: join_path_def dir_prefix_def)

text \<open>The part of a path up to the next slash.\<close>

definition first_name :: "bytes \<Rightarrow> bytes \<Rightarrow> bytes" where
  "first_name pre p = takeWhile (\<lambda>c. c \<noteq> slash) (drop (length pre) p)"

lemma takeWhile_name: "slash \<notin> set n \<Longrightarrow> rest = [] \<or> hd rest = slash \<Longrightarrow> takeWhile (\<lambda>c. c \<noteq> slash) (n @ rest) = n"
proof (induction n)
  case Nil
  then show ?case by (cases rest) simp_all
qed auto

lemma first_name_join: "slash \<notin> set n \<Longrightarrow> rest = [] \<or> hd rest = slash \<Longrightarrow> first_name pre (pre @ n @ rest) = n"
  using takeWhile_name [of n rest] by (simp add: first_name_def)

lemma distinct_concat_keys:
  assumes "\<And>x. x \<in> set xs \<Longrightarrow> distinct (map fst (f x))"
    and "\<And>x p. x \<in> set xs \<Longrightarrow> p \<in> fst ` set (f x) \<Longrightarrow> key p = name x" and "distinct (map name xs)"
  shows "distinct (map fst (concat (map f xs)))"
  using assms
proof (induction xs)
  case (Cons x xs)
  have "p \<notin> fst ` set (concat (map f xs))" if p: "p \<in> fst ` set (f x)" for p
  proof
    assume "p \<in> fst ` set (concat (map f xs))"
    then obtain y where y: "y \<in> set xs" "p \<in> fst ` set (f y)" by auto
    have "key p = name x" using Cons.prems(2) [of x p] p by simp
    moreover have "key p = name y" using Cons.prems(2) [of y p] y by simp
    ultimately have "name x \<in> set (map name xs)" using y(1) by (metis image_eqI list.set_map)
    with Cons.prems(3) show False by simp
  qed
  moreover have "distinct (map fst (concat (map f xs)))" using Cons.prems by (intro Cons.IH) auto
  moreover have "distinct (map fst (f x))" using Cons.prems(1) by simp
  ultimately show ?case by (simp only: list.map concat.simps map_append distinct_append) auto
qed simp

lemma dir_prefix_join: "n \<noteq> [] \<Longrightarrow> dir_prefix (join_path d n) = join_path d n @ [slash]"
  by (cases d) (auto simp add: dir_prefix_def join_path_def str_def)

lemma enter_dir_parts [simp]: "db (enter_dir env d) = db d" "node (enter_dir env d) = node d"
  by (simp_all add: enter_dir_def)

definition path_below :: "bytes \<Rightarrow> bytes \<Rightarrow> bytes \<Rightarrow> bool" where
  "path_below pre n p \<longleftrightarrow> (\<exists>rest. p = pre @ n @ rest \<and> (rest = [] \<or> hd rest = slash))"

lemma entry_paths:
  assumes e: "slash \<notin> set (fs_name e)" "tree_names (fs_open e)"
    and IH: "\<And>d'. d' \<in> set (dir_below env d e) \<Longrightarrow> tree_names (node d') \<Longrightarrow>
      (\<forall>p \<in> fst ` set (live_entries env d'). \<exists>n. n \<noteq> [] \<and> path_below (dir_prefix (db d')) n p) \<and>
      distinct (map fst (live_entries env d'))"
    and es: "es = live_here env d e @ concat (map (live_entries env) (dir_below env d e))"
  shows "\<forall>p \<in> fst ` set es. fs_name e \<noteq> [] \<and> path_below (dir_prefix (db d)) (fs_name e) p"
    and "distinct (map fst es)"
proof -
  let ?n = "fs_name e" and ?pre = "dir_prefix (db d)"
  have here: "p = ?pre @ ?n \<and> ?n \<noteq> []" if "p \<in> fst ` set (live_here env d e)" for p
    using that by (auto simp add: live_here_def listed_def join_path_prefix Let_def split: if_splits)
  have down: "(\<exists>n' rest. n' \<noteq> [] \<and> p = ?pre @ ?n @ slash # n' @ rest) \<and> ?n \<noteq> []"
    if "d' \<in> set (dir_below env d e)" "p \<in> fst ` set (live_entries env d')" for d' p
  proof -
    have d': "db d' = join_path (db d) ?n" "node d' = fs_open e" "?n \<noteq> []"
      using that(1) by (auto simp add: dir_below_def listed_def split: if_splits)
    with IH [OF that(1)] e(2) that(2) obtain n' rest where "n' \<noteq> []" "p = dir_prefix (db d') @ n' @ rest"
      by (auto simp add: path_below_def)
    moreover have "dir_prefix (db d') = ?pre @ ?n @ [slash]"
      unfolding d'(1) dir_prefix_join [OF d'(3)] by (simp add: join_path_prefix)
    ultimately show ?thesis using d'(3) by auto
  qed
  show "\<forall>p \<in> fst ` set es. ?n \<noteq> [] \<and> path_below ?pre ?n p"
  proof
    fix p assume "p \<in> fst ` set es"
    then consider "p \<in> fst ` set (live_here env d e)" | d' where "d' \<in> set (dir_below env d e)" "p \<in> fst ` set (live_entries env d')"
      by (auto simp add: es)
    then show "?n \<noteq> [] \<and> path_below ?pre ?n p"
    proof cases
      case 1
      from here [OF this] show ?thesis by (auto simp add: path_below_def)
    next
      case 2
      from down [OF this] show ?thesis by (auto simp add: path_below_def)
    qed
  qed
  have "dir_below env d e = [] \<or> (\<exists>d'. dir_below env d e = [d'])" by (simp add: dir_below_def)
  moreover have "length (live_here env d e) \<le> 1" by (simp add: live_here_def Let_def)
  then have "distinct (map fst (live_here env d e))" by (cases "live_here env d e") auto
  moreover have "tree_names (node d')" if "d' \<in> set (dir_below env d e)" for d'
    using that e(2) by (auto simp add: dir_below_def split: if_splits)
  moreover have "p \<notin> fst ` set (live_entries env d')" if "p \<in> fst ` set (live_here env d e)" "d' \<in> set (dir_below env d e)" for p d'
    using here [OF that(1)] down [OF that(2)] by auto
  ultimately show "distinct (map fst es)" using IH by (auto simp add: es)
qed

lemma tree_names_entries:
  assumes "tree_names (node d)"
  shows "distinct (map fs_name (dir_entries d)) \<and>
    (\<forall>e \<in> set (dir_entries d). slash \<notin> set (fs_name e) \<and> tree_names (fs_open e))"
proof (cases "node d")
  case (Fs_dir st allows opens es)
  have "dir_entries d = (if opens then es else [])" by (simp add: dir_entries_def Fs_dir)
  with assms show ?thesis unfolding Fs_dir tree_names.simps by (cases opens) simp_all
qed (simp add: dir_entries_def)

lemma live_entries_paths:
  "tree_names (node d) \<Longrightarrow>
   (\<forall>p \<in> fst ` set (live_entries env d). \<exists>n. n \<noteq> [] \<and> path_below (dir_prefix (db d)) n p) \<and>
   distinct (map fst (live_entries env d))"
proof (induction env d rule: live_entries.induct)
  case (1 env d)
  let ?d = "enter_dir env d"
  let ?f = "\<lambda>e. live_here env ?d e @ concat (map (live_entries env) (dir_below env ?d e))"
  have names: "distinct (map fs_name (dir_entries d))"
    "\<And>e. e \<in> set (dir_entries d) \<Longrightarrow> slash \<notin> set (fs_name e) \<and> tree_names (fs_open e)"
    using tree_names_entries [OF 1(2)] by blast+
  have e: "(\<forall>p \<in> fst ` set (?f e). fs_name e \<noteq> [] \<and> path_below (dir_prefix (db d)) (fs_name e) p) \<and> distinct (map fst (?f e))"
    if "e \<in> set (dir_entries d)" for e
    using entry_paths [of e env ?d "?f e"] names(2) [OF that] 1(1) [OF that] by simp
  have "first_name (dir_prefix (db d)) p = fs_name e" if "e \<in> set (dir_entries d)" "p \<in> fst ` set (?f e)" for e p
  proof -
    have "path_below (dir_prefix (db d)) (fs_name e) p" using e [OF that(1)] that(2) by blast
    then show ?thesis using names(2) [OF that(1)] first_name_join unfolding path_below_def by blast
  qed
  then have "distinct (map fst (concat (map ?f (dir_entries d))))"
    using e names(1) by (intro distinct_concat_keys [where key = "first_name (dir_prefix (db d))" and name = fs_name]) auto
  moreover have "\<forall>p \<in> fst ` set (concat (map ?f (dir_entries d))). \<exists>n. n \<noteq> [] \<and> path_below (dir_prefix (db d)) n p"
  proof
    fix p assume "p \<in> fst ` set (concat (map ?f (dir_entries d)))"
    then obtain x where "x \<in> set (dir_entries d)" "p \<in> fst ` set (?f x)" by (auto simp del: map_append)
    then show "\<exists>n. n \<noteq> [] \<and> path_below (dir_prefix (db d)) n p" using e by blast
  qed
  ultimately show ?case by (simp only: live_entries.simps [of env d] simp_thms)
qed

section \<open>Properties\<close>

definition live_root :: "live_env \<Rightarrow> bytes \<Rightarrow> file_stat \<Rightarrow> fs_dir \<Rightarrow> walk_dir" where
  "live_root env root sb n =
     \<lparr>real = normalize_root root @ scan_root (snapshot_of env), db = scan_root (snapshot_of env), dev = st_dev sb,
      dir_hash_allowed = True, check_fs = True, node = n\<rparr>"


definition live_sample_snapshot :: snapshot where
  "live_sample_snapshot =
     \<lparr>paths = [str ''/a'', str ''/x''],
      metadata = [live_metadata_from_stat (sample_stat 5), live_metadata_from_stat (sample_stat 5)], hash_kind_of = HashNone,
      prune = \<lparr>prune_bind_mounts = False, prunefs = [], prunenames = [], prunepaths = []\<rparr>, scan_root = str ''/''\<rparr>"

definition live_sample_tree :: fs_dir where
  "live_sample_tree = Fs_dir None True True [Fs_entry (str ''a'') DT_DIR (Some (sample_stat 5)) None
     (Fs_dir None True True [Fs_entry (str ''b'') DT_DIR (Some (sample_stat 6)) None (Open_fails False)])]"


end
