(* ===== verification/Showdiff_Main.thy ===== *)
theory Showdiff_Main
  imports Snapshot_Load Live_Diff Event_Output
begin

text \<open>
  The program \<open>flocate-showdiff\<close> (\<open>main\<close> of \<open>src/showdiff.cpp\<close>): the arguments, the three modes, and the
  exit status with what is written to the standard output. Messages to the standard error are left
  out. The files are those that can be opened, by name, with their content.
\<close>

record showdiff_args =
  history_mode :: bool
  live_root_arg :: "bytes option"
  event_filter_arg :: event_filter
  dbs :: "bytes list"
  compare_atime_arg :: bool
  hash_max_size_arg :: u64
  json_output :: bool

definition no_showdiff_args :: showdiff_args where
  "no_showdiff_args =
     \<lparr>history_mode = False, live_root_arg = None, event_filter_arg = new_event_filter, dbs = [],
      compare_atime_arg = False, hash_max_size_arg = 0, json_output = False\<rparr>"

datatype showdiff_stop = Usage_failure | Shown_help | Shown_version

fun parse_showdiff_args :: "bytes list \<Rightarrow> showdiff_args \<Rightarrow> showdiff_stop + showdiff_args" where
  "parse_showdiff_args [] a = Inr a"
| "parse_showdiff_args (arg # args) a =
     (if arg = str ''--history'' then parse_showdiff_args args (a\<lparr>history_mode := True\<rparr>)
      else if arg = str ''--live'' then
        (case args of
           [] \<Rightarrow> Inl Usage_failure
         | root # args \<Rightarrow> parse_showdiff_args args (a\<lparr>live_root_arg := Some root\<rparr>))
      else if arg = str ''--help'' then Inl Shown_help
      else if arg = str ''--version'' \<or> arg = str ''-V'' then Inl Shown_version
      else if arg = str ''--added-only'' then
        parse_showdiff_args args (a\<lparr>event_filter_arg := enable Added (event_filter_arg a)\<rparr>)
      else if arg = str ''--removed-only'' then
        parse_showdiff_args args (a\<lparr>event_filter_arg := enable Removed (event_filter_arg a)\<rparr>)
      else if arg = str ''--modified-only'' then
        parse_showdiff_args args (a\<lparr>event_filter_arg := enable Modified (event_filter_arg a)\<rparr>)
      else if arg = str ''--compare-atime'' then parse_showdiff_args args (a\<lparr>compare_atime_arg := True\<rparr>)
      else if arg = str ''--hash-max-size'' then
        (case args of
           [] \<Rightarrow> Inl Usage_failure
         | s # args \<Rightarrow>
             (case parse_size s of
                None \<Rightarrow> Inl Usage_failure
              | Some n \<Rightarrow> parse_showdiff_args args (a\<lparr>hash_max_size_arg := n\<rparr>)))
      else if arg = str ''--json'' then parse_showdiff_args args (a\<lparr>json_output := True\<rparr>)
      else if 2 \<le> length arg \<and> hd arg = 45 then Inl Usage_failure
      else parse_showdiff_args args (a\<lparr>dbs := dbs a @ [arg]\<rparr>))"

text \<open>The world: files, the decompressor, the live file system, the formatted local time.\<close>

record 'd showdiff_world =
  open_file :: "bytes \<Rightarrow> bytes option"
  reader :: "'d zstd_reader"
  world_lstat :: "bytes \<Rightarrow> file_stat option"
  world_tree :: "bytes \<Rightarrow> fs_dir"
  world_mounts :: "(bytes \<times> bytes) list option"
  world_time :: "u64 \<Rightarrow> bytes option"
  version_text :: bytes

text \<open>The result of a mode: None is false, otherwise the output.\<close>

definition run_history_mode :: "'d showdiff_world \<Rightarrow> showdiff_args \<Rightarrow> bytes \<Rightarrow> bytes option" where
  "run_history_mode w a db_path =
     do {
       file \<leftarrow> open_file w db_path;
       evs \<leftarrow> load_history_events (reader w) file;
       Some (if evs = [] then
               if json_output a then [] else str ''No history events recorded in '' @ db_path @ str ''.'' @ [10]
             else fst (print_all_events (json_output a) (world_time w) (event_filter_arg a) evs)) }"

definition report :: "'d showdiff_world \<Rightarrow> showdiff_args \<Rightarrow> bytes \<Rightarrow> history_event list \<Rightarrow> bytes" where
  "report w a none evs =
     (let (out, printed) = print_all_events (json_output a) (world_time w) (event_filter_arg a) evs
      in if printed = 0 \<and> \<not> json_output a then out @ none else out)"

definition run_diff_mode :: "'d showdiff_world \<Rightarrow> showdiff_args \<Rightarrow> bytes \<Rightarrow> bytes \<Rightarrow> bytes option" where
  "run_diff_mode w a old_db new_db =
     do {
       old_file \<leftarrow> open_file w old_db;
       old_snap \<leftarrow> load_snapshot (reader w) old_file;
       new_file \<leftarrow> open_file w new_db;
       new_snap \<leftarrow> load_snapshot (reader w) new_file;
       Some (report w a (str ''No differences between '' @ old_db @ str '' and '' @ new_db @ str ''.'' @ [10])
         (diff_snapshots (compare_atime_arg a) old_snap new_snap)) }"

definition run_live_mode :: "'d showdiff_world \<Rightarrow> showdiff_args \<Rightarrow> bytes \<Rightarrow> bytes \<Rightarrow> bytes option" where
  "run_live_mode w a db_path root =
     do {
       file \<leftarrow> open_file w db_path;
       snap \<leftarrow> load_snapshot (reader w) file;
       evs \<leftarrow> diff_with_live \<lparr>snapshot_of = snap, compare_atime = compare_atime_arg a,
                hash_max_size = hash_max_size_arg a, live_mounts = world_mounts w\<rparr> root (world_lstat w) (world_tree w);
       Some (report w a (str ''No differences between '' @ db_path @ str '' and live filesystem rooted at '' @ root @
         str ''.'' @ [10]) evs) }"

text \<open>The exit status, true for success, and the standard output.\<close>

definition exit_with :: "bytes option \<Rightarrow> bool \<times> bytes" where
  "exit_with result = (case result of None \<Rightarrow> (False, []) | Some out \<Rightarrow> (True, out))"

definition showdiff_main :: "'d showdiff_world \<Rightarrow> bytes list \<Rightarrow> bool \<times> bytes" where
  "showdiff_main w argv =
     (case parse_showdiff_args argv no_showdiff_args of
        Inl Usage_failure \<Rightarrow> (False, [])
      | Inl Shown_help \<Rightarrow> (True, [])
      | Inl Shown_version \<Rightarrow> (True, version_text w)
      | Inr a \<Rightarrow>
          if dbs a = [] \<or> history_mode a \<and> live_root_arg a \<noteq> None then (False, [])
          else
            (case live_root_arg a of
               Some root \<Rightarrow>
                 if length (dbs a) \<noteq> 1 then (False, []) else exit_with (run_live_mode w a (dbs a ! 0) root)
             | None \<Rightarrow>
                 if length (dbs a) = 1 then exit_with (run_history_mode w a (dbs a ! 0))
                 else if length (dbs a) = 2 \<and> \<not> history_mode a
                 then exit_with (run_diff_mode w a (dbs a ! 0) (dbs a ! 1))
                 else (False, [])))"

section \<open>Databases compared\<close>

text \<open>
  A file that updatedb writes for these records, whatever the dictionary, the block size, the
  configuration and the history, and that can be read back with \<open>r\<close>.
\<close>

definition written_database :: "'c zstd \<Rightarrow> 'd zstd_reader \<Rightarrow> file_record list \<Rightarrow> bytes \<Rightarrow> bool" where
  "written_database z r rs file \<longleftrightarrow>
     (\<exists>given emitted pending decompress yields compress_all ctx ctx' dictionary n fuel buf visibility next_dict conf evs c db.
        zstd_laws given emitted pending decompress z \<and> reader_laws r yields given emitted z compress_all dictionary \<and>
        given ctx = [] \<and> emitted ctx = [] \<and> given ctx' = [] \<and> emitted ctx' = [] \<and>
        file_names (map rpath rs) \<and> length (chunks n (map rpath rs)) \<le> 2 ^ 24 \<and>
        names_table fuel (chunks n (map rpath rs)) \<noteq> None \<and> length dictionary < 2 ^ 32 \<and>
        rs \<noteq> [] \<and> list_all wf_metadata (map rmetadata rs) \<and> (\<forall>e \<in> set evs. wf_event e) \<and>
        (evs \<noteq> [] \<longrightarrow> compress_all (encode_history_stream evs) \<noteq> None) \<and>
        (\<forall>b \<in> set (chunks n (map rpath rs)). length (join_names b) \<le> 2 ^ 30) \<and>
        db = start_corpus visibility dictionary n True True ctx ctx' \<and> add_files z buf rs (corpus db) = Some c \<and>
        finish_corpus z compress_all fuel buf
          (db\<lparr>corpus := c, next_dictionary := next_dict, conf_block := conf, history_events := evs\<rparr>) = Some file \<and>
        length file < 2 ^ 36)"

lemma written_databaseI:
  assumes "zstd_laws given emitted pending decompress z" and "reader_laws r yields given emitted z compress_all dictionary"
    and "given ctx = []" and "emitted ctx = []" and "given ctx' = []" and "emitted ctx' = []"
    and "file_names (map rpath rs)" and "length (chunks n (map rpath rs)) \<le> 2 ^ 24"
    and "names_table fuel (chunks n (map rpath rs)) \<noteq> None" and "length dictionary < 2 ^ 32"
    and "rs \<noteq> []" and "list_all wf_metadata (map rmetadata rs)" and "\<forall>e \<in> set evs. wf_event e"
    and "evs \<noteq> [] \<longrightarrow> compress_all (encode_history_stream evs) \<noteq> None"
    and "\<forall>b \<in> set (chunks n (map rpath rs)). length (join_names b) \<le> 2 ^ 30"
    and "start = start_corpus visibility dictionary n True True ctx ctx'" and "add_files z buf rs (corpus start) = Some c"
    and "finish_corpus z compress_all fuel buf
          (start\<lparr>corpus := c, next_dictionary := next_dict, conf_block := conf, history_events := evs\<rparr>) = Some file"
    and "length file < 2 ^ 36"
  shows "written_database z r rs file"
  unfolding written_database_def
  by (rule exI [of _ given], rule exI [of _ emitted], rule exI [of _ pending], rule exI [of _ decompress],
      rule exI [of _ yields], rule exI [of _ compress_all], rule exI [of _ ctx], rule exI [of _ ctx'],
      rule exI [of _ dictionary], rule exI [of _ n], rule exI [of _ fuel], rule exI [of _ buf],
      rule exI [of _ visibility], rule exI [of _ next_dict], rule exI [of _ conf], rule exI [of _ evs],
      rule exI [of _ c], rule exI [of _ start]) (intro conjI assms)

abbreviation record_entries :: "file_record list \<Rightarrow> (bytes \<times> file_metadata) list" where
  "record_entries rs \<equiv> map (\<lambda>f. (rpath f, rmetadata f)) rs"

lemma written_database_loaded:
  assumes "written_database z r rs file"
  shows "\<exists>s. load_snapshot r file = Some s \<and> zip (paths s) (metadata s) = sort_key fst (record_entries rs)"
proof -
  from assms obtain given emitted pending decompress yields compress_all ctx ctx' dictionary n fuel buf visibility
      next_dict conf evs c db where
    laws: "zstd_laws given emitted pending decompress z" "reader_laws r yields given emitted z compress_all dictionary"
    and fresh: "given ctx = []" "emitted ctx = []" "given ctx' = []" "emitted ctx' = []"
    and names: "file_names (map rpath rs)" "length (chunks n (map rpath rs)) \<le> 2 ^ 24"
      "names_table fuel (chunks n (map rpath rs)) \<noteq> None" "length dictionary < 2 ^ 32"
    and rs: "rs \<noteq> []" "list_all wf_metadata (map rmetadata rs)" "\<forall>e \<in> set evs. wf_event e"
      "evs \<noteq> [] \<longrightarrow> compress_all (encode_history_stream evs) \<noteq> None"
      "\<forall>b \<in> set (chunks n (map rpath rs)). length (join_names b) \<le> 2 ^ 30"
    and built: "db = start_corpus visibility dictionary n True True ctx ctx'" "add_files z buf rs (corpus db) = Some c"
      "finish_corpus z compress_all fuel buf
        (db\<lparr>corpus := c, next_dictionary := next_dict, conf_block := conf, history_events := evs\<rparr>) = Some file"
      "length file < 2 ^ 36"
    unfolding written_database_def by (elim exE conjE) (rule that)
  have "load_snapshot r file =
      (let entries = sort_key fst (record_entries rs)
       in Some \<lparr>paths = map fst entries, metadata = map snd entries,
                hash_kind_of = first_hash_kind (map rmetadata rs), prune = parse_conf_block conf empty_prune,
                scan_root = scan_root_from_paths (map fst entries)\<rparr>)"
    using snapshot_read_back [where buf = buf and next_dict = next_dict and conf = conf and events = evs
        and compress_all = compress_all, OF laws(1) fresh names(1-3) rs(4) [rule_format] built(1) laws(2) names(4) rs(1-3,5)]
      built(2-4) by auto
  then show ?thesis by (simp add: Let_def zip_map_fst_snd)
qed

lemma diff_of_sorted:
  assumes "distinct (map fst old)" and "distinct (map fst new)"
  shows "diff_from c (sort_key fst old) (sort_key fst new) = concat (map (path_event c old new) (all_paths old new))"
proof -
  have s: "sorted_entries (sort_key fst es) \<and> map_of (sort_key fst es) = map_of es"
    if "distinct (map fst es)" for es :: "(bytes \<times> file_metadata) list"
  proof -
    have p: "mset es = mset (sort_key fst es)" by simp
    then have "mset (map fst es) = mset (map fst (sort_key fst es))" by simp
    then have "distinct (map fst (sort_key fst es))" using that mset_eq_imp_distinct_iff by blast
    then have "sorted_entries (sort_key fst es)" using sorted_sort_key [of fst es] strict_sorted_iff by blast
    with map_of_mset [OF p that] show ?thesis by simp
  qed
  have "path_event c (sort_key fst old) (sort_key fst new) = path_event c old new"
    using s [OF assms(1)] s [OF assms(2)] by (intro ext) (simp add: path_event_def)
  moreover have "all_paths (sort_key fst old) (sort_key fst new) = all_paths old new" by (simp add: all_paths_def)
  ultimately show ?thesis
    using diff_from_spec [of "sort_key fst old" "sort_key fst new" c] s [OF assms(1)] s [OF assms(2)] by simp
qed

lemma shown_events:
  assumes "\<And>e. e \<in> set evs \<Longrightarrow> ekind e = Added \<or> ekind e = Removed \<or> ekind e = Modified"
  shows "print_all_events json t new_event_filter evs = (concat (map (print_event json t) evs), length evs)"
proof -
  have "filter (\<lambda>e. accepts new_event_filter (ekind e)) evs = evs" "filter (\<lambda>e. ekind e \<noteq> RunMarker) evs = evs"
    using assms by (force simp add: filter_id_conv accepts_def new_event_filter_def split: event_kind.split)+
  then show ?thesis by (simp add: print_all_events_def print_events_def)
qed

lemma path_event_kind: "e \<in> set (path_event c old new p) \<Longrightarrow> ekind e = Added \<or> ekind e = Removed \<or> ekind e = Modified"
  by (auto simp add: path_event_def make_event_def split: option.splits if_splits)

lemma file_arguments:
  assumes "\<not> (2 \<le> length old \<and> hd old = 45)" and "\<not> (2 \<le> length new \<and> hd new = 45)"
  shows "parse_showdiff_args [old, new] no_showdiff_args = Inr (no_showdiff_args\<lparr>dbs := [old, new]\<rparr>)"
proof -
  have "arg \<noteq> str ''--history'' \<and> arg \<noteq> str ''--live'' \<and> arg \<noteq> str ''--help'' \<and> arg \<noteq> str ''--version'' \<and> arg \<noteq> str ''-V'' \<and>
      arg \<noteq> str ''--added-only'' \<and> arg \<noteq> str ''--removed-only'' \<and> arg \<noteq> str ''--modified-only'' \<and>
      arg \<noteq> str ''--compare-atime'' \<and> arg \<noteq> str ''--hash-max-size'' \<and> arg \<noteq> str ''--json''"
    if "\<not> (2 \<le> length arg \<and> hd arg = 45)" for arg
    using that by (auto simp add: str_def)
  from this [OF assms(1)] this [OF assms(2)] assms show ?thesis by (simp add: no_showdiff_args_def)
qed

lemma sample_written: "\<exists>file. written_database storing_zstd storing_reader sample_files file"
proof -
  let ?db = "start_corpus True [] 2 True True [] [] :: bytes database_builder"
  have table: "names_table (Suc 0) (chunks 2 (map rpath sample_files)) \<noteq> None"
    by (simp add: sample_chunks names_table_def sample_trigrams next_prime_1 sample_table Let_def del: size_table.simps)
  have wf: "list_all wf_metadata (map rmetadata sample_files)" using wf_sample by (simp add: sample_files_def)
  have small: "file_names (map rpath sample_files)" "length (chunks 2 (map rpath sample_files)) \<le> 2 ^ 24" "sample_files \<noteq> []"
    "\<forall>b \<in> set (chunks 2 (map rpath sample_files)). length (join_names b) \<le> 2 ^ 30"
    unfolding sample_chunks by (simp_all add: sample_files_def sample_record_def sample_names_def file_names_def str_def)
  from snapshot_read_back [where events = "[]" and next_dict = "[]" and conf = "[]" and buf = "\<lambda>_. 0" and dictionary = "[]"
      and visibility = True, OF storing_zstd_laws refl refl refl refl small(1,2) table _ refl storing_reader_laws _ small(3) wf
      _ small(4)]
  obtain c file1 where
    f: "add_files storing_zstd (\<lambda>_. 0) sample_files (corpus ?db) = Some c"
      "finish_corpus storing_zstd Some (Suc 0) (\<lambda>_. 0)
        (?db\<lparr>corpus := c, next_dictionary := [], conf_block := [], history_events := []\<rparr>) = Some file1" by auto
  have "length file1 < 2 ^ 36"
    unfolding sample_snapshot_length [OF refl f]
    by (simp add: dir_time_bytes_def metadata_bytes_def sample_files_def sample_record_def encode_dir_time_def
        encode_metadata_record_def no_metadata_def put_u8_def)
  with written_databaseI [OF storing_zstd_laws storing_reader_laws refl refl refl refl small(1,2) table _ small(3) wf _ _
      small(4) refl f] show ?thesis by auto
qed

section \<open>Properties\<close>

text \<open>C3: From the records to the report: for two files that updatedb wrote, for any two lists of records
  with distinct paths, \<open>flocate-showdiff OLD NEW\<close> succeeds and prints, in the order of the paths, one
  event for every path that is only in the old records (removed), only in the new ones (added), or
  in both with other metadata (modified), and nothing else; without an event it prints that there
  are no differences.\<close>
theorem databases_compared:
  assumes "written_database z (reader w) rs old_file" and "written_database z' (reader w) rs' new_file"
    and "distinct (map rpath rs)" and "distinct (map rpath rs')"
    and "open_file w old = Some old_file" and "open_file w new = Some new_file"
    and "\<not> (2 \<le> length old \<and> hd old = 45)" and "\<not> (2 \<le> length new \<and> hd new = 45)"
    and "evs = concat (map (path_event False (record_entries rs) (record_entries rs'))
      (all_paths (record_entries rs) (record_entries rs')))"
  shows "showdiff_main w [old, new] =
    (True, if evs = [] then str ''No differences between '' @ old @ str '' and '' @ new @ str ''.'' @ [10]
           else concat (map (print_event False (world_time w)) evs))"
proof -
  from written_database_loaded [OF assms(1)] written_database_loaded [OF assms(2)] obtain s s' where
    s: "load_snapshot (reader w) old_file = Some s" "zip (paths s) (metadata s) = sort_key fst (record_entries rs)"
      "load_snapshot (reader w) new_file = Some s'" "zip (paths s') (metadata s') = sort_key fst (record_entries rs')"
    by blast
  have "diff_snapshots False s s' = evs"
    unfolding diff_snapshots_def s(2,4) assms(9) by (rule diff_of_sorted) (use assms(3,4) in \<open>simp_all add: comp_def\<close>)
  moreover have "print_all_events False (world_time w) new_event_filter evs =
      (concat (map (print_event False (world_time w)) evs), length evs)"
  proof (rule shown_events)
    fix e assume "e \<in> set evs"
    then obtain p where "e \<in> set (path_event False (record_entries rs) (record_entries rs') p)"
      unfolding assms(9) by auto
    then show "ekind e = Added \<or> ekind e = Removed \<or> ekind e = Modified" by (rule path_event_kind)
  qed
  ultimately have "run_diff_mode w (no_showdiff_args\<lparr>dbs := [old, new]\<rparr>) old new =
      Some (if evs = [] then str ''No differences between '' @ old @ str '' and '' @ new @ str ''.'' @ [10]
            else concat (map (print_event False (world_time w)) evs))"
    using s(1,3) assms(5,6) by (simp add: run_diff_mode_def no_showdiff_args_def report_def)
  then show ?thesis
    unfolding showdiff_main_def file_arguments [OF assms(7,8)] by (simp add: exit_with_def no_showdiff_args_def)
qed

lemma databases_compared_witness:
  "\<exists>file. fst (showdiff_main \<lparr>open_file = (\<lambda>name. Some file), reader = storing_reader, world_lstat = (\<lambda>p. None),
      world_tree = (\<lambda>p. Open_fails False), world_mounts = None, world_time = (\<lambda>t. None), version_text = []\<rparr>
      [str ''old.db'', str ''new.db'']) \<and>
    snd (showdiff_main \<lparr>open_file = (\<lambda>name. Some file), reader = storing_reader, world_lstat = (\<lambda>p. None),
      world_tree = (\<lambda>p. Open_fails False), world_mounts = None, world_time = (\<lambda>t. None), version_text = []\<rparr>
      [str ''old.db'', str ''new.db'']) =
      str ''No differences between '' @ str ''old.db'' @ str '' and '' @ str ''new.db'' @ str ''.'' @ [10]"
proof -
  from sample_written obtain db_file where f: "written_database storing_zstd storing_reader sample_files db_file" by blast
  let ?w = "\<lparr>open_file = (\<lambda>name. Some db_file), reader = storing_reader, world_lstat = (\<lambda>p. None),
      world_tree = (\<lambda>p. Open_fails False), world_mounts = None, world_time = (\<lambda>t. None), version_text = []\<rparr>"
  have f': "written_database storing_zstd (reader ?w) sample_files db_file" using f by simp
  have d: "distinct (map rpath sample_files)" by (simp add: sample_files_names str_def)
  have "path_event False (record_entries sample_files) (record_entries sample_files) p = []" for p
    by (simp add: path_event_def sample_files_def sample_record_def metadata_equals_def no_metadata_def)
  then have none: "[] = concat (map (path_event False (record_entries sample_files) (record_entries sample_files))
      (all_paths (record_entries sample_files) (record_entries sample_files)))" by simp
  have names: "\<not> (2 \<le> length (str ''old.db'') \<and> hd (str ''old.db'') = 45)" "\<not> (2 \<le> length (str ''new.db'') \<and> hd (str ''new.db'') = 45)"
    by (simp_all add: str_def)
  have files: "open_file ?w (str ''old.db'') = Some db_file" "open_file ?w (str ''new.db'') = Some db_file" by simp_all
  have "showdiff_main ?w [str ''old.db'', str ''new.db''] =
      (True, str ''No differences between '' @ str ''old.db'' @ str '' and '' @ str ''new.db'' @ str ''.'' @ [10])"
    unfolding databases_compared [OF f' f' d d files names none] by simp
  then show ?thesis by (intro exI [of _ db_file]) simp
qed

end
