(* ===== verification/Access_Cache.thy ===== *)
theory Access_Cache
  imports Prelude "HOL-Library.Multiset"
begin

text \<open>
  The cache of \<open>access(2)\<close> results (\<open>src/access_rx_cache.cpp\<close>): whether all parents of a file can be
  searched and read. Where io_uring can, an asynchronous \<open>statx\<close> is issued first; the callback of a
  request is a number, its calls are listed as answers. A step of the engine completes one of the
  stats in flight, in any order. Calls are serialised by the mutex.
\<close>

text \<open>The part of the path before every slash but the first.\<close>

definition parent_paths :: "bytes \<Rightarrow> bytes list" where
  "parent_paths filename = map (\<lambda>i. take i filename) (filter (\<lambda>i. filename ! i = slash) [1..<length filename])"

datatype check_result = Answer bool | Suspend bytes

fun check_parents :: "(bytes \<Rightarrow> bool) \<Rightarrow> bool \<Rightarrow> bytes list \<Rightarrow> (bytes \<rightharpoonup> bool) \<Rightarrow> check_result \<times> (bytes \<rightharpoonup> bool)" where
  "check_parents access allow_async [] cache = (Answer True, cache)"
| "check_parents access allow_async (parent_path # ps) cache =
     (case cache parent_path of
        Some ok \<Rightarrow> if \<not> ok then (Answer False, cache) else check_parents access allow_async ps cache
      | None \<Rightarrow>
          if \<not> allow_async then
            let ok = access parent_path; cache = cache(parent_path \<mapsto> ok)
            in if \<not> ok then (Answer False, cache) else check_parents access allow_async ps cache
          else (Suspend parent_path, cache))"

record access_env =
  access_ok :: "bytes \<Rightarrow> bool"
  check_visibility :: bool
  supports_stat :: bool

type_synonym request = "bytes \<times> nat"

record access_state =
  access_cache :: "bytes \<rightharpoonup> bool"
  pending_stats :: "(bytes \<times> request list) list"
  in_flight :: "request list"
  answers :: "(nat \<times> bool) list"

text \<open>\<open>pending_stats\<close> is a map in the order of its keys.\<close>

fun pending_lower_bound :: "bytes \<Rightarrow> (bytes \<times> request list) list \<Rightarrow> bytes option" where
  "pending_lower_bound k [] = None"
| "pending_lower_bound k ((f, ws) # ps) = (if k \<le> f then Some f else pending_lower_bound k ps)"

fun insert_pending :: "bytes \<Rightarrow> (bytes \<times> request list) list \<Rightarrow> (bytes \<times> request list) list" where
  "insert_pending k [] = [(k, [])]"
| "insert_pending k ((f, ws) # ps) =
     (if k < f then (k, []) # (f, ws) # ps else if k = f then (f, ws) # ps else (f, ws) # insert_pending k ps)"

definition add_waiting :: "bytes \<Rightarrow> request \<Rightarrow> (bytes \<times> request list) list \<Rightarrow> (bytes \<times> request list) list" where
  "add_waiting k r = map (\<lambda>(f, ws). (f, if f = k then ws @ [r] else ws))"

definition suspend :: "bytes \<Rightarrow> request \<Rightarrow> access_state \<Rightarrow> access_state" where
  "suspend parent_path r s =
     (case pending_lower_bound parent_path (pending_stats s) of
        Some f \<Rightarrow>
          if length parent_path \<le> length f \<and> take (length parent_path) f = parent_path
          then s\<lparr>pending_stats := add_waiting f r (pending_stats s)\<rparr>
          else s\<lparr>pending_stats := insert_pending (fst r) (pending_stats s), in_flight := in_flight s @ [r]\<rparr>
      | None \<Rightarrow> s\<lparr>pending_stats := insert_pending (fst r) (pending_stats s), in_flight := in_flight s @ [r]\<rparr>)"

definition check_access :: "access_env \<Rightarrow> bool \<Rightarrow> request \<Rightarrow> access_state \<Rightarrow> access_state" where
  "check_access env allow_async r s =
     (if \<not> check_visibility env then s\<lparr>answers := answers s @ [(snd r, True)]\<rparr>
      else
        case check_parents (access_ok env) (allow_async \<and> supports_stat env) (parent_paths (fst r)) (access_cache s) of
          (Answer ok, cache) \<Rightarrow> s\<lparr>access_cache := cache, answers := answers s @ [(snd r, ok)]\<rparr>
        | (Suspend parent_path, cache) \<Rightarrow> suspend parent_path r (s\<lparr>access_cache := cache\<rparr>))"

text \<open>The callback of \<open>submit_stat\<close>, for the stat at position \<open>i\<close> of those in flight.\<close>

definition waiting_on :: "bytes \<Rightarrow> (bytes \<times> request list) list \<Rightarrow> request list" where
  "waiting_on f ps = concat (map snd (filter (\<lambda>p. fst p = f) ps))"

definition complete_stat :: "access_env \<Rightarrow> nat \<Rightarrow> access_state \<Rightarrow> access_state" where
  "complete_stat env i s =
     (let r = in_flight s ! i;
          s = check_access env False r (s\<lparr>in_flight := take i (in_flight s) @ drop (Suc i) (in_flight s)\<rparr>);
          pending = waiting_on (fst r) (pending_stats s);
          s = s\<lparr>pending_stats := filter (\<lambda>p. fst p \<noteq> fst r) (pending_stats s)\<rparr>
      in fold (check_access env True) pending s)"

definition initial_access_state :: access_state where
  "initial_access_state = \<lparr>access_cache = Map.empty, pending_stats = [], in_flight = [], answers = []\<rparr>"

text \<open>A run: requests and completions in any order; a completion without a stat in flight does nothing.\<close>

datatype access_event = Request bytes nat | Completion nat

fun access_step :: "access_env \<Rightarrow> access_event \<Rightarrow> access_state \<Rightarrow> access_state" where
  "access_step env (Request f cb) s = check_access env True (f, cb) s"
| "access_step env (Completion k) s =
     (if in_flight s = [] then s else complete_stat env (k mod length (in_flight s)) s)"

definition access_run :: "access_env \<Rightarrow> access_event list \<Rightarrow> access_state" where
  "access_run env evs = fold (access_step env) evs initial_access_state"

section \<open>The state\<close>

definition accessible :: "access_env \<Rightarrow> bytes \<Rightarrow> bool" where
  "accessible env f \<longleftrightarrow> check_visibility env \<longrightarrow> list_all (access_ok env) (parent_paths f)"

definition right_answers :: "access_env \<Rightarrow> request multiset \<Rightarrow> (nat \<times> bool) multiset" where
  "right_answers env rs = image_mset (\<lambda>r. (snd r, accessible env (fst r))) rs"

definition outstanding :: "access_state \<Rightarrow> request multiset" where
  "outstanding s = mset (in_flight s) + mset (concat (map snd (pending_stats s)))"

definition access_inv :: "access_env \<Rightarrow> request multiset \<Rightarrow> access_state \<Rightarrow> bool" where
  "access_inv env rs s \<longleftrightarrow>
     (\<forall>p ok. access_cache s p = Some ok \<longrightarrow> ok = access_ok env p) \<and>
     (\<exists>done_part. mset (answers s) = right_answers env done_part \<and> rs = done_part + outstanding s)"

definition pending_inv :: "access_state \<Rightarrow> bool" where
  "pending_inv s \<longleftrightarrow> sorted_wrt (<) (map fst (pending_stats s)) \<and> mset (map fst (in_flight s)) = mset (map fst (pending_stats s))"

definition cache_right :: "access_env \<Rightarrow> (bytes \<rightharpoonup> bool) \<Rightarrow> bool" where
  "cache_right env cache \<longleftrightarrow> (\<forall>p ok. cache p = Some ok \<longrightarrow> ok = access_ok env p)"

lemma check_parents_result:
  assumes "check_parents (access_ok env) async ps cache = (res, cache')" and "cache_right env cache"
  shows "cache_right env cache' \<and>
    (case res of Answer ok \<Rightarrow> ok = list_all (access_ok env) ps | Suspend p \<Rightarrow> async \<and> p \<in> set ps)"
  using assms
proof (induction ps arbitrary: cache)
  case (Cons p ps)
  show ?case
  proof (cases "cache p = None \<and> async")
    case True
    with Cons.prems show ?thesis by auto
  next
    case False
    define cache2 where "cache2 = (if cache p = None then cache(p \<mapsto> access_ok env p) else cache)"
    have right: "cache_right env cache2" and at: "cache2 p = Some (access_ok env p)"
      using Cons.prems(2) by (auto simp add: cache2_def cache_right_def)
    have step: "check_parents (access_ok env) async (p # ps) cache =
        (if access_ok env p then check_parents (access_ok env) async ps cache2 else (Answer False, cache2))"
      using False Cons.prems(2) by (cases "cache p") (auto simp add: cache2_def cache_right_def Let_def)
    show ?thesis
    proof (cases "access_ok env p")
      case True
      with Cons.IH [OF _ right] Cons.prems(1) step show ?thesis by (auto split: check_result.splits)
    next
      case False
      with Cons.prems(1) step right show ?thesis by auto
    qed
  qed
qed auto

lemma parent_prefix: "p \<in> set (parent_paths f) \<Longrightarrow> \<exists>rest. f = p @ rest"
  by (auto simp add: parent_paths_def) (metis append_take_drop_id)

lemma between_prefix: "(p :: bytes) \<le> g \<Longrightarrow> g \<le> p @ x \<Longrightarrow> length p \<le> length g \<and> take (length p) g = p"
proof (induction p arbitrary: g)
  case (Cons a p)
  then show ?case by (cases g) auto
qed simp

lemma lower_bound_Some:
  "sorted_wrt (<) (map fst ps) \<Longrightarrow> pending_lower_bound k ps = Some f \<Longrightarrow>
   f \<in> fst ` set ps \<and> k \<le> f \<and> (\<forall>g \<in> fst ` set ps. k \<le> g \<longrightarrow> f \<le> g)"
proof (induction ps)
  case (Cons p ps)
  obtain g ws where p: "p = (g, ws)" by (cases p)
  show ?case
  proof (cases "k \<le> g")
    case True
    with Cons.prems have "f = g" by (simp add: p)
    with Cons.prems(1) True show ?thesis unfolding p by (auto intro: less_imp_le)
  next
    case False
    with Cons show ?thesis by (auto simp add: p)
  qed
qed simp

lemma lower_bound_None: "pending_lower_bound k ps = None \<Longrightarrow> g \<in> fst ` set ps \<Longrightarrow> \<not> k \<le> g"
proof (induction ps)
  case (Cons p ps)
  then show ?case by (cases p) (auto split: if_splits)
qed simp

lemma insert_pending_keys:
  assumes "k \<notin> fst ` set ps" and "sorted_wrt (<) (map fst ps)"
  shows "mset (insert_pending k ps) = add_mset (k, []) (mset ps) \<and> sorted_wrt (<) (map fst (insert_pending k ps))"
  using assms
proof (induction ps)
  case (Cons p ps)
  obtain f ws where p: "p = (f, ws)" by (cases p)
  show ?case
  proof (cases "k < f")
    case True
    with Cons.prems show ?thesis by (auto simp add: p intro: less_trans)
  next
    case False
    with Cons.prems have "f < k" by (auto simp add: p)
    moreover have IH: "mset (insert_pending k ps) = add_mset (k, []) (mset ps)" "sorted_wrt (<) (map fst (insert_pending k ps))"
      using Cons by auto
    moreover have "set (insert_pending k ps) = insert (k, []) (set ps)" using IH(1) by (metis set_mset_add_mset_insert set_mset_mset)
    ultimately show ?thesis using False Cons.prems by (auto simp add: p)
  qed
qed simp

lemma add_waiting_keys: "map fst (add_waiting k r ps) = map fst ps"
  by (auto simp add: add_waiting_def)

lemma add_waiting_waiting:
  "distinct (map fst ps) \<Longrightarrow> k \<in> fst ` set ps \<Longrightarrow>
   mset (concat (map snd (add_waiting k r ps))) = add_mset r (mset (concat (map snd ps)))"
proof (induction ps)
  case (Cons p ps)
  obtain f ws where p: "p = (f, ws)" by (cases p)
  show ?case
  proof (cases "f = k")
    case True
    with Cons.prems have "add_waiting k r ps = ps"
      by (auto simp add: p add_waiting_def intro!: map_idI) (metis fst_conv image_eqI)
    with True show ?thesis by (simp add: p add_waiting_def)
  next
    case False
    with Cons show ?thesis by (auto simp add: p add_waiting_def)
  qed
qed simp

section \<open>Steps keep the invariants\<close>

lemma access_inv_alt:
  "access_inv env rs s \<longleftrightarrow> cache_right env (access_cache s) \<and>
     (\<exists>done_part. mset (answers s) = right_answers env done_part \<and> rs = done_part + outstanding s)"
  by (simp add: access_inv_def cache_right_def)

lemma suspend_inv:
  assumes "pending_inv s" and "parent_path \<in> set (parent_paths (fst r))"
  shows "pending_inv (suspend parent_path r s)"
    and "outstanding (suspend parent_path r s) = add_mset r (outstanding s)"
    and "access_cache (suspend parent_path r s) = access_cache s" and "answers (suspend parent_path r s) = answers s"
proof -
  let ?ps = "pending_stats s"
  have sorted: "sorted_wrt (<) (map fst ?ps)" and keys: "mset (map fst (in_flight s)) = mset (map fst ?ps)"
    using assms(1) by (simp_all add: pending_inv_def)
  have dist: "distinct (map fst ?ps)" using sorted strict_sorted_iff by blast
  from parent_prefix [OF assms(2)] obtain rest where f: "fst r = parent_path @ rest" by blast
  have le: "parent_path \<le> fst r" unfolding f by (induction parent_path) simp_all
  consider (wait) g where "pending_lower_bound parent_path ?ps = Some g" "g \<in> fst ` set ?ps"
      "suspend parent_path r s = s\<lparr>pending_stats := add_waiting g r ?ps\<rparr>"
    | (submit) "fst r \<notin> fst ` set ?ps"
      "suspend parent_path r s = s\<lparr>pending_stats := insert_pending (fst r) ?ps, in_flight := in_flight s @ [r]\<rparr>"
  proof (cases "pending_lower_bound parent_path ?ps")
    case None
    with lower_bound_None [OF None, of "fst r"] le submit show ?thesis by (auto simp add: suspend_def)
  next
    case (Some g)
    note g = lower_bound_Some [OF sorted Some]
    show ?thesis
    proof (cases "length parent_path \<le> length g \<and> take (length parent_path) g = parent_path")
      case True
      with Some g wait show ?thesis by (auto simp add: suspend_def)
    next
      case False
      have "fst r \<notin> fst ` set ?ps"
      proof
        assume "fst r \<in> fst ` set ?ps"
        with g le have "g \<le> parent_path @ rest" by (auto simp add: f)
        with between_prefix [of parent_path g rest] g False show False by blast
      qed
      with Some False submit show ?thesis by (auto simp add: suspend_def)
    qed
  qed
  then have "pending_inv (suspend parent_path r s) \<and> outstanding (suspend parent_path r s) = add_mset r (outstanding s) \<and>
      access_cache (suspend parent_path r s) = access_cache s \<and> answers (suspend parent_path r s) = answers s"
  proof cases
    case (wait g)
    then show ?thesis
      using sorted keys add_waiting_waiting [OF dist wait(2), of r]
      by (simp add: pending_inv_def outstanding_def add_waiting_keys)
  next
    case submit
    note ins = insert_pending_keys [OF submit(1) sorted]
    have "mset (concat (map snd (insert_pending (fst r) ?ps))) = mset (concat (map snd ?ps))"
    proof -
      have "mset (concat (map snd qs)) = sum_mset (image_mset (\<lambda>q. mset (snd q)) (mset qs))"
        for qs :: "(bytes \<times> request list) list" by (induction qs) simp_all
      with ins show ?thesis by simp
    qed
    moreover have "mset (map fst (insert_pending (fst r) ?ps)) = add_mset (fst r) (mset (map fst ?ps))" using ins by simp
    ultimately show ?thesis
      using submit(2) ins keys by (simp add: pending_inv_def outstanding_def)
  qed
  then show "pending_inv (suspend parent_path r s)" "outstanding (suspend parent_path r s) = add_mset r (outstanding s)"
    "access_cache (suspend parent_path r s) = access_cache s" "answers (suspend parent_path r s) = answers s"
    by blast+
qed

lemma answer_inv:
  assumes "access_inv env rs s" and "cache_right env cache" and "ok = accessible env (fst r)"
  shows "access_inv env (add_mset r rs) (s\<lparr>access_cache := cache, answers := answers s @ [(snd r, ok)]\<rparr>)"
proof -
  from assms(1) obtain d where d: "mset (answers s) = right_answers env d" "rs = d + outstanding s"
    by (auto simp add: access_inv_alt)
  show ?thesis
    unfolding access_inv_alt
    using assms(2,3) d by (auto simp add: right_answers_def outstanding_def intro!: exI [of _ "add_mset r d"])
qed

lemma check_access_inv:
  assumes "access_inv env rs s" and "pending_inv s"
  shows "access_inv env (add_mset r rs) (check_access env async r s) \<and> pending_inv (check_access env async r s) \<and>
    length (answers s) \<le> length (answers (check_access env async r s))"
proof (cases "check_visibility env")
  case False
  with answer_inv [OF assms(1), of "access_cache s" True r] assms show ?thesis
    by (simp add: check_access_def accessible_def pending_inv_def access_inv_alt)
next
  case True
  obtain res cache where c: "check_parents (access_ok env) (async \<and> supports_stat env) (parent_paths (fst r)) (access_cache s) =
      (res, cache)" by (cases "check_parents (access_ok env) (async \<and> supports_stat env) (parent_paths (fst r)) (access_cache s)")
  note res = check_parents_result [OF c]
  have right: "cache_right env (access_cache s)" using assms(1) by (simp add: access_inv_alt)
  show ?thesis
  proof (cases res)
    case (Answer ok)
    with res [OF right] True have "ok = accessible env (fst r)" by (simp add: accessible_def)
    with answer_inv [OF assms(1) _ this, of cache] res [OF right] assms(2) show ?thesis
      by (simp add: check_access_def True c Answer pending_inv_def)
  next
    case (Suspend p)
    let ?s = "s\<lparr>access_cache := cache\<rparr>"
    have p: "p \<in> set (parent_paths (fst r))" and cr: "cache_right env cache" using res [OF right] Suspend by auto
    have "pending_inv ?s" using assms(2) by (simp add: pending_inv_def)
    note sus = suspend_inv [OF this p]
    from assms(1) obtain d where d: "mset (answers s) = right_answers env d" "rs = d + outstanding s"
      by (auto simp add: access_inv_alt)
    have "outstanding ?s = outstanding s" by (simp add: outstanding_def)
    with sus d cr have "access_inv env (add_mset r rs) (suspend p r ?s)"
      by (auto simp add: access_inv_alt intro!: exI [of _ d])
    with sus show ?thesis by (simp add: check_access_def True c Suspend)
  qed
qed

lemma check_access_sync:
  assumes "cache_right env (access_cache s)"
  shows "\<exists>cache. check_access env False r s =
      s\<lparr>access_cache := cache, answers := answers s @ [(snd r, accessible env (fst r))]\<rparr> \<and> cache_right env cache"
proof (cases "check_visibility env")
  case False
  with assms show ?thesis by (intro exI [of _ "access_cache s"]) (simp add: check_access_def accessible_def)
next
  case True
  obtain res cache where c: "check_parents (access_ok env) False (parent_paths (fst r)) (access_cache s) = (res, cache)"
    by (cases "check_parents (access_ok env) False (parent_paths (fst r)) (access_cache s)")
  from check_parents_result [OF c assms] show ?thesis
    by (cases res) (auto simp add: check_access_def True c accessible_def)
qed

lemma check_accesses_inv:
  "access_inv env rs s \<Longrightarrow> pending_inv s \<Longrightarrow>
   access_inv env (rs + mset ws) (fold (check_access env async) ws s) \<and> pending_inv (fold (check_access env async) ws s) \<and>
   length (answers s) \<le> length (answers (fold (check_access env async) ws s))"
proof (induction ws arbitrary: rs s)
  case (Cons r ws)
  from check_access_inv [OF Cons.prems, of r async] Cons.IH [of "add_mset r rs" "check_access env async r s"]
  show ?case by simp
qed simp

lemma waiting_split:
  "mset (concat (map snd ps)) =
     mset (waiting_on k ps) + mset (concat (map snd (filter (\<lambda>p. fst p \<noteq> k) ps)))"
  by (induction ps) (simp_all add: waiting_on_def)

lemma complete_stat_inv:
  assumes "access_inv env rs s" and "pending_inv s" and "i < length (in_flight s)"
  shows "access_inv env rs (complete_stat env i s) \<and> pending_inv (complete_stat env i s) \<and>
    length (answers s) < length (answers (complete_stat env i s))"
proof -
  define r where "r = in_flight s ! i"
  define rest where "rest = take i (in_flight s) @ drop (Suc i) (in_flight s)"
  define W where "W = waiting_on (fst r) (pending_stats s)"
  define left_ps where "left_ps = filter (\<lambda>p. fst p \<noteq> fst r) (pending_stats s)"
  have fl: "mset (in_flight s) = add_mset r (mset rest)"
    using id_take_nth_drop [OF assms(3)] by (simp add: r_def rest_def) (metis mset.simps(2) mset_append union_mset_add_mset_right)
  from assms(1) have right: "cache_right env (access_cache s)" by (simp add: access_inv_alt)
  obtain cache where ca: "check_access env False r (s\<lparr>in_flight := rest\<rparr>) =
      s\<lparr>in_flight := rest, access_cache := cache, answers := answers s @ [(snd r, accessible env (fst r))]\<rparr>" "cache_right env cache"
    using check_access_sync [of env "s\<lparr>in_flight := rest\<rparr>" r] right by auto
  define s3 where "s3 = s\<lparr>in_flight := rest, access_cache := cache,
      answers := answers s @ [(snd r, accessible env (fst r))], pending_stats := left_ps\<rparr>"
  have comp: "complete_stat env i s = fold (check_access env True) W s3"
    unfolding complete_stat_def Let_def r_def [symmetric] rest_def [symmetric] ca(1)
    by (simp add: s3_def W_def left_ps_def)
  from assms(1) obtain d where d: "mset (answers s) = right_answers env d" "rs = d + outstanding s"
    by (auto simp add: access_inv_alt)
  have "rs = add_mset r d + outstanding s3 + mset W"
    using d(2) fl waiting_split [of "pending_stats s" "fst r"] by (simp add: outstanding_def s3_def W_def left_ps_def)
  moreover have "access_inv env (add_mset r d + outstanding s3) s3"
    unfolding access_inv_alt using ca(2) d(1) by (auto simp add: s3_def right_answers_def intro!: exI [of _ "add_mset r d"])
  moreover have "pending_inv s3"
  proof -
    have sorted: "sorted_wrt (<) (map fst (pending_stats s))"
      and keys: "mset (map fst (in_flight s)) = mset (map fst (pending_stats s))"
      using assms(2) by (simp_all add: pending_inv_def)
    have k: "mset (map fst (pending_stats s)) = add_mset (fst r) (mset (map fst rest))" using keys fl by simp
    have "distinct (map fst (pending_stats s))" using sorted strict_sorted_iff by blast
    then have "distinct (fst r # map fst rest)" using k by (metis mset.simps(2) mset_eq_imp_distinct_iff)
    then have "filter (\<lambda>f. f \<noteq> fst r) (map fst rest) = map fst rest" by (intro filter_True) (metis distinct.simps(2))
    then have "filter_mset (\<lambda>f. f \<noteq> fst r) (mset (map fst rest)) = mset (map fst rest)" by (metis mset_filter)
    then have "filter_mset (\<lambda>f. f \<noteq> fst r) (mset (map fst (pending_stats s))) = mset (map fst rest)" unfolding k by simp
    moreover have "map fst left_ps = filter (\<lambda>f. f \<noteq> fst r) (map fst (pending_stats s))"
      by (simp add: left_ps_def filter_map comp_def)
    ultimately show ?thesis using sorted by (simp add: pending_inv_def s3_def sorted_wrt_filter)
  qed
  moreover have "length (answers s3) = Suc (length (answers s))" by (simp add: s3_def)
  ultimately show ?thesis
    using check_accesses_inv [of env "add_mset r d + outstanding s3" s3 W True] unfolding comp by auto
qed

section \<open>Runs\<close>

definition requests :: "access_event list \<Rightarrow> request multiset" where
  "requests evs = mset (concat (map (\<lambda>e. case e of Request f cb \<Rightarrow> [(f, cb)] | Completion k \<Rightarrow> []) evs))"

lemma access_step_inv:
  assumes "access_inv env rs s" and "pending_inv s"
  shows "access_inv env (rs + requests [e]) (access_step env e s) \<and> pending_inv (access_step env e s)"
proof (cases e)
  case (Request f cb)
  with check_access_inv [OF assms, of "(f, cb)" True] show ?thesis by (simp add: requests_def)
next
  case (Completion k)
  with complete_stat_inv [OF assms, of "k mod length (in_flight s)"] assms show ?thesis by (simp add: requests_def)
qed

lemma access_steps_inv:
  "access_inv env rs s \<Longrightarrow> pending_inv s \<Longrightarrow>
   access_inv env (rs + requests evs) (fold (access_step env) evs s) \<and> pending_inv (fold (access_step env) evs s)"
proof (induction evs arbitrary: rs s)
  case (Cons e evs)
  have "requests (e # evs) = requests [e] + requests evs" by (simp add: requests_def)
  with access_step_inv [OF Cons.prems, of e] Cons.IH [of "rs + requests [e]" "access_step env e s"] show ?case
    by (simp add: ac_simps)
qed (simp add: requests_def)

lemma access_run_inv: "access_inv env (requests evs) (access_run env evs) \<and> pending_inv (access_run env evs)"
  using access_steps_inv [of env "{#}" initial_access_state evs]
  by (simp add: access_run_def initial_access_state_def access_inv_def pending_inv_def outstanding_def right_answers_def)

lemma nothing_in_flight: "pending_inv s \<Longrightarrow> in_flight s = [] \<Longrightarrow> pending_stats s = [] \<and> outstanding s = {#}"
  by (auto simp add: pending_inv_def outstanding_def)

lemma outstanding_size: "access_inv env rs s \<Longrightarrow> size rs = length (answers s) + size (outstanding s)"
  by (auto simp add: access_inv_def right_answers_def) (metis size_image_mset size_mset)

lemma drained:
  "access_inv env rs s \<Longrightarrow> pending_inv s \<Longrightarrow> size (outstanding s) \<le> length ks \<Longrightarrow>
   in_flight (fold (access_step env) (map Completion ks) s) = []"
proof (induction ks arbitrary: s)
  case Nil
  then show ?case by (simp add: outstanding_def)
next
  case (Cons k ks)
  show ?case
  proof (cases "in_flight s = []")
    case True
    with Cons.prems nothing_in_flight have "outstanding s = {#}" by blast
    with True Cons show ?thesis by simp
  next
    case False
    let ?s = "complete_stat env (k mod length (in_flight s)) s"
    from False have "k mod length (in_flight s) < length (in_flight s)" by simp
    note c = complete_stat_inv [OF Cons.prems(1,2) this]
    then have "size (outstanding ?s) < size (outstanding s)"
      using outstanding_size [OF Cons.prems(1)] outstanding_size [of env rs ?s] by linarith
    with Cons.prems(3) have "size (outstanding ?s) \<le> length ks" by simp
    from Cons.IH [OF _ _ this] c False show ?thesis by simp
  qed
qed

section \<open>Properties\<close>

text \<open>C7: Every request is answered. For any interleaving of requests with completions of stats, in any
  order: at every moment the callbacks that were called are some of the requests, each once, with
  the right answer (all parents of the file are accessible, or no check is wanted); and when no more
  requests come and as many stats complete as there were requests, nothing is in flight or waiting
  and every callback has been called exactly once with the right answer.\<close>
theorem access_requests_answered:
  assumes "size (requests evs) \<le> length ks"
  shows "(\<exists>answered unanswered. requests evs = answered + unanswered \<and>
      mset (answers (access_run env evs)) = right_answers env answered) \<and>
    in_flight (access_run env (evs @ map Completion ks)) = [] \<and>
    pending_stats (access_run env (evs @ map Completion ks)) = [] \<and>
    mset (answers (access_run env (evs @ map Completion ks))) = right_answers env (requests evs)"
proof -
  let ?s = "access_run env evs" and ?t = "access_run env (evs @ map Completion ks)"
  have inv: "access_inv env (requests evs) ?s" "pending_inv ?s" using access_run_inv by blast+
  have t: "?t = fold (access_step env) (map Completion ks) ?s" by (simp add: access_run_def)
  have "size (outstanding ?s) \<le> length ks" using outstanding_size [OF inv(1)] assms by linarith
  then have "in_flight ?t = []" unfolding t by (rule drained [OF inv])
  moreover have "requests (evs @ map Completion ks) = requests evs"
  proof -
    have "concat (map (\<lambda>e. case e of Request f cb \<Rightarrow> [(f, cb)] | Completion k \<Rightarrow> []) (map Completion ks)) = []" by simp
    then show ?thesis by (simp add: requests_def)
  qed
  moreover have it: "access_inv env (requests (evs @ map Completion ks)) ?t" "pending_inv ?t" using access_run_inv by blast+
  moreover from this(2) nothing_in_flight \<open>in_flight ?t = []\<close> have "pending_stats ?t = []" "outstanding ?t = {#}" by blast+
  ultimately show ?thesis using inv(1) by (auto simp add: access_inv_def)
qed

definition sample_access_env :: access_env where
  "sample_access_env = \<lparr>access_ok = (\<lambda>p. p \<noteq> [47, 97, 47, 98]), check_visibility = True, supports_stat = True\<rparr>"

definition sample_requests :: "access_event list" where
  "sample_requests = [Request [47, 97, 47, 98, 47, 99] 1, Request [47, 97, 47, 98, 47, 100] 2, Request [47, 120] 3]"

lemma access_requests_answered_witness:
  "answers (access_run sample_access_env sample_requests) = [(3, True)] \<and>
   mset (answers (access_run sample_access_env (sample_requests @ map Completion [0, 0, 0]))) =
     {#(1, False), (2, False), (3, True)#}"
proof -
  have par: "parent_paths [47, 97, 47, 98, 47, c] = [[47, 97], [47, 97, 47, 98]]" if "c \<noteq> 47" for c
    using that by (simp add: parent_paths_def upt_rec)
  have par': "parent_paths [47, 120] = []" by (simp add: parent_paths_def upt_rec)
  have run: "answers (access_run sample_access_env sample_requests) = [(3, True)]"
    by (simp add: access_run_def sample_access_env_def sample_requests_def initial_access_state_def check_access_def par par'
        suspend_def add_waiting_def)
  have "right_answers sample_access_env (requests sample_requests) = {#(1, False), (2, False), (3, True)#}"
    by (simp add: right_answers_def requests_def sample_requests_def sample_access_env_def accessible_def par par')
  moreover have "size (requests sample_requests) \<le> length [0, 0, 0 :: nat]" by (simp add: requests_def sample_requests_def)
  ultimately show ?thesis
    using access_requests_answered [of sample_requests "[0, 0, 0]" sample_access_env] run by simp
qed

end
