(* ===== verification/Flocate_Build.thy ===== *)
theory Flocate_Build
  imports Dictionary_Builder Database_Roundtrip Bind_Mount
begin

text \<open>
  The program \<open>flocate-build\<close> (\<open>src/flocate-build.cpp\<close>): it reads a list of names or a database of
  mlocate, twice, and builds a database from it. The input is its bytes; None is an exit with an
  error or a failed assertion. \<open>feof\<close> is true once a read has met the end.
\<close>

definition plain_record :: "bytes \<Rightarrow> file_record" where
  "plain_record p = \<lparr>rpath = p, dir_timestamp = unknown_dir_time, rmetadata = no_metadata\<rparr>"

section \<open>Lists of names\<close>

text \<open>\<open>fgets\<close> with the flag: it met the end if it stopped before the buffer was full and without a newline.\<close>

definition fgets_eof :: "nat \<Rightarrow> bytes \<Rightarrow> (bytes \<times> bytes \<times> bool) option" where
  "fgets_eof n text =
     (case fgets n text of
        None \<Rightarrow> None
      | Some (buf, rest) \<Rightarrow> Some (buf, rest, length buf < n - 1 \<and> last buf \<noteq> 10))"

lemma fgets_eof_shorter: "fgets_eof 1024 fp = Some (buf, rest, eof) \<Longrightarrow> length rest < length fp"
  using fgets_shorter [of 1022 fp buf rest] by (auto simp add: fgets_eof_def split: option.splits)

text \<open>The string may lack its newline because the buffer was too short, or because of a zero byte.\<close>

function read_rest_of_line :: "bytes \<Rightarrow> bytes \<Rightarrow> bool \<Rightarrow> bytes \<times> bytes \<times> bool" where
  "read_rest_of_line s fp eof =
     (if last s \<noteq> 10 \<and> \<not> eof then
        case fgets_eof 1024 fp of
          None \<Rightarrow> (s, fp, True)
        | Some (buf, fp, eof) \<Rightarrow> read_rest_of_line (s @ c_str buf) fp eof
      else (s, fp, eof))"
  by pat_completeness auto
termination
  by (relation "measure (\<lambda>(s, fp, eof). length fp)") (auto dest: fgets_eof_shorter)

declare read_rest_of_line.simps [simp del]

lemma read_rest_shorter: "length (fst (snd (read_rest_of_line s fp eof))) \<le> length fp"
proof (induction s fp eof rule: read_rest_of_line.induct)
  case (1 s fp eof)
  show ?case
  proof (cases "last s \<noteq> 10 \<and> \<not> eof")
    case True
    show ?thesis
    proof (cases "fgets_eof 1024 fp")
      case (Some r)
      obtain buf fp' eof' where r: "r = (buf, fp', eof')" by (cases r)
      with 1 True Some fgets_eof_shorter [of fp buf fp' eof'] show ?thesis
        by (subst read_rest_of_line.simps) fastforce
    next
      case None
      with True show ?thesis by (subst read_rest_of_line.simps) simp
    qed
  next
    case False
    then have "read_rest_of_line s fp eof = (s, fp, eof)" by (subst read_rest_of_line.simps) auto
    then show ?thesis by simp
  qed
qed

function read_plaintext :: "bytes \<Rightarrow> bool \<Rightarrow> file_record list option" where
  "read_plaintext fp eof =
     (if eof then Some []
      else
        case fgets_eof 1024 fp of
          None \<Rightarrow> Some []
        | Some (buf, fp', eof) \<Rightarrow>
            let s = c_str buf
            in if s = [] then None
               else
                 let r = read_rest_of_line s fp' eof;
                     s = fst r;
                     s = (if s \<noteq> [] \<and> last s = 10 then butlast s else s)
                 in map_option ((#) (plain_record s)) (read_plaintext (fst (snd r)) (snd (snd r))))"
  by pat_completeness auto
termination
  by (relation "measure (\<lambda>(fp, eof). length fp)")
    (auto simp add: case_prod_beta dest: fgets_eof_shorter intro: le_less_trans [OF read_rest_shorter])

declare read_plaintext.simps [simp del]

section \<open>Databases of mlocate\<close>

fun read_cstr :: "bytes \<Rightarrow> (bytes \<times> bytes) option" where
  "read_cstr [] = None"
| "read_cstr (c # fp) = (if c = 0 then Some ([], fp) else map_option (\<lambda>(s, fp). (c # s, fp)) (read_cstr fp))"

lemma read_cstr_shorter: "read_cstr fp = Some (s, rest) \<Longrightarrow> length rest < length fp"
  by (induction fp arbitrary: s) (auto split: if_splits)

text \<open>The entries of a directory; the flag: \<open>getc\<close> met the end.\<close>

function read_dir_entries :: "bytes \<Rightarrow> bytes \<Rightarrow> (file_record list \<times> bytes \<times> bool) option" where
  "read_dir_entries dir_path fp =
     (case fp of
        [] \<Rightarrow> Some ([], [], True)
      | c # fp \<Rightarrow>
          if c = 0 \<or> c = 1 then
            case read_cstr fp of
              None \<Rightarrow> None
            | Some (filename, fp) \<Rightarrow>
                map_option (\<lambda>(rs, r). (plain_record (dir_path @ [slash] @ filename) # rs, r)) (read_dir_entries dir_path fp)
          else Some ([], fp, False))"
  by pat_completeness auto
termination
  by (relation "measure (\<lambda>(d, fp). length fp)") (auto dest: read_cstr_shorter)

declare read_dir_entries.simps [simp del]

definition handle_directory :: "bytes \<Rightarrow> (file_record list \<times> bytes \<times> bool) option" where
  "handle_directory fp =
     (if length fp < 16 then Some ([], [], True)
      else
        case read_cstr (drop 16 fp) of
          None \<Rightarrow> None
        | Some (dir_path, fp) \<Rightarrow> read_dir_entries (if dir_path = str ''/'' then [] else dir_path) fp)"

lemma read_dir_entries_shorter: "read_dir_entries d fp = Some (rs, rest, eof) \<Longrightarrow> length rest \<le> length fp"
proof (induction d fp arbitrary: rs rule: read_dir_entries.induct)
  case (1 d fp)
  show ?case
  proof (cases fp)
    case Nil
    with 1(2) show ?thesis by (subst (asm) read_dir_entries.simps) simp
  next
    case (Cons c fp')
    show ?thesis
    proof (cases "c = 0 \<or> c = 1")
      case True
      with 1(2) Cons obtain n fp2 rs2 where n: "read_cstr fp' = Some (n, fp2)" "read_dir_entries d fp2 = Some (rs2, rest, eof)"
        by (subst (asm) read_dir_entries.simps) (auto split: option.splits)
      from 1(1) [OF Cons True n(1) refl n(2)] read_cstr_shorter [OF n(1)] Cons show ?thesis by simp
    next
      case False
      with 1(2) Cons show ?thesis by (subst (asm) read_dir_entries.simps) simp
    qed
  qed
qed

lemma handle_directory_shorter: "handle_directory fp = Some (rs, rest, eof) \<Longrightarrow> \<not> eof \<Longrightarrow> length rest < length fp"
  by (auto simp add: handle_directory_def split: if_splits option.splits dest!: read_dir_entries_shorter read_cstr_shorter)

function read_directories :: "bytes \<Rightarrow> bool \<Rightarrow> file_record list option" where
  "read_directories fp eof =
     (if eof then Some []
      else
        case handle_directory fp of
          None \<Rightarrow> None
        | Some (rs, fp', eof) \<Rightarrow> map_option ((@) rs) (read_directories fp' eof))"
  by pat_completeness auto
termination
  by (relation "measure (\<lambda>(fp, eof). if eof then 0 else Suc (length fp))") (auto dest: handle_directory_shorter)

declare read_directories.simps [simp del]

definition get_be32 :: "bytes \<Rightarrow> nat" where
  "get_be32 bs = unat (bs ! 0) * 2 ^ 24 + unat (bs ! 1) * 2 ^ 16 + unat (bs ! 2) * 2 ^ 8 + unat (bs ! 3)"

definition read_mlocate :: "bytes \<Rightarrow> file_record list option" where
  "read_mlocate fp =
     (if length fp < 16 then None
      else
        case read_cstr (drop 16 fp) of
          None \<Rightarrow> None
        | Some (path, rest) \<Rightarrow> read_directories (drop (get_be32 (take 4 (drop 8 fp))) rest) False)"

section \<open>Building\<close>

text \<open>
  The dictionary is trained on a sample of the blocks; compression uses it, so that the functions of
  zstd depend on it. The two stream contexts are not used, as neither times nor metadata are stored.
\<close>

definition read_input :: "bool \<Rightarrow> bytes \<Rightarrow> file_record list option" where
  "read_input plaintext infp = (if plaintext then read_plaintext infp False else read_mlocate infp)"

definition do_build ::
    "(nat \<Rightarrow> nat) \<Rightarrow> (nat \<Rightarrow> bytes \<Rightarrow> nat list \<Rightarrow> bytes option) \<Rightarrow> (bytes \<Rightarrow> 'c zstd) \<Rightarrow> (bytes \<Rightarrow> bytes option) \<Rightarrow>
     'c \<Rightarrow> 'c \<Rightarrow> nat \<Rightarrow> mem \<Rightarrow> nat \<Rightarrow> bool \<Rightarrow> bool \<Rightarrow> bytes option \<Rightarrow> bytes option" where
  "do_build draw trainer z compress_all ctx ctx' fuel buf bsize plaintext visibility infile =
     do {
       infp \<leftarrow> infile;
       rs \<leftarrow> read_input plaintext infp;
       builder \<leftarrow> dictionary_add_files draw (map rpath rs) (new_dictionary_builder 1000 bsize);
       let dictionary = fst (train trainer 1024 builder);
           db = start_corpus visibility dictionary bsize False False ctx ctx' in do {
       rs \<leftarrow> read_input plaintext infp;
       c \<leftarrow> add_files (z dictionary) buf rs (corpus db);
       finish_corpus (z dictionary) compress_all fuel buf
         (db\<lparr>corpus := c, next_dictionary := [], conf_block := [], history_events := []\<rparr>) } }"

section \<open>The program\<close>

text \<open>
  The options as \<open>getopt_long\<close> gives them, and the operands. The result is the exit status, true for
  success, and what is written; \<open>atoi\<close> is 0 without a number.
\<close>

datatype build_option = Block_size_option bytes | Plaintext_option | Visibility_option bytes | Help_option | Version_option
  | Debug_option | Unknown_option

definition atoi :: "bytes \<Rightarrow> int" where
  "atoi s = (case scan_number s of None \<Rightarrow> 0 | Some (v, rest) \<Rightarrow> signed_take_bit 31 v)"

fun build_options :: "build_option list \<Rightarrow> nat \<times> bool \<times> bool \<Rightarrow> bool + nat \<times> bool \<times> bool" where
  "build_options [] (bsize, plaintext, visibility) = Inr (bsize, plaintext, visibility)"
| "build_options (opt # opts) (bsize, plaintext, visibility) =
     (case opt of
        Block_size_option s \<Rightarrow>
          if atoi s \<le> 0 then Inl False else build_options opts (nat (atoi s), plaintext, visibility)
      | Plaintext_option \<Rightarrow> build_options opts (bsize, True, visibility)
      | Visibility_option s \<Rightarrow>
          (case parse_bool s of None \<Rightarrow> Inl False | Some b \<Rightarrow> build_options opts (bsize, plaintext, b))
      | Help_option \<Rightarrow> Inl True
      | Version_option \<Rightarrow> Inl True
      | Debug_option \<Rightarrow> build_options opts (bsize, plaintext, visibility)
      | Unknown_option \<Rightarrow> Inl False)"

definition build_main ::
    "(nat \<Rightarrow> bool \<Rightarrow> bool \<Rightarrow> bytes option \<Rightarrow> bytes option) \<Rightarrow> (bytes \<Rightarrow> bytes option) \<Rightarrow> build_option list \<Rightarrow> bytes list \<Rightarrow>
     bool \<times> (bytes \<times> bytes) option" where
  "build_main build open_file opts operands =
     (case build_options opts (32, False, True) of
        Inl status \<Rightarrow> (status, None)
      | Inr (bsize, plaintext, visibility) \<Rightarrow>
          if length operands \<noteq> 2 then (False, None)
          else
            case build bsize plaintext visibility (open_file (operands ! 0)) of
              None \<Rightarrow> (False, None)
            | Some file \<Rightarrow> (True, Some (operands ! 1, file)))"

lemma build_options_positive: "build_options opts (b, p, v) = Inr (bsize, plaintext, visibility) \<Longrightarrow> 0 < b \<Longrightarrow> 0 < bsize"
  by (induction opts arbitrary: b p v) (auto split: build_option.splits option.splits if_splits)

section \<open>The inputs are read\<close>

definition plain_text :: "bytes list \<Rightarrow> bytes" where
  "plain_text ls = concat (map (\<lambda>l. l @ [10]) ls)"

definition plain_line :: "bytes \<Rightarrow> bool" where
  "plain_line l \<longleftrightarrow> 0 \<notin> set l \<and> 10 \<notin> set l"

lemma c_str_plain: "0 \<notin> set s \<Longrightarrow> c_str s = s"
  by (induction s) (auto simp add: c_str_def)

lemma takeWhile_line: "10 \<notin> set l \<Longrightarrow> takeWhile (\<lambda>c. c \<noteq> 10) (l @ 10 # rest) = (l :: bytes)"
  by (induction l) auto

text \<open>A line is read at once or in pieces of 1023 bytes.\<close>

lemma fgets_line:
  assumes "plain_line l"
  shows "fgets_eof 1024 (l @ 10 # rest) =
    (if length l < 1023 then Some (l @ [10], rest, False) else Some (take 1023 l, drop 1023 l @ 10 # rest, False))"
proof -
  have t: "takeWhile (\<lambda>c. c \<noteq> 10) (l @ 10 # rest) = l" using takeWhile_line assms by (simp add: plain_line_def)
  have k: "min 1023 (length l + 1) = (if length l < 1023 then Suc (length l) else 1023)" by simp
  show ?thesis
  proof (cases "length l < 1023")
    case True
    then have "fgets 1024 (l @ 10 # rest) = Some (l @ [10], rest)" unfolding fgets_def t using k by (simp add: Let_def)
    with True show ?thesis by (simp add: fgets_eof_def)
  next
    case False
    then have "fgets 1024 (l @ 10 # rest) = Some (take 1023 l, drop 1023 l @ 10 # rest)"
      unfolding fgets_def t using k by (simp add: Let_def)
    with False show ?thesis by (simp add: fgets_eof_def)
  qed
qed

text \<open>The pieces of a line.\<close>

lemma line_piece:
  assumes "plain_line l" and "\<not> length l < 1023"
  shows "plain_line (drop 1023 l)" and "0 \<notin> set (take 1023 l)" and "take 1023 l \<noteq> []" and "last (take 1023 l) \<noteq> 10"
proof -
  show p: "take 1023 l \<noteq> []" using assms(2) by auto
  show "plain_line (drop 1023 l)" "0 \<notin> set (take 1023 l)"
    using assms(1) by (auto simp add: plain_line_def dest: in_set_takeD in_set_dropD)
  have "last (take 1023 l) \<in> set l" using last_in_set [OF p] by (rule in_set_takeD)
  then show "last (take 1023 l) \<noteq> 10" using assms(1) by (auto simp add: plain_line_def)
qed

lemma read_rest_line:
  "plain_line l \<Longrightarrow> last s \<noteq> 10 \<Longrightarrow> read_rest_of_line s (l @ 10 # rest) False = (s @ l @ [10], rest, False)"
proof (induction "length l" arbitrary: l s rule: less_induct)
  case less
  have nul: "0 \<notin> set l" "10 \<notin> set l" using less.prems(1) by (simp_all add: plain_line_def)
  show ?case
  proof (cases "length l < 1023")
    case True
    then have "c_str (l @ [10]) = l @ [10]" using nul by (intro c_str_plain) simp
    moreover have "read_rest_of_line (s @ l @ [10]) rest False = (s @ l @ [10], rest, False)"
      by (subst read_rest_of_line.simps) simp
    ultimately show ?thesis
      using less.prems True by (subst read_rest_of_line.simps) (simp add: fgets_line)
  next
    case False
    let ?p = "take 1023 l"
    note p = line_piece [OF less.prems(1) False]
    have "length (drop 1023 l) < length l" using False by simp
    from less.hyps [OF this p(1), of "s @ ?p"] p(3,4)
    have "read_rest_of_line (s @ ?p) (drop 1023 l @ 10 # rest) False = (s @ l @ [10], rest, False)" by simp
    then show ?thesis
      using less.prems False p(2) by (subst read_rest_of_line.simps) (simp add: fgets_line c_str_plain)
  qed
qed

lemma read_plain_line:
  assumes "plain_line l"
  shows "read_plaintext (l @ 10 # rest) False = map_option ((#) (plain_record l)) (read_plaintext rest False)"
proof (cases "length l < 1023")
  case True
  have "c_str (l @ [10]) = l @ [10]" using assms by (intro c_str_plain) (simp add: plain_line_def)
  moreover have "read_rest_of_line (l @ [10]) rest False = (l @ [10], rest, False)"
    by (subst read_rest_of_line.simps) simp
  ultimately show ?thesis
    using True by (subst read_plaintext.simps) (simp add: fgets_line [OF assms])
next
  case False
  let ?p = "take 1023 l"
  note p = line_piece [OF assms False]
  have "read_rest_of_line ?p (drop 1023 l @ 10 # rest) False = (l @ [10], rest, False)"
    using read_rest_line [OF p(1,4)] by simp
  then show ?thesis
    using False p(2,3) by (subst read_plaintext.simps) (simp add: fgets_line [OF assms] c_str_plain)
qed

lemma read_plain_text: "list_all plain_line ls \<Longrightarrow> read_plaintext (plain_text ls) False = Some (map plain_record ls)"
proof (induction ls)
  case Nil
  then show ?case by (subst read_plaintext.simps) (simp add: plain_text_def fgets_eof_def fgets_def)
next
  case (Cons l ls)
  then show ?case using read_plain_line [of l "plain_text ls"] by (simp add: plain_text_def)
qed

text \<open>The format of mlocate.db(5): the header, the root path, the configuration, and the directories.\<close>

record mlocate_dir =
  ml_time :: bytes
  ml_path :: bytes
  ml_entries :: "(bool \<times> bytes) list"

definition mlocate_dir_bytes :: "mlocate_dir \<Rightarrow> bytes" where
  "mlocate_dir_bytes d =
     ml_time d @ ml_path d @ [0] @
     concat (map (\<lambda>(is_dir, name). [if is_dir then 1 else 0] @ name @ [0]) (ml_entries d)) @ [2]"

definition be32 :: "nat \<Rightarrow> bytes" where
  "be32 n = [of_nat (n div 2 ^ 24), of_nat (n div 2 ^ 16 mod 256), of_nat (n div 2 ^ 8 mod 256), of_nat (n mod 256)]"

definition mlocate_bytes :: "bytes \<Rightarrow> bytes \<Rightarrow> mlocate_dir list \<Rightarrow> bytes" where
  "mlocate_bytes root conf ds =
     [0] @ str ''mlocate'' @ be32 (length conf) @ [0, 0, 0, 0] @ root @ [0] @ conf @ concat (map mlocate_dir_bytes ds)"

definition mlocate_names :: "mlocate_dir list \<Rightarrow> bytes list" where
  "mlocate_names ds = concat (map (\<lambda>d. map (\<lambda>(is_dir, name). (if ml_path d = str ''/'' then [] else ml_path d) @ [slash] @ name)
     (ml_entries d)) ds)"

definition wf_mlocate_dir :: "mlocate_dir \<Rightarrow> bool" where
  "wf_mlocate_dir d \<longleftrightarrow>
     length (ml_time d) = 16 \<and> 0 \<notin> set (ml_path d) \<and> list_all (\<lambda>(is_dir, name). 0 \<notin> set name) (ml_entries d)"

lemma read_cstr_terminated: "0 \<notin> set s \<Longrightarrow> read_cstr (s @ 0 # rest) = Some (s, rest)"
  by (induction s) auto

lemma read_entries_terminated:
  "list_all (\<lambda>(is_dir, name). 0 \<notin> set name) es \<Longrightarrow>
   read_dir_entries p (concat (map (\<lambda>(is_dir, name). [if is_dir then 1 else 0] @ name @ [0]) es) @ 2 # rest) =
     Some (map (\<lambda>(is_dir, name). plain_record (p @ [slash] @ name)) es, rest, False)"
proof (induction es)
  case Nil
  then show ?case by (subst read_dir_entries.simps) simp
next
  case (Cons e es)
  obtain is_dir n where e: "e = (is_dir, n)" by (cases e)
  with Cons show ?case
    using read_cstr_terminated [of n] by (subst read_dir_entries.simps) simp
qed

lemma handle_directory_bytes:
  assumes "wf_mlocate_dir d"
  shows "handle_directory (mlocate_dir_bytes d @ rest) = Some (map plain_record (mlocate_names [d]), rest, False)"
  using assms read_cstr_terminated [of "ml_path d"] read_entries_terminated [of "ml_entries d" _ rest]
  by (simp add: handle_directory_def mlocate_dir_bytes_def wf_mlocate_dir_def mlocate_names_def comp_def case_prod_beta)

lemma read_directories_bytes:
  "list_all wf_mlocate_dir ds \<Longrightarrow>
   read_directories (concat (map mlocate_dir_bytes ds)) False = Some (map plain_record (mlocate_names ds))"
proof (induction ds)
  case Nil
  have "read_directories [] True = Some []" by (subst read_directories.simps) simp
  then show ?case by (subst read_directories.simps) (simp add: handle_directory_def mlocate_names_def)
next
  case (Cons d ds)
  then show ?case
    using handle_directory_bytes [of d] by (subst read_directories.simps) (simp add: mlocate_names_def)
qed

lemma get_be32_be32: "n < 2 ^ 32 \<Longrightarrow> get_be32 (be32 n) = n"
proof -
  assume "n < 2 ^ 32"
  then have "n div 2 ^ 24 < 256" by (simp add: less_mult_imp_div_less)
  then have u: "unat (of_nat (n div 2 ^ 24) :: byte) = n div 2 ^ 24" by (intro unat_of_nat_small) simp
  have v: "unat (of_nat (k mod 256) :: byte) = k mod 256" for k by (intro unat_of_nat_small) simp
  define a b c where "a = n div 256" and "b = a div 256" and "c = b div 256"
  have d: "n div 2 ^ 24 = c" "n div 2 ^ 16 = b" "n div 2 ^ 8 = a"
    by (simp_all add: a_def b_def c_def div_mult2_eq [symmetric])
  have "n = 256 * a + n mod 256" "a = 256 * b + a mod 256" "b = 256 * c + b mod 256"
    by (simp_all add: a_def b_def c_def)
  then have "c * 16777216 + b mod 256 * 65536 + a mod 256 * 256 + n mod 256 = n" by linarith
  then have "n div 2 ^ 24 * 2 ^ 24 + n div 2 ^ 16 mod 256 * 2 ^ 16 + n div 2 ^ 8 mod 256 * 2 ^ 8 + n mod 256 = n"
    unfolding d by simp
  then show ?thesis
    unfolding get_be32_def be32_def using u v [of "n div 2 ^ 16"] v [of "n div 2 ^ 8"] v [of n] by simp
qed

lemma read_mlocate_bytes:
  assumes "list_all wf_mlocate_dir ds" and "0 \<notin> set root" and "length conf < 2 ^ 32"
  shows "read_mlocate (mlocate_bytes root conf ds) = Some (map plain_record (mlocate_names ds))"
proof -
  let ?b = "mlocate_bytes root conf ds"
  have "length (be32 (length conf)) = 4" by (simp add: be32_def)
  then have "take 4 (drop 8 ?b) = be32 (length conf)"
    "drop 16 ?b = root @ 0 # conf @ concat (map mlocate_dir_bytes ds)" "\<not> length ?b < 16"
    by (simp_all add: mlocate_bytes_def str_def)
  then show ?thesis
    using read_cstr_terminated [OF assms(2)] get_be32_be32 [OF assms(3)] read_directories_bytes [OF assms(1)]
    by (simp add: read_mlocate_def)
qed

lemma do_build_steps:
  assumes "read_input plaintext infp = Some rs" and "map rpath rs = names"
    and "dictionary_add_files draw names (new_dictionary_builder 1000 bsize) = Some builder"
    and "dictionary = fst (train trainer 1024 builder)" and "db = start_corpus visibility dictionary bsize False False ctx ctx'"
  shows "do_build draw trainer z compress_all ctx ctx' fuel buf bsize plaintext visibility (Some infp) =
    Option.bind (add_files (z dictionary) buf rs (corpus db)) (\<lambda>c. finish_corpus (z dictionary) compress_all fuel buf
      (db\<lparr>corpus := c, next_dictionary := [], conf_block := [], history_events := []\<rparr>))"
  using assms(3) by (simp add: do_build_def assms(1,2,4,5) Let_def)

section \<open>Properties\<close>

text \<open>C25: What \<open>flocate-build\<close> builds. For a list of names, one per line and of any length, or a database of
  mlocate with any configuration and directories: under the laws of zstd and whatever dictionary is
  trained, the program writes a database, and when it is below 64 GB, it opens as a database of
  exactly the names of the input, in order, divided into blocks.\<close>
theorem flocate_build_database:
  assumes "\<And>dictionary. zstd_laws given emitted pending decompress (z dictionary)"
    and "given ctx = []" and "emitted ctx = []" and "given ctx' = []" and "emitted ctx' = []"
    and "plaintext \<longrightarrow> list_all plain_line ls \<and> infp = plain_text ls \<and> names = ls"
    and "\<not> plaintext \<longrightarrow> list_all wf_mlocate_dir ds \<and> 0 \<notin> set root \<and> length conf < 2 ^ 32 \<and>
      infp = mlocate_bytes root conf ds \<and> names = mlocate_names ds"
    and "file_names names" and "length (chunks bsize names) \<le> 2 ^ 24" and "names_table fuel (chunks bsize names) \<noteq> None"
    and "0 < bsize"
  shows "\<exists>file. do_build draw trainer z compress_all ctx ctx' fuel buf bsize plaintext visibility (Some infp) = Some file \<and>
    (length file < 2 ^ 36 \<longrightarrow>
      (\<exists>h. open_corpus False file = Some h \<and> check_visibility h = visibility \<and>
        database_holds decompress (chunks bsize names) file h))"
proof -
  have read: "read_input plaintext infp = Some (map plain_record names)"
    using assms(6,7) read_plain_text [of ls] read_mlocate_bytes [of ds root conf] by (auto simp add: read_input_def)
  have paths: "map rpath (map plain_record names) = names" by (simp add: plain_record_def comp_def)
  have "reservoir [] [] (new_dictionary_builder 1000 bsize)" by (simp add: reservoir_def new_dictionary_builder_def)
  from add_files_reservoir [OF this, of names bsize draw] assms(8,11) obtain builder where
    b: "dictionary_add_files draw names (new_dictionary_builder 1000 bsize) = Some builder"
    by (auto simp add: new_dictionary_builder_def)
  define dictionary where "dictionary = fst (train trainer 1024 builder)"
  from build_and_read [where compress_all = compress_all and events = "[]" and buf = buf and conf = "[]" and next_dict = "[]"
      and rs = "map plain_record names" and ignore_visibility = False,
      OF assms(1) [of dictionary] assms(2-5) _ _ _ _ refl, unfolded paths, OF assms(8-10)]
  obtain c db_file where
    built: "add_files (z dictionary) buf (map plain_record names)
        (corpus (start_corpus visibility dictionary bsize False False ctx ctx')) = Some c"
      "finish_corpus (z dictionary) compress_all fuel buf
        ((start_corpus visibility dictionary bsize False False ctx ctx')
          \<lparr>corpus := c, next_dictionary := [], conf_block := [], history_events := []\<rparr>) = Some db_file"
      "length db_file < 2 ^ 36 \<longrightarrow> (\<exists>h. open_corpus False db_file = Some h \<and>
        check_visibility h = (visibility \<and> \<not> False) \<and> database_holds decompress (chunks bsize names) db_file h)"
    by blast
  then have "do_build draw trainer z compress_all ctx ctx' fuel buf bsize plaintext visibility (Some infp) = Some db_file"
    unfolding do_build_steps [OF read paths b dictionary_def refl] by simp
  with built(3) show ?thesis by simp
qed

lemma flocate_build_database_witness:
  "\<exists>file h. do_build (\<lambda>n. 0) (\<lambda>n s l. None) (\<lambda>d. storing_zstd) Some [] [] (Suc 0) (\<lambda>_. 0) 2 True True
      (Some (str ''/ab'' @ [10] @ str ''/c'' @ [10])) = Some file \<and> open_corpus False file = Some h \<and>
    database_holds (\<lambda>b. b) [[str ''/ab'', str ''/c'']] file h"
proof -
  let ?names = "[str ''/ab'', str ''/c'']"
  have chunk: "chunks 2 ?names = sample_names" by (simp add: sample_names_def)
  have table: "names_table (Suc 0) (chunks 2 ?names) \<noteq> None"
    by (simp add: chunk names_table_def sample_trigrams next_prime_1 sample_table Let_def del: size_table.simps chunks.simps)
  have ins: "True \<longrightarrow> list_all plain_line ?names \<and> str ''/ab'' @ [10] @ str ''/c'' @ [10] = plain_text ?names \<and> ?names = ?names"
    by (simp add: plain_line_def plain_text_def str_def)
  have fits: "file_names ?names" "length (chunks 2 ?names) \<le> 2 ^ 24" by (simp_all add: file_names_def str_def)
  let ?draw = "\<lambda>n :: nat. 0 :: nat" and ?trainer = "\<lambda>(n :: nat) (s :: bytes) (l :: nat list). None :: bytes option"
  from flocate_build_database [of "\<lambda>x. x" "\<lambda>x. x" "\<lambda>_. 0" "\<lambda>b. b" "\<lambda>d. storing_zstd" "[]" "[]" True ?names _ ?names _ _ _ 2 "Suc 0"
      ?draw ?trainer Some "\<lambda>_. 0" True, OF storing_zstd_laws refl refl refl refl ins _ fits table]
  obtain file1 where f: "do_build ?draw ?trainer (\<lambda>d. storing_zstd) Some [] [] (Suc 0) (\<lambda>_. 0) 2 True True
      (Some (str ''/ab'' @ [10] @ str ''/c'' @ [10])) = Some file1"
    "length file1 < 2 ^ 36 \<longrightarrow> (\<exists>h. open_corpus False file1 = Some h \<and> check_visibility h = True \<and>
      database_holds (\<lambda>b. b) (chunks 2 ?names) file1 h)" by auto
  have read: "read_input True (str ''/ab'' @ [10] @ str ''/c'' @ [10]) = Some (map plain_record ?names)"
    using read_plain_text [of ?names] ins by (simp add: read_input_def)
  have paths: "map rpath (map plain_record ?names) = ?names" by (simp add: plain_record_def)
  have "reservoir [] [] (new_dictionary_builder 1000 2)" by (simp add: reservoir_def new_dictionary_builder_def)
  from add_files_reservoir [OF this, of ?names 2 ?draw] fits obtain builder where
    b: "dictionary_add_files ?draw ?names (new_dictionary_builder 1000 2) = Some builder"
    by (auto simp add: new_dictionary_builder_def)
  have "[] = fst (train ?trainer 1024 builder)" by (simp add: train_def Let_def)
  from f(1) [unfolded do_build_steps [OF read paths b this refl]] obtain c where
    c: "add_files storing_zstd (\<lambda>_. 0) (map plain_record ?names) (corpus (start_corpus True [] 2 False False [] [])) = Some c"
      "finish_corpus storing_zstd Some (Suc 0) (\<lambda>_. 0) ((start_corpus True [] 2 False False [] [])
         \<lparr>corpus := c, next_dictionary := [], conf_block := [], history_events := []\<rparr>) = Some file1"
    by (elim bind_eq_SomeE) blast
  have "map rpath (map plain_record ?names) = map rpath sample_files" unfolding paths sample_files_names ..
  from sample_database_length [OF refl c(1) this c(2)] have "length file1 < 2 ^ 36" by simp
  with f chunk show ?thesis by (auto simp add: sample_names_def)
qed

end
