(* ===== verification/Io_Engine.thy ===== *)
theory Io_Engine
  imports Pread "HOL-Library.Multiset"
begin

text \<open>
  \<open>IOUringEngine\<close> of \<open>src/io_uring_engine.cpp\<close>: reads and stats with callbacks, at most 256 of them in
  the ring and the others queued. The code that uses the engine is a program that updates its own
  state, looks at it and submits requests; a callback is such a program for every answer. liburing
  and the kernel are parameters: how many bytes a read gives, and which requests are completed
  when. Without io_uring every read is a synchronous one.
\<close>

section \<open>The code that uses the engine\<close>

text \<open>\<open>Look\<close> reads the state and \<open>get_waiting_reads\<close>; the requests are \<open>submit_read\<close> and \<open>submit_stat\<close>.\<close>

datatype 's prog =
    Return
  | Update "'s \<Rightarrow> 's" "'s prog"
  | Look "'s \<Rightarrow> nat \<Rightarrow> 's prog"
  | Submit "'s io_request" "'s prog"
and 's io_request =
    Read_request nat nat nat "bytes \<Rightarrow> 's prog"
  | Stat_request bytes "bool \<Rightarrow> 's prog"

section \<open>The state\<close>

text \<open>\<open>PendingRead\<close>: of a read, the descriptor, the length, the position and the number of the bytes that
  are still to be read, those that are in the buffer, and the callback.\<close>

datatype 's pending_read =
    OP_READ nat nat nat nat bytes "bytes \<Rightarrow> 's prog"
  | OP_STAT bytes "bool \<Rightarrow> 's prog"

text \<open>For the properties: what has been submitted, and with what the callbacks were called.\<close>

datatype io = Read_io nat nat nat | Stat_io bytes
datatype io_call = Read_call nat nat nat bytes | Stat_call bytes bool

text \<open>\<open>prepared\<close> are the entries of the submission queue that the kernel has not got, \<open>in_ring\<close> those that
  it works on.\<close>

record 's engine =
  pending_reads :: nat
  queued_reads :: "'s io_request list"
  queued_stats :: "'s io_request list"
  prepared :: "'s pending_read list"
  in_ring :: "'s pending_read list"
  client :: 's
  submitted :: "io list"
  calls :: "io_call list"

definition new_engine :: "'s \<Rightarrow> 's engine" where
  "new_engine s = \<lparr>pending_reads = 0, queued_reads = [], queued_stats = [], prepared = [], in_ring = [],
     client = s, submitted = [], calls = []\<rparr>"

definition queue_depth :: nat where "queue_depth = 256"

definition get_waiting_reads :: "'s engine \<Rightarrow> nat" where
  "get_waiting_reads e = pending_reads e + length (queued_reads e)"

text \<open>The kernel: the result of \<open>io_uring_queue_init\<close> (negative when built without liburing), whether it
  can \<open>statx\<close>, the files behind the descriptors, \<open>pread\<close>, and the results of completions.\<close>

record kernel =
  init_result :: int
  probe_statx :: bool
  disk :: "nat \<Rightarrow> bytes"
  sync_read :: "nat \<Rightarrow> nat \<Rightarrow> nat \<Rightarrow> nat \<Rightarrow> read_result"
  ring_read :: "nat \<Rightarrow> nat \<Rightarrow> nat \<Rightarrow> nat \<Rightarrow> int"
  ring_stat :: "bytes \<Rightarrow> int"

definition using_uring :: "kernel \<Rightarrow> bool" where
  "using_uring k \<longleftrightarrow> 0 \<le> init_result k"

definition get_supports_stat :: "kernel \<Rightarrow> bool" where
  "get_supports_stat k \<longleftrightarrow> using_uring k \<and> probe_statx k"

datatype engine_failure =
    No_free_sqe | Async_read_failed | Ring_call_failed | Sync_read_failed | Stat_not_supported
  | Never_returns

definition and_then :: "'f + 'a \<Rightarrow> ('a \<Rightarrow> 'f + 'b) \<Rightarrow> 'f + 'b" where
  "and_then r f = (case r of Inl x \<Rightarrow> Inl x | Inr a \<Rightarrow> f a)"

lemma and_then_simps [simp]: "and_then (Inl x) f = Inl x" "and_then (Inr a) f = f a"
  by (simp_all add: and_then_def)

section \<open>Submitting\<close>

fun pending_of :: "'s io_request \<Rightarrow> 's pending_read" where
  "pending_of (Read_request fd len offset cb) = OP_READ fd len offset len [] cb"
| "pending_of (Stat_request path cb) = OP_STAT path cb"

text \<open>\<open>submit_read_internal\<close> and \<open>submit_stat_internal\<close>, with \<open>io_uring_get_sqe\<close> before them.\<close>

definition submit_internal :: "'s io_request \<Rightarrow> 's engine \<Rightarrow> engine_failure + 's engine" where
  "submit_internal r e =
     (if length (prepared e) < queue_depth
      then Inr (e\<lparr>prepared := prepared e @ [pending_of r], pending_reads := pending_reads e + 1\<rparr>)
      else Inl No_free_sqe)"

fun queue_request :: "'s io_request \<Rightarrow> 's engine \<Rightarrow> 's engine" where
  "queue_request (Read_request fd len offset cb) e =
     e\<lparr>queued_reads := queued_reads e @ [Read_request fd len offset cb]\<rparr>"
| "queue_request (Stat_request path cb) e = e\<lparr>queued_stats := queued_stats e @ [Stat_request path cb]\<rparr>"

fun io_of :: "'s io_request \<Rightarrow> io" where
  "io_of (Read_request fd len offset cb) = Read_io fd len offset"
| "io_of (Stat_request path cb) = Stat_io path"

fun stat_allowed :: "kernel \<Rightarrow> 's io_request \<Rightarrow> bool" where
  "stat_allowed k (Read_request fd len offset cb) = True"
| "stat_allowed k (Stat_request path cb) = get_supports_stat k"

text \<open>\<open>submit_read\<close> and \<open>submit_stat\<close> with io_uring.\<close>

definition submit :: "kernel \<Rightarrow> 's io_request \<Rightarrow> 's engine \<Rightarrow> engine_failure + 's engine" where
  "submit k r e =
     (if \<not> stat_allowed k r then Inl Stat_not_supported
      else
        let e = e\<lparr>submitted := submitted e @ [io_of r]\<rparr>
        in if pending_reads e < queue_depth then submit_internal r e else Inr (queue_request r e))"

text \<open>A program, with its callbacks where reads are synchronous.\<close>

primrec run_prog :: "'s prog \<Rightarrow> kernel \<Rightarrow> 's engine \<Rightarrow> engine_failure + 's engine"
  and read_now :: "'s io_request \<Rightarrow> kernel \<Rightarrow> 's engine \<Rightarrow> engine_failure + 's engine" where
  "run_prog Return k e = Inr e"
| "run_prog (Update f p) k e = run_prog p k (e\<lparr>client := f (client e)\<rparr>)"
| "run_prog (Look f) k e = run_prog (f (client e) (get_waiting_reads e)) k e"
| "run_prog (Submit r p) k e =
     and_then (if using_uring k then submit k r e else read_now r k e) (run_prog p k)"
| "read_now (Read_request fd len offset cb) k e =
     (let e = e\<lparr>submitted := submitted e @ [Read_io fd len offset]\<rparr>
      in case complete_pread (sync_read k fd) len offset of
           None \<Rightarrow> Inl Never_returns
         | Some None \<Rightarrow> Inl Sync_read_failed
         | Some (Some s) \<Rightarrow> run_prog (cb s) k (e\<lparr>calls := calls e @ [Read_call fd len offset s]\<rparr>))"
| "read_now (Stat_request path cb) k e = Inl Stat_not_supported"

section \<open>finish\<close>

text \<open>The callback is run after the request has left the ring.\<close>

definition call_back ::
    "kernel \<Rightarrow> io_call \<Rightarrow> 's prog \<Rightarrow> bool \<Rightarrow> 's engine \<Rightarrow> engine_failure + bool \<times> 's engine" where
  "call_back k c p anything_to_submit e =
     (let e = e\<lparr>pending_reads := pending_reads e - 1, calls := calls e @ [c]\<rparr>
      in and_then (run_prog p k e)
           (\<lambda>e'. Inr (anything_to_submit \<or> pending_reads e' \<noteq> pending_reads e, e')))"

text \<open>A completion. The kernel has written the bytes behind those that are in the buffer.\<close>

fun process_cqe ::
    "kernel \<Rightarrow> nat \<Rightarrow> 's pending_read \<Rightarrow> bool \<Rightarrow> 's engine \<Rightarrow> engine_failure + bool \<times> 's engine" where
  "process_cqe k time (OP_STAT path cb) anything_to_submit e =
     (let ok = (ring_stat k path = 0) in call_back k (Stat_call path ok) (cb ok) anything_to_submit e)"
| "process_cqe k time (OP_READ fd len offset iov_len buf cb) anything_to_submit e =
     (let res = ring_read k time fd iov_len offset
      in if res \<le> 0 then Inl Async_read_failed
         else
           let n = nat res; buf = buf @ take n (drop offset (disk k fd))
           in if n < iov_len then
                if length (prepared e) < queue_depth
                then Inr (True, e\<lparr>prepared := prepared e @ [OP_READ fd len (offset + n) (iov_len - n) buf cb]\<rparr>)
                else Inl No_free_sqe
              else call_back k (Read_call fd len (offset + iov_len - len) (take len buf)) (cb (take len buf))
                anything_to_submit e)"

text \<open>The completions that arrive until the loop over them ends, each by its position in the ring.\<close>

fun for_each_cqe ::
    "kernel \<Rightarrow> (nat \<times> nat) list \<Rightarrow> bool \<Rightarrow> 's engine \<Rightarrow> engine_failure + bool \<times> 's engine" where
  "for_each_cqe k [] anything_to_submit e = Inr (anything_to_submit, e)"
| "for_each_cqe k ((i, time) # cs) anything_to_submit e =
     (if in_ring e = [] then Inr (anything_to_submit, e)
      else
        let i = i mod length (in_ring e); p = in_ring e ! i;
            e = e\<lparr>in_ring := take i (in_ring e) @ drop (Suc i) (in_ring e)\<rparr>
        in and_then (process_cqe k time p anything_to_submit e) (\<lambda>(a, e). for_each_cqe k cs a e))"

text \<open>The loops over \<open>queued_stats\<close> and \<open>queued_reads\<close>, with what stays in the queue.\<close>

fun submit_queued ::
    "'s io_request list \<Rightarrow> bool \<Rightarrow> 's engine \<Rightarrow> engine_failure + 's io_request list \<times> bool \<times> 's engine" where
  "submit_queued [] anything_to_submit e = Inr ([], anything_to_submit, e)"
| "submit_queued (q # qs) anything_to_submit e =
     (if pending_reads e < queue_depth then and_then (submit_internal q e) (submit_queued qs True)
      else Inr (q # qs, anything_to_submit, e))"

definition refill :: "bool \<Rightarrow> 's engine \<Rightarrow> engine_failure + bool \<times> 's engine" where
  "refill anything_to_submit e =
     and_then (submit_queued (queued_stats e) anything_to_submit e) (\<lambda>(qs, a, e).
       let e = e\<lparr>queued_stats := qs\<rparr>
       in and_then (submit_queued (queued_reads e) a e) (\<lambda>(qs, a, e). Inr (a, e\<lparr>queued_reads := qs\<rparr>)))"

text \<open>What the ring does in a round of the loop: whether \<open>io_uring_peek_cqe\<close> finds a completion, whether
  the waiting call fails, and the completions, at least one.\<close>

record ring_answer =
  ready :: bool
  call_failed :: bool
  first_cqe :: "nat \<times> nat"
  more_cqes :: "(nat \<times> nat) list"

definition finish_round ::
    "kernel \<Rightarrow> ring_answer \<Rightarrow> bool \<Rightarrow> 's engine \<Rightarrow> engine_failure + bool \<times> 's engine" where
  "finish_round k a anything_to_submit e =
     and_then
       (if ready a \<and> in_ring e \<noteq> [] then Inr (anything_to_submit, e)
        else if call_failed a then Inl Ring_call_failed
        else
          let e' = (if anything_to_submit then e\<lparr>in_ring := in_ring e @ prepared e, prepared := []\<rparr> else e)
          in if in_ring e' = [] then Inl Never_returns else Inr (False, e'))
       (\<lambda>(b, e). and_then (for_each_cqe k (first_cqe a # more_cqes a) b e) (\<lambda>(b, e). refill b e))"

datatype 's outcome = Returned "'s engine" | Still_running bool "'s engine" | Engine_exit engine_failure

fun finish_loop :: "kernel \<Rightarrow> ring_answer list \<Rightarrow> bool \<Rightarrow> 's engine \<Rightarrow> 's outcome" where
  "finish_loop k answers anything_to_submit e =
     (if pending_reads e = 0 then Returned e
      else case answers of
          [] \<Rightarrow> Still_running anything_to_submit e
        | a # as \<Rightarrow> (case finish_round k a anything_to_submit e of
              Inl x \<Rightarrow> Engine_exit x
            | Inr (b, e) \<Rightarrow> finish_loop k as b e))"

declare finish_loop.simps [simp del]

definition finish :: "kernel \<Rightarrow> ring_answer list \<Rightarrow> 's engine \<Rightarrow> 's outcome" where
  "finish k answers e = (if \<not> using_uring k then Returned e else finish_loop k answers True e)"

text \<open>Programs one after the other, each followed by \<open>finish\<close>, as \<open>do_search_file\<close> uses the engine.\<close>

fun session :: "kernel \<Rightarrow> ('s prog \<times> ring_answer list) list \<Rightarrow> 's engine \<Rightarrow> 's outcome" where
  "session k [] e = Returned e"
| "session k ((p, answers) # ps) e =
     (case run_prog p k e of
        Inl x \<Rightarrow> Engine_exit x
      | Inr e \<Rightarrow> (case finish k answers e of Returned e \<Rightarrow> session k ps e | r \<Rightarrow> r))"


section \<open>Requests that the kernel serves\<close>

primrec prog_ok :: "'s prog \<Rightarrow> kernel \<Rightarrow> bool" and request_ok :: "'s io_request \<Rightarrow> kernel \<Rightarrow> bool" where
  "prog_ok Return k = True"
| "prog_ok (Update f p) k = prog_ok p k"
| "prog_ok (Look f) k = (\<forall>s n. prog_ok (f s n) k)"
| "prog_ok (Submit r p) k = (request_ok r k \<and> prog_ok p k)"
| "request_ok (Read_request fd len offset cb) k =
     (0 < len \<and> offset + len \<le> length (disk k fd) \<and> prog_ok (cb (take len (drop offset (disk k fd)))) k)"
| "request_ok (Stat_request path cb) k = (get_supports_stat k \<and> prog_ok (cb (ring_stat k path = 0)) k)"

definition ring_serves :: "kernel \<Rightarrow> bool" where
  "ring_serves k \<longleftrightarrow>
     (\<forall>time fd len offset. 0 < len \<and> offset + len \<le> length (disk k fd) \<longrightarrow>
        0 < ring_read k time fd len offset \<and> ring_read k time fd len offset \<le> int len)"

definition kernel_serves :: "kernel \<Rightarrow> bool" where
  "kernel_serves k \<longleftrightarrow> (if using_uring k then ring_serves k else \<forall>fd. serves (disk k fd) (sync_read k fd))"

fun call_right :: "kernel \<Rightarrow> io_call \<Rightarrow> bool" where
  "call_right k (Read_call fd len offset s) \<longleftrightarrow> s = take len (drop offset (disk k fd)) \<and> length s = len"
| "call_right k (Stat_call path ok) \<longleftrightarrow> ok = (ring_stat k path = 0)"

fun call_io :: "io_call \<Rightarrow> io" where
  "call_io (Read_call fd len offset s) = Read_io fd len offset"
| "call_io (Stat_call path ok) = Stat_io path"

section \<open>The invariant\<close>

fun pending_io :: "'s pending_read \<Rightarrow> io" where
  "pending_io (OP_READ fd len offset iov_len buf cb) = Read_io fd len (offset + iov_len - len)"
| "pending_io (OP_STAT path cb) = Stat_io path"

fun pending_ok :: "kernel \<Rightarrow> 's pending_read \<Rightarrow> bool" where
  "pending_ok k (OP_READ fd len offset iov_len buf cb) \<longleftrightarrow>
     (\<exists>start n. offset = start + n \<and> len = n + iov_len \<and> 0 < iov_len \<and> start + len \<le> length (disk k fd) \<and>
        buf = take n (drop start (disk k fd)) \<and> prog_ok (cb (take len (drop start (disk k fd)))) k)"
| "pending_ok k (OP_STAT path cb) \<longleftrightarrow> prog_ok (cb (ring_stat k path = 0)) k"

definition ring_requests :: "'s engine \<Rightarrow> 's pending_read list" where
  "ring_requests e = prepared e @ in_ring e"

text \<open>The invariant for the requests \<open>qs\<close> in the queues.\<close>

definition state_ok :: "kernel \<Rightarrow> 's io_request list \<Rightarrow> 's engine \<Rightarrow> bool" where
  "state_ok k qs e \<longleftrightarrow>
     pending_reads e = length (ring_requests e) \<and> pending_reads e \<le> queue_depth \<and>
     (\<forall>p \<in> set (ring_requests e). pending_ok k p) \<and> (\<forall>r \<in> set qs. request_ok r k) \<and>
     mset (submitted e) = mset (map call_io (calls e)) + mset (map pending_io (ring_requests e)) +
       mset (map io_of qs) \<and>
     (\<forall>c \<in> set (calls e). call_right k c)"

definition queued :: "'s engine \<Rightarrow> 's io_request list" where
  "queued e = queued_stats e @ queued_reads e"

text \<open>Between the rounds requests are queued only while the ring is full.\<close>

definition full_or_idle :: "'s engine \<Rightarrow> bool" where
  "full_or_idle e \<longleftrightarrow> queued e \<noteq> [] \<longrightarrow> pending_reads e = queue_depth"

lemma pending_of_ok: "request_ok r k \<Longrightarrow> pending_ok k (pending_of r)"
proof (cases r)
  case (Read_request fd len offset cb)
  then have "offset = offset + 0 \<and> len = 0 + len \<and> 0 < len \<and> offset + len \<le> length (disk k fd) \<and>
      [] = take 0 (drop offset (disk k fd)) \<and> prog_ok (cb (take len (drop offset (disk k fd)))) k"
    if "request_ok r k" using that by simp
  then show "request_ok r k \<Longrightarrow> pending_ok k (pending_of r)"
    by (simp only: Read_request pending_of.simps pending_ok.simps) blast
qed simp

lemma pending_of_io [simp]: "pending_io (pending_of r) = io_of r"
  by (cases r) simp_all

lemma request_ok_allowed: "request_ok r k \<Longrightarrow> stat_allowed k r"
  by (cases r) simp_all

section \<open>The work that is left\<close>

text \<open>The requests that a program submits itself, and those of the callbacks of a request.\<close>

primrec submits :: "'s prog \<Rightarrow> 's io_request set" where
  "submits Return = {}"
| "submits (Update f p) = submits p"
| "submits (Look f) = (\<Union>s n. submits (f s n))"
| "submits (Submit r p) = insert r (submits p)"

inductive follows :: "'s io_request \<Rightarrow> 's io_request \<Rightarrow> bool" where
  read: "r \<in> submits (cb s) \<Longrightarrow> follows r (Read_request fd len offset cb)"
| stat: "r \<in> submits (cb ok) \<Longrightarrow> follows r (Stat_request path cb)"

inductive_cases follows_readE: "follows r (Read_request fd len offset cb)"
inductive_cases follows_statE: "follows r (Stat_request path cb)"

lemma follows_acc: "(\<forall>r \<in> submits p. Wellfounded.accp follows r) \<and> Wellfounded.accp follows r'"
proof -
  have "\<forall>r \<in> submits p. Wellfounded.accp follows r" and "Wellfounded.accp follows r'" for p :: "'s prog" and r' :: "'s io_request"
  proof (induction p and r')
    case (Read_request fd len offset cb)
    show ?case
    proof (rule accpI)
      fix y assume "follows y (Read_request fd len offset cb)"
      then obtain s where "y \<in> submits (cb s)" by (rule follows_readE)
      then show "Wellfounded.accp follows y" using Read_request by blast
    qed
  next
    case (Stat_request path cb)
    show ?case
    proof (rule accpI)
      fix y assume "follows y (Stat_request path cb)"
      then obtain ok where "y \<in> submits (cb ok)" by (rule follows_statE)
      then show "Wellfounded.accp follows y" using Stat_request by blast
    qed
  qed auto
  then show ?thesis by blast
qed

fun work_of :: "'s pending_read \<Rightarrow> 's io_request \<times> nat" where
  "work_of (OP_READ fd len offset iov_len buf cb) = (Read_request fd len (offset + iov_len - len) cb, iov_len)"
| "work_of (OP_STAT path cb) = (Stat_request path cb, 0)"

definition work :: "'s io_request list \<Rightarrow> 's engine \<Rightarrow> ('s io_request \<times> nat) multiset" where
  "work qs e = mset (map work_of (ring_requests e)) + mset (map (work_of \<circ> pending_of) qs)"

definition less_work :: "(('s io_request \<times> nat) \<times> ('s io_request \<times> nat)) set" where
  "less_work = {(r, r'). follows r r'} <*lex*> less_than"

lemma wf_less_work: "wf less_work"
proof -
  have "wfP (follows :: 's io_request \<Rightarrow> 's io_request \<Rightarrow> bool)"
    using follows_acc by (intro accp_wfpI) blast
  then show ?thesis by (auto simp add: less_work_def wfp_def)
qed

lemma wf_work: "wf (mult less_work)"
  by (rule wf_mult [OF wf_less_work])

lemma work_of_pending_of: "fst (work_of (pending_of r)) = r"
  by (cases r) simp_all


section \<open>Submitting keeps the invariant\<close>

lemma submit_internal_ok:
  assumes "state_ok k (q # qs) e" and "pending_reads e < queue_depth"
  shows "\<exists>e'. submit_internal q e = Inr e' \<and> state_ok k qs e' \<and> work qs e' = work (q # qs) e \<and>
    pending_reads e' = pending_reads e + 1 \<and> queued_stats e' = queued_stats e \<and> queued_reads e' = queued_reads e"
  using assms by (auto simp add: submit_internal_def state_ok_def ring_requests_def work_def pending_of_ok)

lemma state_ok_cong: "mset qs = mset qs' \<Longrightarrow> state_ok k qs e = state_ok k qs' e"
  using mset_eq_setD [of qs qs'] by (simp only: state_ok_def mset_map)

lemma work_cong: "mset qs = mset qs' \<Longrightarrow> work qs e = work qs' e"
  by (simp add: work_def)

lemma state_ok_queues [simp]:
  "state_ok k qs (e\<lparr>queued_stats := x\<rparr>) = state_ok k qs e" "state_ok k qs (e\<lparr>queued_reads := y\<rparr>) = state_ok k qs e"
  "state_ok k qs (e\<lparr>client := c\<rparr>) = state_ok k qs e"
  "work qs (e\<lparr>queued_stats := x\<rparr>) = work qs e" "work qs (e\<lparr>queued_reads := y\<rparr>) = work qs e"
  "work qs (e\<lparr>client := c\<rparr>) = work qs e" "work qs (e\<lparr>submitted := z\<rparr>) = work qs e"
  by (simp_all add: state_ok_def work_def ring_requests_def)

lemma queued_queue_request: "mset (queued (queue_request r e)) = add_mset r (mset (queued e))"
  by (cases r) (simp_all add: queued_def)

lemma queue_request_simps:
  "state_ok k qs (queue_request r e) = state_ok k qs e" "work qs (queue_request r e) = work qs e"
  "prepared (queue_request r e) = prepared e" "pending_reads (queue_request r e) = pending_reads e"
  by (cases r; simp)+

text \<open>What a program that submits requests out of \<open>rs\<close> does to the engine.\<close>

definition grows :: "kernel \<Rightarrow> 's io_request set \<Rightarrow> 's engine \<Rightarrow> 's engine \<Rightarrow> bool" where
  "grows k rs e e' \<longleftrightarrow>
     state_ok k (queued e') e' \<and> (\<exists>m. work (queued e') e' = work (queued e) e + m \<and> fst ` set_mset m \<subseteq> rs) \<and>
     (prepared e' = prepared e \<or> pending_reads e < pending_reads e') \<and> pending_reads e \<le> pending_reads e' \<and>
     (full_or_idle e \<longrightarrow> full_or_idle e')"

lemma growsI:
  assumes "state_ok k (queued e') e'" and "work (queued e') e' = work (queued e) e + m" and "fst ` set_mset m \<subseteq> rs"
    and "prepared e' = prepared e \<or> pending_reads e < pending_reads e'" and "pending_reads e \<le> pending_reads e'"
    and "full_or_idle e \<Longrightarrow> full_or_idle e'"
  shows "grows k rs e e'"
  using assms unfolding grows_def by blast

lemma grows_trans:
  assumes "grows k rs e e'" and "grows k rs' e' e''"
  shows "grows k (rs \<union> rs') e e''"
proof -
  from assms obtain m m' where m: "work (queued e') e' = work (queued e) e + m" "fst ` set_mset m \<subseteq> rs"
    "work (queued e'') e'' = work (queued e') e' + m'" "fst ` set_mset m' \<subseteq> rs'"
    by (auto simp add: grows_def)
  then have "work (queued e'') e'' = work (queued e) e + (m + m') \<and> fst ` set_mset (m + m') \<subseteq> rs \<union> rs'"
    by auto
  moreover have "prepared e'' = prepared e \<or> pending_reads e < pending_reads e''" "pending_reads e \<le> pending_reads e''"
    using assms by (auto simp add: grows_def)
  ultimately show ?thesis using assms unfolding grows_def by blast
qed

lemma submit_grows:
  assumes ok: "state_ok k (queued e) e" and r: "request_ok r k"
  shows "\<exists>e'. submit k r e = Inr e' \<and> grows k {r} e e'"
proof -
  define e1 where "e1 = e\<lparr>submitted := submitted e @ [io_of r]\<rparr>"
  have q1: "queued e1 = queued e" and ok1: "state_ok k (r # queued e1) e1"
    and w1: "work (r # queued e1) e1 = work (queued e) e + {#work_of (pending_of r)#}"
    using ok r by (simp_all add: e1_def queued_def state_ok_def ring_requests_def work_def)
  show ?thesis
  proof (cases "pending_reads e < queue_depth")
    case True
    then have "pending_reads e1 < queue_depth" by (simp add: e1_def)
    from submit_internal_ok [OF ok1 this] obtain e' where e': "submit_internal r e1 = Inr e'" "state_ok k (queued e1) e'"
        "work (queued e1) e' = work (r # queued e1) e1" "pending_reads e' = pending_reads e1 + 1"
        "queued_stats e' = queued_stats e1" "queued_reads e' = queued_reads e1" by blast
    then have q: "queued e' = queued e1" by (simp add: queued_def)
    have "full_or_idle e \<longrightarrow> full_or_idle e'"
      using True by (auto simp add: full_or_idle_def q q1)
    then have "grows k {r} e e'"
      using e' w1 by (auto simp add: grows_def q e1_def work_of_pending_of)
    moreover have "submit k r e = Inr e'"
      using True e'(1) r by (simp add: submit_def e1_def request_ok_allowed)
    ultimately show ?thesis by blast
  next
    case False
    have m: "mset (queued (queue_request r e1)) = mset (r # queued e1)" by (simp add: queued_queue_request)
    have full: "pending_reads e = queue_depth" using False ok by (simp add: state_ok_def)
    have "grows k {r} e (queue_request r e1)"
    proof (rule growsI)
      show "state_ok k (queued (queue_request r e1)) (queue_request r e1)"
        using ok1 by (simp only: state_ok_cong [OF m] queue_request_simps)
      show "work (queued (queue_request r e1)) (queue_request r e1) = work (queued e) e + {#work_of (pending_of r)#}"
        using w1 by (simp only: work_cong [OF m] queue_request_simps)
    qed (simp_all add: queue_request_simps e1_def full_or_idle_def full work_of_pending_of)
    moreover have "submit k r e = Inr (queue_request r e1)"
      using False r by (simp add: submit_def e1_def request_ok_allowed)
    ultimately show ?thesis by blast
  qed
qed

lemma run_prog_grows:
  fixes e :: "'a engine"
  assumes "using_uring k" and "state_ok k (queued e) e" and "prog_ok p k"
  shows "\<exists>e'. run_prog p k e = Inr e' \<and> grows k (submits p) e e'"
proof -
  have "state_ok k (queued e) e \<longrightarrow> prog_ok p k \<longrightarrow> (\<exists>e'. run_prog p k e = Inr e' \<and> grows k (submits p) e e')"
    and "r = r" for e and p :: "'a prog" and r :: "'a io_request"
  proof (induction p and r arbitrary: e)
    case Return
    then show ?case by (auto simp add: grows_def)
  next
    case (Update f p)
    have "queued (e\<lparr>client := f (client e)\<rparr>) = queued e" by (simp add: queued_def)
    with Update [of "e\<lparr>client := f (client e)\<rparr>"] show ?case
      by (simp add: grows_def full_or_idle_def)
  next
    case (Look f)
    have "f (client e) (get_waiting_reads e) \<in> range (f (client e))" by simp
    with Look have "state_ok k (queued e) e \<longrightarrow> prog_ok (Look f) k \<longrightarrow>
      (\<exists>e'. run_prog (Look f) k e = Inr e' \<and> grows k (submits (f (client e) (get_waiting_reads e))) e e')" by fastforce
    moreover have "submits (f (client e) (get_waiting_reads e)) \<subseteq> submits (Look f)" by auto
    ultimately show ?case by (fastforce simp add: grows_def)
  next
    case (Submit r p)
    show ?case
    proof (intro impI)
      assume "state_ok k (queued e) e" and ok: "prog_ok (Submit r p) k"
      then obtain e1 where e1: "submit k r e = Inr e1" "grows k {r} e e1" using submit_grows by force
      then have "state_ok k (queued e1) e1" by (simp add: grows_def)
      with ok Submit.IH(2) [of e1] obtain e2 where "run_prog p k e1 = Inr e2" "grows k (submits p) e1 e2" by auto
      with e1 grows_trans [OF e1(2)] assms(1) show "\<exists>e'. run_prog (Submit r p) k e = Inr e' \<and> grows k (submits (Submit r p)) e e'"
        by fastforce
    qed
  qed simp_all
  with assms show ?thesis by blast
qed


section \<open>Completions\<close>

lemma less_work_step:
  assumes "\<And>x. x \<in># m \<Longrightarrow> (x, y) \<in> less_work"
  shows "(w + m, w + {#y#}) \<in> mult less_work"
  using one_step_implies_mult [of "{#y#}" m less_work w] assms by auto

lemma call_back_ok:
  assumes uring: "using_uring k" and ok: "state_ok k (queued e) e" and ring: "in_ring e = xs @ p # ys"
    and c: "call_io c = pending_io p" "call_right k c" and pr: "prog_ok pr k"
    and f: "\<And>r. r \<in> submits pr \<Longrightarrow> follows r (fst (work_of p))" and a: "prepared e \<noteq> [] \<longrightarrow> a"
  shows "\<exists>a' e'. call_back k c pr a (e\<lparr>in_ring := xs @ ys\<rparr>) = Inr (a', e') \<and> state_ok k (queued e') e' \<and>
    (prepared e' \<noteq> [] \<longrightarrow> a') \<and> (work (queued e') e', work (queued e) e) \<in> mult less_work"
proof -
  define e1 where "e1 = e\<lparr>in_ring := xs @ ys, pending_reads := pending_reads e - 1, calls := calls e @ [c]\<rparr>"
  have q: "queued e1 = queued e" and ok1: "state_ok k (queued e1) e1"
    and w: "work (queued e) e = work (queued e1) e1 + {#work_of p#}"
    using ok c ring by (auto simp add: e1_def queued_def state_ok_def ring_requests_def work_def)
  from run_prog_grows [OF uring ok1 pr] obtain e' where e': "run_prog pr k e1 = Inr e'" "grows k (submits pr) e1 e'"
    by blast
  then obtain m where m: "work (queued e') e' = work (queued e1) e1 + m" "fst ` set_mset m \<subseteq> submits pr"
    by (auto simp add: grows_def)
  have "(x, work_of p) \<in> less_work" if "x \<in># m" for x
  proof -
    from that m(2) have "fst x \<in> submits pr" by blast
    then show ?thesis using f by (cases x; cases "work_of p") (auto simp add: less_work_def)
  qed
  then have "(work (queued e') e', work (queued e) e) \<in> mult less_work"
    unfolding m(1) w by (rule less_work_step)
  moreover have "call_back k c pr a (e\<lparr>in_ring := xs @ ys\<rparr>) = Inr (a \<or> pending_reads e' \<noteq> pending_reads e1, e')"
    using e'(1) by (simp add: call_back_def e1_def)
  moreover have "prepared e' \<noteq> [] \<longrightarrow> a \<or> pending_reads e' \<noteq> pending_reads e1"
    using e'(2) a by (auto simp add: grows_def e1_def)
  ultimately show ?thesis using e'(2) by (auto simp add: grows_def)
qed

lemma process_stat_ok:
  assumes "using_uring k" and "state_ok k (queued e) e" and ring: "in_ring e = xs @ OP_STAT path cb # ys"
    and "prepared e \<noteq> [] \<longrightarrow> a"
  shows "\<exists>a' e'. process_cqe k time (OP_STAT path cb) a (e\<lparr>in_ring := xs @ ys\<rparr>) = Inr (a', e') \<and>
    state_ok k (queued e') e' \<and> (prepared e' \<noteq> [] \<longrightarrow> a') \<and> (work (queued e') e', work (queued e) e) \<in> mult less_work"
proof -
  from assms(2) ring have "prog_ok (cb (ring_stat k path = 0)) k" by (simp add: state_ok_def ring_requests_def)
  moreover have "follows r (fst (work_of (OP_STAT path cb)))" if "r \<in> submits (cb (ring_stat k path = 0))" for r
    using that by (auto intro: follows.stat)
  ultimately show ?thesis
    using call_back_ok [OF assms(1-3) _ _ _ _ assms(4), of "Stat_call path (ring_stat k path = 0)"]
    by (simp add: Let_def)
qed

lemma take_take_drop: "take m (drop i xs) @ take n (drop (i + m) xs) = take (m + n) (drop i xs)" if "i + m \<le> length xs"
  using that by (simp add: take_add add.commute)

lemma process_read_ok:
  assumes uring: "using_uring k" and rs: "ring_serves k" and ok: "state_ok k (queued e) e"
    and ring: "in_ring e = xs @ OP_READ fd len offset iov_len buf cb # ys" and a: "prepared e \<noteq> [] \<longrightarrow> a"
  shows "\<exists>a' e'. process_cqe k time (OP_READ fd len offset iov_len buf cb) a (e\<lparr>in_ring := xs @ ys\<rparr>) = Inr (a', e') \<and>
    state_ok k (queued e') e' \<and> (prepared e' \<noteq> [] \<longrightarrow> a') \<and> (work (queued e') e', work (queued e) e) \<in> mult less_work"
proof -
  let ?p = "OP_READ fd len offset iov_len buf cb"
  from ok ring have "pending_ok k ?p" by (simp add: state_ok_def ring_requests_def)
  then obtain start n where p: "offset = start + n" "len = n + iov_len" "0 < iov_len" "start + len \<le> length (disk k fd)"
      "buf = take n (drop start (disk k fd))" "prog_ok (cb (take len (drop start (disk k fd)))) k" by auto
  define res where "res = ring_read k time fd iov_len offset"
  have "0 < res" "res \<le> int iov_len"
    using rs p by (auto simp add: ring_serves_def res_def)
  then obtain d where d: "res = int d" "0 < d" "d \<le> iov_len" by (cases res) auto
  have buf: "buf @ take d (drop offset (disk k fd)) = take (n + d) (drop start (disk k fd))"
    using p by (simp add: take_take_drop)
  show ?thesis
  proof (cases "d < iov_len")
    case True
    define e' where "e' = e\<lparr>in_ring := xs @ ys, prepared := prepared e @
        [OP_READ fd len (offset + d) (iov_len - d) (take (n + d) (drop start (disk k fd))) cb]\<rparr>"
    have room: "length (prepared e) < queue_depth" using ok ring by (simp add: state_ok_def ring_requests_def)
    then have "process_cqe k time ?p a (e\<lparr>in_ring := xs @ ys\<rparr>) = Inr (True, e')"
      using d True by (simp add: res_def [symmetric] e'_def buf)
    moreover have "pending_ok k (OP_READ fd len (offset + d) (iov_len - d) (take (n + d) (drop start (disk k fd))) cb)"
      unfolding pending_ok.simps
      by (rule exI [of _ start], rule exI [of _ "n + d"]) (use p True in \<open>simp add: add.assoc\<close>)
    then have "state_ok k (queued e') e'"
      using ok ring True p by (auto simp add: state_ok_def ring_requests_def e'_def queued_def)
    moreover have "(work (queued e') e', work (queued e) e) \<in> mult less_work"
    proof -
      have "work (queued e') e' = mset (map work_of (prepared e @ xs @ ys)) + mset (map (work_of \<circ> pending_of) (queued e)) +
          {#(Read_request fd len start cb, iov_len - d)#}"
        and "work (queued e) e = mset (map work_of (prepared e @ xs @ ys)) + mset (map (work_of \<circ> pending_of) (queued e)) +
          {#(Read_request fd len start cb, iov_len)#}"
        using ring p True by (simp_all add: work_def ring_requests_def e'_def queued_def)
      then show ?thesis using d p(3) by (simp only:) (rule less_work_step, simp add: less_work_def)
    qed
    ultimately show ?thesis by blast
  next
    case False
    with d have "d = iov_len" by simp
    with buf p have full: "take len (buf @ take d (drop offset (disk k fd))) = take len (drop start (disk k fd))"
      by simp
    have "process_cqe k time ?p a (e\<lparr>in_ring := xs @ ys\<rparr>) =
        call_back k (Read_call fd len start (take len (drop start (disk k fd))))
          (cb (take len (drop start (disk k fd)))) a (e\<lparr>in_ring := xs @ ys\<rparr>)"
    proof -
      have "\<not> res \<le> 0" "nat res = d" "\<not> d < iov_len" "offset + iov_len - len = start" using d False p by simp_all
      then show ?thesis by (simp only: process_cqe.simps Let_def res_def [symmetric] if_False full)
    qed
    moreover have "call_io (Read_call fd len start (take len (drop start (disk k fd)))) = pending_io ?p"
      "call_right k (Read_call fd len start (take len (drop start (disk k fd))))" using p by simp_all
    moreover have follows_read': "follows r (fst (work_of ?p))" if "r \<in> submits (cb (take len (drop start (disk k fd))))" for r
      using that by (auto intro: follows.read)
    ultimately show ?thesis
      using call_back_ok [OF uring ok ring _ _ p(6) follows_read' a] by (simp only: simp_thms)
  qed
qed

lemma process_cqe_ok:
  assumes "using_uring k" and "ring_serves k" and "state_ok k (queued e) e" and "in_ring e = xs @ p # ys"
    and "prepared e \<noteq> [] \<longrightarrow> a"
  shows "\<exists>a' e'. process_cqe k time p a (e\<lparr>in_ring := xs @ ys\<rparr>) = Inr (a', e') \<and>
    state_ok k (queued e') e' \<and> (prepared e' \<noteq> [] \<longrightarrow> a') \<and> (work (queued e') e', work (queued e) e) \<in> mult less_work"
proof (cases p)
  case (OP_READ fd len offset iov_len buf cb)
  with assms show ?thesis by (simp only:) (rule process_read_ok)
next
  case (OP_STAT path cb)
  with assms show ?thesis by (simp only:) (rule process_stat_ok)
qed


lemma for_each_cqe_ok:
  assumes "using_uring k" and "ring_serves k" and "state_ok k (queued e) e" and "prepared e \<noteq> [] \<longrightarrow> a"
  shows "\<exists>a' e'. for_each_cqe k cs a e = Inr (a', e') \<and> state_ok k (queued e') e' \<and> (prepared e' \<noteq> [] \<longrightarrow> a') \<and>
    (if cs = [] \<or> in_ring e = [] then e' = e else (work (queued e') e', work (queued e) e) \<in> mult less_work)"
  using assms
proof (induction k cs a e rule: for_each_cqe.induct)
  case (2 k i time cs a e)
  show ?case
  proof (cases "in_ring e = []")
    case True
    with "2.prems" show ?thesis by simp
  next
    case False
    define j where "j = i mod length (in_ring e)"
    define e0 where "e0 = e\<lparr>in_ring := take j (in_ring e) @ drop (Suc j) (in_ring e)\<rparr>"
    from False have "j < length (in_ring e)" by (simp add: j_def)
    then have "in_ring e = take j (in_ring e) @ in_ring e ! j # drop (Suc j) (in_ring e)" by (rule id_take_nth_drop)
    from process_cqe_ok [OF "2.prems"(1-3) this "2.prems"(4), of time] obtain a1 e1 where
      e1: "process_cqe k time (in_ring e ! j) a e0 = Inr (a1, e1)" "state_ok k (queued e1) e1" "prepared e1 \<noteq> [] \<longrightarrow> a1"
        "(work (queued e1) e1, work (queued e) e) \<in> mult less_work"
      unfolding e0_def by blast
    have "for_each_cqe k ((i, time) # cs) a e = for_each_cqe k cs a1 e1"
      using False e1(1) by (simp add: j_def [symmetric] e0_def [symmetric] Let_def)
    moreover from "2.IH" [OF False refl refl refl "2.prems"(1,2) e1(2,3)] obtain a' e' where
      "for_each_cqe k cs a1 e1 = Inr (a', e')" "state_ok k (queued e') e'" "prepared e' \<noteq> [] \<longrightarrow> a'"
      "if cs = [] \<or> in_ring e1 = [] then e' = e1 else (work (queued e') e', work (queued e1) e1) \<in> mult less_work"
      by auto
    moreover from this(4) e1(4) have "(work (queued e') e', work (queued e) e) \<in> mult less_work"
      by (metis mult_def trancl_trans)
    ultimately show ?thesis using False by auto
  qed
qed simp

lemma submit_queued_ok:
  assumes "state_ok k (qs @ rest) e" and "prepared e \<noteq> [] \<longrightarrow> a"
  shows "\<exists>qs' a' e'. submit_queued qs a e = Inr (qs', a', e') \<and> state_ok k (qs' @ rest) e' \<and>
    work (qs' @ rest) e' = work (qs @ rest) e \<and> (prepared e' \<noteq> [] \<longrightarrow> a') \<and>
    (qs' \<noteq> [] \<longrightarrow> pending_reads e' = queue_depth) \<and> pending_reads e \<le> pending_reads e' \<and>
    queued_stats e' = queued_stats e \<and> queued_reads e' = queued_reads e"
  using assms
proof (induction qs arbitrary: a e)
  case (Cons q qs)
  show ?case
  proof (cases "pending_reads e < queue_depth")
    case True
    from submit_internal_ok [of k q "qs @ rest" e] Cons.prems(1) True obtain e1 where e1: "submit_internal q e = Inr e1"
      "state_ok k (qs @ rest) e1" "work (qs @ rest) e1 = work (q # qs @ rest) e" "pending_reads e1 = pending_reads e + 1"
      "queued_stats e1 = queued_stats e" "queued_reads e1 = queued_reads e" by auto
    from Cons.IH [OF e1(2), of True] obtain qs' a' e' where "submit_queued qs True e1 = Inr (qs', a', e')"
      "state_ok k (qs' @ rest) e'" "work (qs' @ rest) e' = work (qs @ rest) e1" "prepared e' \<noteq> [] \<longrightarrow> a'"
      "qs' \<noteq> [] \<longrightarrow> pending_reads e' = queue_depth" "pending_reads e1 \<le> pending_reads e'"
      "queued_stats e' = queued_stats e1" "queued_reads e' = queued_reads e1" by auto
    with True e1 show ?thesis by simp
  next
    case False
    with Cons.prems have "pending_reads e = queue_depth" by (simp add: state_ok_def)
    with Cons.prems show ?thesis by simp
  qed
qed simp

lemma refill_ok:
  assumes "state_ok k (queued e) e" and "prepared e \<noteq> [] \<longrightarrow> a"
  shows "\<exists>a' e'. refill a e = Inr (a', e') \<and> state_ok k (queued e') e' \<and> (prepared e' \<noteq> [] \<longrightarrow> a') \<and>
    work (queued e') e' = work (queued e) e \<and> full_or_idle e'"
proof -
  from assms submit_queued_ok [of k "queued_stats e" "queued_reads e" e a] obtain qs a1 e1 where
    1: "submit_queued (queued_stats e) a e = Inr (qs, a1, e1)" "state_ok k (qs @ queued_reads e) e1"
      "work (qs @ queued_reads e) e1 = work (queued e) e" "prepared e1 \<noteq> [] \<longrightarrow> a1"
      "qs \<noteq> [] \<longrightarrow> pending_reads e1 = queue_depth" "queued_reads e1 = queued_reads e"
    by (auto simp add: queued_def)
  let ?e = "e1\<lparr>queued_stats := qs\<rparr>"
  have m: "mset (xs @ ys) = mset (ys @ xs)" for xs ys :: "'a io_request list" by simp
  have "state_ok k (queued_reads e @ qs) ?e" using 1(2) by (simp add: state_ok_cong [OF m])
  from submit_queued_ok [OF this, of a1] 1(4) obtain rs a2 e2 where
    2: "submit_queued (queued_reads e) a1 ?e = Inr (rs, a2, e2)" "state_ok k (rs @ qs) e2"
      "work (rs @ qs) e2 = work (queued_reads e @ qs) ?e" "prepared e2 \<noteq> [] \<longrightarrow> a2"
      "rs \<noteq> [] \<longrightarrow> pending_reads e2 = queue_depth" "pending_reads e1 \<le> pending_reads e2" "queued_stats e2 = qs"
    by auto
  let ?e' = "e2\<lparr>queued_reads := rs\<rparr>"
  have q: "queued ?e' = qs @ rs" using 2(7) by (simp add: queued_def)
  have "refill a e = Inr (a2, ?e')" using 1 2(1) by (simp add: refill_def Let_def)
  moreover have "state_ok k (queued ?e') ?e'" using 2(2) by (simp add: q state_ok_cong [OF m])
  moreover have "work (queued ?e') ?e' = work (queued e) e"
    using 2(3) 1(3) by (simp add: q work_cong [OF m, of rs qs] work_cong [OF m, of "queued_reads e" qs])
  moreover have "full_or_idle ?e'"
    using 1(5) 2(2,5,6) by (auto simp add: full_or_idle_def q state_ok_def)
  ultimately show ?thesis using 2(4) by auto
qed


section \<open>finish\<close>

lemma finish_round_ok:
  assumes "using_uring k" and "ring_serves k" and ok: "state_ok k (queued e) e" and "pending_reads e \<noteq> 0"
    and a: "prepared e \<noteq> [] \<longrightarrow> b" and "\<not> call_failed a"
  shows "\<exists>b' e'. finish_round k a b e = Inr (b', e') \<and> state_ok k (queued e') e' \<and> (prepared e' \<noteq> [] \<longrightarrow> b') \<and>
    (work (queued e') e', work (queued e) e) \<in> mult less_work \<and> full_or_idle e'"
proof -
  obtain b1 e1 where e1: "state_ok k (queued e1) e1" "prepared e1 \<noteq> [] \<longrightarrow> b1" "in_ring e1 \<noteq> []"
    "work (queued e1) e1 = work (queued e) e"
    and round: "finish_round k a b e =
      and_then (for_each_cqe k (first_cqe a # more_cqes a) b1 e1) (\<lambda>(b, e). refill b e)"
  proof (cases "ready a \<and> in_ring e \<noteq> []")
    case True
    then show ?thesis using that [OF ok a] by (simp add: finish_round_def)
  next
    case False
    define e' where "e' = (if b then e\<lparr>in_ring := in_ring e @ prepared e, prepared := []\<rparr> else e)"
    have "ring_requests e \<noteq> []" using ok assms(4) by (auto simp add: state_ok_def)
    with a have ring: "in_ring e' \<noteq> []" by (auto simp add: e'_def ring_requests_def)
    have "queued e' = queued e" by (simp add: e'_def queued_def)
    moreover have "state_ok k (queued e) e'" "work (queued e) e' = work (queued e) e" "prepared e' = []"
      using ok a by (auto simp add: e'_def state_ok_def ring_requests_def work_def)
    moreover have "finish_round k a b e =
        and_then (for_each_cqe k (first_cqe a # more_cqes a) False e') (\<lambda>(b, e). refill b e)"
      unfolding finish_round_def if_not_P [OF False] if_not_P [OF assms(6)] Let_def e'_def [symmetric] if_not_P [OF ring]
      by simp
    ultimately show ?thesis using that [of e' False] ring by simp
  qed
  from for_each_cqe_ok [OF assms(1,2) e1(1,2), of "first_cqe a # more_cqes a"] e1(3) obtain b2 e2 where
    e2: "for_each_cqe k (first_cqe a # more_cqes a) b1 e1 = Inr (b2, e2)" "state_ok k (queued e2) e2"
      "prepared e2 \<noteq> [] \<longrightarrow> b2" "(work (queued e2) e2, work (queued e1) e1) \<in> mult less_work" by auto
  from refill_ok [OF e2(2,3)] obtain b3 e3 where "refill b2 e2 = Inr (b3, e3)" "state_ok k (queued e3) e3"
      "prepared e3 \<noteq> [] \<longrightarrow> b3" "work (queued e3) e3 = work (queued e2) e2" "full_or_idle e3" by blast
  with e1(4) e2(1,4) round show ?thesis by simp
qed

lemma finish_loop_returns:
  assumes "using_uring k" and "ring_serves k" and "state_ok k (queued e) e" and "full_or_idle e"
    and "prepared e \<noteq> [] \<longrightarrow> b" and "\<forall>i. \<not> call_failed (answers i)"
  shows "\<exists>n e'. finish_loop k (map answers [0..<n]) b e = Returned e' \<and> state_ok k (queued e') e' \<and>
    pending_reads e' = 0 \<and> queued e' = []"
  using assms(3-6)
proof (induction "work (queued e) e" arbitrary: e b answers rule: wf_induct_rule [OF wf_work])
  case 1
  show ?case
  proof (cases "pending_reads e = 0")
    case True
    with "1.prems"(2) have "queued e = []" by (auto simp add: full_or_idle_def queue_depth_def)
    with True "1.prems"(1) show ?thesis by (auto simp add: finish_loop.simps intro!: exI [of _ e])
  next
    case False
    from finish_round_ok [OF assms(1,2) "1.prems"(1) False "1.prems"(3)] "1.prems"(4) obtain b1 e1 where
      e1: "finish_round k (answers 0) b e = Inr (b1, e1)" "state_ok k (queued e1) e1" "prepared e1 \<noteq> [] \<longrightarrow> b1"
        "(work (queued e1) e1, work (queued e) e) \<in> mult less_work" "full_or_idle e1" by blast
    from "1.hyps" [OF e1(4,2,5,3), of "\<lambda>i. answers (Suc i)"] "1.prems"(4) obtain n e' where
      "finish_loop k (map (\<lambda>i. answers (Suc i)) [0..<n]) b1 e1 = Returned e'" "state_ok k (queued e') e'"
        "pending_reads e' = 0" "queued e' = []" by auto
    then have "finish_loop k (map answers [0..<Suc n]) b e = Returned e'"
      using False e1(1) by (simp add: map_upt_Suc finish_loop.simps del: upt_Suc)
    with \<open>state_ok k (queued e') e'\<close> \<open>pending_reads e' = 0\<close> \<open>queued e' = []\<close> show ?thesis by blast
  qed
qed

section \<open>Synchronous reads\<close>

lemma run_prog_sync:
  fixes e :: "'a engine"
  assumes "\<not> using_uring k" and "\<And>fd. serves (disk k fd) (sync_read k fd)"
  shows "prog_ok p k \<Longrightarrow> state_ok k [] e \<Longrightarrow> queued e = [] \<Longrightarrow> ring_requests e = [] \<Longrightarrow>
    \<exists>e'. run_prog p k e = Inr e' \<and> state_ok k [] e' \<and> queued e' = [] \<and> ring_requests e' = []"
proof -
  have "prog_ok p k \<longrightarrow> state_ok k [] e \<and> queued e = [] \<and> ring_requests e = [] \<longrightarrow>
      (\<exists>e'. run_prog p k e = Inr e' \<and> state_ok k [] e' \<and> queued e' = [] \<and> ring_requests e' = [])"
    and "request_ok r k \<longrightarrow> state_ok k [] e \<and> queued e = [] \<and> ring_requests e = [] \<longrightarrow>
      (\<exists>e'. read_now r k e = Inr e' \<and> state_ok k [] e' \<and> queued e' = [] \<and> ring_requests e' = [])"
    for e and p :: "'a prog" and r :: "'a io_request"
  proof (induction p and r arbitrary: e and e)
    case (Update f p)
    have "queued (e\<lparr>client := f (client e)\<rparr>) = queued e" "ring_requests (e\<lparr>client := f (client e)\<rparr>) = ring_requests e"
      by (simp_all add: queued_def ring_requests_def)
    with Update [of "e\<lparr>client := f (client e)\<rparr>"] show ?case by simp
  next
    case (Look f)
    have "f (client e) (get_waiting_reads e) \<in> range (f (client e))" by simp
    with Look show ?case by fastforce
  next
    case (Submit r p)
    show ?case
    proof (intro impI)
      assume ok: "prog_ok (Submit r p) k" and e: "state_ok k [] e \<and> queued e = [] \<and> ring_requests e = []"
      with Submit.IH(1) [of e] obtain e1 where
        "read_now r k e = Inr e1" "state_ok k [] e1 \<and> queued e1 = [] \<and> ring_requests e1 = []" by auto
      with Submit.IH(2) [of e1] ok assms(1) show "\<exists>e'. run_prog (Submit r p) k e = Inr e' \<and> state_ok k [] e' \<and>
          queued e' = [] \<and> ring_requests e' = []" by auto
    qed
  next
    case (Read_request fd len offset cb)
    show ?case
    proof (intro impI)
      assume ok: "request_ok (Read_request fd len offset cb) k" and e: "state_ok k [] e \<and> queued e = [] \<and> ring_requests e = []"
      let ?s = "take len (drop offset (disk k fd))"
      define e1 where "e1 = e\<lparr>submitted := submitted e @ [Read_io fd len offset], calls := calls e @ [Read_call fd len offset ?s]\<rparr>"
      have "complete_pread (sync_read k fd) len offset = Some (Some ?s)"
        using ok by (simp add: complete_pread_def try_complete_pread_serves [OF assms(2)] pread_def)
      then have "read_now (Read_request fd len offset cb) k e = run_prog (cb ?s) k e1" by (simp add: e1_def)
      moreover have "state_ok k [] e1 \<and> queued e1 = [] \<and> ring_requests e1 = []"
        using e ok by (auto simp add: state_ok_def e1_def queued_def ring_requests_def)
      ultimately show "\<exists>e'. read_now (Read_request fd len offset cb) k e = Inr e' \<and> state_ok k [] e' \<and> queued e' = [] \<and>
          ring_requests e' = []" using Read_request [of "cb ?s" e1] ok by simp
    qed
  next
    case (Stat_request path cb)
    then show ?case using assms(1) by (simp add: get_supports_stat_def)
  qed simp
  then show "prog_ok p k \<Longrightarrow> state_ok k [] e \<Longrightarrow> queued e = [] \<Longrightarrow> ring_requests e = [] \<Longrightarrow>
    \<exists>e'. run_prog p k e = Inr e' \<and> state_ok k [] e' \<and> queued e' = [] \<and> ring_requests e' = []" by blast
qed

section \<open>A session\<close>

definition quiet :: "kernel \<Rightarrow> 's engine \<Rightarrow> bool" where
  "quiet k e \<longleftrightarrow> state_ok k [] e \<and> ring_requests e = [] \<and> queued e = []"

lemma phase_returns:
  assumes k: "kernel_serves k" and e: "quiet k e" and p: "prog_ok p k" and a: "\<forall>i. \<not> call_failed (answers i)"
  shows "\<exists>n e1 e'. run_prog p k e = Inr e1 \<and> finish k (map answers [0..<n]) e1 = Returned e' \<and> quiet k e'"
proof (cases "using_uring k")
  case True
  with k have rs: "ring_serves k" by (simp add: kernel_serves_def)
  from e have "state_ok k (queued e) e" and idle: "full_or_idle e" "prepared e = []"
    by (simp_all add: quiet_def full_or_idle_def ring_requests_def)
  from run_prog_grows [OF True this(1) p] idle obtain e1 where e1: "run_prog p k e = Inr e1" "state_ok k (queued e1) e1"
    "full_or_idle e1" by (auto simp add: grows_def)
  from finish_loop_returns [OF True rs e1(2,3) _ a, of True] obtain n e' where
    e': "finish_loop k (map answers [0..<n]) True e1 = Returned e'" "state_ok k (queued e') e'"
      "pending_reads e' = 0" "queued e' = []" by blast
  moreover from e' have "ring_requests e' = []" by (simp add: state_ok_def)
  ultimately show ?thesis using e1(1) True by (auto simp add: finish_def quiet_def intro!: exI [of _ n])
next
  case False
  with k have "\<And>fd. serves (disk k fd) (sync_read k fd)" by (simp add: kernel_serves_def)
  from run_prog_sync [OF False this p, of e] e show ?thesis
    using False by (auto simp add: quiet_def finish_def)
qed

lemma session_returns:
  assumes "kernel_serves k" and "\<forall>i j. \<not> call_failed (answers i j)" and "quiet k e" and "\<forall>p \<in> set ps. prog_ok p k"
  shows "\<exists>ns e'. length ns = length ps \<and>
    session k (zip ps (map (\<lambda>i. map (answers i) [0..<ns ! i]) [0..<length ps])) e = Returned e' \<and> quiet k e'"
  using assms(2-4)
proof (induction ps arbitrary: e answers)
  case (Cons p ps)
  from phase_returns [OF assms(1) Cons.prems(2), of p "answers 0"] Cons.prems obtain n e1 e2 where
    1: "run_prog p k e = Inr e1" "finish k (map (answers 0) [0..<n]) e1 = Returned e2" "quiet k e2" by auto
  from Cons.IH [of "\<lambda>i. answers (Suc i)", OF _ 1(3)] Cons.prems obtain ns e' where
    "length ns = length ps" "session k (zip ps (map (\<lambda>i. map (answers (Suc i)) [0..<ns ! i]) [0..<length ps])) e2 = Returned e'"
    "quiet k e'" by auto
  with 1 show ?case
    by (intro exI [of _ "n # ns"] exI [of _ e']) (simp add: map_upt_Suc del: upt_Suc)
qed simp

section \<open>Properties\<close>

text \<open>C8: The engine answers every request, whatever the kernel does. For any programs that one after the
  other submit requests, from their callbacks too, to any depth and depending on the state of the
  client, each followed by \<open>finish\<close>: when the reads lie within their files and the kernel gives at
  least one byte for each, in whatever parts, order and number at a time the requests are
  completed, \<open>finish\<close> returns every time. No submission queue entry is ever missing and the loop
  never waits for a completion that cannot come. At the end nothing is pending or queued, exactly
  the submitted requests have been answered, each once, every read with exactly its bytes. The
  same holds without io_uring.\<close>
theorem io_engine_answers_all:
  assumes "kernel_serves k" and "\<forall>i j. \<not> call_failed (answers i j)" and "\<forall>p \<in> set ps. prog_ok p k"
  shows "\<exists>ns e. length ns = length ps \<and>
    session k (zip ps (map (\<lambda>i. map (answers i) [0..<ns ! i]) [0..<length ps])) (new_engine s) = Returned e \<and>
    get_waiting_reads e = 0 \<and> queued_stats e = [] \<and> mset (map call_io (calls e)) = mset (submitted e) \<and>
    list_all (call_right k) (calls e)"
proof -
  have "quiet k (new_engine s)"
    by (simp add: quiet_def new_engine_def state_ok_def ring_requests_def queued_def)
  from session_returns [OF assms(1,2) this assms(3)] obtain ns e where
    "length ns = length ps" "session k (zip ps (map (\<lambda>i. map (answers i) [0..<ns ! i]) [0..<length ps])) (new_engine s) = Returned e"
    "quiet k e" by blast
  then show ?thesis
    by (intro exI [of _ ns] exI [of _ e])
      (simp add: quiet_def state_ok_def get_waiting_reads_def queued_def list_all_iff)
qed


definition sample_kernel :: kernel where
  "sample_kernel = \<lparr>init_result = 0, probe_statx = True, disk = (\<lambda>fd. [1, 2, 3, 4]),
     sync_read = (\<lambda>fd call len offset. Interrupted),
     ring_read = (\<lambda>time fd len offset. if even time then 1 else int len), ring_stat = (\<lambda>path. 0)\<rparr>"

definition sample_prog :: "nat prog" where
  "sample_prog =
     Submit (Read_request 3 2 1 (\<lambda>s. Submit (Stat_request s (\<lambda>ok. Return)) (Update (\<lambda>c. c + length s) Return)))
       (Look (\<lambda>c n. if n < 5 then Submit (Read_request 3 4 0 (\<lambda>s. Return)) Return else Return))"

lemma io_engine_answers_all_witness:
  "\<exists>n e. session sample_kernel [(sample_prog, map (\<lambda>j. \<lparr>ready = even j, call_failed = False, first_cqe = (j, j),
       more_cqes = [(1, 0)]\<rparr>) [0..<n])] (new_engine 0) = Returned e \<and>
     mset (map call_io (calls e)) = mset (submitted e)"
proof -
  have "kernel_serves sample_kernel"
    by (simp add: kernel_serves_def ring_serves_def using_uring_def sample_kernel_def)
  moreover have "\<forall>p \<in> set [sample_prog]. prog_ok p sample_kernel"
    by (simp add: sample_prog_def sample_kernel_def get_supports_stat_def using_uring_def)
  moreover define a where "a = (\<lambda>j::nat. \<lparr>ready = even j, call_failed = False, first_cqe = (j, j), more_cqes = [(1, 0)]\<rparr>)"
  ultimately obtain ns e where "length ns = length [sample_prog]"
    and s: "session sample_kernel (zip [sample_prog] (map (\<lambda>i. map a [0..<ns ! i]) [0..<length [sample_prog]])) (new_engine 0)
      = Returned e" "mset (map call_io (calls e)) = mset (submitted e)"
    using io_engine_answers_all [of sample_kernel "\<lambda>i. a" "[sample_prog]" 0] by auto
  then obtain n where "ns = [n]" by (cases ns) auto
  with s have "session sample_kernel [(sample_prog, map a [0..<n])] (new_engine 0) = Returned e" by simp
  with s(2) show ?thesis unfolding a_def by blast
qed

text \<open>A run of it: the read of two bytes is cut, the callback's stat is answered in a later round.\<close>

lemma sample_session_run:
  "\<exists>e. session sample_kernel [(sample_prog, map (\<lambda>j. \<lparr>ready = False, call_failed = False, first_cqe = (j, j),
       more_cqes = [(1, 1)]\<rparr>) [0..<3])] (new_engine 0) = Returned e \<and> client e = 2 \<and>
     calls e = [Read_call 3 4 0 [1, 2, 3, 4], Read_call 3 2 1 [2, 3], Stat_call [2, 3] True]"
  by (simp add: sample_prog_def sample_kernel_def get_supports_stat_def using_uring_def new_engine_def submit_def
      submit_internal_def queue_depth_def get_waiting_reads_def finish_def finish_loop.simps finish_round_def
      call_back_def refill_def upt_rec Let_def)

end
