(* ===== verification/Spec2Isabelle.thy ===== *)
theory Spec2Isabelle
  imports Metadata_Codec Scan_File_Block Escaped_Output Database_Search Trigrams_Ignore_Case Path_Order Dictionary_Builder
    Parse_Size
    Snapshot_Diff
    Metadata_Hash
    Configuration
    Command_Line
    Updatedb_History
    Updatedb_Scan
    Old_Records
    Scan_Entries
    Scan_Correct
    Database_Sections
    Inflate
    Snapshot_Load
    Bind_Mount
    Event_Output
    Live_Diff
    Showdiff_Main
    Access_Cache
    Flocate_Build
    Io_Engine
begin

text \<open>
  A verification library for flocate, a locate with metadata: \<open>updatedb\<close> walks the file system and
  writes a database, \<open>flocate\<close> searches it by trigrams, \<open>flocate-showdiff\<close> compares databases and
  prints the recorded history. The theories follow the source files.

  Shared. \<open>Prelude\<close>: bytes, little-endian words, memory. \<open>Metadata\<close> (\<open>include/metadata.h\<close>): time stamps,
  digests, metadata of a file, history events, their comparisons. \<open>Stream_Codec\<close>: the locale of
  self-delimiting records, interpreted in \<open>Metadata_Codec\<close> (\<open>src/metadata_codec.cpp\<close>) for metadata
  records and for history events: round trips, and what a stream gives that is cut off anywhere.
  \<open>Path_Order\<close> (\<open>src/lib.cpp\<close>): the order of paths and the moving search in sorted path lists.
  \<open>Parse_Size\<close> (\<open>include/parse_size.h\<close>). \<open>Pread\<close> (\<open>src/complete_pread.cpp\<close>): a read that is put together
  from any parts that the kernel gives. \<open>Inflate\<close>: the loops around \<open>ZSTD_decompressStream\<close>.

  Posting lists. \<open>Turbopfor_Common\<close>, \<open>Turbopfor_Encode\<close> (\<open>include/turbopfor-encode.h\<close>) and
  \<open>Turbopfor_Decode\<close> (\<open>src/turbopfor.cpp\<close>) hold the codec, the generic and the SSE2 code, over an
  explicit memory, with undefined shifts as None. \<open>Varint\<close>, \<open>Bit_Streams\<close>, \<open>Lane_Streams\<close>,
  \<open>Bitmap_Exceptions\<close>, \<open>Varbyte_Exceptions\<close>, \<open>Block_Roundtrip\<close>, \<open>Turbopfor_SSE2\<close> and \<open>Relocation\<close> hold the
  lemmas for its parts, \<open>Block_Correct\<close> the round trip of every block and the agreement of both
  decoders. \<open>Posting_List\<close> (\<open>PostingListBuilder\<close>) has the round trip of whole lists.

  The database (\<open>src/database-builder.cpp\<close>, \<open>include/db.h\<close>). \<open>Block_Scan\<close> and \<open>Encoding_Corpus\<close>: blocks of
  names, their trigrams, the streams of times and metadata; \<open>Corpus_Correct\<close>: what they hold.
  \<open>Primes\<close>, \<open>Hash_Table\<close>: the trigram table and its lookup. \<open>Dictionary_Builder\<close>: the sampling.
  \<open>Database_Builder\<close>: the layout of the file. \<open>Database\<close>: the reader (\<open>Corpus\<close> of \<open>src/flocate.cpp\<close>);
  \<open>Database_Correct\<close>, \<open>Database_Roundtrip\<close>: what was built is read back from the bytes of the file.

  The search (\<open>src/flocate.cpp\<close>, \<open>src/parse_trigrams.cpp\<close>, \<open>src/needle.cpp\<close>, \<open>src/serializer.cpp\<close>).
  \<open>Trigrams\<close>, \<open>Trigrams_Ignore_Case\<close>: from patterns to trigrams. \<open>Search\<close>: the index search as a step
  relation in which reads complete in any order; \<open>Search_Correct\<close>, \<open>Search_Lookup\<close>, \<open>Search_Complete\<close>
  and \<open>Database_Search\<close>: it ends and loses no file that matches. \<open>Scan_File_Block\<close>: the candidates are
  verified. \<open>Serializer\<close>, \<open>Escaped_Output\<close>: results in order, limits, quoting.

  \<open>updatedb\<close> (\<open>src/updatedb.cpp\<close>, \<open>src/conf.cpp\<close>, \<open>src/metadata_hash.cpp\<close>). \<open>Configuration\<close>,
  \<open>Command_Line\<close>: the configuration file, the options, the configuration block. \<open>Metadata_Hash\<close>: the
  digests, against FIPS 180-4 and the published XXH64. \<open>Updatedb_History\<close>: recorded times and the
  stored history. \<open>Updatedb_Scan\<close>: the scan; \<open>Old_Records\<close>, \<open>Scan_Entries\<close>, \<open>Scan_Correct\<close>: a scan
  that takes over listings and digests from the old database gives what a full scan gives.

  \<open>flocate-build\<close> (\<open>src/flocate-build.cpp\<close>). \<open>Flocate_Build\<close>: lists of names and databases of mlocate are
  read completely, and the database built from them holds their names.

  Access (\<open>src/access_rx_cache.cpp\<close>). \<open>Access_Cache\<close>: requests, asynchronous stats and their callbacks
  as steps in any order; every request is answered once, and rightly.

  Bind mounts (\<open>src/bind-mount.cpp\<close>). \<open>Bind_Mount\<close>: mountinfo is parsed, and the answers of \<open>is_bind_mount\<close>.

  \<open>flocate-showdiff\<close> (\<open>src/showdiff.cpp\<close>). \<open>Inflate\<close>, \<open>Database_Sections\<close>, \<open>Snapshot_Load\<close>: a database that
  updatedb writes is loaded with exactly its records, configuration and history. \<open>Snapshot_Diff\<close>: the
  diff of two snapshots is exact. \<open>Live_Diff\<close>: the walk of the live tree gives the same diff.
  \<open>Event_Output\<close>: events as text and JSON. \<open>Showdiff_Main\<close>: the arguments and the modes; from the
  records of two databases to the printed report.

  Parameters. What is not under \<open>src/\<close> is an argument: zstd (\<open>zstd_laws\<close>, \<open>inflates\<close>), the kernel's reads
  (\<open>serves\<close>), the locale's character functions, fnmatch and regexec, the clock, the mounts. The laws
  that are assumed of them state their documentation and are shown to hold for a concrete instance.

  Bounds. Docids are 32 bits and the posting lists are exact for at most \<open>2 ^ 24\<close> blocks; offsets are
  64 bits and the round trips are stated for files below 64 GiB (\<open>2 ^ 36\<close> bytes), so that no offset
  wraps around. Fuel occurs in \<open>size_table\<close>, the attempts at a hash table, which the code repeats
  until one fits (\<open>names_table\<close> states that one of them does), and as the depth of \<open>scan\<close>, for which the
  size of the tree is enough. Loops that need not end are \<open>partial_function (option)\<close>, and their ending is proved.

  Not modelled: io_uring (\<open>src/io_uring_engine.cpp\<close>), of which only the order of the completions
  matters, which is arbitrary in \<open>Search\<close> and \<open>Access_Cache\<close>; the worker threads of the search; temporary
  files, permissions, messages to the user and texts of help; the benchmark.
\<close>

end
